(* ===== verification/Prelude.thy ===== *)
theory Prelude
  imports Main "HOL-Library.Word" "HOL-Library.Multiset"
begin

section \<open>Prelude: types, list memory and collections shared by the components\<close>

text \<open>
  The generic layer of the development. It names the types of the C program
  (bytes, pointers, error numbers), gives the array operations the code uses on
  its tables (\<open>memmove\<close> inside one array, removal of one slot, linear search)
  as functions on lists, and proves the lemmas about them that the component
  theories share. Nothing here models a function of the repository.
\<close>

named_theorems hp_defs \<open>definitions the component proofs unfold\<close>
named_theorems hp_array \<open>facts on arrays kept as lists\<close>
named_theorems hp_inv \<open>preservation facts of the component invariants\<close>

subsection \<open>Types of the program\<close>

type_synonym byte = "8 word"
type_synonym ptr = nat
type_synonym fnptr = nat
type_synonym sock = int

abbreviation (input) NULL :: nat where "NULL \<equiv> 0"

text \<open>Error numbers of the Linux ABI that the code compares with.\<close>

abbreviation (input) EINTR :: int where "EINTR \<equiv> 4"
abbreviation (input) EIO :: int where "EIO \<equiv> 5"
abbreviation (input) EAGAIN :: int where "EAGAIN \<equiv> 11"
abbreviation (input) ENOENT :: int where "ENOENT \<equiv> 2"
abbreviation (input) EEXIST :: int where "EEXIST \<equiv> 17"

text \<open>Reading a C \<open>int\<close> out of 32 bits, and a C \<open>int\<close> result after wrap-around.\<close>

type_synonym u32 = "32 word"
type_synonym u64 = "64 word"

definition to_int32 :: "int \<Rightarrow> int" where
  "to_int32 i = signed_take_bit 31 i"

lemma to_int32_id: "- (2 ^ 31) \<le> i \<Longrightarrow> i < 2 ^ 31 \<Longrightarrow> to_int32 i = i"
  by (simp add: to_int32_def signed_take_bit_int_eq_self)

text \<open>Values of type \<open>size_t\<close> (64 bits): the conversion from a signed value and the subtraction.\<close>

definition to_size :: "int \<Rightarrow> nat" where
  "to_size i = nat (i mod 2 ^ 64)"

definition sub_size :: "nat \<Rightarrow> nat \<Rightarrow> nat" where
  "sub_size a b = to_size (int a - int b)"

lemma to_size_id [simp]: "n < 2 ^ 64 \<Longrightarrow> to_size (int n) = n"
  by (simp add: to_size_def)

lemma sub_size_le [simp]: "b \<le> a \<Longrightarrow> a < 2 ^ 64 \<Longrightarrow> sub_size a b = a - b"
  by (simp add: sub_size_def flip: of_nat_diff)

lemma sub_size_self [simp]: "sub_size a a = 0"
  by (simp add: sub_size_def to_size_def)

lemma sub_size_underflow: "a < b \<Longrightarrow> b < 2 ^ 64 \<Longrightarrow> sub_size a b = 2 ^ 64 - (b - a)"
proof -
  assume ab: "a < b" and b: "b < 2 ^ 64"
  have "(int a - int b) mod 2 ^ 64 = (int a - int b + 2 ^ 64) mod 2 ^ 64" by simp
  also have "\<dots> = int a - int b + 2 ^ 64" using ab b by (intro mod_pos_pos_trivial) auto
  finally have "(int a - int b) mod 2 ^ 64 = int a - int b + 2 ^ 64" .
  with ab b show ?thesis by (auto simp: sub_size_def to_size_def)
qed

subsection \<open>Outcomes of a run\<close>

text \<open>
  \<open>Done\<close>: the function returned. \<open>Undef\<close>: it read or wrote memory it does not own.
  \<open>Blocked\<close>: it waits for an event that the given script does not hold.
\<close>

datatype 'a outcome = Done 'a | Undef | Blocked 'a

subsection \<open>Text\<close>

text \<open>Decimal text of a number, as \<open>printf\<close> writes it for \<open>%u\<close> and \<open>%d\<close>.\<close>

definition digit_char :: "nat \<Rightarrow> char" where
  "digit_char d = char_of (48 + d)"

lemma digit_char_values:
  "digit_char 0 = CHR ''0''" "digit_char 1 = CHR ''1''" "digit_char 2 = CHR ''2''" "digit_char 3 = CHR ''3''"
  "digit_char 4 = CHR ''4''" "digit_char 5 = CHR ''5''" "digit_char 6 = CHR ''6''" "digit_char 7 = CHR ''7''"
  "digit_char 8 = CHR ''8''" "digit_char 9 = CHR ''9''" "digit_char (Suc 0) = CHR ''1''"
  by code_simp+

function nat_text :: "nat \<Rightarrow> string" where
  "nat_text n = (if n < 10 then [digit_char n] else nat_text (n div 10) @ [digit_char (n mod 10)])"
  by pat_completeness auto
termination
  by (relation "measure id") auto

declare nat_text.simps [simp del]

definition int_text :: "int \<Rightarrow> string" where
  "int_text i = (if i < 0 then CHR ''-'' # nat_text (nat (- i)) else nat_text (nat i))"

text \<open>
  A character buffer is the list of all its bytes; \<open>None\<close> is a write outside it. The
  string in it ends at the first zero byte.
\<close>

definition buf_put :: "nat \<Rightarrow> char list \<Rightarrow> char list \<Rightarrow> char list option" where
  "buf_put off cs buf =
     (if off + length cs \<le> length buf then Some (take off buf @ cs @ drop (off + length cs) buf) else None)"

definition c_snprintf :: "nat \<Rightarrow> nat \<Rightarrow> string \<Rightarrow> char list \<Rightarrow> char list option" where
  "c_snprintf off sz str buf =
     (if sz = 0 then Some buf else buf_put off (take (sz - 1) str @ [char_of (0::nat)]) buf)"

definition c_str :: "char list \<Rightarrow> string" where
  "c_str buf = takeWhile (\<lambda>c. c \<noteq> char_of (0::nat)) buf"

subsection \<open>Arrays as lists\<close>

text \<open>
  \<open>mem_move d s n xs\<close> is \<open>memmove(xs + d, xs + s, n * sizeof *xs)\<close>: the source is
  read before the destination is written, so overlap is harmless. It is used
  within the bounds \<open>d + n \<le> length xs\<close> and \<open>s + n \<le> length xs\<close>.
\<close>

definition mem_move :: "nat \<Rightarrow> nat \<Rightarrow> nat \<Rightarrow> 'a list \<Rightarrow> 'a list" where
  "mem_move d s n xs = take d xs @ take n (drop s xs) @ drop (d + n) xs"

definition del_at :: "nat \<Rightarrow> 'a list \<Rightarrow> 'a list" where
  "del_at i xs = take i xs @ drop (Suc i) xs"

lemma length_mem_move [simp]:
  "d + n \<le> length xs \<Longrightarrow> s + n \<le> length xs \<Longrightarrow> length (mem_move d s n xs) = length xs"
  by (simp add: mem_move_def)

lemma length_del_at [simp]: "i < length xs \<Longrightarrow> length (del_at i xs) = length xs - 1"
  by (simp add: del_at_def)

lemma set_del_at_subset: "set (del_at i xs) \<subseteq> set xs"
  by (auto simp: del_at_def dest: in_set_takeD in_set_dropD)

lemma map_del_at: "map f (del_at i xs) = del_at i (map f xs)"
  by (simp add: del_at_def take_map drop_map)

lemma del_at_append_Cons: "length ys = i \<Longrightarrow> del_at i (ys @ x # zs) = ys @ zs"
  by (simp add: del_at_def)

lemma del_at_split: "i < length xs \<Longrightarrow> xs = take i xs @ xs ! i # drop (Suc i) xs"
  by (rule id_take_nth_drop)

lemma mset_del_at: "i < length xs \<Longrightarrow> mset xs = add_mset (xs ! i) (mset (del_at i xs))"
  by (subst del_at_split [of i xs]) (simp_all add: del_at_def)

lemma distinct_del_at: "distinct xs \<Longrightarrow> distinct (del_at i xs)"
  unfolding del_at_def
  by (auto simp: set_take_disj_set_drop_if_distinct distinct_take distinct_drop)

lemma nth_notin_del_at: "distinct xs \<Longrightarrow> i < length xs \<Longrightarrow> xs ! i \<notin> set (del_at i xs)"
  using mset_del_at [of i xs]
  by (metis distinct.simps(2) mset.simps(2) mset_eq_imp_distinct_iff)

lemma set_del_at_distinct:
  assumes "distinct xs" and "i < length xs"
  shows "set (del_at i xs) = set xs - {xs ! i}"
proof -
  have "set xs = insert (xs ! i) (set (del_at i xs))"
    using mset_del_at [OF assms(2)] by (metis set_mset_add_mset_insert set_mset_mset)
  with nth_notin_del_at [OF assms] show ?thesis by auto
qed

lemma nth_del_at:
  "i < length xs \<Longrightarrow> j < length xs - 1 \<Longrightarrow> del_at i xs ! j = (if j < i then xs ! j else xs ! Suc j)"
  by (auto simp: del_at_def nth_append min_def)

lemma nth_mem_move:
  "d + n \<le> length xs \<Longrightarrow> s + n \<le> length xs \<Longrightarrow> j < length xs \<Longrightarrow>
   mem_move d s n xs ! j = (if d \<le> j \<and> j < d + n then xs ! (s + (j - d)) else xs ! j)"
  by (auto simp: mem_move_def nth_append min_def intro!: arg_cong [of _ _ "nth xs"])

text \<open>
  Shifting the tail of an array one slot to the left deletes one element of its
  used prefix: the step behind every removal of the event tables.
\<close>

lemma take_mem_move_del_at [hp_array]:
  assumes "i < n" and "n \<le> length xs"
  shows "take (n - 1) (mem_move i (Suc i) (n - Suc i) xs) = del_at i (take n xs)"
proof -
  have "take (n - Suc i) (drop (Suc i) xs) = drop (Suc i) (take n xs)"
    using assms by (simp add: drop_take)
  moreover have "take i (take n xs) = take i xs" using assms by (simp add: min_def)
  moreover have "min (n - Suc 0) i = i" using assms by arith
  moreover have "length (take i xs @ take (n - Suc i) (drop (Suc i) xs)) = n - Suc 0"
    using assms by auto
  ultimately show ?thesis
    unfolding mem_move_def del_at_def append_assoc [symmetric]
    by (subst take_append) simp
qed

subsection \<open>Linear search\<close>

text \<open>
  \<open>lfind_idx p xs\<close> is the index of the first element with \<open>p\<close>: the C library's
  \<open>lfind\<close> returns the address of that element, and the code computes with it.
\<close>

fun lfind_idx :: "('a \<Rightarrow> bool) \<Rightarrow> 'a list \<Rightarrow> nat option" where
  "lfind_idx p [] = None"
| "lfind_idx p (x # xs) = (if p x then Some 0 else map_option Suc (lfind_idx p xs))"

lemma lfind_idx_None_iff: "lfind_idx p xs = None \<longleftrightarrow> (\<forall>x \<in> set xs. \<not> p x)"
  by (induction xs) auto

lemma lfind_idx_SomeD:
  "lfind_idx p xs = Some i \<Longrightarrow> i < length xs \<and> p (xs ! i) \<and> (\<forall>j < i. \<not> p (xs ! j))"
proof (induction xs arbitrary: i)
  case Nil
  then show ?case by simp
next
  case (Cons x xs)
  show ?case
  proof (cases "p x")
    case True
    with Cons.prems show ?thesis by simp
  next
    case False
    with Cons.prems obtain k where k: "lfind_idx p xs = Some k" "i = Suc k" by auto
    with Cons.IH [OF k(1)] False show ?thesis by (auto simp: less_Suc_eq_0_disj)
  qed
qed

lemma lfind_idx_find: "map_option (nth xs) (lfind_idx p xs) = find p xs"
  by (induction xs) (auto simp: option.map_comp comp_def)

lemma lfind_idx_append:
  "lfind_idx p (xs @ ys) =
     (case lfind_idx p xs of Some i \<Rightarrow> Some i
      | None \<Rightarrow> map_option (\<lambda>j. length xs + j) (lfind_idx p ys))"
  by (induction xs) (auto simp: option.map_comp comp_def option.map_id0 [unfolded id_def]
      cong: option.map_cong split: option.splits)

text \<open>With pairwise different keys the search finds the one position of the key.\<close>

lemma lfind_idx_key:
  assumes "distinct (map f xs)" and "i < length xs"
  shows "lfind_idx (\<lambda>x. f x = f (xs ! i)) xs = Some i"
proof (cases "lfind_idx (\<lambda>x. f x = f (xs ! i)) xs")
  case None
  then show ?thesis using assms(2) by (auto simp: lfind_idx_None_iff)
next
  case (Some j)
  from lfind_idx_SomeD [OF Some] have "j < length xs" "f (xs ! j) = f (xs ! i)" by auto
  with assms have "j = i"
    by (metis length_map nth_eq_iff_index_eq nth_map)
  with Some show ?thesis by simp
qed

subsection \<open>Options and sums of lengths\<close>

lemma sum_list_take_nth:
  "i < length xs \<Longrightarrow> sum_list (take (Suc i) xs) = sum_list (take i xs) + (xs ! i :: nat)"
  by (simp add: take_Suc_conv_app_nth)

lemma length_concat_map: "length (concat (map f xs)) = sum_list (map (\<lambda>x. length (f x)) xs)"
  by (simp add: length_concat comp_def)

subsection \<open>Splitting text at a character\<close>

text \<open>The pieces between the occurrences of a character, as \<open>sdssplitlen\<close> with a one-byte separator makes them.\<close>

fun split_on :: "'a \<Rightarrow> 'a list \<Rightarrow> 'a list list" where
  "split_on c [] = [[]]"
| "split_on c (x # xs) =
     (if x = c then [] # split_on c xs else (x # hd (split_on c xs)) # tl (split_on c xs))"

lemma split_on_not_Nil [simp]: "split_on c xs \<noteq> []"
  by (cases xs) auto

text \<open>The same from left to right, for evaluation.\<close>

fun split_acc :: "'a \<Rightarrow> 'a list \<Rightarrow> 'a list \<Rightarrow> 'a list list" where
  "split_acc c acc [] = [rev acc]"
| "split_acc c acc (x # xs) = (if x = c then rev acc # split_acc c [] xs else split_acc c (x # acc) xs)"

lemma split_acc_split_on: "split_acc c acc xs = (rev acc @ hd (split_on c xs)) # tl (split_on c xs)"
  by (induction c acc xs rule: split_acc.induct) simp_all

declare split_on.simps [code del]

lemma split_on_code [code]: "split_on c xs = split_acc c [] xs"
  by (simp add: split_acc_split_on)

lemma split_on_plain: "c \<notin> set xs \<Longrightarrow> split_on c xs = [xs]"
  by (induction xs) auto

lemma split_on_sep: "c \<notin> set xs \<Longrightarrow> split_on c (xs @ c # ys) = xs # split_on c ys"
  by (induction xs) auto

lemma split_on_notin: "seg \<in> set (split_on c xs) \<Longrightarrow> c \<notin> set seg"
proof (induction xs arbitrary: seg)
  case (Cons x xs)
  then show ?case
    by (cases "split_on c xs") (auto split: if_splits)
qed simp

lemma dropWhile_sep: "dropWhile (\<lambda>x. x \<noteq> c) xs = [] \<longleftrightarrow> c \<notin> set xs"
  by auto

lemma length_dropWhile_sep: "c \<in> set xs \<Longrightarrow> length (dropWhile (\<lambda>x. x \<noteq> c) xs) - Suc 0 < length xs"
  using length_dropWhile_le [of "\<lambda>x. x \<noteq> c" xs] length_pos_if_in_set [of c xs] by linarith

text \<open>Induction over text that is cut at its separators, first piece first.\<close>

lemma split_on_induct [case_names plain sep]:
  assumes "\<And>xs. c \<notin> set xs \<Longrightarrow> P xs"
    and "\<And>xs ys. c \<notin> set xs \<Longrightarrow> P ys \<Longrightarrow> P (xs @ c # ys)"
  shows "P xs"
proof (induction xs rule: length_induct)
  case (1 xs)
  show ?case
  proof (cases "c \<in> set xs")
    case True
    then obtain ys zs where x: "xs = ys @ c # zs" "c \<notin> set ys" by (meson split_list_first)
    then have "P zs" using 1 by simp
    then show ?thesis using assms(2) x by simp
  qed (use assms(1) in simp)
qed

end
