(* ===== verification/Hp_Stdlib.thy ===== *)
theory Hp_Stdlib
  imports Prelude
begin

section \<open>hp\_stdlib and hp\_search: search helpers and array reservation\<close>

text \<open>
  Models \<open>include/hp/hp_search.h\<close> (\<open>hp_lfind\<close>, the wrapper of \<open>lfind\<close> that every
  event table searches with), the \<open>hp_min\<close>/\<open>hp_max\<close> macros and the comparison
  callbacks of \<open>src/hp_stdlib.c\<close>, the offset map \<open>hp_iv_lfind\<close> and the array
  reservation \<open>hp_lreserve\<close>. C comparison callbacks return 0 for ``found''; they
  are kept as integers, and \<open>hp_lfind\<close> looks for the first element with result 0.
\<close>

subsection \<open>hp\_lfind and the comparison callbacks\<close>

definition hp_lfind :: "'k \<Rightarrow> 'e list \<Rightarrow> ('k \<Rightarrow> 'e \<Rightarrow> int) \<Rightarrow> nat option" where
  "hp_lfind key base cb = lfind_idx (\<lambda>e. cb key e = 0) base"

definition hp_max :: "int \<Rightarrow> int \<Rightarrow> int" where
  "hp_max a b = (if a > b then a else b)"

definition hp_min :: "int \<Rightarrow> int \<Rightarrow> int" where
  "hp_min a b = (if a < b then a else b)"

definition c_not :: "bool \<Rightarrow> int" where
  "c_not b = (if b then 0 else 1)"

definition hp_is_equal :: "ptr \<Rightarrow> ptr \<Rightarrow> int" where
  "hp_is_equal a b = c_not (a = b)"

definition is_int_equal :: "int \<Rightarrow> int \<Rightarrow> int" where
  "is_int_equal a b = c_not (a = b)"

definition hp_is_sds_equal :: "('s \<Rightarrow> 's \<Rightarrow> int) \<Rightarrow> 's \<Rightarrow> 's \<Rightarrow> int" where
  "hp_is_sds_equal sdscmp a b = c_not (sdscmp a b = 0)"

definition hp_is_strcmp_equal :: "string \<Rightarrow> string \<Rightarrow> int" where
  "hp_is_strcmp_equal a b = c_not (a = b)"

lemma c_not_0 [simp]: "c_not b = 0 \<longleftrightarrow> b"
  by (simp add: c_not_def)

lemma hp_lfind_None_iff: "hp_lfind k xs cb = None \<longleftrightarrow> (\<forall>x \<in> set xs. cb k x \<noteq> 0)"
  by (simp add: hp_lfind_def lfind_idx_None_iff)

lemma hp_lfind_SomeD:
  "hp_lfind k xs cb = Some i \<Longrightarrow> i < length xs \<and> cb k (xs ! i) = 0 \<and> (\<forall>j < i. cb k (xs ! j) \<noteq> 0)"
  unfolding hp_lfind_def by (drule lfind_idx_SomeD) simp

subsection \<open>hp\_iv\_lfind: an offset map in an array\<close>

record hp_ivpair =
  iv_key :: nat
  iv_val :: ptr
  iv_offset :: nat

definition hp_map_find_by_key :: "hp_ivpair \<Rightarrow> hp_ivpair \<Rightarrow> int" where
  "hp_map_find_by_key a b = c_not (iv_key a = iv_key b)"

text \<open>
  The entry found is not returned itself: its \<open>key - offset\<close> is used as an index
  into the array. \<open>None\<close> stands for an index outside the array (an unsigned
  underflow included), which C reads out of bounds.
\<close>

definition hp_iv_lfind :: "hp_ivpair list \<Rightarrow> int \<Rightarrow> ptr option" where
  "hp_iv_lfind m key =
     (if \<not> (length m > 0 \<and> key \<ge> 0) then Some NULL
      else case hp_lfind \<lparr>iv_key = nat key, iv_val = NULL, iv_offset = 0\<rparr> m hp_map_find_by_key of
        None \<Rightarrow> Some NULL
      | Some i \<Rightarrow>
          (let p = m ! i; k = int (iv_key p) - int (iv_offset p)
           in if 0 \<le> k \<and> k < int (length m) then Some (iv_val (m ! nat k)) else None))"

text \<open>A table is consistent when every entry's offset leads back to the entry's own slot.\<close>

definition iv_consistent :: "hp_ivpair list \<Rightarrow> bool" where
  "iv_consistent m \<longleftrightarrow> (\<forall>i < length m. iv_key (m ! i) = iv_offset (m ! i) + i)"

text \<open>
  On a table whose offsets are consistent, hp\_iv\_lfind is the lookup of an
  association list: it returns the value of the first entry with the key, a NULL
  pointer when no entry has it, and never reads outside the array.
\<close>

lemma hp_iv_lfind_lookup:
  assumes "iv_consistent m" and "key \<ge> 0"
  shows "hp_iv_lfind m key =
    Some (case map_of (map (\<lambda>p. (iv_key p, iv_val p)) m) (nat key) of None \<Rightarrow> NULL | Some v \<Rightarrow> v)"
proof -
  let ?s = "lfind_idx (\<lambda>p. nat key = iv_key p) m"
  have lf: "hp_lfind \<lparr>iv_key = nat key, iv_val = NULL, iv_offset = 0\<rparr> m hp_map_find_by_key = ?s"
    by (simp add: hp_lfind_def hp_map_find_by_key_def)
  have mo: "map_of (map (\<lambda>p. (iv_key p, iv_val p)) m) (nat key) = map_option (\<lambda>i. iv_val (m ! i)) ?s"
    by (induction m) (auto simp: option.map_comp comp_def)
  show ?thesis
  proof (cases ?s)
    case None
    with lf mo assms(2) show ?thesis by (simp add: hp_iv_lfind_def)
  next
    case (Some i)
    from lfind_idx_SomeD [OF Some] have i: "i < length m" by simp
    with assms(1) have "iv_key (m ! i) = iv_offset (m ! i) + i" by (simp add: iv_consistent_def)
    with Some lf mo i assms(2) show ?thesis
      by (auto simp: hp_iv_lfind_def Let_def)
  qed
qed

lemma hp_iv_lfind_lookup_witness:
  "hp_iv_lfind [\<lparr>iv_key = 1, iv_val = 11, iv_offset = 1\<rparr>, \<lparr>iv_key = 8, iv_val = 12, iv_offset = 7\<rparr>,
     \<lparr>iv_key = 5, iv_val = 13, iv_offset = 3\<rparr>] 5 = Some 13"
proof -
  let ?m = "[\<lparr>iv_key = 1, iv_val = 11, iv_offset = 1\<rparr>, \<lparr>iv_key = 8, iv_val = 12, iv_offset = 7\<rparr>,
     \<lparr>iv_key = 5, iv_val = 13, iv_offset = 3\<rparr>] :: hp_ivpair list"
  have "iv_consistent ?m" by (auto simp: iv_consistent_def less_Suc_eq)
  from hp_iv_lfind_lookup [OF this, of 5] show ?thesis by simp
qed

subsection \<open>hp\_lreserve: room at the end of an array\<close>

text \<open>
  The array is a list (\<open>None\<close> for a NULL base), \<open>fresh k\<close> the indeterminate content
  of slot \<open>k\<close> after \<open>malloc\<close> or \<open>realloc\<close>, \<open>zero\<close> the all-zero element and \<open>clr\<close> the
  flag \<open>HP_LRESERVE_CLR\<close>. The result is the new base and the new \<open>*nmemb\<close>.
\<close>

definition hp_lreserve ::
  "(nat \<Rightarrow> 'a) \<Rightarrow> 'a \<Rightarrow> 'a list option \<Rightarrow> nat \<Rightarrow> nat \<Rightarrow> nat \<Rightarrow> nat \<Rightarrow> bool \<Rightarrow> 'a list option \<times> nat" where
  "hp_lreserve fresh zero base nmemb sz n nreserve clr =
     (if \<not> (sz > 0 \<and> nreserve > 0) then (base, nmemb)
      else case base of
        None \<Rightarrow>
          (let m = (if nmemb < nreserve then nmemb + nreserve else nmemb)
           in (Some (if clr then replicate m zero else map fresh [0..<m]), m))
      | Some xs \<Rightarrow>
          (if \<not> (nmemb > 0 \<and> nmemb \<ge> n) then (Some xs, nmemb)
           else if nmemb - n < nreserve then
             (let m = nmemb + nreserve; ys = xs @ map fresh [nmemb..<m]
              in (Some (if clr then take n ys @ replicate (m - n) zero else ys), m))
           else (Some xs, nmemb)))"

text \<open>
  Reserving room in an allocated array keeps its used elements where they are,
  leaves an array of exactly the reported number of slots, and guarantees the
  requested number of unused slots behind the used ones; with the clear flag a
  grown array holds zeros from the first unused slot on.
\<close>

lemma hp_lreserve_room:
  assumes "length xs = nmemb" and "0 < nmemb" and "n \<le> nmemb" and "0 < sz" and "0 < nreserve"
    and "hp_lreserve fresh zero (Some xs) nmemb sz n nreserve clr = (Some ys, m)"
  shows "length ys = m \<and> take n ys = take n xs \<and> nreserve \<le> m - n \<and> nmemb \<le> m \<and>
    (clr \<longrightarrow> nmemb < m \<longrightarrow> drop n ys = replicate (m - n) zero)"
  using assms by (auto simp: hp_lreserve_def Let_def split: if_splits)

lemma hp_lreserve_room_witness:
  "length [1, 2, 0, 0, 0, 0 :: int] = 6 \<and> take 2 [1, 2, 0, 0, 0, 0] = take 2 [1, 2, 9 :: int] \<and>
   (3::nat) \<le> 6 - 2 \<and> drop 2 [1, 2, 0, 0, 0, 0 :: int] = replicate (6 - 2) 0"
proof -
  have "hp_lreserve int 0 (Some [1, 2, 9]) 3 4 2 3 True = (Some [1, 2, 0, 0, 0, 0 :: int], 6)"
    by (simp add: hp_lreserve_def Let_def upt_rec eval_nat_numeral)
  from hp_lreserve_room [OF _ _ _ _ _ this] show ?thesis by simp
qed

lemma hp_lreserve_null:
  "0 < sz \<Longrightarrow> 0 < nreserve \<Longrightarrow>
   \<exists>ys m. hp_lreserve fresh zero None nmemb sz n nreserve clr = (Some ys, m) \<and>
     length ys = m \<and> nreserve \<le> m"
  by (auto simp: hp_lreserve_def Let_def)

end
