(* ===== verification/Hp_Iostat.thy ===== *)
theory Hp_Iostat
  imports Prelude
begin

section \<open>hp\_iostat: byte rates over three windows\<close>

text \<open>
  Models \<open>src/hp_iostat.c\<close>. The clock reading (\<open>gettimeofday\<close> in milliseconds) is an
  argument. The rate is computed in the code with a \<open>double\<close> division; the model
  computes the same quotient exactly and truncates it. A division by a zero time
  difference has no value that fits a \<open>size_t\<close>: it is \<open>None\<close>.
\<close>

record hp_iostat =
  st_t1 :: nat
  st_t2 :: nat
  st_t3 :: nat
  st_T1 :: int
  st_T2 :: int
  st_T3 :: int
  st_bytes1 :: nat
  st_bytes2 :: nat
  st_bytes3 :: nat
  st_bps1 :: "nat option"
  st_bps2 :: "nat option"
  st_bps3 :: "nat option"

definition iostat_start :: "nat \<Rightarrow> int \<Rightarrow> int \<Rightarrow> int \<Rightarrow> hp_iostat" where
  "iostat_start now T1 T2 T3 =
     \<lparr>st_t1 = now, st_t2 = now, st_t3 = now, st_T1 = T1, st_T2 = T2, st_T3 = T3,
      st_bytes1 = 0, st_bytes2 = 0, st_bytes3 = 0,
      st_bps1 = Some 0, st_bps2 = Some 0, st_bps3 = Some 0\<rparr>"

definition hp_iostat_init :: "hp_iostat option \<Rightarrow> nat \<Rightarrow> int \<Rightarrow> int \<Rightarrow> int \<Rightarrow> hp_iostat option" where
  "hp_iostat_init sto now T1 T2 T3 = map_option (\<lambda>_. iostat_start now T1 T2 T3) sto"

definition bps_of :: "nat \<Rightarrow> nat \<Rightarrow> nat option" where
  "bps_of bytes dt = (if dt = 0 then None else Some (bytes * 1000 div dt))"

text \<open>The three windows, in the order of the code; each adds, computes its rate and may restart.\<close>

definition update_win1 :: "nat \<Rightarrow> nat \<Rightarrow> hp_iostat \<Rightarrow> hp_iostat" where
  "update_win1 now bytes st =
     (let b = st_bytes1 st + bytes;
          st' = st\<lparr>st_bytes1 := b, st_bps1 := bps_of b (sub_size now (st_t1 st))\<rparr>
      in if sub_size now (st_t1 st) > to_size (st_T1 st) then st'\<lparr>st_bytes1 := 0, st_t1 := now\<rparr> else st')"

definition update_win2 :: "nat \<Rightarrow> nat \<Rightarrow> hp_iostat \<Rightarrow> hp_iostat" where
  "update_win2 now bytes st =
     (let b = st_bytes2 st + bytes;
          st' = st\<lparr>st_bytes2 := b, st_bps2 := bps_of b (sub_size now (st_t2 st))\<rparr>
      in if sub_size now (st_t2 st) > to_size (st_T2 st) then st'\<lparr>st_bytes2 := 0, st_t2 := now\<rparr> else st')"

definition update_win3 :: "nat \<Rightarrow> nat \<Rightarrow> hp_iostat \<Rightarrow> hp_iostat" where
  "update_win3 now bytes st =
     (let b = st_bytes3 st + bytes;
          st' = st\<lparr>st_bytes3 := b, st_bps3 := bps_of b (sub_size now (st_t3 st))\<rparr>
      in if sub_size now (st_t3 st) > to_size (st_T3 st) then st'\<lparr>st_bytes3 := 0, st_t3 := now\<rparr> else st')"

definition iostat_update :: "hp_iostat \<Rightarrow> nat \<Rightarrow> nat \<Rightarrow> hp_iostat" where
  "iostat_update st now bytes =
     update_win3 now bytes (update_win2 now bytes (update_win1 now bytes st))"

definition hp_iostat_update :: "hp_iostat option \<Rightarrow> nat \<Rightarrow> nat \<Rightarrow> hp_iostat option" where
  "hp_iostat_update sto now bytes = map_option (\<lambda>st. iostat_update st now bytes) sto"

lemma update_win1_frame [simp]:
  "st_bytes2 (update_win1 now b st) = st_bytes2 st" "st_t2 (update_win1 now b st) = st_t2 st"
  "st_T2 (update_win1 now b st) = st_T2 st"
  by (simp_all add: update_win1_def Let_def)

lemma update_win3_frame [simp]:
  "st_bytes2 (update_win3 now b st) = st_bytes2 st" "st_t2 (update_win3 now b st) = st_t2 st"
  "st_T2 (update_win3 now b st) = st_T2 st" "st_bps2 (update_win3 now b st) = st_bps2 st"
  by (simp_all add: update_win3_def Let_def)

definition hp_iostat_bps :: "hp_iostat option \<Rightarrow> nat option" where
  "hp_iostat_bps sto = (case sto of None \<Rightarrow> Some 0 | Some st \<Rightarrow> st_bps2 st)"

text \<open>A sequence of updates, each with its clock reading and byte count.\<close>

definition iostat_run :: "hp_iostat option \<Rightarrow> (nat \<times> nat) list \<Rightarrow> hp_iostat option" where
  "iostat_run sto us = fold (\<lambda>(now, bytes) s. hp_iostat_update s now bytes) us sto"

lemma iostat_update_2:
  "st_bytes2 (iostat_update st now b) =
     (if sub_size now (st_t2 st) > to_size (st_T2 st) then 0 else st_bytes2 st + b)"
  "st_t2 (iostat_update st now b) = (if sub_size now (st_t2 st) > to_size (st_T2 st) then now else st_t2 st)"
  "st_T2 (iostat_update st now b) = st_T2 st"
  "st_bps2 (iostat_update st now b) = bps_of (st_bytes2 st + b) (sub_size now (st_t2 st))"
  by (simp_all add: iostat_update_def update_win2_def Let_def)

lemma iostat_run_window:
  assumes "\<forall>(now, b) \<in> set us. sub_size now (st_t2 st) \<le> to_size (st_T2 st)"
  shows "\<exists>st'. iostat_run (Some st) us = Some st' \<and> st_bytes2 st' = st_bytes2 st + sum_list (map snd us) \<and>
    st_t2 st' = st_t2 st \<and> st_T2 st' = st_T2 st"
  using assms
proof (induction us arbitrary: st)
  case Nil
  then show ?case by (simp add: iostat_run_def)
next
  case (Cons u us)
  obtain now b where u: "u = (now, b)" by (cases u)
  let ?s = "iostat_update st now b"
  have st: "st_bytes2 ?s = st_bytes2 st + b" "st_t2 ?s = st_t2 st" "st_T2 ?s = st_T2 st"
    using Cons.prems u by (auto simp: iostat_update_2)
  with Cons.prems have "\<forall>(now, b) \<in> set us. sub_size now (st_t2 ?s) \<le> to_size (st_T2 ?s)" by auto
  from Cons.IH [OF this] st show ?case by (auto simp: iostat_run_def hp_iostat_update_def u)
qed

text \<open>
  While every update falls inside the second window, hp\_iostat\_bps is the total
  number of bytes reported since the window began, per second of the time since then.
\<close>

lemma iostat_bps_window:
  assumes "\<forall>(n, b) \<in> set us. t \<le> n \<and> n \<le> now" and "t < now" and "now < 2 ^ 64"
    and "int (now - t) \<le> T2" and "T2 < 2 ^ 31"
  shows "hp_iostat_bps (hp_iostat_update (iostat_run (hp_iostat_init (Some st0) t T1 T2 T3) us) now b) =
    Some ((sum_list (map snd us) + b) * 1000 div (now - t))"
proof -
  let ?st = "iostat_start t T1 T2 T3"
  have "\<forall>(n, b) \<in> set us. sub_size n (st_t2 ?st) \<le> to_size (st_T2 ?st)"
    using assms by (auto simp: iostat_start_def to_size_def)
  from iostat_run_window [OF this] assms show ?thesis
    by (auto simp: hp_iostat_bps_def hp_iostat_update_def iostat_update_2 bps_of_def hp_iostat_init_def iostat_start_def)
qed

lemma iostat_bps_window_witness:
  "hp_iostat_bps (hp_iostat_update (iostat_run (hp_iostat_init (Some (iostat_start 3 1 1 1)) 0 10 5000 9) [(500, 100), (900, 50)]) 1000 30) =
    Some ((sum_list (map snd [(500 :: nat, 100), (900 :: nat, 50 :: nat)]) + 30) * 1000 div (1000 - 0))"
  by (rule iostat_bps_window) auto

text \<open>
  An update whose clock reading equals the start of the window (the millisecond
  of hp\_iostat\_init, or of the update that last reset the window) divides by zero.
\<close>

lemma iostat_same_millisecond:
  "hp_iostat_bps (hp_iostat_update (hp_iostat_init (Some st0) t T1 T2 T3) t b) = None"
  by (simp add: hp_iostat_bps_def hp_iostat_update_def iostat_update_2 bps_of_def hp_iostat_init_def iostat_start_def)

end
