(* ===== verification/Hp_Wr.thy ===== *)
theory Hp_Wr
  imports Hp_Stdlib
begin

section \<open>hp\_io (write side): the gather-write queue\<close>

text \<open>
  Models the \<open>hp_wr\<close> half of \<open>src/hp_io.c\<close> for a system with \<open>writev\<close>
  (\<open>HAVE_SYS_UIO_H\<close>): a queue of user buffers that is written with gather writes
  until the descriptor would block. The world is explicit: the memory the buffers
  lie in, the allocator, \<open>errno\<close>, the log of free callbacks, the bytes the kernel
  took, and a script of the answers \<open>writev\<close> is going to give. An exhausted script
  answers that the descriptor would block, so every loop of the code is a total
  function. The array \<open>o_items\<close> is the list of its used slots; the capacity is
  \<open>O_ITEMS_LEN\<close>, and \<open>hp_wr_add_bounds\<close> proves that the slot written is inside it.
\<close>

subsection \<open>The world of the descriptor\<close>

text \<open>
  \<open>W_ok n\<close>: the kernel takes \<open>n\<close> bytes, never more than it is offered.
  \<open>W_err e\<close>: the call returns -1 and sets \<open>errno\<close>.
\<close>

datatype wcall = W_ok nat | W_err int

datatype hp_free_t = NoFree | CopyFree | LibcFree | UserFree fnptr

record iovec =
  iov_base :: ptr
  iov_len :: nat

record kio =
  mem :: "ptr \<Rightarrow> byte"
  brk :: ptr
  freed :: "(hp_free_t \<times> ptr) list"
  k_errno :: int
  sent :: "byte list"
  script :: "wcall list"

definition iov_bytes :: "(ptr \<Rightarrow> byte) \<Rightarrow> iovec \<Rightarrow> byte list" where
  "iov_bytes m v = map (\<lambda>i. m (iov_base v + i)) [0..<iov_len v]"

definition vec_bytes :: "(ptr \<Rightarrow> byte) \<Rightarrow> iovec list \<Rightarrow> byte list" where
  "vec_bytes m vs = concat (map (iov_bytes m) vs)"

definition writev :: "iovec list \<Rightarrow> kio \<Rightarrow> int \<times> kio" where
  "writev vs k =
     (case script k of
        [] \<Rightarrow> (-1, k\<lparr>k_errno := EAGAIN\<rparr>)
      | W_err e # r \<Rightarrow> (-1, k\<lparr>k_errno := e, script := r\<rparr>)
      | W_ok n # r \<Rightarrow>
          (let bs = vec_bytes (mem k) vs; w = min n (length bs)
           in (int w, k\<lparr>sent := sent k @ take w bs, script := r\<rparr>)))"

subsection \<open>Gather write of one vector\<close>

definition iovec_total_bytes :: "iovec list \<Rightarrow> nat" where
  "iovec_total_bytes vs = sum_list (map iov_len vs)"

text \<open>
  \<open>before_writev\<close> looks for the entry the last write stopped in, starting at \<open>*vec_n\<close>
  (\<open>i\<close>), with \<open>r\<close> the bytes of the entries passed; it moves the base of that entry
  over the bytes written and makes it the first one of the next write.
\<close>

function before_writev_loop :: "iovec list \<Rightarrow> nat \<Rightarrow> nat \<Rightarrow> nat \<Rightarrow> nat \<Rightarrow> iovec list \<times> nat" where
  "before_writev_loop vs nwrite r i n =
     (if i < length vs then
        (let v = vs ! i; r = r + iov_len v in
         if nwrite < r then
           (let left = r - nwrite
            in (vs[i := \<lparr>iov_base = iov_base v + iov_len v - left, iov_len = left\<rparr>], i))
         else before_writev_loop vs nwrite r (Suc i) n)
      else (vs, n))"
  by pat_completeness auto
termination
  by (relation "measure (\<lambda>(vs, nwrite, r, i, n). length vs - i)") auto

declare before_writev_loop.simps [simp del]

definition before_writev :: "iovec list \<Rightarrow> nat \<Rightarrow> nat \<Rightarrow> iovec list \<times> nat" where
  "before_writev vs nwrite n = before_writev_loop vs nwrite 0 n n"

text \<open>The error value of a write that returned \<open>w \<le> 0\<close>, from \<open>errno\<close>.\<close>

definition write_err :: "int \<Rightarrow> int \<Rightarrow> int" where
  "write_err w e =
     (if w < 0 \<and> (e = EINTR \<or> e = EAGAIN) then EAGAIN
      else if \<not> (e = EINTR \<or> e = EAGAIN) then e else EIO)"

lemma writev_script:
  "writev vs k = (w, k') \<Longrightarrow> w > 0 \<Longrightarrow> length (script k') < length (script k)"
  by (auto simp: writev_def Let_def split: list.splits wcall.splits)

function hp_uio_write_loop ::
  "iovec list \<Rightarrow> nat \<Rightarrow> nat \<Rightarrow> nat \<Rightarrow> kio \<Rightarrow> nat \<times> int \<times> iovec list \<times> nat \<times> kio" where
  "hp_uio_write_loop vs n nwrite bytes k =
     (let (w, k') = writev (drop n vs) k in
      if w \<le> 0 then (nwrite, write_err w (k_errno k'), vs, n, k')
      else let nwrite = nwrite + nat w in
        if nwrite = bytes then (nwrite, 0, vs, length vs, k')
        else let (vs', n') = before_writev vs (nat w) n
             in hp_uio_write_loop vs' n' nwrite bytes k')"
  by pat_completeness auto
termination
  by (relation "measure (\<lambda>(vs, n, nwrite, bytes, k). length (script k))")
    (auto dest!: writev_script [OF sym])

declare hp_uio_write_loop.simps [simp del]

definition hp_uio_write :: "iovec list \<Rightarrow> nat \<Rightarrow> kio \<Rightarrow> nat \<times> int \<times> iovec list \<times> nat \<times> kio" where
  "hp_uio_write vs bytes k = hp_uio_write_loop vs 0 0 bytes k"

subsection \<open>The queue\<close>

record hp_uio_item =
  ui_ptr :: ptr
  ui_free :: hp_free_t
  ui_vec :: iovec

record hp_wr =
  o_items :: "hp_uio_item list"
  O_ITEMS_INIT_LEN :: nat
  O_ITEMS_LEN :: nat
  o_bytes :: nat
  write_error :: fnptr
  wr_err :: int

abbreviation o_items_len :: "hp_wr \<Rightarrow> nat" where "o_items_len wr \<equiv> length (o_items wr)"

definition hp_wr_init :: "hp_wr option \<Rightarrow> int \<Rightarrow> fnptr \<Rightarrow> int \<times> hp_wr option" where
  "hp_wr_init wro n we =
     (case wro of None \<Rightarrow> (-1, None)
      | Some _ \<Rightarrow>
        let n = (if n \<le> 0 then 8 else n)
        in (0, Some \<lparr>o_items = [], O_ITEMS_INIT_LEN = nat n, O_ITEMS_LEN = nat n, o_bytes = 0,
                     write_error = we, wr_err = 0\<rparr>))"

definition hp_eto_reserve :: "hp_wr \<Rightarrow> nat \<Rightarrow> hp_wr" where
  "hp_eto_reserve wr n = wr\<lparr>O_ITEMS_LEN := n\<rparr>"

definition wr_make_room :: "hp_wr \<Rightarrow> hp_wr" where
  "wr_make_room wr =
     (if int (O_ITEMS_LEN wr) - int (o_items_len wr) \<le> 3 then hp_eto_reserve wr (O_ITEMS_LEN wr * 2)
      else if O_ITEMS_LEN wr > O_ITEMS_INIT_LEN wr \<and> o_items_len wr + 2 < O_ITEMS_LEN wr div 2
      then hp_eto_reserve wr (O_ITEMS_LEN wr div 2)
      else wr)"

definition hp_wr_add ::
  "hp_wr option \<Rightarrow> ptr \<Rightarrow> nat \<Rightarrow> hp_free_t \<Rightarrow> ptr \<Rightarrow> kio \<Rightarrow> int \<times> hp_wr option \<times> kio" where
  "hp_wr_add wro base len freecb p k =
     (case wro of None \<Rightarrow> (-1, None, k)
      | Some wr \<Rightarrow>
        if base = NULL then (-1, Some wr, k)
        else
          let wr = wr_make_room wr;
              (item, k) =
                (if freecb = CopyFree
                 then let q = brk k in
                   (\<lparr>ui_ptr = q, ui_free = LibcFree, ui_vec = \<lparr>iov_base = q, iov_len = len\<rparr>\<rparr>,
                    k\<lparr>brk := q + len,
                      mem := (\<lambda>a. if q \<le> a \<and> a < q + len then mem k (base + (a - q)) else mem k a)\<rparr>)
                 else
                   (\<lparr>ui_ptr = (if p = NULL then base else p), ui_free = freecb,
                     ui_vec = \<lparr>iov_base = base, iov_len = len\<rparr>\<rparr>, k))
          in (0, Some (wr\<lparr>o_items := o_items wr @ [item]\<rparr>), k))"

definition free_item :: "hp_uio_item \<Rightarrow> kio \<Rightarrow> kio" where
  "free_item it k =
     (if ui_free it \<noteq> NoFree \<and> ui_ptr it \<noteq> NULL then k\<lparr>freed := freed k @ [(ui_free it, ui_ptr it)]\<rparr>
      else k)"

definition hp_etio_del_n :: "nat \<Rightarrow> hp_wr \<times> kio \<Rightarrow> hp_wr \<times> kio" where
  "hp_etio_del_n n = (\<lambda>(wr, k).
     (wr\<lparr>o_items := drop n (o_items wr)\<rparr>, fold free_item (take n (o_items wr)) k))"

definition hp_wr_bytes :: "hp_wr option \<Rightarrow> nat" where
  "hp_wr_bytes wro =
     (case wro of None \<Rightarrow> 0 | Some wr \<Rightarrow> sum_list (map (\<lambda>it. iov_len (ui_vec it)) (o_items wr)))"

definition hp_wr_clear :: "hp_wr \<times> kio \<Rightarrow> hp_wr \<times> kio" where
  "hp_wr_clear s = hp_etio_del_n (o_items_len (fst s)) s"

definition hp_wr_uninit :: "hp_wr option \<Rightarrow> kio \<Rightarrow> hp_wr option \<times> kio" where
  "hp_wr_uninit wro k =
     (case wro of None \<Rightarrow> (None, k)
      | Some wr \<Rightarrow> let (wr, k) = hp_wr_clear (wr, k) in (Some (wr\<lparr>o_items := []\<rparr>), k))"

lemma script_free_item [simp]: "script (free_item it k) = script k"
  by (simp add: free_item_def)

lemma script_fold_free_item [simp]: "script (fold free_item its k) = script k"
  by (induction its arbitrary: k) auto

lemma script_del_n [simp]: "script (snd (hp_etio_del_n n (wr, k))) = script k"
  by (simp add: hp_etio_del_n_def)

lemma o_items_del_n [simp]: "o_items (fst (hp_etio_del_n n (wr, k))) = drop n (o_items wr)"
  by (simp add: hp_etio_del_n_def)

lemma uio_write_loop_script:
  "hp_uio_write_loop vs n nw bytes k = (w, e, vs', n', k') \<Longrightarrow>
   length (script k') \<le> length (script k) \<and> (e = 0 \<longrightarrow> length (script k') < length (script k))"
proof (induction vs n nw bytes k arbitrary: w e vs' n' k' rule: hp_uio_write_loop.induct)
  case (1 vs n nw bytes k)
  obtain w1 k1 where wk: "writev (drop n vs) k = (w1, k1)" by fastforce
  have s1: "length (script k1) \<le> length (script k)"
    using wk by (auto simp: writev_def Let_def split: list.splits wcall.splits)
  show ?case
  proof (cases "w1 \<le> 0")
    case True
    with "1.prems" wk have r: "e = write_err w1 (k_errno k1)" "k' = k1"
      by (auto simp: hp_uio_write_loop.simps [of vs n nw bytes k])
    show ?thesis
    proof (cases "script k")
      case Nil
      with wk r show ?thesis by (auto simp: writev_def write_err_def)
    next
      case (Cons c cs)
      with wk r s1 show ?thesis
        by (auto simp: writev_def Let_def split: wcall.splits)
    qed
  next
    case False
    note lt = writev_script [OF wk]
    show ?thesis
    proof (cases "nw + nat w1 = bytes")
      case True
      with "1.prems" wk False lt show ?thesis
        by (auto simp: hp_uio_write_loop.simps [of vs n nw bytes k] Let_def)
    next
      case ne: False
      obtain v2 n2 where bw: "before_writev vs (nat w1) n = (v2, n2)" by fastforce
      with "1.prems" wk False ne have
        "hp_uio_write_loop v2 n2 (nw + nat w1) bytes k1 = (w, e, vs', n', k')"
        by (simp add: hp_uio_write_loop.simps [of vs n nw bytes k] Let_def)
      from "1.IH" [OF wk [symmetric] refl False refl ne bw [symmetric] refl this] lt False
      show ?thesis by auto
    qed
  qed
qed

text \<open>
  The write loop up to the error callback: the bytes written, the error that ended it
  (0 when the queue is empty) and the new state. \<open>iov_max\<close> is \<open>sysconf(_SC_IOV_MAX)\<close>.
\<close>

definition iov_limit :: "int \<Rightarrow> nat" where
  "iov_limit iov_max = nat (if iov_max \<le> 0 then 1024 else iov_max)"

lemma iov_limit_pos: "0 < iov_limit m"
  by (simp add: iov_limit_def)

function hp_wr_write_loop :: "int \<Rightarrow> nat \<Rightarrow> hp_wr \<Rightarrow> kio \<Rightarrow> nat \<times> int \<times> hp_wr \<times> kio" where
  "hp_wr_write_loop iov_max ob wr k =
     (if o_items wr = [] then (ob, 0, wr, k)
      else
        let vec_len = min (iov_limit iov_max) (o_items_len wr);
            vec = map ui_vec (take vec_len (o_items wr));
            W = iovec_total_bytes vec
        in if W = 0 then
             (let s = hp_etio_del_n vec_len (wr, k)
              in hp_wr_write_loop iov_max ob (fst s) (snd s))
           else
             (case hp_uio_write vec W k of (w, err, vec', n, k1) \<Rightarrow>
               let wr1 = wr\<lparr>o_bytes := o_bytes wr + w\<rparr>;
                   wr2 = (if n < vec_len
                          then wr1\<lparr>o_items := (o_items wr1)[n := (o_items wr1 ! n)\<lparr>ui_vec := vec' ! n\<rparr>]\<rparr>
                          else wr1);
                   s = hp_etio_del_n n (wr2, k1)
               in if err = 0 then hp_wr_write_loop iov_max (ob + w) (fst s) (snd s)
                  else (ob + w, err, fst s, snd s)))"
  by pat_completeness auto
termination
proof (relation "measure (\<lambda>(iov_max, ob, wr, k). length (script k) + o_items_len wr)", goal_cases)
  case 1
  show ?case by simp
next
  case (2 iov_max ob wr k)
  then show ?case using iov_limit_pos [of iov_max] by (simp add: hp_etio_del_n_def)
next
  case (3 iov_max ob wr k)
  then show ?case
    by (auto simp: hp_uio_write_def hp_etio_del_n_def dest!: uio_write_loop_script [OF sym] split: if_splits)
qed

declare hp_wr_write_loop.simps [simp del]

text \<open>
  \<open>werr\<close> interprets the error callback: what the function stored in \<open>write_error\<close>
  does to the queue and the world; \<open>u\<close> is the state of the program the callback acts on.
\<close>

definition hp_wr_write ::
  "(fnptr \<Rightarrow> int \<Rightarrow> hp_wr \<times> kio \<times> 'u \<Rightarrow> hp_wr \<times> kio \<times> 'u) \<Rightarrow> int \<Rightarrow> hp_wr option \<Rightarrow> kio \<times> 'u \<Rightarrow>
   nat \<times> hp_wr option \<times> kio \<times> 'u" where
  "hp_wr_write werr iov_max wro = (\<lambda>(k, u).
     (case wro of None \<Rightarrow> (0, None, k, u)
      | Some wr \<Rightarrow>
        if o_items_len wr = 0 then (0, Some wr, k, u)
        else case hp_wr_write_loop iov_max 0 wr k of (ob, err, wr, k) \<Rightarrow>
          if err = 0 \<or> err = EAGAIN then (ob, Some wr, k, u)
          else
            let (wr, k, u) =
              (if write_error wr \<noteq> NULL then werr (write_error wr) err (wr, k, u) else (wr, k, u))
            in (ob, Some (wr\<lparr>wr_err := err\<rparr>), k, u)))"

subsection \<open>Bytes of vectors\<close>

lemma length_iov_bytes [simp]: "length (iov_bytes m v) = iov_len v"
  by (simp add: iov_bytes_def)

lemma vec_bytes_Nil [simp]: "vec_bytes m [] = []"
  and vec_bytes_Cons [simp]: "vec_bytes m (v # vs) = iov_bytes m v @ vec_bytes m vs"
  and vec_bytes_append [simp]: "vec_bytes m (us @ vs) = vec_bytes m us @ vec_bytes m vs"
  by (simp_all add: vec_bytes_def)

lemma iovec_total_bytes_length: "iovec_total_bytes vs = length (vec_bytes m vs)"
  by (induction vs) (auto simp: iovec_total_bytes_def)

text \<open>The addresses a vector covers, in order.\<close>

definition iov_addrs :: "iovec \<Rightarrow> ptr list" where
  "iov_addrs v = [iov_base v ..< iov_base v + iov_len v]"

definition vec_addrs :: "iovec list \<Rightarrow> ptr list" where
  "vec_addrs vs = concat (map iov_addrs vs)"

lemma vec_addrs_Nil [simp]: "vec_addrs [] = []"
  and vec_addrs_Cons [simp]: "vec_addrs (v # vs) = iov_addrs v @ vec_addrs vs"
  by (simp_all add: vec_addrs_def)

lemma length_iov_addrs [simp]: "length (iov_addrs v) = iov_len v"
  by (simp add: iov_addrs_def)

lemma iov_bytes_addrs: "iov_bytes m v = map m (iov_addrs v)"
  by (rule nth_equalityI) (simp_all add: iov_bytes_def iov_addrs_def)

lemma vec_bytes_addrs: "vec_bytes m vs = map m (vec_addrs vs)"
  by (induction vs) (simp_all add: iov_bytes_addrs)

lemma iov_addrs_advance:
  "l \<le> iov_len v \<Longrightarrow>
   iov_addrs \<lparr>iov_base = iov_base v + iov_len v - l, iov_len = l\<rparr> = drop (iov_len v - l) (iov_addrs v)"
  by (simp add: iov_addrs_def)

text \<open>
  What one search of \<open>before_writev\<close> does to the bytes still to be written: it drops
  exactly the bytes of the write, and changes no entry but the one it stops in.
\<close>

lemma before_writev_loop_addrs:
  assumes "before_writev_loop vs nwrite r i n = (vs', n')" and "r \<le> nwrite"
    and "nwrite - r < length (vec_addrs (drop i vs))"
  shows "i \<le> n' \<and> n' < length vs \<and> length vs' = length vs \<and> drop (Suc n') vs' = drop (Suc n') vs \<and>
    vec_addrs (drop n' vs') = drop (nwrite - r) (vec_addrs (drop i vs))"
  using assms
proof (induction vs nwrite r i n arbitrary: vs' n' rule: before_writev_loop.induct)
  case (1 vs nwrite r i n)
  have i: "i < length vs" using "1.prems"(3) by (cases "i < length vs") auto
  then have dr: "drop i vs = vs ! i # drop (Suc i) vs" by (simp add: Cons_nth_drop_Suc)
  show ?case
  proof (cases "nwrite < r + iov_len (vs ! i)")
    case True
    let ?l = "r + iov_len (vs ! i) - nwrite"
    have "n' = i" and vs': "vs' = vs[i := \<lparr>iov_base = iov_base (vs ! i) + iov_len (vs ! i) - ?l, iov_len = ?l\<rparr>]"
      using "1.prems"(1) i True by (auto simp: before_writev_loop.simps [of vs nwrite r i n] Let_def)
    moreover have l: "?l \<le> iov_len (vs ! i)" "iov_len (vs ! i) - ?l = nwrite - r"
      using "1.prems"(2) True by auto
    moreover have "iov_addrs (vs' ! i) = drop (nwrite - r) (iov_addrs (vs ! i))"
      using iov_addrs_advance [OF l(1)] l(2) vs' i by simp
    moreover have "drop i vs' = vs' ! i # drop (Suc i) vs"
      using i vs' by (simp add: Cons_nth_drop_Suc [symmetric] drop_update_cancel)
    moreover have "nwrite - r \<le> iov_len (vs ! i)" using True by simp
    ultimately show ?thesis
      using i dr by (simp add: drop_update_cancel)
  next
    case False
    have eq: "before_writev_loop vs nwrite (r + iov_len (vs ! i)) (Suc i) n = (vs', n')"
      using "1.prems"(1) i False by (simp add: before_writev_loop.simps [of vs nwrite r i n] Let_def)
    have lt: "nwrite - (r + iov_len (vs ! i)) < length (vec_addrs (drop (Suc i) vs))"
      using "1.prems"(2,3) dr False by simp
    have le: "r + iov_len (vs ! i) \<le> nwrite" using False by simp
    from "1.IH" [OF i refl refl False eq le lt] dr le show ?thesis by (auto simp: diff_diff_left)
  qed
qed

lemma before_writev_addrs:
  assumes "before_writev vs w n = (vs', n')" and "w < length (vec_addrs (drop n vs))"
  shows "n \<le> n' \<and> n' < length vs \<and> length vs' = length vs \<and> drop (Suc n') vs' = drop (Suc n') vs \<and>
    vec_addrs (drop n' vs') = drop w (vec_addrs (drop n vs))"
  using before_writev_loop_addrs [of vs w 0 n n vs' n'] assms by (simp add: before_writev_def)

lemma before_writev_drop:
  assumes "before_writev vs w n = (vs', n')" and "w < length (vec_bytes m (drop n vs))"
  shows "n \<le> n' \<and> n' < length vs \<and> length vs' = length vs \<and> drop (Suc n') vs' = drop (Suc n') vs \<and>
    vec_bytes m (drop n' vs') = drop w (vec_bytes m (drop n vs))"
  using before_writev_addrs [OF assms(1)] assms(2) by (simp add: vec_bytes_addrs drop_map)

lemma writev_pos:
  assumes "writev vs k = (w, k')" and "0 < w"
  shows "nat w \<le> length (vec_bytes (mem k) vs) \<and> sent k' = sent k @ take (nat w) (vec_bytes (mem k) vs) \<and>
    mem k' = mem k \<and> freed k' = freed k \<and> brk k' = brk k"
  using assms by (auto simp: writev_def Let_def split: list.splits wcall.splits)

lemma writev_nonpos:
  assumes "writev vs k = (w, k')" and "w \<le> 0"
  shows "sent k' = sent k \<and> mem k' = mem k \<and> freed k' = freed k \<and> brk k' = brk k"
  using assms by (auto simp: writev_def Let_def split: list.splits wcall.splits)

text \<open>One gather write: a prefix of the vector's bytes is sent and the rest is left, in order.\<close>

definition uio_post :: "iovec list \<Rightarrow> nat \<Rightarrow> nat \<Rightarrow> kio \<Rightarrow> nat \<times> int \<times> iovec list \<times> nat \<times> kio \<Rightarrow> bool" where
  "uio_post vs n nw k res = (case res of (w, e, vs', n', k') \<Rightarrow>
     nw \<le> w \<and> w - nw \<le> length (vec_bytes (mem k) (drop n vs)) \<and>
     sent k' = sent k @ take (w - nw) (vec_bytes (mem k) (drop n vs)) \<and>
     vec_bytes (mem k) (drop n' vs') = drop (w - nw) (vec_bytes (mem k) (drop n vs)) \<and>
     n \<le> n' \<and> n' \<le> length vs \<and> length vs' = length vs \<and> drop (Suc n') vs' = drop (Suc n') vs \<and>
     mem k' = mem k \<and> freed k' = freed k \<and> brk k' = brk k)"

lemma uio_write_loop_post:
  assumes "bytes = nw + length (vec_bytes (mem k) (drop n vs))" and "n \<le> length vs"
  shows "uio_post vs n nw k (hp_uio_write_loop vs n nw bytes k)"
  using assms
proof (induction vs n nw bytes k rule: hp_uio_write_loop.induct)
  case (1 vs n nw bytes k)
  obtain w1 k1 where wk: "writev (drop n vs) k = (w1, k1)" by fastforce
  note unf = hp_uio_write_loop.simps [of vs n nw bytes k]
  show ?case
  proof (cases "w1 \<le> 0")
    case True
    with writev_nonpos [OF wk] "1.prems"(2) show ?thesis
      by (simp add: unf wk uio_post_def)
  next
    case False
    then have pos: "0 < w1" by simp
    note wp = writev_pos [OF wk pos]
    show ?thesis
    proof (cases "nw + nat w1 = bytes")
      case True
      then have "hp_uio_write_loop vs n nw bytes k = (bytes, 0, vs, length vs, k1)"
        using wk False by (simp add: unf Let_def)
      with wp "1.prems" True show ?thesis by (simp add: uio_post_def)
    next
      case ne: False
      obtain v2 n2 where bw: "before_writev vs (nat w1) n = (v2, n2)" by fastforce
      have lt: "nat w1 < length (vec_bytes (mem k) (drop n vs))"
        using wp "1.prems"(1) ne by auto
      note bp = before_writev_drop [OF bw lt]
      have res: "hp_uio_write_loop vs n nw bytes k = hp_uio_write_loop v2 n2 (nw + nat w1) bytes k1"
        using wk False ne bw by (simp add: unf Let_def)
      have "uio_post v2 n2 (nw + nat w1) k1 (hp_uio_write_loop v2 n2 (nw + nat w1) bytes k1)"
      proof (rule "1.IH" [OF wk [symmetric] refl False refl ne bw [symmetric] refl])
        show "bytes = nw + nat w1 + length (vec_bytes (mem k1) (drop n2 v2))"
          using bp wp lt "1.prems"(1) by simp
        show "n2 \<le> length v2" using bp by simp
      qed
      moreover obtain w e vs' n' k' where
        r: "hp_uio_write_loop v2 n2 (nw + nat w1) bytes k1 = (w, e, vs', n', k')"
        using prod_cases5 by blast
      ultimately have post: "n2 \<le> n'" "nw + nat w1 \<le> w"
        "w - (nw + nat w1) \<le> length (vec_bytes (mem k) (drop n2 v2))"
        "sent k' = sent k1 @ take (w - (nw + nat w1)) (vec_bytes (mem k) (drop n2 v2))"
        "vec_bytes (mem k) (drop n' vs') = drop (w - (nw + nat w1)) (vec_bytes (mem k) (drop n2 v2))"
        "n' \<le> length v2" "length vs' = length v2" "drop (Suc n') vs' = drop (Suc n') v2"
        "mem k' = mem k1" "freed k' = freed k1" "brk k' = brk k1"
        using wp by (auto simp: uio_post_def)
      let ?Q = "vec_bytes (mem k) (drop n vs)" and ?x = "w - (nw + nat w1)"
      have Q2: "vec_bytes (mem k) (drop n2 v2) = drop (nat w1) ?Q"
        and n2: "n \<le> n2" "length v2 = length vs" "drop (Suc n2) v2 = drop (Suc n2) vs"
        using bp by blast+
      have k1: "sent k1 = sent k @ take (nat w1) ?Q" "mem k1 = mem k" "freed k1 = freed k" "brk k1 = brk k"
        using wp by blast+
      have d: "w - nw = nat w1 + ?x" using post(2) by linarith
      have "sent k' = sent k @ take (nat w1 + ?x) ?Q"
        by (simp only: post(4) k1 Q2 take_add append_assoc)
      moreover have "vec_bytes (mem k) (drop n' vs') = drop (nat w1 + ?x) ?Q"
        by (simp only: post(5) Q2 drop_drop add.commute)
      moreover have "drop (Suc n') v2 = drop (Suc n') vs"
        using n2(3) post(1) by (metis drop_drop le_add_diff_inverse2 Suc_le_mono)
      moreover have "nat w1 + ?x \<le> length ?Q" using post(3) lt Q2 by simp
      ultimately show ?thesis
        unfolding res r uio_post_def prod.case d
        using post n2 k1 by simp
    qed
  qed
qed

subsection \<open>The queue as a stream of bytes and a ledger of buffers\<close>

text \<open>
  The two abstract views of a queue: the bytes it still has to send, and the buffers
  it still has to release.
\<close>

definition wr_queue :: "(ptr \<Rightarrow> byte) \<Rightarrow> hp_wr \<Rightarrow> byte list" where
  "wr_queue m wr = vec_bytes m (map ui_vec (o_items wr))"

definition frees :: "hp_uio_item list \<Rightarrow> (hp_free_t \<times> ptr) list" where
  "frees its = map (\<lambda>it. (ui_free it, ui_ptr it)) (filter (\<lambda>it. ui_free it \<noteq> NoFree \<and> ui_ptr it \<noteq> NULL) its)"

lemma frees_append [simp]: "frees (xs @ ys) = frees xs @ frees ys"
  by (simp add: frees_def)

lemma frees_Nil [simp]: "frees [] = []"
  by (simp add: frees_def)

lemma fold_free_item [simp]:
  "freed (fold free_item its k) = freed k @ frees its"
  "sent (fold free_item its k) = sent k" "mem (fold free_item its k) = mem k"
  "brk (fold free_item its k) = brk k" "k_errno (fold free_item its k) = k_errno k"
  by (induction its arbitrary: k) (auto simp: free_item_def frees_def)

lemma frees_take_drop: "frees (take n its) @ frees (drop n its) = frees its"
  by (simp flip: frees_append)

lemma frees_update_vec: "n < length its \<Longrightarrow> frees (its[n := (its ! n)\<lparr>ui_vec := v\<rparr>]) = frees its"
  by (subst (2) id_take_nth_drop [of n its], simp, subst upd_conv_take_nth_drop, simp)
    (simp add: frees_def)

text \<open>
  What is left in the queue after a gather write that stopped in entry \<open>n\<close> of the vector.
\<close>

lemma wr_queue_after:
  assumes "vec = map ui_vec (take L its)" and "L \<le> length its" and "n \<le> L"
    and "length vec' = L" and "drop (Suc n) vec' = drop (Suc n) vec"
    and "its' = (if n < L then its[n := (its ! n)\<lparr>ui_vec := vec' ! n\<rparr>] else its)"
  shows "vec_bytes m (map ui_vec (drop n its')) = vec_bytes m (drop n vec') @ vec_bytes m (map ui_vec (drop L its))"
    and "frees its' = frees its"
proof -
  have split: "drop (Suc n) its = drop (Suc n) (take L its) @ drop L its" if "n < L"
    using that by (subst append_take_drop_id [of L its, symmetric], subst drop_append)
      (use assms(2) in simp)
  show "vec_bytes m (map ui_vec (drop n its')) = vec_bytes m (drop n vec') @ vec_bytes m (map ui_vec (drop L its))"
  proof (cases "n < L")
    case True
    then have "drop n vec' = vec' ! n # drop (Suc n) (map ui_vec (take L its))"
      using assms by (simp add: Cons_nth_drop_Suc [symmetric])
    moreover have "drop n its' = (its ! n)\<lparr>ui_vec := vec' ! n\<rparr> # drop (Suc n) its"
      using True assms by (simp add: Cons_nth_drop_Suc [symmetric] drop_update_cancel)
    ultimately show ?thesis
      using split [OF True] by (simp add: drop_map)
  next
    case False
    with assms show ?thesis by simp
  qed
  show "frees its' = frees its"
    using assms by (simp add: frees_update_vec)
qed

text \<open>The result of the write loop, as one predicate on the state before and the result.\<close>

definition wr_post :: "nat \<Rightarrow> hp_wr \<Rightarrow> kio \<Rightarrow> nat \<times> int \<times> hp_wr \<times> kio \<Rightarrow> bool" where
  "wr_post ob wr k res = (case res of (ob', e, wr', k') \<Rightarrow>
     (\<exists>x. ob' = ob + x \<and> x \<le> length (wr_queue (mem k) wr) \<and>
       sent k' = sent k @ take x (wr_queue (mem k) wr) \<and>
       wr_queue (mem k) wr' = drop x (wr_queue (mem k) wr) \<and> o_bytes wr' = o_bytes wr + x) \<and>
     mem k' = mem k \<and> brk k' = brk k \<and>
     freed k' @ frees (o_items wr') = freed k @ frees (o_items wr) \<and>
     (e = 0 \<longrightarrow> o_items wr' = []) \<and>
     wr' = wr\<lparr>o_items := o_items wr', o_bytes := o_bytes wr'\<rparr>)"

lemma wr_post_frame:
  "wr_post ob wr k (ob', e, wr', k') \<Longrightarrow>
   write_error wr' = write_error wr \<and> wr_err wr' = wr_err wr \<and> O_ITEMS_LEN wr' = O_ITEMS_LEN wr"
  by (cases wr; cases wr') (auto simp: wr_post_def)

lemma wr_post_refl: "o_items wr = [] \<or> e \<noteq> 0 \<Longrightarrow> wr_post ob wr k (ob, e, wr, k)"
  by (auto simp: wr_post_def)

text \<open>Two stretches of writing compose: the second starts where the first stopped.\<close>

lemma wr_post_trans:
  assumes "wr_post ob wr k (ob1, e1, wr1, k1)" and "wr_post ob1 wr1 k1 res"
  shows "wr_post ob wr k res"
proof -
  obtain ob2 e2 wr2 k2 where res: "res = (ob2, e2, wr2, k2)" by (cases res) auto
  let ?Q = "wr_queue (mem k) wr"
  from assms(1) obtain x where 1: "ob1 = ob + x" "x \<le> length ?Q"
    "sent k1 = sent k @ take x ?Q" "wr_queue (mem k) wr1 = drop x ?Q" "o_bytes wr1 = o_bytes wr + x"
    "mem k1 = mem k" "brk k1 = brk k" "freed k1 @ frees (o_items wr1) = freed k @ frees (o_items wr)"
    "wr1 = wr\<lparr>o_items := o_items wr1, o_bytes := o_bytes wr1\<rparr>"
    by (auto simp: wr_post_def)
  from assms(2) res 1(6) obtain y where 2: "ob2 = ob1 + y" "y \<le> length (drop x ?Q)"
    "sent k2 = sent k1 @ take y (drop x ?Q)" "wr_queue (mem k) wr2 = drop y (drop x ?Q)"
    "o_bytes wr2 = o_bytes wr1 + y"
    "mem k2 = mem k1" "brk k2 = brk k1" "freed k2 @ frees (o_items wr2) = freed k1 @ frees (o_items wr1)"
    "e2 = 0 \<longrightarrow> o_items wr2 = []" "wr2 = wr1\<lparr>o_items := o_items wr2, o_bytes := o_bytes wr2\<rparr>"
    by (auto simp: wr_post_def 1(4))
  have "sent k2 = sent k @ take (x + y) ?Q" using 1(3) 2(3) by (simp add: take_add)
  moreover have "wr_queue (mem k) wr2 = drop (x + y) ?Q" using 2(4) by (simp add: add.commute)
  moreover have "x + y \<le> length ?Q" using 1(2) 2(2) by simp
  moreover have "ob2 = ob + (x + y)" "o_bytes wr2 = o_bytes wr + (x + y)" using 1 2 by simp_all
  moreover have "wr2 = wr\<lparr>o_items := o_items wr2, o_bytes := o_bytes wr2\<rparr>"
    by (subst 2(10), subst 1(9)) simp
  moreover have "mem k2 = mem k" "brk k2 = brk k"
    "freed k2 @ frees (o_items wr2) = freed k @ frees (o_items wr)" using 1 2 by simp_all
  ultimately show ?thesis unfolding res wr_post_def prod.case using 2(9) by blast
qed

text \<open>Dropping a vector of empty buffers sends nothing.\<close>

lemma wr_post_empty_vec:
  assumes "iovec_total_bytes (map ui_vec (take n (o_items wr))) = 0" and "e \<noteq> 0"
  shows "wr_post ob wr k (ob, e, fst (hp_etio_del_n n (wr, k)), snd (hp_etio_del_n n (wr, k)))"
proof -
  have "vec_bytes (mem k) (map ui_vec (take n (o_items wr))) = []"
    using assms(1) by (simp add: iovec_total_bytes_length [of _ "mem k"])
  then have "wr_queue (mem k) wr = vec_bytes (mem k) (map ui_vec (drop n (o_items wr)))"
    unfolding wr_queue_def
    by (metis append_Nil append_take_drop_id map_append vec_bytes_append)
  then show ?thesis
    using assms(2) frees_take_drop
    by (auto simp: wr_post_def hp_etio_del_n_def wr_queue_def intro!: exI [of _ 0])
qed

lemma wr_post_gather:
  assumes L: "L \<le> o_items_len wr" and vec: "vec = map ui_vec (take L (o_items wr))"
    and post: "uio_post vec 0 0 k (w, e1, vec', n, k1)"
    and its: "its' = (if n < L then (o_items wr)[n := (o_items wr ! n)\<lparr>ui_vec := vec' ! n\<rparr>] else o_items wr)"
    and s: "s = hp_etio_del_n n (wr\<lparr>o_bytes := o_bytes wr + w, o_items := its'\<rparr>, k1)" and e: "e \<noteq> 0"
  shows "wr_post ob wr k (ob + w, e, fst s, snd s)"
proof -
  let ?V = "vec_bytes (mem k) vec" and ?R = "vec_bytes (mem k) (map ui_vec (drop L (o_items wr)))"
  have lenvec: "length vec = L" using L vec by simp
  from post have p: "w \<le> length ?V" "sent k1 = sent k @ take w ?V"
    "vec_bytes (mem k) (drop n vec') = drop w ?V" "n \<le> L" "length vec' = L"
    "drop (Suc n) vec' = drop (Suc n) vec" "mem k1 = mem k" "freed k1 = freed k" "brk k1 = brk k"
    by (auto simp: uio_post_def lenvec)
  note after = wr_queue_after [OF vec L p(4-6) its]
  have Q: "wr_queue (mem k) wr = ?V @ ?R"
    unfolding wr_queue_def vec by (metis append_take_drop_id map_append vec_bytes_append)
  have "wr_queue (mem k) (fst s) = drop w ?V @ ?R"
    using after(1) p(3) by (simp add: s hp_etio_del_n_def wr_queue_def)
  moreover have "freed (snd s) @ frees (o_items (fst s)) = freed k @ frees (o_items wr)"
    using after(2) p(8) by (simp add: s hp_etio_del_n_def frees_take_drop)
  moreover have "mem (snd s) = mem k" "brk (snd s) = brk k" "sent (snd s) = sent k1"
    "o_bytes (fst s) = o_bytes wr + w"
    "fst s = wr\<lparr>o_items := o_items (fst s), o_bytes := o_bytes (fst s)\<rparr>"
    using p by (simp_all add: s hp_etio_del_n_def)
  ultimately show ?thesis
    using p(1,2) e Q by (auto simp: wr_post_def intro!: exI [of _ w])
qed

lemma uio_write_post:
  "hp_uio_write vec (iovec_total_bytes vec) k = r \<Longrightarrow> uio_post vec 0 0 k r"
  using uio_write_loop_post [of "iovec_total_bytes vec" 0 k 0 vec]
  by (simp add: hp_uio_write_def iovec_total_bytes_length [of _ "mem k"])

lemma wr_write_loop_post: "wr_post ob wr k (hp_wr_write_loop iov_max ob wr k)"
proof (induction iov_max ob wr k rule: hp_wr_write_loop.induct)
  case (1 iov_max ob wr k)
  note unf = hp_wr_write_loop.simps [of iov_max ob wr k]
  let ?L = "min (iov_limit iov_max) (o_items_len wr)"
  let ?vec = "map ui_vec (take ?L (o_items wr))"
  show ?case
  proof (cases "o_items wr = []")
    case True
    then show ?thesis by (simp add: unf wr_post_refl)
  next
    case ne: False
    show ?thesis
    proof (cases "iovec_total_bytes ?vec = 0")
      case True
      let ?s = "hp_etio_del_n ?L (wr, k)"
      have "hp_wr_write_loop iov_max ob wr k = hp_wr_write_loop iov_max ob (fst ?s) (snd ?s)"
        using ne True by (simp add: unf Let_def)
      with wr_post_trans [OF wr_post_empty_vec [OF True, of 1 ob k] "1.IH"(1) [OF ne refl refl refl True refl]]
      show ?thesis by simp
    next
      case False
      obtain w e1 vec' n k1 where r: "hp_uio_write ?vec (iovec_total_bytes ?vec) k = (w, e1, vec', n, k1)"
        using prod_cases5 by blast
      let ?its = "if n < ?L then (o_items wr)[n := (o_items wr ! n)\<lparr>ui_vec := vec' ! n\<rparr>] else o_items wr"
      let ?wr2 = "wr\<lparr>o_bytes := o_bytes wr + w, o_items := ?its\<rparr>"
      let ?s = "hp_etio_del_n n (?wr2, k1)"
      have step: "hp_wr_write_loop iov_max ob wr k =
        (if e1 = 0 then hp_wr_write_loop iov_max (ob + w) (fst ?s) (snd ?s) else (ob + w, e1, fst ?s, snd ?s))"
        using ne False r by (simp add: unf Let_def)
      have post: "e \<noteq> 0 \<Longrightarrow> wr_post ob wr k (ob + w, e, fst ?s, snd ?s)" for e
        by (rule wr_post_gather [OF _ refl uio_write_post [OF r] refl refl]) simp_all
      show ?thesis
      proof (cases "e1 = 0")
        case True
        have eq: "(if n < ?L then wr\<lparr>o_bytes := o_bytes wr + w\<rparr>
            \<lparr>o_items := (o_items (wr\<lparr>o_bytes := o_bytes wr + w\<rparr>))[n := (o_items (wr\<lparr>o_bytes := o_bytes wr + w\<rparr>) ! n)\<lparr>ui_vec := vec' ! n\<rparr>]\<rparr>
          else wr\<lparr>o_bytes := o_bytes wr + w\<rparr>) = ?wr2" by simp
        have "wr_post (ob + w) (fst ?s) (snd ?s) (hp_wr_write_loop iov_max (ob + w) (fst ?s) (snd ?s))"
          using "1.IH"(2) [OF ne refl refl refl False r [symmetric] refl refl refl refl refl refl True]
          unfolding eq .
        from wr_post_trans [OF post [of 1] this] show ?thesis unfolding step by (simp add: True)
      next
        case False
        with post step show ?thesis by simp
      qed
    qed
  qed
qed

subsection \<open>Progress and error classification\<close>

definition all_ok :: "wcall list \<Rightarrow> bool" where
  "all_ok cs = list_all (\<lambda>c. case c of W_ok n \<Rightarrow> 0 < n | W_err _ \<Rightarrow> False) cs"

definition no_hard_error :: "wcall list \<Rightarrow> bool" where
  "no_hard_error cs =
     list_all (\<lambda>c. case c of W_ok n \<Rightarrow> 0 < n | W_err e \<Rightarrow> e = EINTR \<or> e = EAGAIN) cs"

lemma writev_ok:
  assumes "all_ok (script k)" and "vec_bytes (mem k) vs \<noteq> []" and "script k \<noteq> []"
    and "writev vs k = (w, k')"
  shows "0 < w \<and> all_ok (script k') \<and> length (script k) = Suc (length (script k'))"
  using assms by (cases "script k") (auto simp: writev_def all_ok_def Let_def split: wcall.splits)

lemma uio_write_loop_all:
  assumes "all_ok (script k)" and "bytes = nw + length (vec_bytes (mem k) (drop n vs))"
    and "n \<le> length vs" and "nw < bytes" and "bytes - nw \<le> length (script k)"
    and "hp_uio_write_loop vs n nw bytes k = (w, e, vs', n', k')"
  shows "w = bytes \<and> e = 0 \<and> n' = length vs \<and> all_ok (script k') \<and>
    length (script k) \<le> length (script k') + (bytes - nw)"
  using assms
proof (induction vs n nw bytes k arbitrary: w e vs' n' k' rule: hp_uio_write_loop.induct)
  case (1 vs n nw bytes k)
  obtain w1 k1 where wk: "writev (drop n vs) k = (w1, k1)" by fastforce
  note unf = hp_uio_write_loop.simps [of vs n nw bytes k]
  have "vec_bytes (mem k) (drop n vs) \<noteq> []" "script k \<noteq> []" using "1.prems" by auto
  note ok = writev_ok [OF "1.prems"(1) this wk]
  note wp = writev_pos [OF wk conjunct1 [OF ok]]
  show ?case
  proof (cases "nw + nat w1 = bytes")
    case True
    with wk ok have "hp_uio_write_loop vs n nw bytes k = (bytes, 0, vs, length vs, k1)"
      by (simp add: unf Let_def)
    with "1.prems"(6) have "(w, e, vs', n', k') = (bytes, 0, vs, length vs, k1)" by (rule trans [OF sym])
    then have r: "w = bytes \<and> e = 0 \<and> vs' = vs \<and> n' = length vs \<and> k' = k1" unfolding prod.inject .
    then have "all_ok (script k')" "length (script k) \<le> length (script k') + (bytes - nw)"
      using ok "1.prems"(4) by auto
    with r show ?thesis by blast
  next
    case ne: False
    obtain v2 n2 where bw: "before_writev vs (nat w1) n = (v2, n2)" by fastforce
    have lt: "nat w1 < length (vec_bytes (mem k) (drop n vs))" using wp "1.prems"(2) ne by auto
    note bp = before_writev_drop [OF bw lt]
    have nle: "\<not> w1 \<le> 0" using ok by simp
    have res: "hp_uio_write_loop v2 n2 (nw + nat w1) bytes k1 = (w, e, vs', n', k')"
      using "1.prems"(6) wk nle ne bw by (simp add: unf Let_def)
    have "w = bytes \<and> e = 0 \<and> n' = length v2 \<and> all_ok (script k') \<and>
      length (script k1) \<le> length (script k') + (bytes - (nw + nat w1))"
    proof (rule "1.IH" [OF wk [symmetric] refl nle refl ne bw [symmetric] refl _ _ _ _ _ res])
      show "all_ok (script k1)" using ok by simp
      show "bytes = nw + nat w1 + length (vec_bytes (mem k1) (drop n2 v2))"
        using bp wp lt "1.prems"(2) by simp
      show "n2 \<le> length v2" using bp by simp
      show "nw + nat w1 < bytes" using lt "1.prems"(2) by simp
      show "bytes - (nw + nat w1) \<le> length (script k1)" using ok "1.prems"(5) by linarith
    qed
    with bp ok lt "1.prems"(2) show ?thesis by auto
  qed
qed

lemma wr_write_loop_all:
  assumes "all_ok (script k)" and "length (wr_queue (mem k) wr) \<le> length (script k)"
    and "hp_wr_write_loop iov_max ob wr k = (ob', e, wr', k')"
  shows "e = 0"
  using assms
proof (induction iov_max ob wr k rule: hp_wr_write_loop.induct)
  case (1 iov_max ob wr k)
  note unf = hp_wr_write_loop.simps [of iov_max ob wr k]
  let ?L = "min (iov_limit iov_max) (o_items_len wr)"
  let ?vec = "map ui_vec (take ?L (o_items wr))"
  show ?case
  proof (cases "o_items wr = []")
    case True
    with "1.prems" show ?thesis by (simp add: unf)
  next
    case ne: False
    have Q: "wr_queue (mem k) wr = vec_bytes (mem k) ?vec @ vec_bytes (mem k) (map ui_vec (drop ?L (o_items wr)))"
      unfolding wr_queue_def by (metis append_take_drop_id map_append vec_bytes_append)
    show ?thesis
    proof (cases "iovec_total_bytes ?vec = 0")
      case True
      let ?s = "hp_etio_del_n ?L (wr, k)"
      have "hp_wr_write_loop iov_max ob (fst ?s) (snd ?s) = (ob', e, wr', k')"
        using ne True "1.prems"(3) by (simp add: unf Let_def)
      with "1.IH"(1) [OF ne refl refl refl True refl] "1.prems"(1,2) Q show ?thesis
        by (simp add: hp_etio_del_n_def wr_queue_def)
    next
      case False
      have tot: "iovec_total_bytes ?vec = length (vec_bytes (mem k) ?vec)" by (rule iovec_total_bytes_length)
      obtain w e1 vec' n k1 where r: "hp_uio_write ?vec (iovec_total_bytes ?vec) k = (w, e1, vec', n, k1)"
        using prod_cases5 by blast
      have all: "w = iovec_total_bytes ?vec \<and> e1 = 0 \<and> n = length ?vec \<and> all_ok (script k1) \<and>
        length (script k) \<le> length (script k1) + (iovec_total_bytes ?vec - 0)"
        by (rule uio_write_loop_all [OF "1.prems"(1) _ _ _ _ r [unfolded hp_uio_write_def]])
          (use False tot Q "1.prems"(2) in auto)
      have n: "n = ?L" "e1 = 0" "\<not> n < ?L" using all by auto
      let ?wr1 = "wr\<lparr>o_bytes := o_bytes wr + w\<rparr>"
      let ?s = "hp_etio_del_n n (?wr1, k1)"
      have step: "hp_wr_write_loop iov_max (ob + w) (fst ?s) (snd ?s) = (ob', e, wr', k')"
        using "1.prems"(3) ne False r n(2,3) by (simp add: unf Let_def del: min_less_iff_conj)
      have mem: "mem k1 = mem k" using uio_write_post [OF r] by (simp add: uio_post_def)
      have scr: "length (wr_queue (mem (snd ?s)) (fst ?s)) \<le> length (script (snd ?s))"
        using all tot Q "1.prems"(2) mem n by (simp add: hp_etio_del_n_def wr_queue_def)
      have eq: "(if n < ?L then ?wr1\<lparr>o_items := (o_items ?wr1)[n := (o_items ?wr1 ! n)\<lparr>ui_vec := vec' ! n\<rparr>]\<rparr>
        else ?wr1) = ?wr1" using n by simp
      note ih = "1.IH"(2) [OF ne refl refl refl False r [symmetric] refl refl refl refl refl refl n(2), unfolded eq]
      show ?thesis by (rule ih) (use all scr step in simp_all)
    qed
  qed
qed

text \<open>Answers that are writes, interrupts or \<open>EAGAIN\<close> never end a write with a hard error.\<close>

lemma writev_soft:
  assumes "no_hard_error (script k)" and "vec_bytes (mem k) vs \<noteq> []" and "writev vs k = (w, k')"
  shows "no_hard_error (script k') \<and> (w \<le> 0 \<longrightarrow> write_err w (k_errno k') = EAGAIN)"
  using assms
  by (cases "script k")
    (auto simp: writev_def no_hard_error_def Let_def write_err_def min_def split: wcall.splits if_splits)

lemma uio_write_loop_soft:
  assumes "no_hard_error (script k)" and "bytes = nw + length (vec_bytes (mem k) (drop n vs))"
    and "n \<le> length vs" and "nw < bytes"
    and "hp_uio_write_loop vs n nw bytes k = (w, e, vs', n', k')"
  shows "(e = 0 \<or> e = EAGAIN) \<and> no_hard_error (script k')"
  using assms
proof (induction vs n nw bytes k arbitrary: w e vs' n' k' rule: hp_uio_write_loop.induct)
  case (1 vs n nw bytes k)
  obtain w1 k1 where wk: "writev (drop n vs) k = (w1, k1)" by fastforce
  note unf = hp_uio_write_loop.simps [of vs n nw bytes k]
  have "vec_bytes (mem k) (drop n vs) \<noteq> []" using "1.prems" by auto
  note ok = writev_soft [OF "1.prems"(1) this wk]
  show ?case
  proof (cases "w1 \<le> 0 \<or> nw + nat w1 = bytes")
    case True
    with ok wk "1.prems"(5) show ?thesis by (auto simp: unf Let_def split: if_splits)
  next
    case False
    then have nle: "\<not> w1 \<le> 0" and ne: "nw + nat w1 \<noteq> bytes" by auto
    then have "0 < w1" by simp
    note wp = writev_pos [OF wk this]
    obtain v2 n2 where bw: "before_writev vs (nat w1) n = (v2, n2)" by fastforce
    have lt: "nat w1 < length (vec_bytes (mem k) (drop n vs))" using wp "1.prems"(2) ne by auto
    note bp = before_writev_drop [OF bw lt]
    have res: "hp_uio_write_loop v2 n2 (nw + nat w1) bytes k1 = (w, e, vs', n', k')"
      using "1.prems"(5) wk nle ne bw by (simp add: unf Let_def)
    show ?thesis
    proof (rule "1.IH" [OF wk [symmetric] refl nle refl ne bw [symmetric] refl _ _ _ _ res])
      show "no_hard_error (script k1)" using ok by simp
      show "bytes = nw + nat w1 + length (vec_bytes (mem k1) (drop n2 v2))"
        using bp wp lt "1.prems"(2) by simp
      show "n2 \<le> length v2" using bp by simp
      show "nw + nat w1 < bytes" using lt "1.prems"(2) by simp
    qed
  qed
qed

lemma wr_write_loop_soft:
  assumes "no_hard_error (script k)" and "hp_wr_write_loop iov_max ob wr k = (ob', e, wr', k')"
  shows "e = 0 \<or> e = EAGAIN"
  using assms
proof (induction iov_max ob wr k rule: hp_wr_write_loop.induct)
  case (1 iov_max ob wr k)
  note unf = hp_wr_write_loop.simps [of iov_max ob wr k]
  let ?L = "min (iov_limit iov_max) (o_items_len wr)"
  let ?vec = "map ui_vec (take ?L (o_items wr))"
  show ?case
  proof (cases "o_items wr = []")
    case True
    with "1.prems" show ?thesis by (simp add: unf)
  next
    case ne: False
    show ?thesis
    proof (cases "iovec_total_bytes ?vec = 0")
      case True
      with ne "1.prems" "1.IH"(1) [OF ne refl refl refl True refl] show ?thesis
        by (simp add: unf Let_def)
    next
      case False
      obtain w e1 vec' n k1 where r: "hp_uio_write ?vec (iovec_total_bytes ?vec) k = (w, e1, vec', n, k1)"
        using prod_cases5 by blast
      have soft: "(e1 = 0 \<or> e1 = EAGAIN) \<and> no_hard_error (script k1)"
        by (rule uio_write_loop_soft [OF "1.prems"(1) _ _ _ r [unfolded hp_uio_write_def]])
          (use False in \<open>simp_all add: iovec_total_bytes_length [of _ "mem k"]\<close>)
      show ?thesis
      proof (cases "e1 = 0")
        case True
        with ne False r soft "1.prems"(2)
          "1.IH"(2) [OF ne refl refl refl False r [symmetric] refl refl refl refl refl refl True]
        show ?thesis by (simp add: unf Let_def)
      next
        case ne1: False
        with ne False r soft "1.prems"(2) show ?thesis by (simp add: unf Let_def)
      qed
    qed
  qed
qed

text \<open>
  The error a write has to report, read off the kernel's answers alone: the first answer
  that is no progress decides it. An interrupt or a full socket is \<open>EAGAIN\<close>, any other
  error is itself, and a write of nothing counts as the error that \<open>errno\<close> names, \<open>EIO\<close> when
  that is an interrupt or \<open>EAGAIN\<close> left from before (error 0 is no error and the write goes on).
\<close>

fun first_error :: "int \<Rightarrow> wcall list \<Rightarrow> int" where
  "first_error en [] = EAGAIN"
| "first_error en (W_err c # cs) =
     (if c = 0 then first_error 0 cs else if c = EINTR \<or> c = EAGAIN then EAGAIN else c)"
| "first_error en (W_ok n # cs) =
     (if 0 < n then first_error en cs
      else if en = 0 then first_error 0 cs
      else if en = EINTR \<or> en = EAGAIN then EIO else en)"

abbreviation pending_error :: "kio \<Rightarrow> int" where
  "pending_error k \<equiv> first_error (k_errno k) (script k)"

lemma first_error_no_hard: "no_hard_error cs \<Longrightarrow> first_error en cs = EAGAIN"
  by (induction cs arbitrary: en) (auto simp: no_hard_error_def split: wcall.splits)

lemma first_error_nonzero: "first_error en cs \<noteq> 0"
  by (induction en cs rule: first_error.induct) auto

lemma writev_error:
  assumes "writev vs k = (w, k')" and "vec_bytes (mem k) vs \<noteq> []"
  shows "0 < w \<Longrightarrow> pending_error k' = pending_error k"
    and "w \<le> 0 \<Longrightarrow> if write_err w (k_errno k') = 0 then pending_error k' = pending_error k
      else write_err w (k_errno k') = pending_error k"
  using assms
  by (cases "script k";
      force simp: writev_def Let_def write_err_def min_def split: wcall.splits if_splits)+

lemma uio_write_loop_error:
  assumes "bytes = nw + length (vec_bytes (mem k) (drop n vs))"
    and "n \<le> length vs" and "nw < bytes"
    and "hp_uio_write_loop vs n nw bytes k = (w, e, vs', n', k')"
  shows "if e = 0 then pending_error k' = pending_error k else e = pending_error k \<and> n' < length vs"
  using assms
proof (induction vs n nw bytes k arbitrary: w e vs' n' k' rule: hp_uio_write_loop.induct)
  case (1 vs n nw bytes k)
  obtain w1 k1 where wk: "writev (drop n vs) k = (w1, k1)" by fastforce
  note unf = hp_uio_write_loop.simps [of vs n nw bytes k]
  have nonempty: "vec_bytes (mem k) (drop n vs) \<noteq> []" using "1.prems" by auto
  then have nlt: "n < length vs" by (cases "n < length vs") auto
  note err = writev_error [OF wk nonempty]
  show ?case
  proof (cases "w1 \<le> 0 \<or> nw + nat w1 = bytes")
    case True
    with err wk "1.prems"(4) nlt show ?thesis by (auto simp: unf Let_def split: if_splits)
  next
    case False
    then have nle: "\<not> w1 \<le> 0" and ne: "nw + nat w1 \<noteq> bytes" and pos: "0 < w1" by auto
    note wp = writev_pos [OF wk pos]
    obtain v2 n2 where bw: "before_writev vs (nat w1) n = (v2, n2)" by fastforce
    have lt: "nat w1 < length (vec_bytes (mem k) (drop n vs))" using wp "1.prems"(1) ne by auto
    note bp = before_writev_drop [OF bw lt]
    have res: "hp_uio_write_loop v2 n2 (nw + nat w1) bytes k1 = (w, e, vs', n', k')"
      using "1.prems"(4) wk nle ne bw by (simp add: unf Let_def)
    have "if e = 0 then pending_error k' = pending_error k1 else e = pending_error k1 \<and> n' < length v2"
    proof (rule "1.IH" [OF wk [symmetric] refl nle refl ne bw [symmetric] refl _ _ _ res])
      show "bytes = nw + nat w1 + length (vec_bytes (mem k1) (drop n2 v2))"
        using bp wp lt "1.prems"(1) by simp
      show "n2 \<le> length v2" using bp by simp
      show "nw + nat w1 < bytes" using lt "1.prems"(1) by simp
    qed
    with bp err(1) [OF pos] show ?thesis by (auto split: if_splits)
  qed
qed

lemma wr_write_loop_error:
  assumes "hp_wr_write_loop iov_max ob wr k = (ob', e, wr', k')"
  shows "e = (if o_items wr' = [] then 0 else pending_error k)"
  using assms
proof (induction iov_max ob wr k rule: hp_wr_write_loop.induct)
  case (1 iov_max ob wr k)
  note unf = hp_wr_write_loop.simps [of iov_max ob wr k]
  let ?L = "min (iov_limit iov_max) (o_items_len wr)"
  let ?vec = "map ui_vec (take ?L (o_items wr))"
  show ?case
  proof (cases "o_items wr = []")
    case True
    with "1.prems" show ?thesis by (simp add: unf)
  next
    case ne: False
    show ?thesis
    proof (cases "iovec_total_bytes ?vec = 0")
      case True
      with ne "1.prems" "1.IH"(1) [OF ne refl refl refl True refl] show ?thesis
        by (simp add: unf Let_def hp_etio_del_n_def)
    next
      case False
      obtain w e1 vec' n k1 where r: "hp_uio_write ?vec (iovec_total_bytes ?vec) k = (w, e1, vec', n, k1)"
        using prod_cases5 by blast
      have err: "if e1 = 0 then pending_error k1 = pending_error k else e1 = pending_error k \<and> n < length ?vec"
        by (rule uio_write_loop_error [OF _ _ _ r [unfolded hp_uio_write_def]])
          (use False in \<open>simp_all add: iovec_total_bytes_length [of _ "mem k"]\<close>)
      show ?thesis
      proof (cases "e1 = 0")
        case True
        with ne False r err "1.prems"
          "1.IH"(2) [OF ne refl refl refl False r [symmetric] refl refl refl refl refl refl True]
        show ?thesis by (simp add: unf Let_def hp_etio_del_n_def)
      next
        case ne1: False
        with ne False r err "1.prems" show ?thesis by (auto simp: unf Let_def hp_etio_del_n_def)
      qed
    qed
  qed
qed

subsection \<open>Invariant of the queue and of its memory\<close>

definition wr_ok :: "hp_wr \<Rightarrow> bool" where
  "wr_ok wr \<longleftrightarrow> 0 < O_ITEMS_LEN wr \<and> o_items_len wr \<le> O_ITEMS_LEN wr"

text \<open>Every buffer of the queue lies in memory the allocator has handed out.\<close>

definition wr_below :: "kio \<Rightarrow> hp_wr \<Rightarrow> bool" where
  "wr_below k wr = list_all (\<lambda>it. iov_base (ui_vec it) + iov_len (ui_vec it) \<le> brk k) (o_items wr)"

lemma wr_ok_init [hp_inv]: "hp_wr_init (Some wr0) n we = (rc, Some wr) \<Longrightarrow> wr_ok wr"
  by (auto simp: wr_ok_def hp_wr_init_def Let_def)

lemma wr_make_room_room [hp_inv]:
  "wr_ok wr \<Longrightarrow> o_items_len wr < O_ITEMS_LEN (wr_make_room wr) \<and> o_items (wr_make_room wr) = o_items wr"
  by (auto simp: wr_ok_def wr_make_room_def hp_eto_reserve_def)

lemma wr_ok_del_n [hp_inv]: "wr_ok wr \<Longrightarrow> wr_ok (fst (hp_etio_del_n n (wr, k)))"
  by (auto simp: wr_ok_def hp_etio_del_n_def)

lemma iov_bytes_cong:
  "(\<And>a. iov_base v \<le> a \<Longrightarrow> a < iov_base v + iov_len v \<Longrightarrow> m a = m' a) \<Longrightarrow> iov_bytes m v = iov_bytes m' v"
  by (simp add: iov_bytes_def)

lemma vec_bytes_cong:
  "(\<And>v. v \<in> set vs \<Longrightarrow> iov_bytes m v = iov_bytes m' v) \<Longrightarrow> vec_bytes m vs = vec_bytes m' vs"
  by (induction vs) auto

lemma wr_queue_below:
  "wr_below k wr \<Longrightarrow> (\<And>a. a < brk k \<Longrightarrow> m a = mem k a) \<Longrightarrow> wr_queue m wr = wr_queue (mem k) wr"
  unfolding wr_queue_def
  by (rule vec_bytes_cong, rule iov_bytes_cong) (auto simp: wr_below_def list_all_iff)

subsection \<open>Properties\<close>

lemma hp_wr_add_result:
  assumes "wr_ok wr" and "wr_below k wr" and "base \<noteq> NULL" and "base + len \<le> brk k"
  shows "\<exists>wr' k'. hp_wr_add (Some wr) base len f p k = (0, Some wr', k') \<and>
    o_items_len wr < O_ITEMS_LEN wr' \<and> wr_ok wr' \<and> wr_below k' wr' \<and>
    wr_queue (mem k') wr' = wr_queue (mem k) wr @ iov_bytes (mem k) \<lparr>iov_base = base, iov_len = len\<rparr> \<and>
    take (o_items_len wr) (o_items wr') = o_items wr"
proof (cases "f = CopyFree")
  case True
  let ?q = "brk k"
  let ?m = "\<lambda>a. if ?q \<le> a \<and> a < ?q + len then mem k (base + (a - ?q)) else mem k a"
  have "iov_bytes ?m \<lparr>iov_base = ?q, iov_len = len\<rparr> = iov_bytes (mem k) \<lparr>iov_base = base, iov_len = len\<rparr>"
    by (simp add: iov_bytes_def)
  moreover have "wr_queue ?m wr = wr_queue (mem k) wr" by (rule wr_queue_below [OF assms(2)]) simp
  ultimately show ?thesis
    using True assms wr_make_room_room [OF assms(1)]
    by (auto simp: hp_wr_add_def Let_def wr_ok_def wr_below_def wr_queue_def list_all_iff)
next
  case False
  then show ?thesis
    using assms wr_make_room_room [OF assms(1)]
    by (auto simp: hp_wr_add_def Let_def wr_ok_def wr_below_def wr_queue_def)
qed

text \<open>
  Adding a buffer of \<open>len\<close> bytes makes room first, so that the slot written is
  inside the array (\<open>len < O_ITEMS_LEN\<close> before the increment), and appends exactly the
  bytes of the buffer to the stream the queue will send, also when they are copied.
\<close>

lemma hp_wr_add_appends:
  assumes "wr_ok wr" and "wr_below k wr" and "base \<noteq> NULL" and "base + len \<le> brk k"
  shows "\<exists>wr' k'. hp_wr_add (Some wr) base len f p k = (0, Some wr', k') \<and>
    o_items_len wr < O_ITEMS_LEN wr' \<and> wr_ok wr' \<and> wr_below k' wr' \<and>
    wr_queue (mem k') wr' = wr_queue (mem k) wr @ iov_bytes (mem k) \<lparr>iov_base = base, iov_len = len\<rparr> \<and>
    take (o_items_len wr) (o_items wr') = o_items wr"
  by (rule hp_wr_add_result [OF assms])

text \<open>
  C1: Whatever the kernel answers, a write sends a prefix of the queue's stream, in order
  and without loss or repetition, keeps exactly the rest of the stream queued, adds the
  bytes sent to \<open>o_bytes\<close>, and releases exactly the buffers it drops from the queue. When
  buffers are left, the kernel's answers fix how it ended (\<open>first_error\<close>): the first answer
  that is no progress is silent when it is an interrupt or \<open>EAGAIN\<close>, and any other error is
  the one stored in \<open>err\<close> and given to the error callback, which runs after the rest.
\<close>

theorem hp_wr_write_stream:
  "\<exists>x e wr' k'. x \<le> length (wr_queue (mem k) wr) \<and>
    sent k' = sent k @ take x (wr_queue (mem k) wr) \<and>
    wr_queue (mem k') wr' = drop x (wr_queue (mem k) wr) \<and> o_bytes wr' = o_bytes wr + x \<and>
    freed k' @ frees (o_items wr') = freed k @ frees (o_items wr) \<and>
    e = (if o_items wr' = [] then 0 else first_error (k_errno k) (script k)) \<and>
    hp_wr_write werr iov_max (Some wr) (k, u) =
      (if e = 0 \<or> e = EAGAIN then (x, Some wr', k', u)
       else if write_error wr = NULL then (x, Some (wr'\<lparr>wr_err := e\<rparr>), k', u)
       else (x, Some ((fst (werr (write_error wr) e (wr', k', u)))\<lparr>wr_err := e\<rparr>),
             snd (werr (write_error wr) e (wr', k', u))))"
proof (cases "o_items wr = []")
  case True
  then show ?thesis
    by (intro exI [of _ 0] exI [of _ 0] exI [of _ wr] exI [of _ k]) (simp add: hp_wr_write_def)
next
  case False
  obtain ob e wr' k' where r: "hp_wr_write_loop iov_max 0 wr k = (ob, e, wr', k')"
    using prod_cases4 by blast
  have post: "wr_post 0 wr k (ob, e, wr', k')" using wr_write_loop_post [of 0 wr k iov_max] r by simp
  have "write_error wr' = write_error wr"
    using wr_post_frame [OF post] by simp
  then have res: "hp_wr_write werr iov_max (Some wr) (k, u) =
      (if e = 0 \<or> e = EAGAIN then (ob, Some wr', k', u)
       else if write_error wr = NULL then (ob, Some (wr'\<lparr>wr_err := e\<rparr>), k', u)
       else (ob, Some ((fst (werr (write_error wr) e (wr', k', u)))\<lparr>wr_err := e\<rparr>),
             snd (werr (write_error wr) e (wr', k', u))))"
    using r False by (auto simp: hp_wr_write_def Let_def split: prod.splits)
  have props: "ob \<le> length (wr_queue (mem k) wr)" "sent k' = sent k @ take ob (wr_queue (mem k) wr)"
    "wr_queue (mem k') wr' = drop ob (wr_queue (mem k) wr)" "o_bytes wr' = o_bytes wr + ob"
    "freed k' @ frees (o_items wr') = freed k @ frees (o_items wr)"
    using post by (auto simp: wr_post_def)
  show ?thesis
    by (intro exI [of _ ob] exI [of _ e] exI [of _ wr'] exI [of _ k'] conjI props res wr_write_loop_error [OF r])
qed

text \<open>
  C12: When the kernel keeps accepting bytes, however few at a time, one call sends the
  whole queue, empties it and releases every buffer.
\<close>

theorem hp_wr_write_drains:
  assumes "all_ok (script k)" and "length (wr_queue (mem k) wr) \<le> length (script k)"
  shows "\<exists>k'. hp_wr_write werr iov_max (Some wr) (k, u) =
      (length (wr_queue (mem k) wr),
       Some (wr\<lparr>o_items := [], o_bytes := o_bytes wr + length (wr_queue (mem k) wr)\<rparr>), k', u) \<and>
    sent k' = sent k @ wr_queue (mem k) wr \<and> freed k' = freed k @ frees (o_items wr)"
proof (cases "o_items wr = []")
  case True
  then show ?thesis by (simp add: hp_wr_write_def wr_queue_def)
next
  case False
  obtain ob e wr' k' where r: "hp_wr_write_loop iov_max 0 wr k = (ob, e, wr', k')"
    using prod_cases4 by blast
  have e: "e = 0" using wr_write_loop_all [OF assms r] .
  have post: "wr_post 0 wr k (ob, e, wr', k')" using wr_write_loop_post [of 0 wr k iov_max] r by simp
  then have items: "o_items wr' = []" using e by (simp add: wr_post_def)
  then have "wr_queue (mem k) wr' = []" by (simp add: wr_queue_def)
  with post have "ob = length (wr_queue (mem k) wr)" by (auto simp: wr_post_def)
  with post items r e False show ?thesis
    by (auto simp: wr_post_def hp_wr_write_def)
qed

text \<open>
  While the kernel only takes bytes, is interrupted or would block, the error
  callback is never called and \<open>err\<close> keeps its value: an interrupted or blocked write is
  no error.
\<close>

lemma hp_wr_write_soft_errors:
  assumes "no_hard_error (script k)"
  shows "\<exists>x wr' k'. hp_wr_write werr iov_max (Some wr) (k, u) = (x, Some wr', k', u) \<and> wr_err wr' = wr_err wr \<and>
    (\<forall>werr'. hp_wr_write werr' iov_max (Some wr) (k, u) = (x, Some wr', k', u))"
proof (cases "o_items wr = []")
  case True
  then show ?thesis by (simp add: hp_wr_write_def)
next
  case False
  obtain ob e wr' k' where r: "hp_wr_write_loop iov_max 0 wr k = (ob, e, wr', k')"
    using prod_cases4 by blast
  have "wr_err wr' = wr_err wr"
    using wr_write_loop_post [of 0 wr k iov_max] r wr_post_frame by simp
  with wr_write_loop_soft [OF assms r] r False show ?thesis by (auto simp: hp_wr_write_def)
qed

subsection \<open>The properties at a concrete queue\<close>

definition kio_example :: "wcall list \<Rightarrow> kio" where
  "kio_example cs = \<lparr>mem = (\<lambda>a. of_nat a), brk = 300, freed = [], k_errno = 0, sent = [], script = cs\<rparr>"

definition wr_example :: hp_wr where
  "wr_example = \<lparr>o_items =
     [\<lparr>ui_ptr = 100, ui_free = LibcFree, ui_vec = \<lparr>iov_base = 100, iov_len = 2\<rparr>\<rparr>,
      \<lparr>ui_ptr = 200, ui_free = NoFree, ui_vec = \<lparr>iov_base = 200, iov_len = 1\<rparr>\<rparr>],
     O_ITEMS_INIT_LEN = 2, O_ITEMS_LEN = 2, o_bytes = 0, write_error = 77, wr_err = 0\<rparr>"

lemmas wr_example_simps = wr_example_def kio_example_def wr_queue_def vec_bytes_def
  iov_bytes_def upt_rec wr_ok_def wr_below_def all_ok_def no_hard_error_def

lemma hp_wr_add_appends_witness:
  "\<exists>wr' k'. hp_wr_add (Some wr_example) 10 3 CopyFree 0 (kio_example []) = (0, Some wr', k') \<and>
    wr_queue (mem k') wr' = [100, 101, 200, 10, 11, 12]"
proof -
  have "wr_ok wr_example" "wr_below (kio_example []) wr_example" "(10::nat) \<noteq> NULL"
    "10 + 3 \<le> brk (kio_example [])"
    by (simp_all add: wr_example_simps)
  from hp_wr_add_appends [OF this, of CopyFree 0] show ?thesis by (auto simp: wr_example_simps)
qed

theorem hp_wr_write_drains_witness:
  "\<exists>k'. hp_wr_write (\<lambda>f e s. s) 1024 (Some wr_example) (kio_example [W_ok 1, W_ok 1, W_ok 9], ()) =
      (3, Some (wr_example\<lparr>o_items := [], o_bytes := 3\<rparr>), k', ()) \<and>
    sent k' = [100, 101, 200] \<and> freed k' = [(LibcFree, 100)]"
proof -
  have "all_ok (script (kio_example [W_ok 1, W_ok 1, W_ok 9]))"
    "length (wr_queue (mem (kio_example [W_ok 1, W_ok 1, W_ok 9])) wr_example) \<le>
      length (script (kio_example [W_ok 1, W_ok 1, W_ok 9]))"
    by (simp_all add: wr_example_simps)
  from hp_wr_write_drains [OF this, of "\<lambda>f e s. s" 1024 "()"] show ?thesis
    by (simp add: wr_example_simps frees_def numeral_3_eq_3)
qed

lemma hp_wr_write_soft_errors_witness:
  "\<exists>x wr' k'. hp_wr_write (\<lambda>f e s. s) 1024 (Some wr_example) (kio_example [W_ok 1, W_err 4], ()) = (x, Some wr', k', ())
    \<and> wr_err wr' = 0"
proof -
  have "no_hard_error (script (kio_example [W_ok 1, W_err 4]))" by (simp add: wr_example_simps)
  from hp_wr_write_soft_errors [OF this, of "\<lambda>f e s. s" 1024 wr_example "()"] show ?thesis
    by (auto simp: wr_example_simps)
qed


subsection \<open>Writing without gather writes\<close>

text \<open>
  Where there is no \<open>writev\<close>, one block is written with \<open>write\<close> until the descriptor would block; a write of one
  block is a gather write of one entry.
\<close>

function wr_do_write_loop :: "iovec \<Rightarrow> nat \<Rightarrow> kio \<Rightarrow> nat \<times> int \<times> iovec \<times> kio" where
  "wr_do_write_loop v nwrite k =
     (let (w, k') = writev [v] k in
      if w \<le> 0 then (nwrite, write_err w (k_errno k'), v, k')
      else if nat w = iov_len v then (nwrite + nat w, 0, v, k')
      else wr_do_write_loop \<lparr>iov_base = iov_base v + nat w, iov_len = iov_len v - nat w\<rparr> (nwrite + nat w) k')"
  by pat_completeness auto
termination
  by (relation "measure (\<lambda>(v, nwrite, k). length (script k))") (auto dest!: writev_script [OF sym])

declare wr_do_write_loop.simps [simp del]

definition hp_wr_do_write :: "iovec option \<Rightarrow> kio \<Rightarrow> int \<times> (int \<times> iovec) option \<times> kio" where
  "hp_wr_do_write vec k =
     (case vec of None \<Rightarrow> (-1, None, k)
      | Some v \<Rightarrow> (case wr_do_write_loop v 0 k of (n, err, v, k) \<Rightarrow> (int n, Some (err, v), k)))"

lemma before_writev_single:
  "n < iov_len v \<Longrightarrow> before_writev [v] n 0 = ([\<lparr>iov_base = iov_base v + n, iov_len = iov_len v - n\<rparr>], 0)"
  by (simp add: before_writev_def before_writev_loop.simps [of "[v]"] Let_def)

lemma writev_single_le: "writev [v] k = (w, k') \<Longrightarrow> w \<le> int (iov_len v)"
  by (auto simp: writev_def vec_bytes_def Let_def split: list.splits wcall.splits)

text \<open>It writes the same bytes with the same calls, count and error as the gather write of the block.\<close>

lemma wr_do_write_loop_uio:
  "(case wr_do_write_loop v nw k of (n, e, v', k') \<Rightarrow> (n, e, k')) =
   (case hp_uio_write_loop [v] 0 nw (nw + iov_len v) k of (n, e, vs, i, k') \<Rightarrow> (n, e, k'))"
proof (induction v nw k rule: wr_do_write_loop.induct)
  case (1 v nw k)
  obtain w k' where wk: "writev [v] k = (w, k')" by fastforce
  show ?case
  proof (cases "w \<le> 0 \<or> nat w = iov_len v")
    case True
    then show ?thesis
      by (subst wr_do_write_loop.simps, subst hp_uio_write_loop.simps) (auto simp: wk)
  next
    case False
    then have lt: "nat w < iov_len v" using writev_single_le [OF wk] by linarith
    let ?v = "\<lparr>iov_base = iov_base v + nat w, iov_len = iov_len v - nat w\<rparr>"
    have "hp_uio_write_loop [v] 0 nw (nw + iov_len v) k = hp_uio_write_loop [?v] 0 (nw + nat w) (nw + iov_len v) k'"
      using False lt by (subst hp_uio_write_loop.simps) (simp add: wk before_writev_single)
    moreover have "wr_do_write_loop v nw k = wr_do_write_loop ?v (nw + nat w) k'"
      using False by (subst wr_do_write_loop.simps) (simp add: wk)
    moreover have "nw + nat w + iov_len ?v = nw + iov_len v" using lt by simp
    ultimately show ?thesis using "1.IH" [OF wk [symmetric] refl] False by simp
  qed
qed

lemma hp_wr_do_write_uio:
  "hp_wr_do_write (Some v) k =
    (case hp_uio_write [v] (iov_len v) k of
       (n, e, _, _, k') \<Rightarrow> (int n, Some (e, fst (snd (snd (wr_do_write_loop v 0 k)))), k'))"
  using wr_do_write_loop_uio [of v 0 k] by (auto simp: hp_wr_do_write_def hp_uio_write_def split: prod.splits)

end
