(* ===== verification/Hp_Rd.thy ===== *)
theory Hp_Rd
  imports Hp_Stdlib Hp_Iostat
begin

section \<open>hp\_io (read side): read until the descriptor would block\<close>

text \<open>
  Models the \<open>hp_rd\<close> half of \<open>src/hp_io.c\<close>. The used part of \<open>i_buf\<close> is a list of
  bytes, so \<open>i_buflen\<close> is its length; \<open>I_BUF_MAX\<close> is the capacity. \<open>read\<close> answers from
  a script: a chunk that has arrived (a shorter read leaves the rest of the chunk to the
  next one), end of file, or an error; an exhausted script answers \<open>EAGAIN\<close>. Each
  answer carries the clock reading \<open>hp_iostat_update\<close> takes. The callback \<open>data\<close> is a
  parameter that maps the buffer and the user state to its result, the bytes it leaves in
  the buffer and the new user state; \<open>read_error\<close> likewise maps the reader and the state.
\<close>

subsection \<open>The world of the descriptor\<close>

datatype rcall = R_data "byte list" | R_eof | R_err int

record rio =
  rscript :: "(rcall \<times> nat) list"
  r_errno :: int
  r_sizes :: "nat list"

definition read_fd :: "nat \<Rightarrow> rio \<Rightarrow> (int \<times> byte list \<times> nat) \<times> rio" where
  "read_fd n k = (let k = k\<lparr>r_sizes := r_sizes k @ [n]\<rparr> in
     case rscript k of
       [] \<Rightarrow> ((-1, [], 0), k\<lparr>r_errno := EAGAIN\<rparr>)
     | (R_err e, t) # r \<Rightarrow> ((-1, [], t), k\<lparr>r_errno := e, rscript := r\<rparr>)
     | (R_eof, t) # r \<Rightarrow> ((0, [], t), k\<lparr>rscript := r\<rparr>)
     | (R_data bs, t) # r \<Rightarrow>
         ((int (min n (length bs)), take n bs, t),
          k\<lparr>rscript := (if n < length bs then (R_data (drop n bs), t) # r else r)\<rparr>))"

definition rscript_size :: "rio \<Rightarrow> nat" where
  "rscript_size k =
     sum_list (map (\<lambda>(c, t). case c of R_data bs \<Rightarrow> Suc (length bs) | R_eof \<Rightarrow> 1 | R_err e \<Rightarrow> 1) (rscript k))"

lemma read_fd_size:
  "read_fd n k = ((r, bs, t), k') \<Longrightarrow> 0 < r \<Longrightarrow> rscript_size k' < rscript_size k"
  by (auto simp: read_fd_def rscript_size_def Let_def split: list.splits rcall.splits if_splits prod.splits)

subsection \<open>The reader\<close>

record hp_rd =
  i_buf :: "byte list"
  i_alloc :: bool
  I_BUF_MAX :: nat
  i_bytes :: nat
  rd_stat :: "hp_iostat option"
  rd_data :: fnptr
  rd_read_error :: fnptr
  rd_err :: int

abbreviation i_buflen :: "hp_rd \<Rightarrow> nat" where "i_buflen rd \<equiv> length (i_buf rd)"

definition hp_rd_init :: "hp_rd option \<Rightarrow> int \<Rightarrow> fnptr \<Rightarrow> fnptr \<Rightarrow> int \<times> hp_rd option" where
  "hp_rd_init rdo bufrlen data re =
     (case rdo of None \<Rightarrow> (-1, None)
      | Some _ \<Rightarrow>
        let bufrlen = (if bufrlen \<le> 0 then 1024 * 8 else bufrlen)
        in (0, Some \<lparr>i_buf = [], i_alloc = False, I_BUF_MAX = nat bufrlen, i_bytes = 0, rd_stat = None,
                     rd_data = data, rd_read_error = re, rd_err = 0\<rparr>))"

definition hp_rd_uninit :: "hp_rd option \<Rightarrow> hp_rd option" where
  "hp_rd_uninit rdo = map_option (\<lambda>rd. rd\<lparr>i_alloc := False\<rparr>) rdo"

text \<open>
  The callbacks of the program: what the functions stored in \<open>data\<close> and \<open>read_error\<close> do.
\<close>

type_synonym 'w data_cb = "fnptr \<Rightarrow> byte list \<Rightarrow> 'w \<Rightarrow> int \<times> byte list \<times> 'w"
type_synonym 'w rerr_cb = "fnptr \<Rightarrow> int \<Rightarrow> hp_rd \<times> 'w \<Rightarrow> hp_rd \<times> 'w"

definition rd_grow :: "hp_rd \<Rightarrow> hp_rd" where
  "rd_grow rd = (if \<not> (i_buflen rd < I_BUF_MAX rd) then rd\<lparr>I_BUF_MAX := I_BUF_MAX rd * 2\<rparr> else rd)"

definition call_data :: "'w data_cb \<Rightarrow> hp_rd \<times> 'w \<Rightarrow> int \<times> hp_rd \<times> 'w" where
  "call_data dcb = (\<lambda>(rd, w).
     (if i_buflen rd > 0
      then let (rc, rest, w) = dcb (rd_data rd) (i_buf rd) w in (rc, rd\<lparr>i_buf := rest\<rparr>, w)
      else (0, rd, w)))"

text \<open>What follows a \<open>read\<close> that returned \<open>n \<le> 0\<close>.\<close>

definition rd_stop :: "'w data_cb \<Rightarrow> 'w rerr_cb \<Rightarrow> int \<Rightarrow> int \<Rightarrow> hp_rd \<times> 'w \<Rightarrow> hp_rd \<times> 'w" where
  "rd_stop dcb recb n errno = (\<lambda>(rd, w).
     (if n < 0 \<and> (errno = EINTR \<or> errno = EAGAIN) then (rd, w)
      else
        let e = (if errno = 0 then EIO else errno);
            (_, rd, w) = call_data dcb (rd\<lparr>rd_err := e\<rparr>, w)
        in if rd_read_error rd \<noteq> NULL then recb (rd_read_error rd) (rd_err rd) (rd, w) else (rd, w)))"

definition rd_got :: "byte list \<Rightarrow> nat \<Rightarrow> hp_rd \<Rightarrow> hp_rd" where
  "rd_got bs t rd =
     rd\<lparr>i_bytes := i_bytes rd + length bs, i_buf := i_buf rd @ bs,
        rd_stat := hp_iostat_update (rd_stat rd) t (length bs)\<rparr>"

function hp_rd_loop ::
  "'w data_cb \<Rightarrow> 'w rerr_cb \<Rightarrow> nat \<Rightarrow> hp_rd \<Rightarrow> 'w \<Rightarrow> rio \<Rightarrow> nat \<times> hp_rd \<times> 'w \<times> rio" where
  "hp_rd_loop dcb recb ib rd w k =
     (case call_data dcb (rd, w) of (rc, rd, w) \<Rightarrow>
       if rc < 0 then (ib, rd\<lparr>rd_err := rc\<rparr>, w, k)
       else
         let rd = rd_grow rd
         in case read_fd (I_BUF_MAX rd - i_buflen rd) k of ((n, bs, t), k) \<Rightarrow>
           if n > 0 then hp_rd_loop dcb recb (ib + nat n) (rd_got bs t rd) w k
           else case rd_stop dcb recb n (r_errno k) (rd, w) of (rd, w) \<Rightarrow> (ib, rd, w, k))"
  by pat_completeness auto
termination
  by (relation "measure (\<lambda>(dcb, recb, ib, rd, w, k). rscript_size k)") (auto dest!: read_fd_size [OF sym])

declare hp_rd_loop.simps [simp del]

definition hp_rd_read ::
  "'w data_cb \<Rightarrow> 'w rerr_cb \<Rightarrow> hp_rd option \<Rightarrow> 'w \<Rightarrow> rio \<Rightarrow> nat \<times> hp_rd option \<times> 'w \<times> rio" where
  "hp_rd_read dcb recb rdo w k =
     (case rdo of None \<Rightarrow> (0, None, w, k)
      | Some rd \<Rightarrow>
        if rd_data rd = NULL then (0, Some rd, w, k)
        else case hp_rd_loop dcb recb 0 (rd\<lparr>i_alloc := True\<rparr>) w k of (n, rd, w, k) \<Rightarrow> (n, Some rd, w, k))"

subsection \<open>Bytes that arrive and bytes that are consumed\<close>

text \<open>The bytes the descriptor still has to deliver.\<close>

definition rcall_bytes :: "rcall \<Rightarrow> byte list" where
  "rcall_bytes c = (case c of R_data bs \<Rightarrow> bs | R_eof \<Rightarrow> [] | R_err e \<Rightarrow> [])"

lemma rcall_bytes_simps [simp]:
  "rcall_bytes (R_data bs) = bs" "rcall_bytes R_eof = []" "rcall_bytes (R_err e) = []"
  by (simp_all add: rcall_bytes_def)

definition rstream :: "rio \<Rightarrow> byte list" where
  "rstream k = concat (map (\<lambda>(c, t). rcall_bytes c) (rscript k))"

lemma read_fd_stream:
  assumes "read_fd n k = ((r, bs, t), k')"
  shows "rstream k = bs @ rstream k'" and "length bs \<le> n" and "r > 0 \<Longrightarrow> nat r = length bs"
    and "r \<le> 0 \<Longrightarrow> bs = []" and "r_sizes k' = r_sizes k @ [n]"
  using assms
  by (auto simp: read_fd_def rstream_def Let_def split: list.splits rcall.splits if_splits prod.splits)

text \<open>
  A consumer takes bytes from the front of the buffer and leaves the rest: the user state
  is the list of the bytes taken. It never leaves more than it was given.
\<close>

definition consumer :: "byte list data_cb \<Rightarrow> bool" where
  "consumer dcb \<longleftrightarrow> (\<forall>f buf w. case dcb f buf w of (rc, rest, w') \<Rightarrow> w' @ rest = w @ buf)"

definition shrinks :: "'w data_cb \<Rightarrow> bool" where
  "shrinks dcb \<longleftrightarrow> (\<forall>f buf w. length (fst (snd (dcb f buf w))) \<le> length buf)"

text \<open>An error callback that looks at the error only, as the ones of the library do.\<close>

definition rd_log :: "byte list rerr_cb" where
  "rd_log f e s = s"

lemma call_data_consumer:
  assumes "consumer dcb" and "call_data dcb (rd, w) = (rc, rd', w')"
  shows "w' @ i_buf rd' = w @ i_buf rd" and "rd' = rd\<lparr>i_buf := i_buf rd'\<rparr>"
  using assms by (auto simp: call_data_def consumer_def Let_def split: if_splits prod.splits)

lemma call_data_shrinks:
  assumes "shrinks dcb" and "call_data dcb (rd, w) = (rc, rd', w')"
  shows "i_buflen rd' \<le> i_buflen rd" and "I_BUF_MAX rd' = I_BUF_MAX rd"
  using assms by (auto simp: call_data_def shrinks_def Let_def dest: spec [of _ "rd_data rd"]
    split: if_splits prod.splits) (metis fst_conv snd_conv)

lemma rd_stop_consumer:
  assumes "consumer dcb" and "rd_stop dcb rd_log n e (rd, w) = (rd', w')"
  shows "w' @ i_buf rd' = w @ i_buf rd" and "i_bytes rd' = i_bytes rd"
  using assms
  by (auto simp: rd_stop_def rd_log_def Let_def call_data_def consumer_def split: if_splits prod.splits)

lemma rd_grow_frame [simp]:
  "i_buf (rd_grow rd) = i_buf rd" "i_bytes (rd_grow rd) = i_bytes rd" "rd_data (rd_grow rd) = rd_data rd"
  "rd_read_error (rd_grow rd) = rd_read_error rd" "rd_stat (rd_grow rd) = rd_stat rd"
  by (simp_all add: rd_grow_def)

lemma rd_got_frame [simp]:
  "i_buf (rd_got bs t rd) = i_buf rd @ bs" "i_bytes (rd_got bs t rd) = i_bytes rd + length bs"
  "I_BUF_MAX (rd_got bs t rd) = I_BUF_MAX rd" "rd_read_error (rd_got bs t rd) = rd_read_error rd"
  by (simp_all add: rd_got_def)

lemma hp_rd_loop_stream:
  assumes "consumer dcb" and "hp_rd_loop dcb rd_log ib rd w k = (ib', rd', w', k')"
  shows "\<exists>bs. rstream k = bs @ rstream k' \<and> ib' = ib + length bs \<and> i_bytes rd' = i_bytes rd + length bs \<and>
    w' @ i_buf rd' = w @ i_buf rd @ bs"
  using assms
proof (induction dcb "rd_log" ib rd w k arbitrary: ib' rd' w' k' rule: hp_rd_loop.induct)
  case (1 dcb ib rd w k)
  note unf = hp_rd_loop.simps [of dcb rd_log ib rd w k]
  obtain rc rd1 w1 where cd: "call_data dcb (rd, w) = (rc, rd1, w1)" using prod_cases3 by blast
  note c = call_data_consumer [OF "1.prems"(1) cd]
  have ib1: "i_bytes rd1 = i_bytes rd" using arg_cong [OF c(2), of i_bytes] by simp
  show ?case
  proof (cases "rc < 0")
    case True
    with "1.prems"(2) cd c ib1 show ?thesis by (auto simp: unf)
  next
    case False
    let ?rd2 = "rd_grow rd1"
    obtain n bs t k1 where rf: "read_fd (I_BUF_MAX ?rd2 - i_buflen ?rd2) k = ((n, bs, t), k1)"
      by (metis prod_cases3 surj_pair)
    note r = read_fd_stream [OF rf]
    show ?thesis
    proof (cases "n > 0")
      case True
      then have res: "hp_rd_loop dcb rd_log (ib + nat n) (rd_got bs t ?rd2) w1 k1 = (ib', rd', w', k')"
        using "1.prems"(2) cd False rf by (simp add: unf Let_def)
      from "1.hyps" [OF cd [symmetric] refl False refl rf [symmetric] refl refl True "1.prems"(1) res]
        r True c ib1 show ?thesis by force
    next
      case np: False
      obtain rd3 w3 where st: "rd_stop dcb rd_log n (r_errno k1) (?rd2, w1) = (rd3, w3)" by fastforce
      with "1.prems"(2) cd False rf np have "ib' = ib" "rd' = rd3" "w' = w3" "k' = k1"
        by (simp_all add: unf Let_def)
      with rd_stop_consumer [OF "1.prems"(1) st] r np c ib1 show ?thesis by auto
    qed
  qed
qed

subsection \<open>Every read asks for at least one byte\<close>

lemma rd_grow_room:
  "0 < I_BUF_MAX rd \<Longrightarrow> i_buflen rd \<le> I_BUF_MAX rd \<Longrightarrow>
   i_buflen rd < I_BUF_MAX (rd_grow rd) \<and> I_BUF_MAX rd \<le> I_BUF_MAX (rd_grow rd)"
  by (auto simp: rd_grow_def)

definition keeps_reader :: "'w rerr_cb \<Rightarrow> bool" where
  "keeps_reader recb \<longleftrightarrow> (\<forall>f e s. fst (recb f e s) = fst s)"

lemma rd_stop_shrinks:
  assumes "shrinks dcb" and "keeps_reader recb" and "rd_stop dcb recb n e (rd, w) = (rd', w')"
  shows "i_buflen rd' \<le> i_buflen rd \<and> I_BUF_MAX rd' = I_BUF_MAX rd"
proof (cases "n < 0 \<and> (e = EINTR \<or> e = EAGAIN)")
  case True
  with assms(3) show ?thesis by (auto simp: rd_stop_def)
next
  case False
  obtain rc rd1 w1 where cd: "call_data dcb (rd\<lparr>rd_err := if e = 0 then EIO else e\<rparr>, w) = (rc, rd1, w1)"
    using prod_cases3 by blast
  from False assms(2,3) cd have "rd' = rd1"
    by (auto simp: rd_stop_def Let_def keeps_reader_def split: if_splits) (metis fst_conv)+
  with call_data_shrinks [OF assms(1) cd] show ?thesis by simp
qed

lemma hp_rd_loop_sizes:
  assumes "shrinks dcb" and "keeps_reader recb" and "0 < I_BUF_MAX rd" and "i_buflen rd \<le> I_BUF_MAX rd"
    and "hp_rd_loop dcb recb ib rd w k = (ib', rd', w', k')"
  shows "i_buflen rd' \<le> I_BUF_MAX rd' \<and> I_BUF_MAX rd \<le> I_BUF_MAX rd' \<and>
    (\<exists>ss. r_sizes k' = r_sizes k @ ss \<and> 0 \<notin> set ss)"
  using assms
proof (induction dcb recb ib rd w k arbitrary: ib' rd' w' k' rule: hp_rd_loop.induct)
  case (1 dcb recb ib rd w k)
  note unf = hp_rd_loop.simps [of dcb recb ib rd w k]
  obtain rc rd1 w1 where cd: "call_data dcb (rd, w) = (rc, rd1, w1)" using prod_cases3 by blast
  note c = call_data_shrinks [OF "1.prems"(1) cd]
  show ?case
  proof (cases "rc < 0")
    case True
    with "1.prems" cd c show ?thesis by (auto simp: unf)
  next
    case False
    let ?rd2 = "rd_grow rd1"
    let ?n = "I_BUF_MAX ?rd2 - i_buflen ?rd2"
    have room: "i_buflen rd1 < I_BUF_MAX ?rd2 \<and> I_BUF_MAX rd1 \<le> I_BUF_MAX ?rd2"
      using rd_grow_room [of rd1] c "1.prems" by simp
    obtain n bs t k1 where rf: "read_fd ?n k = ((n, bs, t), k1)"
      by (metis prod_cases3 surj_pair)
    note r = read_fd_stream [OF rf]
    show ?thesis
    proof (cases "n > 0")
      case True
      then have res: "hp_rd_loop dcb recb (ib + nat n) (rd_got bs t ?rd2) w1 k1 = (ib', rd', w', k')"
        using "1.prems"(5) cd False rf by (simp add: unf Let_def)
      note ih = "1.IH" [OF cd [symmetric] refl False refl rf [symmetric] refl refl True "1.prems"(1,2) _ _ res]
      have "0 < I_BUF_MAX (rd_got bs t ?rd2)" "i_buflen (rd_got bs t ?rd2) \<le> I_BUF_MAX (rd_got bs t ?rd2)"
        using room r(2) by (simp_all, linarith)
      from ih [OF this] r(5) room c(2) show ?thesis by force
    next
      case np: False
      obtain rd3 w3 where st: "rd_stop dcb recb n (r_errno k1) (?rd2, w1) = (rd3, w3)" by fastforce
      with "1.prems"(5) cd False rf np have "rd' = rd3" "k' = k1" by (simp_all add: unf Let_def)
      with rd_stop_shrinks [OF "1.prems"(1,2) st] r(5) room c(2) show ?thesis by auto
    qed
  qed
qed

text \<open>
  A property of the program's state that both callbacks keep holds after a read, and an
  error noted in the reader is never cleared.
\<close>

lemma rd_stop_keeps:
  assumes "\<And>f buf w. P w \<Longrightarrow> P (snd (snd (dcb f buf w)))"
    and "\<And>f e rd w. P w \<Longrightarrow> rd_err rd \<noteq> 0 \<Longrightarrow> P (snd (recb f e (rd, w))) \<and> rd_err (fst (recb f e (rd, w))) \<noteq> 0"
    and "P w" and "rd_err rd \<noteq> 0" and "rd_stop dcb recb n e (rd, w) = (rd', w')"
  shows "P w' \<and> rd_err rd' \<noteq> 0"
proof (cases "n < 0 \<and> (e = EINTR \<or> e = EAGAIN)")
  case True
  with assms(3-5) show ?thesis by (auto simp: rd_stop_def)
next
  case False
  let ?rd = "rd\<lparr>rd_err := if e = 0 then EIO else e\<rparr>"
  obtain rc rd1 w1 where cd: "call_data dcb (?rd, w) = (rc, rd1, w1)" using prod_cases3 by blast
  have 1: "P w1 \<and> rd_err rd1 = rd_err ?rd"
    using cd assms(3) assms(1) [of w "rd_data rd" "i_buf rd"] by (auto simp: call_data_def split: if_splits prod.splits)
  then have 2: "rd_err rd1 \<noteq> 0" by simp
  from False assms(5) cd have "(rd', w') =
    (if rd_read_error rd1 \<noteq> NULL then recb (rd_read_error rd1) (rd_err rd1) (rd1, w1) else (rd1, w1))"
    by (simp only: rd_stop_def prod.case Let_def if_False)
  with 1 2 assms(2) [of w1 rd1 "rd_read_error rd1" "rd_err rd1"] show ?thesis by (metis fst_conv snd_conv)
qed

lemma hp_rd_loop_keeps:
  assumes "\<And>f buf w. P w \<Longrightarrow> P (snd (snd (dcb f buf w)))"
    and "\<And>f e rd w. P w \<Longrightarrow> rd_err rd \<noteq> 0 \<Longrightarrow> P (snd (recb f e (rd, w))) \<and> rd_err (fst (recb f e (rd, w))) \<noteq> 0"
    and "P w" and "rd_err rd \<noteq> 0" and "hp_rd_loop dcb recb ib rd w k = (ib', rd', w', k')"
  shows "P w' \<and> rd_err rd' \<noteq> 0"
  using assms
proof (induction dcb recb ib rd w k rule: hp_rd_loop.induct)
  case (1 dcb recb ib rd w k)
  note unf = hp_rd_loop.simps [of dcb recb ib rd w k]
  obtain rc rd1 w1 where cd: "call_data dcb (rd, w) = (rc, rd1, w1)" using prod_cases3 by blast
  have c: "P w1 \<and> rd_err rd1 \<noteq> 0"
    using cd "1.prems"(3,4) "1.prems"(1) [of w "rd_data rd" "i_buf rd"]
    by (auto simp: call_data_def split: if_splits prod.splits)
  show ?case
  proof (cases "rc < 0")
    case True
    with "1.prems"(5) cd c show ?thesis by (auto simp: unf)
  next
    case False
    let ?rd2 = "rd_grow rd1"
    obtain n bs t k1 where rf: "read_fd (I_BUF_MAX ?rd2 - i_buflen ?rd2) k = ((n, bs, t), k1)"
      by (metis prod_cases3 surj_pair)
    have c2: "rd_err ?rd2 \<noteq> 0" "rd_err (rd_got bs t ?rd2) \<noteq> 0" using c by (simp_all add: rd_grow_def rd_got_def)
    show ?thesis
    proof (cases "n > 0")
      case True
      then have res: "hp_rd_loop dcb recb (ib + nat n) (rd_got bs t ?rd2) w1 k1 = (ib', rd', w', k')"
        using "1.prems"(5) cd False rf by (simp add: unf Let_def)
      show ?thesis
        by (rule "1.IH" [OF cd [symmetric] refl False refl rf [symmetric] refl refl True "1.prems"(1,2) _ c2(2) res])
          (use c in auto)
    next
      case np: False
      obtain rd3 w3 where st: "rd_stop dcb recb n (r_errno k1) (?rd2, w1) = (rd3, w3)" by fastforce
      with "1.prems"(5) cd False rf np have "rd' = rd3" "w' = w3" by (simp_all add: unf Let_def)
      with rd_stop_keeps [OF "1.prems"(1,2) _ c2(1) st] c show ?thesis by simp
    qed
  qed
qed

subsection \<open>Properties\<close>

text \<open>
  C2: Reading loses and repeats nothing: with any data callback that takes bytes from the
  front of the buffer, the bytes taken followed by the bytes left in the buffer are the
  old ones followed by exactly the bytes that arrived, the result counts them, and
  \<open>i_bytes\<close> grows by as many.
\<close>

theorem hp_rd_read_stream:
  assumes "consumer dcb" and "rd_data rd \<noteq> NULL"
    and "hp_rd_read dcb rd_log (Some rd) w k = (x, Some rd', w', k')"
  shows "\<exists>bs. rstream k = bs @ rstream k' \<and> x = length bs \<and> i_bytes rd' = i_bytes rd + length bs \<and>
    w' @ i_buf rd' = w @ i_buf rd @ bs"
proof -
  have "hp_rd_loop dcb rd_log 0 (rd\<lparr>i_alloc := True\<rparr>) w k = (x, rd', w', k')"
    using assms(2,3) by (auto simp: hp_rd_read_def split: prod.splits)
  from hp_rd_loop_stream [OF assms(1) this] show ?thesis by simp
qed

text \<open>
  C13: The buffer is enlarged before it is full, so every \<open>read\<close> asks for at least one
  byte and a zero result always means end of file; the buffer's used part never exceeds
  its capacity, which never shrinks.
\<close>

theorem hp_rd_read_bounds:
  assumes "shrinks dcb" and "keeps_reader recb" and "0 < I_BUF_MAX rd" and "i_buflen rd \<le> I_BUF_MAX rd"
    and "hp_rd_read dcb recb (Some rd) w k = (x, Some rd', w', k')"
  shows "i_buflen rd' \<le> I_BUF_MAX rd' \<and> I_BUF_MAX rd \<le> I_BUF_MAX rd' \<and>
    (\<exists>ss. r_sizes k' = r_sizes k @ ss \<and> 0 \<notin> set ss)"
proof (cases "rd_data rd = NULL")
  case True
  with assms(4,5) show ?thesis by (auto simp: hp_rd_read_def intro!: exI [of _ "[]"])
next
  case False
  with assms(5) have "hp_rd_loop dcb recb 0 (rd\<lparr>i_alloc := True\<rparr>) w k = (x, rd', w', k')"
    by (auto simp: hp_rd_read_def split: prod.splits)
  from hp_rd_loop_sizes [OF assms(1,2) _ _ this] assms(3,4) show ?thesis by simp
qed

text \<open>What end of file leads to, in terms of the answers still to come.\<close>

definition accepts :: "'w data_cb \<Rightarrow> bool" where
  "accepts dcb \<longleftrightarrow> (\<forall>f buf w. 0 \<le> fst (dcb f buf w))"

definition data_chunk :: "rcall \<times> nat \<Rightarrow> bool" where
  "data_chunk c = (case fst c of R_data bs \<Rightarrow> bs \<noteq> [] | R_eof \<Rightarrow> False | R_err e \<Rightarrow> False)"

lemma read_fd_chunk:
  assumes "rscript k = ds @ (R_eof, t0) # rest" and "list_all data_chunk ds" and "0 < n"
    and "read_fd n k = ((r, bs, t), k')"
  shows "(r \<le> 0 \<longrightarrow> r = 0 \<and> ds = [] \<and> rscript k' = rest) \<and> r_errno k' = r_errno k \<and>
    (r > 0 \<longrightarrow> (\<exists>ds'. rscript k' = ds' @ (R_eof, t0) # rest \<and> list_all data_chunk ds'))"
proof (cases ds)
  case Nil
  with assms show ?thesis by (auto simp: read_fd_def Let_def)
next
  case (Cons d ds')
  obtain xs t1 where d: "d = (R_data xs, t1)" "xs \<noteq> []"
    using Cons assms(2) by (cases d; cases "fst d") (auto simp: data_chunk_def)
  have pos: "0 < int (min n (length xs))" using assms(3) d by simp
  show ?thesis
  proof (cases "n < length xs")
    case True
    then have "rscript k' = ((R_data (drop n xs), t1) # ds') @ (R_eof, t0) # rest" "r_errno k' = r_errno k" "r > 0"
      using assms d Cons by (auto simp: read_fd_def Let_def)
    moreover have "list_all data_chunk ((R_data (drop n xs), t1) # ds')"
      using True Cons assms(2) by (simp add: data_chunk_def)
    ultimately show ?thesis by (metis not_le)
  next
    case False
    with assms d Cons pos show ?thesis by (auto simp: read_fd_def Let_def)
  qed
qed

lemma call_data_accepts:
  assumes "accepts dcb" and "call_data dcb (rd, w) = (rc, rd', w')"
  shows "\<not> rc < 0"
  using assms
  by (auto simp: call_data_def accepts_def Let_def not_less split: if_splits prod.splits dest: spec [of _ "rd_data rd"])
    (metis fst_conv)

lemma hp_rd_loop_eof:
  assumes "accepts dcb" and "shrinks dcb" and "consumer dcb" and "0 < I_BUF_MAX rd"
    and "i_buflen rd \<le> I_BUF_MAX rd" and "rd_read_error rd \<noteq> NULL"
    and "rscript k = ds @ (R_eof, t0) # rest" and "list_all data_chunk ds"
    and "hp_rd_loop dcb recb ib rd w k = (ib', rd', w', k')"
  shows "\<exists>rd1 w1. (rd', w') = recb (rd_read_error rd) (rd_err rd1) (rd1, w1) \<and> rscript k' = rest \<and>
    rd_err rd1 = (if r_errno k = 0 then EIO else r_errno k) \<and>
    (\<exists>bs. rstream k = bs @ rstream k' \<and> ib' = ib + length bs \<and> w1 @ i_buf rd1 = w @ i_buf rd @ bs)"
  using assms
proof (induction dcb recb ib rd w k arbitrary: ib' rd' w' k' ds rule: hp_rd_loop.induct)
  case (1 dcb recb ib rd w k)
  note unf = hp_rd_loop.simps [of dcb recb ib rd w k]
  obtain rc rd1 w1 where cd: "call_data dcb (rd, w) = (rc, rd1, w1)" using prod_cases3 by blast
  note cs = call_data_shrinks [OF "1.prems"(2) cd] and cc = call_data_consumer [OF "1.prems"(3) cd]
  note ac = call_data_accepts [OF "1.prems"(1) cd]
  have re1: "rd_read_error rd1 = rd_read_error rd" using arg_cong [OF cc(2), of rd_read_error] by simp
  let ?rd2 = "rd_grow rd1"
  let ?n = "I_BUF_MAX ?rd2 - i_buflen ?rd2"
  have room: "i_buflen rd1 < I_BUF_MAX ?rd2 \<and> I_BUF_MAX rd1 \<le> I_BUF_MAX ?rd2"
    using rd_grow_room [of rd1] cs "1.prems" by simp
  obtain n bs t k1 where rf: "read_fd ?n k = ((n, bs, t), k1)"
    by (metis prod_cases3 surj_pair)
  note r = read_fd_stream [OF rf]
  have "0 < ?n" using room by simp
  note ch = read_fd_chunk [OF "1.prems"(7,8) this rf]
  show ?case
  proof (cases "n > 0")
    case True
    then have res: "hp_rd_loop dcb recb (ib + nat n) (rd_got bs t ?rd2) w1 k1 = (ib', rd', w', k')"
      using "1.prems"(9) cd ac rf by (simp add: unf Let_def)
    from ch True obtain ds' where ds': "rscript k1 = ds' @ (R_eof, t0) # rest" "list_all data_chunk ds'" by blast
    note ih = "1.IH" [OF cd [symmetric] refl ac refl rf [symmetric] refl refl True "1.prems"(1-3) _ _ _ ds' res]
    have "0 < I_BUF_MAX (rd_got bs t ?rd2)" "i_buflen (rd_got bs t ?rd2) \<le> I_BUF_MAX (rd_got bs t ?rd2)"
      "rd_read_error (rd_got bs t ?rd2) \<noteq> NULL"
      using room r(2) "1.prems"(6) re1 by (simp_all, linarith)
    moreover have er: "r_errno k1 = r_errno k" using ch by blast
    ultimately obtain rd3 w3 cs where
      "(rd', w') = recb (rd_read_error rd) (rd_err rd3) (rd3, w3)" "rscript k' = rest"
      "rd_err rd3 = (if r_errno k = 0 then EIO else r_errno k)"
      "rstream k1 = cs @ rstream k'" "ib' = ib + nat n + length cs"
      "w3 @ i_buf rd3 = w1 @ i_buf rd1 @ bs @ cs"
      using ih [unfolded er] by (auto simp: re1)
    with r True cc show ?thesis
      by (intro exI [of _ rd3] exI [of _ w3] conjI exI [of _ "bs @ cs"]) (auto simp flip: append_assoc)
  next
    case np: False
    with ch have n0: "n = 0" "rscript k1 = rest" "r_errno k1 = r_errno k" by auto
    let ?e = "if r_errno k = 0 then EIO else r_errno k"
    obtain rc4 rd4 w4 where cd4: "call_data dcb (?rd2\<lparr>rd_err := ?e\<rparr>, w1) = (rc4, rd4, w4)"
      using prod_cases3 by blast
    note c4 = call_data_consumer [OF "1.prems"(3) cd4]
    have re4: "rd_read_error rd4 = rd_read_error rd" "rd_err rd4 = ?e"
      using arg_cong [OF c4(2), of rd_read_error] arg_cong [OF c4(2), of rd_err] re1 by simp_all
    have "rd_stop dcb recb n (r_errno k1) (?rd2, w1) = recb (rd_read_error rd) (rd_err rd4) (rd4, w4)"
      using n0 cd4 re4 "1.prems"(6) by (simp add: rd_stop_def Let_def)
    then have "(rd', w') = recb (rd_read_error rd) (rd_err rd4) (rd4, w4)" "ib' = ib" "k' = k1"
      using "1.prems"(9) cd ac rf np by (auto simp: unf Let_def split: prod.splits)
    with r n0 re4 c4 cc show ?thesis by (intro exI [of _ rd4] exI [of _ w4]) simp
  qed
qed

text \<open>
  When the peer sends chunks and closes, one call delivers every byte to the data
  callback and then calls the error callback exactly once, with \<open>EIO\<close>, or with whatever
  \<open>errno\<close> an earlier call left behind.
\<close>

lemma hp_rd_read_eof:
  assumes "accepts dcb" and "shrinks dcb" and "consumer dcb"
    and "0 < I_BUF_MAX rd" and "i_buflen rd \<le> I_BUF_MAX rd" and "rd_read_error rd \<noteq> NULL" and "rd_data rd \<noteq> NULL"
    and "rscript k = ds @ [(R_eof, t0)]" and "list_all data_chunk ds"
  shows "\<exists>rd1 w1 k'. hp_rd_read dcb recb (Some rd) w k =
      (length (rstream k), Some (fst (recb (rd_read_error rd) (rd_err rd1) (rd1, w1))),
       snd (recb (rd_read_error rd) (rd_err rd1) (rd1, w1)), k') \<and>
    w1 @ i_buf rd1 = w @ i_buf rd @ rstream k \<and> rd_err rd1 = (if r_errno k = 0 then EIO else r_errno k)"
proof -
  obtain x rd' w' k' where l: "hp_rd_loop dcb recb 0 (rd\<lparr>i_alloc := True\<rparr>) w k = (x, rd', w', k')"
    using prod_cases4 by blast
  from hp_rd_loop_eof [OF assms(1-3) _ _ _ assms(8,9) l] assms(4-6) obtain rd1 w1 bs where
    *: "(rd', w') = recb (rd_read_error rd) (rd_err rd1) (rd1, w1)" "rscript k' = []"
    "rd_err rd1 = (if r_errno k = 0 then EIO else r_errno k)" "rstream k = bs @ rstream k'"
    "x = length bs" "w1 @ i_buf rd1 = w @ i_buf rd @ bs"
    by auto
  have bs: "rstream k = bs" using *(2,4) by (simp add: rstream_def)
  have call: "hp_rd_read dcb recb (Some rd) w k = (x, Some rd', w', k')"
    using l assms(7) by (simp add: hp_rd_read_def)
  have buf: "w1 @ i_buf rd1 = w @ i_buf rd @ rstream k" unfolding bs by (rule *(6))
  have re: "recb (rd_read_error rd) (rd_err rd1) (rd1, w1) = (rd', w')" using *(1) by (rule sym)
  have "hp_rd_read dcb recb (Some rd) w k =
      (length (rstream k), Some (fst (recb (rd_read_error rd) (rd_err rd1) (rd1, w1))),
       snd (recb (rd_read_error rd) (rd_err rd1) (rd1, w1)), k')"
    unfolding re bs call *(5) by simp
  with buf *(3) have "hp_rd_read dcb recb (Some rd) w k =
      (length (rstream k), Some (fst (recb (rd_read_error rd) (rd_err rd1) (rd1, w1))),
       snd (recb (rd_read_error rd) (rd_err rd1) (rd1, w1)), k') \<and>
    w1 @ i_buf rd1 = w @ i_buf rd @ rstream k \<and> rd_err rd1 = (if r_errno k = 0 then EIO else r_errno k)"
    by (intro conjI)
  then show ?thesis by (intro exI [of _ rd1] exI [of _ w1] exI [of _ k'])
qed

subsection \<open>The properties at a concrete reader\<close>

text \<open>A callback that takes pairs of bytes and leaves an odd one for the next call.\<close>

definition take_pairs :: "byte list data_cb" where
  "take_pairs f buf w = (let n = 2 * (length buf div 2) in (0, drop n buf, w @ take n buf))"

definition rd_example :: hp_rd where
  "rd_example = \<lparr>i_buf = [], i_alloc = False, I_BUF_MAX = 2, i_bytes = 0, rd_stat = None, rd_data = 5,
     rd_read_error = 6, rd_err = 0\<rparr>"

definition rio_example :: rio where
  "rio_example = \<lparr>rscript = [(R_data [1, 2, 3], 0), (R_data [4, 5], 1), (R_eof, 2)], r_errno = 0, r_sizes = []\<rparr>"

lemma take_pairs_ok: "consumer take_pairs" "shrinks take_pairs" "accepts take_pairs"
  by (simp_all add: consumer_def shrinks_def accepts_def take_pairs_def Let_def)

lemma rd_log_keeps: "keeps_reader rd_log"
  by (simp add: keeps_reader_def rd_log_def)

lemma rd_example_run:
  "hp_rd_read take_pairs rd_log (Some rd_example) [] rio_example =
    (5, Some (rd_example\<lparr>i_buf := [5], i_alloc := True, i_bytes := 5, rd_err := 5\<rparr>), [1, 2, 3, 4],
     \<lparr>rscript = [], r_errno = 0, r_sizes = [2, 2, 1, 2, 1]\<rparr>)"
  by code_simp

theorem hp_rd_read_stream_witness:
  "\<exists>bs k'. rstream rio_example = bs @ rstream k' \<and> 5 = length bs \<and> [1, 2, 3, 4] @ [5] = [] @ [] @ bs"
proof -
  have "rd_data rd_example \<noteq> NULL" by (simp add: rd_example_def)
  from hp_rd_read_stream [OF take_pairs_ok(1) this rd_example_run] show ?thesis
    by (auto simp: rd_example_def)
qed

theorem hp_rd_read_bounds_witness:
  "\<exists>ss. [2, 2, 1, 2, 1 :: nat] = r_sizes rio_example @ ss \<and> 0 \<notin> set ss"
proof -
  have "0 < I_BUF_MAX rd_example" "i_buflen rd_example \<le> I_BUF_MAX rd_example" by (simp_all add: rd_example_def)
  from hp_rd_read_bounds [OF take_pairs_ok(2) rd_log_keeps this rd_example_run] show ?thesis by simp
qed

lemma hp_rd_read_eof_witness:
  "\<exists>(rd1 :: hp_rd) w1. w1 @ i_buf rd1 = [1, 2, 3, 4, 5] \<and> rd_err rd1 = EIO"
proof -
  have "rscript rio_example = [(R_data [1, 2, 3], 0), (R_data [4, 5], 1)] @ [(R_eof, 2)]"
    by (simp add: rio_example_def)
  moreover have "0 < I_BUF_MAX rd_example" "i_buflen rd_example \<le> I_BUF_MAX rd_example"
    "rd_read_error rd_example \<noteq> NULL" "rd_data rd_example \<noteq> NULL"
    "list_all data_chunk [(R_data [1, 2, 3], 0), (R_data [4, 5], 1)]"
    by (simp_all add: rd_example_def data_chunk_def)
  ultimately have "\<exists>rd1 w1 k'. hp_rd_read take_pairs rd_log (Some rd_example) [] rio_example =
      (length (rstream rio_example), Some (fst (rd_log (rd_read_error rd_example) (rd_err rd1) (rd1, w1))),
       snd (rd_log (rd_read_error rd_example) (rd_err rd1) (rd1, w1)), k') \<and>
    w1 @ i_buf rd1 = [] @ i_buf rd_example @ rstream rio_example \<and>
    rd_err rd1 = (if r_errno rio_example = 0 then EIO else r_errno rio_example)"
    by (intro hp_rd_read_eof [OF take_pairs_ok(3,2,1), of rd_example rio_example
      "[(R_data [1, 2, 3], 0), (R_data [4, 5], 1)]" 2 rd_log "[]"])
  then obtain rd1 :: hp_rd and w1 where "w1 @ i_buf rd1 = [] @ i_buf rd_example @ rstream rio_example"
    "rd_err rd1 = (if r_errno rio_example = 0 then EIO else r_errno rio_example)" by blast
  then show ?thesis
    by (intro exI [of _ rd1] exI [of _ w1]) (simp add: rd_example_def rio_example_def rstream_def)
qed

end
