(* ===== verification/Hp_Registry.thy ===== *)
theory Hp_Registry
  imports Prelude
begin

section \<open>The event registry: the contract of the epoll and poll tables\<close>

text \<open>
  \<open>hp_epoll\<close>, \<open>hp_poll\<close> and their clients (\<open>hp_io_t\<close>, the signal, timer and inotify
  helpers) agree on one interface: a bounded table that maps a descriptor to its
  callbacks, with add (or replace), remove and find. The abstract table is the list of
  its entries in insertion order. The locales state what an implementation promises;
  the lemmas proved in them are what a client may rely on.
\<close>

subsection \<open>The abstract table\<close>

definition reg_put :: "sock \<Rightarrow> 'd \<Rightarrow> (sock \<times> 'd) list \<Rightarrow> (sock \<times> 'd) list" where
  "reg_put fd d es =
     (if fd \<in> fst ` set es then map (\<lambda>e. if fst e = fd then (fd, d) else e) es else es @ [(fd, d)])"

definition reg_del :: "sock \<Rightarrow> (sock \<times> 'd) list \<Rightarrow> (sock \<times> 'd) list" where
  "reg_del fd es = filter (\<lambda>e. fst e \<noteq> fd) es"

definition reg_find :: "('d \<Rightarrow> bool) \<Rightarrow> (sock \<times> 'd) list \<Rightarrow> 'd option" where
  "reg_find P es = map_option snd (find (\<lambda>e. P (snd e)) es)"

lemma map_fst_reg_put:
  "map fst (reg_put fd d es) = (if fd \<in> fst ` set es then map fst es else map fst es @ [fd])"
  by (auto simp: reg_put_def)

lemma distinct_reg_put: "distinct (map fst es) \<Longrightarrow> distinct (map fst (reg_put fd d es))"
  by (auto simp: map_fst_reg_put)

lemma distinct_reg_del: "distinct (map fst es) \<Longrightarrow> distinct (map fst (reg_del fd es))"
  by (simp add: reg_del_def distinct_map_filter)

lemma map_of_update_in_place:
  "map_of (map (\<lambda>e. if fst e = fd then (fd, d) else e) es) =
   (if fd \<in> fst ` set es then (map_of es)(fd \<mapsto> d) else map_of es)"
  by (induction es) (auto simp: fun_eq_iff)

lemma map_of_reg_put: "map_of (reg_put fd d es) = (map_of es)(fd \<mapsto> d)"
proof (cases "fd \<in> fst ` set es")
  case True
  then show ?thesis by (simp add: reg_put_def map_of_update_in_place)
next
  case False
  then have "map_of es fd = None" by (simp add: map_of_eq_None_iff)
  with False show ?thesis by (auto simp: reg_put_def fun_eq_iff map_add_def split: option.splits)
qed

lemma map_of_reg_del: "map_of (reg_del fd es) = (map_of es)(fd := None)"
  by (induction es) (auto simp: reg_del_def fun_eq_iff)

lemma length_reg_put: "length (reg_put fd d es) = (if fd \<in> fst ` set es then length es else Suc (length es))"
  by (simp add: reg_put_def)

lemma length_reg_del: "length (reg_del fd es) \<le> length es"
  by (simp add: reg_del_def)

lemma reg_del_notin: "fd \<notin> fst ` set es \<Longrightarrow> reg_del fd es = es"
  by (auto simp: reg_del_def filter_id_conv)

lemma reg_del_put_fresh: "fd \<notin> fst ` set es \<Longrightarrow> reg_del fd (reg_put fd d es) = es"
  by (auto simp: reg_put_def reg_del_def filter_id_conv)

lemma reg_put_mem: "fd \<in> fst ` set (reg_put fd d es)"
proof -
  have "fd \<in> set (map fst (reg_put fd d es))" by (auto simp: map_fst_reg_put)
  then show ?thesis by simp
qed

lemma find_snoc: "find P (xs @ [x]) = (case find P xs of None \<Rightarrow> if P x then Some x else None | Some y \<Rightarrow> Some y)"
  by (induction xs) auto

lemma reg_del_at:
  assumes "distinct (map fst es)" and "i < length es" and "fst (es ! i) = fd"
  shows "reg_del fd es = del_at i es"
proof -
  have es: "es = take i es @ es ! i # drop (Suc i) es" by (rule id_take_nth_drop [OF assms(2)])
  have d: "distinct (map fst (take i es) @ fst (es ! i) # map fst (drop (Suc i) es))"
    using assms(1) by (metis es list.simps(9) map_append)
  have "fd \<notin> fst ` set (take i es)" "fd \<notin> fst ` set (drop (Suc i) es)"
    using d assms(3) by (simp_all del: take_map drop_map)
  then have "filter (\<lambda>e. fst e \<noteq> fd) (take i es) = take i es"
    "filter (\<lambda>e. fst e \<noteq> fd) (drop (Suc i) es) = drop (Suc i) es"
    by (auto simp: filter_id_conv)
  then have "filter (\<lambda>e. fst e \<noteq> fd) (take i es @ es ! i # drop (Suc i) es) = take i es @ drop (Suc i) es"
    using assms(3) by simp
  with es show ?thesis unfolding reg_del_def del_at_def by (rule subst [where P = "\<lambda>x. filter (\<lambda>e. fst e \<noteq> fd) x = _", OF sym])
qed

lemma reg_put_at:
  assumes "distinct (map fst es)" and "i < length es" and "fst (es ! i) = fd"
  shows "reg_put fd d es = es[i := (fd, d)]"
proof (rule nth_equalityI)
  have mem: "fd \<in> fst ` set es" using assms by (metis image_eqI nth_mem)
  then show "length (reg_put fd d es) = length (es[i := (fd, d)])" by (simp add: length_reg_put)
  fix j assume "j < length (reg_put fd d es)"
  with mem have j: "j < length es" by (simp add: length_reg_put)
  have "fst (es ! j) = fd \<longleftrightarrow> j = i"
    using assms j by (metis distinct_conv_nth length_map nth_map)
  with j mem show "reg_put fd d es ! j = es[i := (fd, d)] ! j"
    by (auto simp: reg_put_def nth_list_update)
qed

text \<open>Sequences of requests, on an implementation and on the abstract table.\<close>

datatype 'd reg_op = Op_add sock 'd | Op_rm sock

definition reg_step :: "nat \<Rightarrow> 'd reg_op \<Rightarrow> (sock \<times> 'd) list \<Rightarrow> (sock \<times> 'd) list" where
  "reg_step cap r es =
     (case r of
        Op_add fd d \<Rightarrow> if fd \<in> fst ` set es \<or> length es < cap then reg_put fd d es else es
      | Op_rm fd \<Rightarrow> reg_del fd es)"

definition impl_step ::
  "(sock \<Rightarrow> 'd \<Rightarrow> 's \<Rightarrow> int \<times> 's) \<Rightarrow> (sock \<Rightarrow> 's \<Rightarrow> int \<times> 's) \<Rightarrow> 'd reg_op \<Rightarrow> 's \<Rightarrow> 's" where
  "impl_step add rm r s = (case r of Op_add fd d \<Rightarrow> snd (add fd d s) | Op_rm fd \<Rightarrow> snd (rm fd s))"

definition op_valid :: "'d reg_op \<Rightarrow> bool" where
  "op_valid r = (case r of Op_add fd d \<Rightarrow> 0 \<le> fd | Op_rm fd \<Rightarrow> True)"

subsection \<open>The contract\<close>

locale event_registry =
  fixes inv :: "'s \<Rightarrow> bool"
    and entries :: "'s \<Rightarrow> (sock \<times> 'd) list"
    and capacity :: "'s \<Rightarrow> nat"
    and add :: "sock \<Rightarrow> 'd \<Rightarrow> 's \<Rightarrow> int \<times> 's"
    and rm :: "sock \<Rightarrow> 's \<Rightarrow> int \<times> 's"
  assumes inv_distinct: "inv s \<Longrightarrow> distinct (map fst (entries s))"
    and inv_capacity: "inv s \<Longrightarrow> length (entries s) \<le> capacity s"
    and add_room: "inv s \<Longrightarrow> 0 \<le> fd \<Longrightarrow> fd \<in> fst ` set (entries s) \<or> length (entries s) < capacity s \<Longrightarrow>
      fst (add fd d s) = 0 \<and> entries (snd (add fd d s)) = reg_put fd d (entries s)"
    and add_full: "inv s \<Longrightarrow> 0 \<le> fd \<Longrightarrow> fd \<notin> fst ` set (entries s) \<Longrightarrow> capacity s \<le> length (entries s) \<Longrightarrow>
      fst (add fd d s) = -2 \<and> entries (snd (add fd d s)) = entries s"
    and rm_entries: "inv s \<Longrightarrow> entries (snd (rm fd s)) = reg_del fd (entries s)"
    and rm_result: "inv s \<Longrightarrow> fst (rm fd s) = 0 \<longleftrightarrow> fd \<in> fst ` set (entries s)"
    and add_inv: "inv s \<Longrightarrow> 0 \<le> fd \<Longrightarrow> inv (snd (add fd d s)) \<and> capacity (snd (add fd d s)) = capacity s"
    and rm_inv: "inv s \<Longrightarrow> inv (snd (rm fd s)) \<and> capacity (snd (rm fd s)) = capacity s"
begin

lemma lookup_add:
  "inv s \<Longrightarrow> 0 \<le> fd \<Longrightarrow> fst (add fd d s) = 0 \<Longrightarrow>
   map_of (entries (snd (add fd d s))) = (map_of (entries s))(fd \<mapsto> d)"
  using add_room [of s fd d] add_full [of s fd d] by (cases "fd \<in> fst ` set (entries s) \<or> length (entries s) < capacity s")
    (auto simp: map_of_reg_put)

lemma lookup_rm: "inv s \<Longrightarrow> map_of (entries (snd (rm fd s))) = (map_of (entries s))(fd := None)"
  by (simp add: rm_entries map_of_reg_del)

lemma add_then_rm:
  assumes "inv s" and "0 \<le> fd" and "fd \<notin> fst ` set (entries s)" and "length (entries s) < capacity s"
  shows "fst (rm fd (snd (add fd d s))) = 0 \<and> entries (snd (rm fd (snd (add fd d s)))) = entries s"
proof -
  have a: "entries (snd (add fd d s)) = reg_put fd d (entries s)" using add_room assms by blast
  have i: "inv (snd (add fd d s))" using add_inv assms by blast
  have "fd \<in> fst ` set (reg_put fd d (entries s))" by (rule reg_put_mem)
  with a i rm_result rm_entries reg_del_put_fresh assms(3) show ?thesis by metis
qed

lemma step_refines:
  assumes "inv s" and "op_valid r"
  shows "inv (impl_step add rm r s) \<and> capacity (impl_step add rm r s) = capacity s \<and>
    entries (impl_step add rm r s) = reg_step (capacity s) r (entries s)"
proof (cases r)
  case (Op_add fd d)
  with assms have "0 \<le> fd" by (simp add: op_valid_def)
  with Op_add assms(1) add_room [of s fd d] add_full [of s fd d] add_inv [of s fd d] show ?thesis
    by (auto simp: impl_step_def reg_step_def not_less)
next
  case (Op_rm fd)
  with assms rm_entries rm_inv show ?thesis by (simp add: impl_step_def reg_step_def)
qed

lemma run_refines:
  "inv s \<Longrightarrow> list_all op_valid rs \<Longrightarrow>
   inv (fold (impl_step add rm) rs s) \<and> capacity (fold (impl_step add rm) rs s) = capacity s \<and>
   entries (fold (impl_step add rm) rs s) = fold (reg_step (capacity s)) rs (entries s)"
proof (induction rs arbitrary: s)
  case (Cons r rs)
  then have "inv (impl_step add rm r s)" "capacity (impl_step add rm r s) = capacity s"
    "entries (impl_step add rm r s) = reg_step (capacity s) r (entries s)"
    using step_refines by auto
  with Cons show ?case by simp
qed simp

end

text \<open>A registry that can be searched by the argument of an entry.\<close>

locale searchable_registry = event_registry inv entries capacity add rm
  for inv :: "'s \<Rightarrow> bool" and entries :: "'s \<Rightarrow> (sock \<times> 'd) list" and capacity :: "'s \<Rightarrow> nat"
    and add :: "sock \<Rightarrow> 'd \<Rightarrow> 's \<Rightarrow> int \<times> 's" and rm :: "sock \<Rightarrow> 's \<Rightarrow> int \<times> 's" +
  fixes search :: "(ptr \<Rightarrow> bool) \<Rightarrow> 's \<Rightarrow> ptr"
    and argument :: "'d \<Rightarrow> ptr"
  assumes search_entries: "inv s \<Longrightarrow>
    search P s = (case reg_find (\<lambda>d. P (argument d)) (entries s) of None \<Rightarrow> 0 | Some d \<Rightarrow> argument d)"
begin

lemma search_none: "inv s \<Longrightarrow> \<forall>e \<in> set (entries s). \<not> P (argument (snd e)) \<Longrightarrow> search P s = 0"
proof -
  assume i: "inv s" and n: "\<forall>e \<in> set (entries s). \<not> P (argument (snd e))"
  have "find (\<lambda>e. P (argument (snd e))) (entries s) = None" using n by (auto simp: find_None_iff)
  with i show ?thesis by (simp add: search_entries reg_find_def)
qed

lemma search_added:
  assumes "inv s" and "0 \<le> fd" and "fd \<notin> fst ` set (entries s)" and "length (entries s) < capacity s"
    and "\<forall>e \<in> set (entries s). \<not> P (argument (snd e))" and "P (argument d)"
  shows "search P (snd (add fd d s)) = argument d"
proof -
  have "entries (snd (add fd d s)) = entries s @ [(fd, d)]"
    using add_room [of s fd d] assms by (simp add: reg_put_def)
  moreover have "find (\<lambda>e. P (argument (snd e))) (entries s @ [(fd, d)]) = Some (fd, d)"
  proof -
    have "find (\<lambda>e. P (argument (snd e))) (entries s) = None" using assms(5) by (auto simp: find_None_iff)
    with assms(6) show ?thesis by (simp add: find_snoc)
  qed
  ultimately show ?thesis
    using add_inv [of s fd d] assms by (simp add: search_entries reg_find_def)
qed

end

end
