(* ===== verification/Hp_Epoll.thy ===== *)
theory Hp_Epoll
  imports Hp_Registry Hp_Stdlib
begin

section \<open>hp\_epoll: the epoll event table and its loop\<close>

text \<open>
  Models \<open>src/hp_epoll.c\<close>. The world holds the \<open>hp_epoll\<close> object (\<open>None\<close> for a NULL
  pointer), the heap of the allocated \<open>hp_epolld\<close> blocks, the interest list of the kernel
  (descriptor to event mask and \<open>data.ptr\<close>), \<open>errno\<close> and a list of errors the next
  \<open>epoll_ctl\<close> calls fail with (0 for none). Assertions are off, as in a release build.
  The array \<open>ed\<close> is kept whole: \<open>max_ev_len\<close> slots, the first \<open>ev_len\<close> of them used,
  and a removal is the \<open>memmove\<close> of the source.
\<close>

subsection \<open>State\<close>

record hp_epolld =
  ed_fd :: sock
  ed_fn :: fnptr
  ed_arg :: ptr
  ed_on_loop :: fnptr

record epoll_event =
  ev_events :: int
  ev_data :: ptr

record hp_epoll =
  ep_fd :: int
  ep_ev :: ptr
  ed :: "ptr list"
  ev_len :: nat
  max_ev_len :: nat
  ep_timeout :: int
  ep_before_wait :: fnptr
  ep_user :: ptr

record epw =
  epo :: "hp_epoll option"
  heap :: "ptr \<rightharpoonup> hp_epolld"
  kint :: "sock \<rightharpoonup> int \<times> ptr"
  nxt :: ptr
  ep_errno :: int
  inject :: "int list"

abbreviation (input) EPOLLIN :: int where "EPOLLIN \<equiv> 1"
abbreviation (input) EPOLLOUT :: int where "EPOLLOUT \<equiv> 4"

definition ed_used :: "hp_epoll \<Rightarrow> ptr list" where
  "ed_used e = take (ev_len e) (ed e)"

text \<open>
  The system call, as documented: adding a descriptor that is there fails with \<open>EEXIST\<close>,
  changing or deleting one that is not fails with \<open>ENOENT\<close>.
\<close>

datatype ctl_op = CTL_ADD | CTL_MOD | CTL_DEL

definition ctl_errno :: "ctl_op \<Rightarrow> sock \<Rightarrow> epw \<Rightarrow> int" where
  "ctl_errno c fd s =
     (if inject s \<noteq> [] \<and> hd (inject s) \<noteq> 0 then hd (inject s)
      else case c of
        CTL_ADD \<Rightarrow> if kint s fd = None then 0 else EEXIST
      | CTL_MOD \<Rightarrow> if kint s fd = None then ENOENT else 0
      | CTL_DEL \<Rightarrow> if kint s fd = None then ENOENT else 0)"

definition epoll_ctl :: "ctl_op \<Rightarrow> sock \<Rightarrow> int \<Rightarrow> ptr \<Rightarrow> epw \<Rightarrow> int \<times> epw" where
  "epoll_ctl c fd events p s =
     (let e = ctl_errno c fd s; s = s\<lparr>inject := tl (inject s)\<rparr> in
      if e \<noteq> 0 then (-1, s\<lparr>ep_errno := e\<rparr>)
      else (0, s\<lparr>kint := (case c of CTL_DEL \<Rightarrow> (kint s)(fd := None) | _ \<Rightarrow> (kint s)(fd \<mapsto> (events, p)))\<rparr>))"

subsection \<open>Initialisation\<close>

definition hp_epoll_init :: "int \<Rightarrow> int \<Rightarrow> int \<Rightarrow> fnptr \<Rightarrow> ptr \<Rightarrow> epw \<Rightarrow> int \<times> epw" where
  "hp_epoll_init epollfd max_len timeout bw arg s =
     (case epo s of None \<Rightarrow> (-1, s)
      | Some _ \<Rightarrow>
        let max_len = (if max_len \<le> 0 then 65535 else max_len);
            z = \<lparr>ep_fd = 0, ep_ev = NULL, ed = [], ev_len = 0, max_ev_len = 0, ep_timeout = 0,
                 ep_before_wait = NULL, ep_user = NULL\<rparr>
        in if epollfd = -1 then (-2, s\<lparr>epo := Some z\<rparr>)
           else (0, s\<lparr>epo := Some (z\<lparr>ep_fd := epollfd, ep_timeout := timeout, ep_ev := nxt s,
                                  ed := replicate (nat max_len) NULL, max_ev_len := nat max_len,
                                  ep_before_wait := bw, ep_user := arg\<rparr>),
                      nxt := nxt s + nat max_len\<rparr>))"

subsection \<open>Search\<close>

text \<open>\<open>on_cmp\<close> is the comparison callback (\<open>None\<close> for NULL: compare the pointers).\<close>

definition ep_do_find :: "(ptr \<rightharpoonup> hp_epolld) \<Rightarrow> ptr \<times> (ptr \<Rightarrow> ptr \<Rightarrow> int) option \<Rightarrow> ptr \<Rightarrow> int" where
  "ep_do_find h tu p =
     (let arg = ed_arg (the (h p))
      in c_not (case snd tu of Some cmp \<Rightarrow> cmp (fst tu) arg \<noteq> 0 | None \<Rightarrow> fst tu = arg))"

definition hp_epoll_find :: "ptr \<Rightarrow> (ptr \<Rightarrow> ptr \<Rightarrow> int) option \<Rightarrow> epw \<Rightarrow> ptr" where
  "hp_epoll_find key on_cmp s =
     (case epo s of None \<Rightarrow> NULL
      | Some e \<Rightarrow>
        case hp_lfind (key, on_cmp) (ed_used e) (ep_do_find (heap s)) of
          None \<Rightarrow> NULL
        | Some i \<Rightarrow> ed_arg (the (heap s (ed e ! i))))"

definition ep_find_by_fd :: "(ptr \<rightharpoonup> hp_epolld) \<Rightarrow> sock \<Rightarrow> ptr \<Rightarrow> int" where
  "ep_find_by_fd h fd p = c_not (ed_fd (the (h p)) = fd)"

definition ep_index :: "sock \<Rightarrow> hp_epoll \<Rightarrow> epw \<Rightarrow> nat option" where
  "ep_index fd e s = hp_lfind fd (ed_used e) (ep_find_by_fd (heap s))"

subsection \<open>Add and remove\<close>

definition ep_mod :: "sock \<Rightarrow> int \<Rightarrow> ptr \<Rightarrow> epw \<Rightarrow> int \<times> epw" where
  "ep_mod fd events p s =
     (let (rc, s) = epoll_ctl CTL_MOD fd events p s in if rc = 0 then (0, s) else (-3, s))"

definition ep_add_new :: "hp_epoll \<Rightarrow> sock \<Rightarrow> int \<Rightarrow> fnptr \<Rightarrow> fnptr \<Rightarrow> ptr \<Rightarrow> epw \<Rightarrow> int \<times> epw" where
  "ep_add_new e fd events fn on_loop arg s =
     (let p = nxt s;
          s = s\<lparr>nxt := p + 1,
                heap := (heap s)(p \<mapsto> \<lparr>ed_fd = fd, ed_fn = fn, ed_arg = arg, ed_on_loop = on_loop\<rparr>)\<rparr>;
          (rc, s) = epoll_ctl CTL_ADD fd events p s
      in if rc = 0 then (0, s\<lparr>epo := Some (e\<lparr>ed := (ed e)[ev_len e := p], ev_len := ev_len e + 1\<rparr>)\<rparr>)
         else if ep_errno s \<noteq> EEXIST then (-2, s)
         else ep_mod fd events p s)"

definition ep_add_old :: "ptr \<Rightarrow> sock \<Rightarrow> int \<Rightarrow> fnptr \<Rightarrow> fnptr \<Rightarrow> ptr \<Rightarrow> epw \<Rightarrow> int \<times> epw" where
  "ep_add_old p fd events fn on_loop arg s =
     ep_mod fd events p
       (s\<lparr>heap := (heap s)(p \<mapsto> (the (heap s p))\<lparr>ed_fn := fn, ed_arg := arg, ed_on_loop := on_loop\<rparr>)\<rparr>)"

definition hp_epoll_add :: "sock \<Rightarrow> int \<Rightarrow> fnptr \<Rightarrow> fnptr \<Rightarrow> ptr \<Rightarrow> epw \<Rightarrow> int \<times> epw" where
  "hp_epoll_add fd events fn on_loop arg s =
     (case epo s of None \<Rightarrow> (-1, s)
      | Some e \<Rightarrow>
        if \<not> (ep_ev e \<noteq> NULL \<and> fd \<ge> 0) then (-1, s)
        else case ep_index fd e s of
          None \<Rightarrow> if ev_len e \<ge> max_ev_len e then (-2, s) else ep_add_new e fd events fn on_loop arg s
        | Some i \<Rightarrow> ep_add_old (ed e ! i) fd events fn on_loop arg s)"

definition ep_rm_at :: "nat \<Rightarrow> hp_epoll \<Rightarrow> hp_epoll" where
  "ep_rm_at i e =
     e\<lparr>ed := (if i + 1 < ev_len e then mem_move i (i + 1) (ev_len e - (i + 1)) (ed e) else ed e),
       ev_len := ev_len e - 1\<rparr>"

definition hp_epoll_rm :: "sock \<Rightarrow> epw \<Rightarrow> int \<times> epw" where
  "hp_epoll_rm fd s =
     (case epo s of None \<Rightarrow> (-1, s)
      | Some e \<Rightarrow>
        let i = ep_index fd e s;
            s = snd (epoll_ctl CTL_DEL fd (EPOLLIN + EPOLLOUT)
                       (case i of None \<Rightarrow> NULL | Some i \<Rightarrow> ed e ! i) s)
        in case i of
          None \<Rightarrow> (-2, s)
        | Some i \<Rightarrow> (0, s\<lparr>heap := (heap s)(ed e ! i := None), epo := Some (ep_rm_at i e)\<rparr>))"

definition hp_epoll_size :: "epw \<Rightarrow> nat" where
  "hp_epoll_size s = (case epo s of None \<Rightarrow> 0 | Some e \<Rightarrow> ev_len e)"

text \<open>Uninit frees both arrays and leaves every field as it is: the storage of \<open>ed\<close> is gone.\<close>

definition hp_epoll_uninit :: "epw \<Rightarrow> epw" where
  "hp_epoll_uninit s = s\<lparr>epo := map_option (\<lambda>e. e\<lparr>ed := []\<rparr>) (epo s)\<rparr>"

subsection \<open>Invariant and abstract table\<close>

type_synonym ep_desc = "int \<times> fnptr \<times> fnptr \<times> ptr"

definition ed_of :: "epw \<Rightarrow> ptr \<Rightarrow> hp_epolld" where
  "ed_of s p = the (heap s p)"

text \<open>
  Well-formedness: the used slots hold distinct live blocks for distinct descriptors, and
  the kernel watches exactly these descriptors, each with its own block as \<open>data.ptr\<close>.
\<close>

definition ep_wf :: "hp_epoll \<Rightarrow> epw \<Rightarrow> bool" where
  "ep_wf e s \<longleftrightarrow>
     ep_ev e \<noteq> NULL \<and> 0 < nxt s \<and> NULL \<notin> set (ed_used e) \<and> ev_len e \<le> max_ev_len e \<and> length (ed e) = max_ev_len e \<and> inject s = [] \<and>
     distinct (map (\<lambda>p. ed_fd (ed_of s p)) (ed_used e)) \<and>
     (\<forall>p \<in> set (ed_used e). heap s p \<noteq> None \<and> p < nxt s \<and>
        (\<exists>v. kint s (ed_fd (ed_of s p)) = Some (v, p))) \<and>
     dom (kint s) = (\<lambda>p. ed_fd (ed_of s p)) ` set (ed_used e)"

definition ep_inv :: "epw \<Rightarrow> bool" where
  "ep_inv s = (case epo s of None \<Rightarrow> False | Some e \<Rightarrow> ep_wf e s)"

definition ep_entry :: "epw \<Rightarrow> ptr \<Rightarrow> sock \<times> ep_desc" where
  "ep_entry s p =
     (let d = ed_of s p in (ed_fd d, fst (the (kint s (ed_fd d))), ed_fn d, ed_on_loop d, ed_arg d))"

definition ep_entries :: "epw \<Rightarrow> (sock \<times> ep_desc) list" where
  "ep_entries s = (case epo s of None \<Rightarrow> [] | Some e \<Rightarrow> map (ep_entry s) (ed_used e))"

definition ep_capacity :: "epw \<Rightarrow> nat" where
  "ep_capacity s = (case epo s of None \<Rightarrow> 0 | Some e \<Rightarrow> max_ev_len e)"

definition ep_add :: "sock \<Rightarrow> ep_desc \<Rightarrow> epw \<Rightarrow> int \<times> epw" where
  "ep_add fd d s = (case d of (events, fn, on_loop, arg) \<Rightarrow> hp_epoll_add fd events fn on_loop arg s)"

lemma fst_ep_entry [simp]: "fst (ep_entry s p) = ed_fd (ed_of s p)"
  by (simp add: ep_entry_def Let_def)

lemma map_fst_ep_entry: "map fst (map (ep_entry s) ps) = map (\<lambda>p. ed_fd (ed_of s p)) ps"
  by simp

lemma length_ed_used [simp]: "ev_len e \<le> length (ed e) \<Longrightarrow> length (ed_used e) = ev_len e"
  by (simp add: ed_used_def)

lemma ep_invE:
  assumes "ep_inv s"
  obtains e where "epo s = Some e" "ep_wf e s"
  using assms by (auto simp: ep_inv_def split: option.splits)

lemma ep_index_None_iff: "ep_index fd e s = None \<longleftrightarrow> fd \<notin> (\<lambda>p. ed_fd (ed_of s p)) ` set (ed_used e)"
  by (auto simp: ep_index_def hp_lfind_None_iff ep_find_by_fd_def ed_of_def)

lemma ep_index_SomeD:
  assumes "ep_index fd e s = Some i" and "ev_len e \<le> length (ed e)"
  shows "i < ev_len e \<and> ed_used e ! i = ed e ! i \<and> ed_fd (ed_of s (ed e ! i)) = fd \<and> ed e ! i \<in> set (ed_used e)"
proof -
  have "i < length (ed_used e)" "ed_fd (ed_of s (ed_used e ! i)) = fd"
    using hp_lfind_SomeD [OF assms(1) [unfolded ep_index_def]] by (auto simp: ep_find_by_fd_def ed_of_def)
  moreover from this assms(2) have "ed_used e ! i = ed e ! i" by (simp add: ed_used_def)
  ultimately show ?thesis using assms(2) nth_mem [of i "ed_used e"] by simp
qed

lemma ep_wf_distinct: "ep_wf e s \<Longrightarrow> distinct (ed_used e)"
  by (auto simp: ep_wf_def distinct_map)

lemma ep_wf_same_fd:
  "ep_wf e s \<Longrightarrow> p \<in> set (ed_used e) \<Longrightarrow> q \<in> set (ed_used e) \<Longrightarrow>
   ed_fd (ed_of s p) = ed_fd (ed_of s q) \<longleftrightarrow> p = q"
  by (auto simp: ep_wf_def distinct_map dest: inj_onD)

subsection \<open>Add\<close>

lemma ed_used_snoc:
  "ev_len e < length (ed e) \<Longrightarrow> ed_used (e\<lparr>ed := (ed e)[ev_len e := p], ev_len := ev_len e + 1\<rparr>) = ed_used e @ [p]"
  by (simp add: ed_used_def take_Suc_conv_app_nth)

definition ep_new_state :: "hp_epoll \<Rightarrow> sock \<Rightarrow> int \<Rightarrow> fnptr \<Rightarrow> fnptr \<Rightarrow> ptr \<Rightarrow> epw \<Rightarrow> epw" where
  "ep_new_state e fd events fn on_loop arg s =
     s\<lparr>nxt := nxt s + 1,
       heap := (heap s)(nxt s \<mapsto> \<lparr>ed_fd = fd, ed_fn = fn, ed_arg = arg, ed_on_loop = on_loop\<rparr>),
       kint := (kint s)(fd \<mapsto> (events, nxt s)),
       epo := Some (e\<lparr>ed := (ed e)[ev_len e := nxt s], ev_len := ev_len e + 1\<rparr>)\<rparr>"

lemma ep_add_new_state:
  assumes "ep_wf e s" and "ep_index fd e s = None" and "epo s = Some e"
  shows "ep_add_new e fd events fn on_loop arg s = (0, ep_new_state e fd events fn on_loop arg s)"
proof -
  have "kint s fd = None" using assms by (auto simp: ep_wf_def ep_index_None_iff)
  with assms show ?thesis
    by (simp add: ep_add_new_def epoll_ctl_def ctl_errno_def ep_wf_def Let_def ep_new_state_def)
qed

lemma ep_new_state_wf:
  assumes wf: "ep_wf e s" and new: "ep_index fd e s = None" and "epo s = Some e" and room: "ev_len e < max_ev_len e"
    and s'_def: "s' = ep_new_state e fd events fn on_loop arg s"
  shows "ep_inv s' \<and> ep_capacity s' = max_ev_len e \<and>
    ep_entries s' = map (ep_entry s) (ed_used e) @ [(fd, events, fn, on_loop, arg)]"
proof -
  let ?e = "e\<lparr>ed := (ed e)[ev_len e := nxt s], ev_len := ev_len e + 1\<rparr>"
  have used: "ed_used ?e = ed_used e @ [nxt s]" using wf room by (intro ed_used_snoc) (simp add: ep_wf_def)
  have fresh: "\<forall>p \<in> set (ed_used e). p \<noteq> nxt s" using wf by (auto simp: ep_wf_def)
  have same: "\<forall>p \<in> set (ed_used e). ed_of s' p = ed_of s p"
    using fresh by (simp add: s'_def ep_new_state_def ed_of_def)
  have nfd: "\<forall>p \<in> set (ed_used e). ed_fd (ed_of s p) \<noteq> fd" using new by (auto simp: ep_index_None_iff)
  have s': "epo s' = Some ?e" "inject s' = inject s" "nxt s' = nxt s + 1" "kint s' = (kint s)(fd \<mapsto> (events, nxt s))"
    "ed_of s' (nxt s) = \<lparr>ed_fd = fd, ed_fn = fn, ed_arg = arg, ed_on_loop = on_loop\<rparr>"
    "heap s' = (heap s)(nxt s \<mapsto> \<lparr>ed_fd = fd, ed_fn = fn, ed_arg = arg, ed_on_loop = on_loop\<rparr>)"
    by (simp_all add: s'_def ep_new_state_def ed_of_def)
  have ents: "map (ep_entry s') (ed_used e) = map (ep_entry s) (ed_used e)"
    using same nfd s' by (simp add: ep_entry_def Let_def)
  have "ep_wf ?e s'"
    unfolding ep_wf_def used
  proof (intro conjI)
    show "distinct (map (\<lambda>p. ed_fd (ed_of s' p)) (ed_used e @ [nxt s]))"
      using wf same nfd s' by (auto simp: ep_wf_def distinct_map inj_on_def)
    show "\<forall>p \<in> set (ed_used e @ [nxt s]). heap s' p \<noteq> None \<and> p < nxt s' \<and>
        (\<exists>v. kint s' (ed_fd (ed_of s' p)) = Some (v, p))"
      using wf same nfd s' by (auto simp: ep_wf_def)
    show "dom (kint s') = (\<lambda>p. ed_fd (ed_of s' p)) ` set (ed_used e @ [nxt s])"
      using wf same s' by (auto simp: ep_wf_def)
  qed (use wf room s' in \<open>simp_all add: ep_wf_def\<close>)
  moreover have "ep_entry s' (nxt s) = (fd, events, fn, on_loop, arg)"
    using s' by (simp add: ep_entry_def Let_def)
  moreover have "ep_entries s' = map (ep_entry s') (ed_used e @ [nxt s])"
    unfolding ep_entries_def s'(1) option.case used ..
  ultimately show ?thesis
    using s' ents by (simp add: ep_inv_def ep_capacity_def)
qed

definition ep_old_state :: "ptr \<Rightarrow> sock \<Rightarrow> int \<Rightarrow> fnptr \<Rightarrow> fnptr \<Rightarrow> ptr \<Rightarrow> epw \<Rightarrow> epw" where
  "ep_old_state p fd events fn on_loop arg s =
     s\<lparr>heap := (heap s)(p \<mapsto> (the (heap s p))\<lparr>ed_fn := fn, ed_arg := arg, ed_on_loop := on_loop\<rparr>),
       kint := (kint s)(fd \<mapsto> (events, p))\<rparr>"

lemma ep_add_old_state:
  assumes "ep_wf e s" and "ep_index fd e s = Some i"
  shows "ep_add_old (ed e ! i) fd events fn on_loop arg s = (0, ep_old_state (ed e ! i) fd events fn on_loop arg s)"
proof -
  have "ev_len e \<le> length (ed e)" using assms(1) by (simp add: ep_wf_def)
  from ep_index_SomeD [OF assms(2) this] assms(1) have "kint s fd \<noteq> None" by (auto simp: ep_wf_def)
  moreover have "inject s = []" using assms(1) by (simp add: ep_wf_def)
  ultimately show ?thesis
    by (simp add: ep_add_old_def ep_mod_def epoll_ctl_def ctl_errno_def Let_def ep_old_state_def)
qed

lemma ep_old_state_wf:
  assumes wf: "ep_wf e s" and old: "ep_index fd e s = Some i" and epo: "epo s = Some e"
    and s'_def: "s' = ep_old_state (ed e ! i) fd events fn on_loop arg s"
  shows "ep_inv s' \<and> ep_capacity s' = max_ev_len e \<and>
    ep_entries s' = (map (ep_entry s) (ed_used e))[i := (fd, events, fn, on_loop, arg)]"
proof -
  let ?p = "ed e ! i"
  have le: "ev_len e \<le> length (ed e)" using wf by (simp add: ep_wf_def)
  note ix = ep_index_SomeD [OF old le]
  have s': "epo s' = Some e" "inject s' = inject s" "nxt s' = nxt s" "kint s' = (kint s)(fd \<mapsto> (events, ?p))"
    "heap s' = (heap s)(?p \<mapsto> (ed_of s ?p)\<lparr>ed_fn := fn, ed_arg := arg, ed_on_loop := on_loop\<rparr>)"
    by (simp_all add: s'_def ep_old_state_def ed_of_def epo)
  have fds: "ed_fd (ed_of s' p) = ed_fd (ed_of s p)" for p by (simp add: ed_of_def s')
  have "ep_wf e s'"
    unfolding ep_wf_def fds
  proof (intro conjI)
    show "\<forall>p \<in> set (ed_used e). heap s' p \<noteq> None \<and> p < nxt s' \<and> (\<exists>v. kint s' (ed_fd (ed_of s p)) = Some (v, p))"
    proof
      fix p assume p: "p \<in> set (ed_used e)"
      have "ed_fd (ed_of s p) = fd \<longleftrightarrow> p = ?p" using ep_wf_same_fd [OF wf p, of ?p] ix by simp
      with p wf s' show "heap s' p \<noteq> None \<and> p < nxt s' \<and> (\<exists>v. kint s' (ed_fd (ed_of s p)) = Some (v, p))"
        by (auto simp: ep_wf_def)
    qed
    show "dom (kint s') = (\<lambda>p. ed_fd (ed_of s p)) ` set (ed_used e)"
      using wf s' ix by (auto simp: ep_wf_def)
  qed (use wf s' in \<open>simp_all add: ep_wf_def\<close>)
  moreover have "map (ep_entry s') (ed_used e) = (map (ep_entry s) (ed_used e))[i := (fd, events, fn, on_loop, arg)]"
  proof (rule nth_equalityI)
    fix j assume j: "j < length (map (ep_entry s') (ed_used e))"
    let ?q = "ed_used e ! j"
    have q: "?q \<in> set (ed_used e)" using j by simp
    have eq: "ed_fd (ed_of s ?q) = fd \<longleftrightarrow> j = i"
      using ep_wf_same_fd [OF wf q, of ?p] ix j le ep_wf_distinct [OF wf]
      by (metis length_ed_used length_map nth_eq_iff_index_eq)
    show "map (ep_entry s') (ed_used e) ! j = (map (ep_entry s) (ed_used e))[i := (fd, events, fn, on_loop, arg)] ! j"
    proof (cases "j = i")
      case True
      with ix s' j show ?thesis by (auto simp: ep_entry_def Let_def ed_of_def)
    next
      case False
      then have "ed_fd (ed_of s ?q) \<noteq> fd" "?q \<noteq> ?p" using eq ix by auto
      then show ?thesis using False j s' by (simp add: ep_entry_def Let_def ed_of_def)
    qed
  qed simp
  ultimately show ?thesis using s' by (simp add: ep_inv_def ep_capacity_def ep_entries_def)
qed

subsection \<open>Remove\<close>

lemma ed_used_rm_at:
  assumes "i < ev_len e" and "ev_len e \<le> length (ed e)"
  shows "ed_used (ep_rm_at i e) = del_at i (ed_used e) \<and> length (ed (ep_rm_at i e)) = length (ed e)"
proof (cases "i + 1 < ev_len e")
  case True
  then have "mem_move i (i + 1) (ev_len e - (i + 1)) (ed e) = mem_move i (Suc i) (ev_len e - Suc i) (ed e)" by simp
  with True take_mem_move_del_at [OF assms] assms show ?thesis by (simp add: ed_used_def ep_rm_at_def)
next
  case False
  with assms have "ev_len e = Suc i" by simp
  with assms show ?thesis by (simp add: ed_used_def ep_rm_at_def del_at_def min_def)
qed

lemma epoll_ctl_del:
  assumes "inject s = []"
  shows "\<exists>er. snd (epoll_ctl CTL_DEL fd ev p s) = s\<lparr>ep_errno := er, kint := (kint s)(fd := None)\<rparr>"
proof (cases "kint s fd")
  case None
  then have "(kint s)(fd := None) = kint s" by (simp add: fun_upd_idem)
  with None assms show ?thesis
    by (intro exI [of _ ENOENT]) (cases s; simp add: epoll_ctl_def ctl_errno_def Let_def)
next
  case (Some v)
  with assms show ?thesis
    by (intro exI [of _ "ep_errno s"]) (cases s; simp add: epoll_ctl_def ctl_errno_def Let_def)
qed

lemma ep_rm_state_wf:
  assumes wf: "ep_wf e s" and ix: "i < ev_len e"
    and s'_def: "s' = s\<lparr>ep_errno := er, kint := (kint s)(ed_fd (ed_of s (ed e ! i)) := None),
      heap := (heap s)(ed e ! i := None), epo := Some (ep_rm_at i e)\<rparr>"
  shows "ep_inv s' \<and> ep_capacity s' = max_ev_len e \<and> ep_entries s' = del_at i (map (ep_entry s) (ed_used e))"
proof -
  let ?p = "ed e ! i" and ?e = "ep_rm_at i e"
  let ?fd = "ed_fd (ed_of s ?p)"
  have le: "ev_len e \<le> length (ed e)" using wf by (simp add: ep_wf_def)
  note used = ed_used_rm_at [OF ix le]
  have pu: "ed_used e ! i = ?p" using ix by (simp add: ed_used_def)
  have pin: "?p \<in> set (ed_used e)" using nth_mem [of i "ed_used e"] ix le pu by simp
  have iu: "i < length (ed_used e)" using ix le by simp
  have set': "set (ed_used ?e) = set (ed_used e) - {?p}"
    using used set_del_at_distinct [OF ep_wf_distinct [OF wf] iu] pu by simp
  have s': "epo s' = Some ?e" "inject s' = inject s" "nxt s' = nxt s" "kint s' = (kint s)(?fd := None)"
    "heap s' = (heap s)(?p := None)"
    by (simp_all add: s'_def)
  have same: "\<forall>p \<in> set (ed_used ?e). ed_of s' p = ed_of s p" by (simp add: ed_of_def s' set')
  have nfd: "\<forall>p \<in> set (ed_used ?e). ed_fd (ed_of s p) \<noteq> ?fd"
    using ep_wf_same_fd [OF wf _ pin] set' by auto
  have "ep_wf ?e s'"
    unfolding ep_wf_def
  proof (intro conjI)
    have "distinct (map (\<lambda>p. ed_fd (ed_of s p)) (ed_used ?e))"
      using used wf by (simp add: map_del_at distinct_del_at ep_wf_def)
    then show "distinct (map (\<lambda>p. ed_fd (ed_of s' p)) (ed_used ?e))"
      using same by (simp cong: map_cong)
    show "\<forall>p \<in> set (ed_used ?e). heap s' p \<noteq> None \<and> p < nxt s' \<and> (\<exists>v. kint s' (ed_fd (ed_of s' p)) = Some (v, p))"
      using wf same nfd s' set' by (auto simp: ep_wf_def)
    have "dom (kint s') = (\<lambda>p. ed_fd (ed_of s p)) ` set (ed_used e) - {?fd}"
      using wf s' by (auto simp: ep_wf_def)
    also have "\<dots> = (\<lambda>p. ed_fd (ed_of s p)) ` set (ed_used ?e)" using set' nfd by auto
    also have "\<dots> = (\<lambda>p. ed_fd (ed_of s' p)) ` set (ed_used ?e)" using same by (intro image_cong) auto
    finally show "dom (kint s') = (\<lambda>p. ed_fd (ed_of s' p)) ` set (ed_used ?e)" .
  qed (use wf s' used set_del_at_subset [of i "ed_used e"] in \<open>auto simp: ep_wf_def ep_rm_at_def\<close>)
  moreover have "map (ep_entry s') (ed_used ?e) = map (ep_entry s) (ed_used ?e)"
    using same nfd s' by (simp add: ep_entry_def Let_def)
  ultimately show ?thesis
    using s' used by (simp add: ep_inv_def ep_capacity_def ep_entries_def map_del_at) (simp add: ep_rm_at_def)
qed

subsection \<open>The contract holds\<close>

lemma fds_ep_entries: "epo s = Some e \<Longrightarrow> fst ` set (ep_entries s) = (\<lambda>p. ed_fd (ed_of s p)) ` set (ed_used e)"
  by (auto simp: ep_entries_def image_iff)

lemma ep_add_cases:
  assumes "ep_inv s" and "0 \<le> fd"
  shows "if fd \<in> fst ` set (ep_entries s) \<or> length (ep_entries s) < ep_capacity s
    then fst (ep_add fd d s) = 0 \<and> ep_entries (snd (ep_add fd d s)) = reg_put fd d (ep_entries s) \<and>
         ep_inv (snd (ep_add fd d s)) \<and> ep_capacity (snd (ep_add fd d s)) = ep_capacity s
    else ep_add fd d s = (-2, s)"
proof -
  obtain e where e: "epo s = Some e" and wf: "ep_wf e s" using assms(1) by (rule ep_invE)
  obtain events fn on_loop arg where d: "d = (events, fn, on_loop, arg)" by (cases d) auto
  have le: "ev_len e \<le> length (ed e)" and ev: "ep_ev e \<noteq> NULL" using wf by (simp_all add: ep_wf_def)
  have ents: "ep_entries s = map (ep_entry s) (ed_used e)" "ep_capacity s = max_ev_len e"
    using e by (simp_all add: ep_entries_def ep_capacity_def)
  have dist: "distinct (map fst (ep_entries s))"
    unfolding ents map_fst_ep_entry using wf by (simp add: ep_wf_def)
  show ?thesis
  proof (cases "ep_index fd e s")
    case None
    then have nin: "fd \<notin> fst ` set (ep_entries s)" using e by (simp add: fds_ep_entries ep_index_None_iff)
    show ?thesis
    proof (cases "ev_len e < max_ev_len e")
      case True
      have "ep_add fd d s = (0, ep_new_state e fd events fn on_loop arg s)"
        using None e ev assms(2) True ep_add_new_state [OF wf None e]
        by (simp add: ep_add_def d hp_epoll_add_def)
      with ep_new_state_wf [OF wf None e True refl, of events fn on_loop arg] nin True le ents d
      show ?thesis by (simp add: reg_put_def)
    next
      case False
      then show ?thesis using None e ev assms(2) nin le ents by (simp add: ep_add_def d hp_epoll_add_def)
    qed
  next
    case (Some i)
    note ix = ep_index_SomeD [OF Some le]
    have "fst (ep_entries s ! i) = fd" using ix le ents by simp
    then have "reg_put fd d (ep_entries s) = (ep_entries s)[i := (fd, d)]"
      using reg_put_at [OF dist, of i fd d] ix le ents by simp
    moreover have "ep_add fd d s = (0, ep_old_state (ed e ! i) fd events fn on_loop arg s)"
      using Some e ev assms(2) ep_add_old_state [OF wf Some]
      by (simp add: ep_add_def d hp_epoll_add_def)
    moreover have "fd \<in> fst ` set (ep_entries s)" using ix e by (auto simp: fds_ep_entries)
    ultimately show ?thesis
      using ep_old_state_wf [OF wf Some e refl, of events fn on_loop arg] ents d by simp
  qed
qed

lemma ed_of_errno [simp]: "ed_of (s\<lparr>ep_errno := er\<rparr>) = ed_of s"
  by (simp add: fun_eq_iff ed_of_def)

lemma ep_entry_errno: "ep_entry (s\<lparr>ep_errno := er\<rparr>) = ep_entry s"
  by (simp add: fun_eq_iff ep_entry_def)

lemma ep_wf_errno: "ep_wf e (s\<lparr>ep_errno := er\<rparr>) = ep_wf e s"
  by (simp add: ep_wf_def)

lemma hp_epoll_rm_cases:
  assumes "ep_inv s"
  shows "(fst (hp_epoll_rm fd s) = 0 \<longleftrightarrow> fd \<in> fst ` set (ep_entries s)) \<and>
    ep_entries (snd (hp_epoll_rm fd s)) = reg_del fd (ep_entries s) \<and>
    ep_inv (snd (hp_epoll_rm fd s)) \<and> ep_capacity (snd (hp_epoll_rm fd s)) = ep_capacity s"
proof -
  obtain e where e: "epo s = Some e" and wf: "ep_wf e s" using assms(1) by (rule ep_invE)
  have le: "ev_len e \<le> length (ed e)" and inj: "inject s = []" using wf by (simp_all add: ep_wf_def)
  have ents: "ep_entries s = map (ep_entry s) (ed_used e)" "ep_capacity s = max_ev_len e"
    using e by (simp_all add: ep_entries_def ep_capacity_def)
  have dist: "distinct (map fst (ep_entries s))"
    unfolding ents map_fst_ep_entry using wf by (simp add: ep_wf_def)
  obtain er where er: "snd (epoll_ctl CTL_DEL fd (EPOLLIN + EPOLLOUT)
      (case ep_index fd e s of None \<Rightarrow> NULL | Some i \<Rightarrow> ed e ! i) s) = s\<lparr>ep_errno := er, kint := (kint s)(fd := None)\<rparr>"
    using epoll_ctl_del [OF inj] by blast
  show ?thesis
  proof (cases "ep_index fd e s")
    case None
    then have nin: "fd \<notin> fst ` set (ep_entries s)" using e by (simp add: fds_ep_entries ep_index_None_iff)
    then have "kint s fd = None" using wf e by (auto simp: ep_wf_def fds_ep_entries)
    then have "(kint s)(fd := None) = kint s" by (simp add: fun_upd_idem)
    then have rm: "hp_epoll_rm fd s = (-2, s\<lparr>ep_errno := er\<rparr>)"
      using e None er by (simp add: hp_epoll_rm_def Let_def)
    moreover have "ep_entries (s\<lparr>ep_errno := er\<rparr>) = ep_entries s" "ep_inv (s\<lparr>ep_errno := er\<rparr>) = ep_inv s"
      "ep_capacity (s\<lparr>ep_errno := er\<rparr>) = ep_capacity s"
      by (simp_all add: e ep_entries_def ep_inv_def ep_capacity_def ep_wf_errno ep_entry_errno)
    ultimately show ?thesis using nin assms by (simp add: reg_del_notin)
  next
    case (Some i)
    note ix = ep_index_SomeD [OF Some le]
    have "fst (ep_entries s ! i) = fd" using ix le ents by simp
    then have "reg_del fd (ep_entries s) = del_at i (ep_entries s)"
      using reg_del_at [OF dist, of i fd] ix le ents by simp
    moreover have "hp_epoll_rm fd s = (0, s\<lparr>ep_errno := er, kint := (kint s)(ed_fd (ed_of s (ed e ! i)) := None),
      heap := (heap s)(ed e ! i := None), epo := Some (ep_rm_at i e)\<rparr>)"
      using e Some er ix by (simp add: hp_epoll_rm_def Let_def)
    moreover have "fd \<in> fst ` set (ep_entries s)" using ix e by (auto simp: fds_ep_entries)
    ultimately show ?thesis
      using ep_rm_state_wf [OF wf conjunct1 [OF ix] refl, of er] ents by simp
  qed
qed

definition ep_search :: "(ptr \<Rightarrow> bool) \<Rightarrow> epw \<Rightarrow> ptr" where
  "ep_search P s = hp_epoll_find 0 (Some (\<lambda>k arg. if P arg then 1 else 0)) s"

definition ep_argument :: "ep_desc \<Rightarrow> ptr" where
  "ep_argument d = snd (snd (snd d))"

lemma ep_argument_entry [simp]: "ep_argument (snd (ep_entry s p)) = ed_arg (ed_of s p)"
  by (simp add: ep_argument_def ep_entry_def Let_def)

lemma find_entries: "find (\<lambda>x. P (ep_argument (snd x))) (map (ep_entry s) ps) =
  map_option (ep_entry s) (find (\<lambda>p. P (ed_arg (ed_of s p))) ps)"
  by (induction ps) auto

lemma hp_epoll_find_entries:
  assumes "epo s = Some e"
  shows "hp_epoll_find key cmp s =
    (case reg_find (\<lambda>d. (case cmp of Some c \<Rightarrow> c key (ep_argument d) \<noteq> 0 | None \<Rightarrow> key = ep_argument d)) (ep_entries s) of
       None \<Rightarrow> 0 | Some d \<Rightarrow> ep_argument d)"
proof -
  let ?P = "\<lambda>a. case cmp of Some c \<Rightarrow> c key a \<noteq> 0 | None \<Rightarrow> key = a"
  let ?Q = "\<lambda>p. ?P (ed_arg (ed_of s p))"
  have "hp_lfind (key, cmp) (ed_used e) (ep_do_find (heap s)) = lfind_idx ?Q (ed_used e)"
    by (cases cmp) (simp_all add: hp_lfind_def ep_do_find_def Let_def ed_of_def)
  moreover note find_entries [of ?P s "ed_used e"]
  moreover have "i < length (ed_used e) \<Longrightarrow> ed_used e ! i = ed e ! i" for i by (simp add: ed_used_def)
  ultimately show ?thesis
    using assms lfind_idx_find [of "ed_used e" ?Q, symmetric]
    by (cases "lfind_idx ?Q (ed_used e)")
      (auto simp: hp_epoll_find_def reg_find_def ep_entries_def ed_of_def dest: lfind_idx_SomeD)
qed

interpretation epr: searchable_registry ep_inv ep_entries ep_capacity ep_add hp_epoll_rm ep_search ep_argument
proof
  fix s :: epw and fd :: sock and d :: ep_desc and P
  assume inv: "ep_inv s"
  then obtain e where e: "epo s = Some e" and wf: "ep_wf e s" by (rule ep_invE)
  show "distinct (map fst (ep_entries s))"
    using wf e by (simp add: ep_entries_def ep_wf_def comp_def)
  show "length (ep_entries s) \<le> ep_capacity s"
    using wf e by (simp add: ep_entries_def ep_capacity_def ep_wf_def)
  show "ep_entries (snd (hp_epoll_rm fd s)) = reg_del fd (ep_entries s)"
    "fst (hp_epoll_rm fd s) = 0 \<longleftrightarrow> fd \<in> fst ` set (ep_entries s)"
    "ep_inv (snd (hp_epoll_rm fd s)) \<and> ep_capacity (snd (hp_epoll_rm fd s)) = ep_capacity s"
    using hp_epoll_rm_cases [OF inv] by blast+
  show "ep_search P s = (case reg_find (\<lambda>d. P (ep_argument d)) (ep_entries s) of None \<Rightarrow> 0 | Some d \<Rightarrow> ep_argument d)"
    using hp_epoll_find_entries [OF e] by (simp add: ep_search_def if_distrib cong: if_cong)
  assume "0 \<le> fd"
  note cases = ep_add_cases [OF inv this, of d]
  show "fst (ep_add fd d s) = -2 \<and> ep_entries (snd (ep_add fd d s)) = ep_entries s"
    if "fd \<notin> fst ` set (ep_entries s)" "ep_capacity s \<le> length (ep_entries s)"
    using cases that by simp
  show "fst (ep_add fd d s) = 0 \<and> ep_entries (snd (ep_add fd d s)) = reg_put fd d (ep_entries s)"
    if "fd \<in> fst ` set (ep_entries s) \<or> length (ep_entries s) < ep_capacity s"
    using cases that by simp
  show "ep_inv (snd (ep_add fd d s)) \<and> ep_capacity (snd (ep_add fd d s)) = ep_capacity s"
    using cases inv by (auto split: if_splits)
qed

subsection \<open>The event loop\<close>

text \<open>
  The callbacks of the program act on the world and on a state of their own. \<open>epoll_wait\<close>
  answers from a script: descriptors with their ready masks, or an error. With no answer
  left the loop blocks.
\<close>

record 'u ep_cbs =
  cb_fn :: "fnptr \<Rightarrow> epoll_event \<Rightarrow> ptr \<Rightarrow> epw \<times> 'u \<Rightarrow> epw \<times> 'u"
  cb_loop :: "fnptr \<Rightarrow> ptr \<Rightarrow> epw \<times> 'u \<Rightarrow> epw \<times> 'u"
  cb_before :: "fnptr \<Rightarrow> epw \<times> 'u \<Rightarrow> int \<times> epw \<times> 'u"

datatype wait_ans = W_ready "(sock \<times> int) list" | W_fail int

text \<open>
  A loop over \<open>ed[i]\<close> for \<open>i < ev_len\<close>, both read again in every turn. The first argument
  after the action is the number of slots from \<open>i\<close> to the end of the array: reading
  beyond it, or through a pointer that is NULL or freed, is undefined. \<open>nullok\<close> is the
  test \<open>epo->ed[i]\<close> of the first loop, which the last one does not have.
\<close>

primrec ep_each ::
  "bool \<Rightarrow> (ptr \<Rightarrow> hp_epolld \<Rightarrow> epw \<times> 'u \<Rightarrow> epw \<times> 'u) \<Rightarrow> nat \<Rightarrow> nat \<Rightarrow> epw \<times> 'u \<Rightarrow> (epw \<times> 'u) outcome" where
  "ep_each nullok act 0 i s =
     (case epo (fst s) of None \<Rightarrow> Undef | Some e \<Rightarrow> if i < ev_len e then Undef else Done s)"
| "ep_each nullok act (Suc m) i s =
     (case epo (fst s) of None \<Rightarrow> Undef
      | Some e \<Rightarrow>
        if \<not> i < ev_len e then Done s
        else if nullok \<and> ed e ! i = NULL then ep_each nullok act m (Suc i) s
        else case heap (fst s) (ed e ! i) of
          None \<Rightarrow> Undef
        | Some d \<Rightarrow> ep_each nullok act m (Suc i) (act (ed e ! i) d s))"

definition ep_drive_act :: "'u ep_cbs \<Rightarrow> ptr \<Rightarrow> hp_epolld \<Rightarrow> epw \<times> 'u \<Rightarrow> epw \<times> 'u" where
  "ep_drive_act cbs p d s =
     (if ed_fn d \<noteq> NULL
      then cb_fn cbs (ed_fn d) \<lparr>ev_events = EPOLLIN + EPOLLOUT, ev_data = p\<rparr> (ed_arg d) s else s)"

definition ep_loop_act :: "'u ep_cbs \<Rightarrow> ptr \<Rightarrow> hp_epolld \<Rightarrow> epw \<times> 'u \<Rightarrow> epw \<times> 'u" where
  "ep_loop_act cbs p d s = (if ed_on_loop d \<noteq> NULL then cb_loop cbs (ed_on_loop d) (ed_arg d) s else s)"

definition ep_slots :: "epw \<Rightarrow> nat" where
  "ep_slots s = (case epo s of None \<Rightarrow> 0 | Some e \<Rightarrow> length (ed e))"

definition ep_wait_events :: "epw \<Rightarrow> (sock \<times> int) list \<Rightarrow> epoll_event list" where
  "ep_wait_events s rs =
     take (hp_epoll_size s + 1)
       (map (\<lambda>(fd, m). \<lparr>ev_events = m, ev_data = snd (the (kint s fd))\<rparr>) (filter (\<lambda>(fd, m). kint s fd \<noteq> None) rs))"

primrec ep_ready :: "'u ep_cbs \<Rightarrow> epoll_event list \<Rightarrow> epw \<times> 'u \<Rightarrow> (epw \<times> 'u) outcome" where
  "ep_ready cbs [] s = Done s"
| "ep_ready cbs (ev # evs) s =
     (if ev_data ev = NULL then ep_ready cbs evs s
      else case heap (fst s) (ev_data ev) of
        None \<Rightarrow> Undef
      | Some d \<Rightarrow> ep_ready cbs evs (if ed_fn d \<noteq> NULL then cb_fn cbs (ed_fn d) ev (ed_arg d) s else s))"

definition ep_turn :: "'u ep_cbs \<Rightarrow> (sock \<times> int) list \<Rightarrow> epw \<times> 'u \<Rightarrow> (epw \<times> 'u) outcome" where
  "ep_turn cbs rs s =
     (case ep_ready cbs (ep_wait_events (fst s) rs) s of
        Done s \<Rightarrow> ep_each False (ep_loop_act cbs) (ep_slots (fst s)) 0 s
      | r \<Rightarrow> r)"

definition ep_prepare :: "'u ep_cbs \<Rightarrow> bool \<Rightarrow> epw \<times> 'u \<Rightarrow> (int \<times> epw \<times> 'u) outcome" where
  "ep_prepare cbs mode s =
     (case epo (fst s) of None \<Rightarrow> Undef
      | Some e \<Rightarrow>
        let (rc, s) = (if mode \<and> ep_before_wait e \<noteq> NULL then cb_before cbs (ep_before_wait e) s else (0, s))
        in if rc \<noteq> 0 then Done (rc, s)
           else case ep_each True (ep_drive_act cbs) (ep_slots (fst s)) 0 s of
               Done s \<Rightarrow> Done (0, s) | Undef \<Rightarrow> Undef | Blocked s \<Rightarrow> Blocked (0, s))"

primrec hp_epoll_run :: "'u ep_cbs \<Rightarrow> bool \<Rightarrow> wait_ans list \<Rightarrow> epw \<times> 'u \<Rightarrow> (int \<times> epw \<times> 'u) outcome" where
  "hp_epoll_run cbs mode [] s =
     (case ep_prepare cbs mode s of Done (rc, s) \<Rightarrow> if rc \<noteq> 0 then Done (rc, s) else Blocked (0, s) | r \<Rightarrow> r)"
| "hp_epoll_run cbs mode (a # ws) s =
     (case ep_prepare cbs mode s of
        Done (rc, s) \<Rightarrow>
          if rc \<noteq> 0 then Done (rc, s)
          else (case a of
            W_fail er \<Rightarrow>
              let s = ((fst s)\<lparr>ep_errno := er\<rparr>, snd s) in
              if er = EINTR \<or> er = EAGAIN then (if mode then Done (0, s) else hp_epoll_run cbs mode ws s)
              else Done (-7, s)
          | W_ready rs \<Rightarrow>
              (case ep_turn cbs rs s of
                 Done s \<Rightarrow> if mode then Done (0, s) else hp_epoll_run cbs mode ws s
               | Undef \<Rightarrow> Undef
               | Blocked s \<Rightarrow> Blocked (0, s)))
      | r \<Rightarrow> r)"

subsection \<open>What one turn calls\<close>

lemma ep_each_frame:
  assumes "epo (fst s) = Some e" and "ep_wf e (fst s)" and "\<And>p d s. fst (act p d s) = fst s"
    and "m = length (ed e) - i" and "i \<le> ev_len e"
  shows "ep_each nullok act m i s = Done (fold (\<lambda>p. act p (ed_of (fst s) p)) (drop i (ed_used e)) s)"
  using assms
proof (induction m arbitrary: i s)
  case 0
  then have "ev_len e \<le> i" by (auto simp: ep_wf_def)
  with 0 show ?case by (simp add: ep_wf_def)
next
  case (Suc m)
  show ?case
  proof (cases "i < ev_len e")
    case True
    have le: "ev_len e \<le> length (ed e)" using Suc.prems(2) by (simp add: ep_wf_def)
    have dr: "drop i (ed_used e) = ed e ! i # drop (Suc i) (ed_used e)"
      using True le by (simp add: Cons_nth_drop_Suc [symmetric] ed_used_def)
    have "ed e ! i \<in> set (ed_used e)" using True le nth_mem [of i "ed_used e"] by (simp add: ed_used_def)
    moreover have "NULL \<notin> set (ed_used e)" using Suc.prems(2) by (simp add: ep_wf_def)
    ultimately have p: "ed e ! i \<noteq> NULL" "heap (fst s) (ed e ! i) = Some (ed_of (fst s) (ed e ! i))"
      using Suc.prems(2) by (metis, auto simp: ep_wf_def ed_of_def)
    let ?s = "act (ed e ! i) (ed_of (fst s) (ed e ! i)) s"
    have "ep_each nullok act m (Suc i) ?s = Done (fold (\<lambda>p. act p (ed_of (fst ?s) p)) (drop (Suc i) (ed_used e)) ?s)"
      by (rule Suc.IH) (use Suc.prems True in auto)
    with Suc.prems(1,3) True p dr show ?thesis by simp
  next
    case False
    then have "i = ev_len e" using Suc.prems(5) by simp
    with Suc.prems(1,2) show ?thesis by (simp add: ep_wf_def)
  qed
qed

datatype ep_log = L_event fnptr int ptr | L_loop fnptr ptr

text \<open>Callbacks that only record their calls.\<close>

definition log_cbs :: "ep_log list ep_cbs" where
  "log_cbs = \<lparr>cb_fn = (\<lambda>f ev a (w, u). (w, u @ [L_event f (ev_events ev) a])),
     cb_loop = (\<lambda>f a (w, u). (w, u @ [L_loop f a])), cb_before = (\<lambda>f s. (0, s))\<rparr>"

text \<open>The calls of one turn, read off the abstract table.\<close>

definition drive_calls :: "(sock \<times> ep_desc) list \<Rightarrow> ep_log list" where
  "drive_calls es = map (\<lambda>(fd, v, fn, ol, a). L_event fn (EPOLLIN + EPOLLOUT) a) (filter (\<lambda>(fd, v, fn, ol, a). fn \<noteq> NULL) es)"

definition loop_calls :: "(sock \<times> ep_desc) list \<Rightarrow> ep_log list" where
  "loop_calls es = map (\<lambda>(fd, v, fn, ol, a). L_loop ol a) (filter (\<lambda>(fd, v, fn, ol, a). ol \<noteq> NULL) es)"

definition ready_calls :: "(sock \<times> ep_desc) list \<Rightarrow> (sock \<times> int) list \<Rightarrow> ep_log list" where
  "ready_calls es rs =
     concat (map (\<lambda>(fd, m). case map_of es fd of
         Some (v, fn, ol, a) \<Rightarrow> if fn \<noteq> NULL then [L_event fn m a] else []
       | None \<Rightarrow> []) rs)"

lemma fst_log_act: "fst (ep_drive_act log_cbs p d s) = fst s" "fst (ep_loop_act log_cbs p d s) = fst s"
  by (simp_all add: ep_drive_act_def ep_loop_act_def log_cbs_def split_def)

lemma fold_drive_log:
  "fold (\<lambda>p. ep_drive_act log_cbs p (ed_of w p)) ps (w, u) = (w, u @ drive_calls (map (ep_entry w) ps))"
  by (induction ps arbitrary: u)
    (auto simp: ep_drive_act_def log_cbs_def drive_calls_def ep_entry_def Let_def)

lemma fold_loop_log:
  "fold (\<lambda>p. ep_loop_act log_cbs p (ed_of w p)) ps (w, u) = (w, u @ loop_calls (map (ep_entry w) ps))"
  by (induction ps arbitrary: u)
    (auto simp: ep_loop_act_def log_cbs_def loop_calls_def ep_entry_def Let_def)

lemma map_of_entries:
  assumes "ep_wf e w" and "epo w = Some e" and "kint w fd = Some (v, p)"
  shows "p \<in> set (ed_used e) \<and> map_of (ep_entries w) fd = Some (snd (ep_entry w p))"
proof -
  from assms obtain q where q: "q \<in> set (ed_used e)" "fd = ed_fd (ed_of w q)"
    unfolding ep_wf_def by (metis (no_types, lifting) domI image_iff)
  with assms have "q = p" by (auto simp: ep_wf_def)
  have "distinct (map fst (ep_entries w))" using assms by (simp add: ep_entries_def ep_wf_def comp_def)
  moreover have "(fd, snd (ep_entry w q)) \<in> set (ep_entries w)"
    using q assms(2) by (auto simp: ep_entries_def image_iff prod_eq_iff intro!: bexI [of _ q])
  ultimately show ?thesis using q \<open>q = p\<close> by (simp add: map_of_is_SomeI)
qed

lemma ep_ready_log:
  assumes "ep_wf e w" and "epo w = Some e" and "\<forall>(fd, m) \<in> set rs. kint w fd \<noteq> None"
  shows "ep_ready log_cbs (map (\<lambda>(fd, m). \<lparr>ev_events = m, ev_data = snd (the (kint w fd))\<rparr>) rs) (w, u) =
    Done (w, u @ ready_calls (ep_entries w) rs)"
  using assms(3)
proof (induction rs arbitrary: u)
  case Nil
  then show ?case by (simp add: ready_calls_def)
next
  case (Cons r rs)
  obtain fd m where r: "r = (fd, m)" by (cases r)
  with Cons.prems obtain v p where k: "kint w fd = Some (v, p)" by auto
  note p = map_of_entries [OF assms(1,2) k]
  have nn: "NULL \<notin> set (ed_used e)" using assms(1) by (simp add: ep_wf_def)
  with p have h: "p \<noteq> NULL" "heap w p = Some (ed_of w p)" using assms(1) by (metis, auto simp: ep_wf_def ed_of_def)
  have "ready_calls (ep_entries w) (r # rs) =
    (if ed_fn (ed_of w p) \<noteq> NULL then [L_event (ed_fn (ed_of w p)) m (ed_arg (ed_of w p))] else []) @
    ready_calls (ep_entries w) rs"
    using p by (simp add: ready_calls_def r ep_entry_def Let_def)
  with Cons h k r show ?case by (auto simp: log_cbs_def)
qed

lemma ep_wait_events_all:
  assumes "ep_wf e w" and "epo w = Some e" and "\<forall>(fd, m) \<in> set rs. kint w fd \<noteq> None" and "distinct (map fst rs)"
  shows "ep_wait_events w rs = map (\<lambda>(fd, m). \<lparr>ev_events = m, ev_data = snd (the (kint w fd))\<rparr>) rs \<and>
    length rs \<le> ev_len e"
proof -
  have flt: "filter (\<lambda>(fd, m). kint w fd \<noteq> None) rs = rs" using assms(3) by (simp add: filter_id_conv)
  have le: "ev_len e \<le> length (ed e)" using assms(1) by (simp add: ep_wf_def)
  have "set (map fst rs) \<subseteq> dom (kint w)" using assms(3) by fastforce
  also have "\<dots> = (\<lambda>p. ed_fd (ed_of w p)) ` set (ed_used e)" using assms(1) by (simp add: ep_wf_def)
  finally have "card (set (map fst rs)) \<le> card (set (ed_used e))"
    by (metis (no_types, lifting) List.finite_set card_image_le card_mono dual_order.trans finite_imageI)
  also have "\<dots> \<le> ev_len e" using card_length [of "ed_used e"] le by simp
  finally have "length rs \<le> ev_len e" using assms(4) by (metis distinct_card length_map)
  with flt assms(2) show ?thesis by (simp add: ep_wait_events_def hp_epoll_size_def)
qed

subsection \<open>Event names\<close>

definition epoll_name :: "u32 \<Rightarrow> u32 \<Rightarrow> string \<Rightarrow> string" where
  "epoll_name events flag name = (if and events flag \<noteq> 0 then name else [])"

definition epoll_names :: "u32 \<Rightarrow> string" where
  "epoll_names events =
     epoll_name events 0x8 ''EPOLLERR | '' @ epoll_name events 0x80000000 ''EPOLLET | '' @
     epoll_name events 0x1 ''EPOLLIN | '' @ epoll_name events 0x4 ''EPOLLOUT | ''"

text \<open>
  The buffer is the whole array of \<open>len\<close> bytes (\<open>None\<close> for a NULL pointer). The result
  is \<open>Undef\<close> when a write falls outside it.
\<close>

definition hp_epoll_e2str :: "u32 \<Rightarrow> char list option \<Rightarrow> nat \<Rightarrow> char list option outcome" where
  "hp_epoll_e2str events bufo len =
     (case bufo of
        None \<Rightarrow> if len > 0 then Done None else Undef
      | Some buf \<Rightarrow>
        let names = epoll_names events; n = length names;
            left = and events (not (or 0x8 (or 0x80000000 (or 0x1 0x4))));
            r = Option.bind (buf_put 0 [char_of (0::nat)] buf) (\<lambda>buf.
                Option.bind (c_snprintf 0 len names buf) (\<lambda>buf.
                Option.bind (if buf ! 0 \<noteq> char_of (0::nat) \<and> n \<ge> 3 then buf_put (n - 3) [char_of (0::nat)] buf
                             else Some buf) (\<lambda>buf.
                if left \<noteq> 0 then c_snprintf n (sub_size len n) ('' | '' @ int_text (sint left)) buf else Some buf)))
        in case r of None \<Rightarrow> Undef | Some buf \<Rightarrow> Done (Some buf))"

subsection \<open>Properties\<close>

text \<open>
  C3: Any sequence of add and remove requests, with the kernel granting them, leaves the
  table, seen as a list of descriptors with their event mask and callbacks, exactly as the
  same requests leave the abstract bounded table: add inserts at the end or replaces in
  place, is refused when the table is full, remove keeps the order of the others.
\<close>

theorem hp_epoll_ops_refine:
  assumes "ep_inv s" and "list_all op_valid rs"
  shows "ep_inv (fold (impl_step ep_add hp_epoll_rm) rs s) \<and>
    ep_entries (fold (impl_step ep_add hp_epoll_rm) rs s) =
      fold (reg_step (ep_capacity s)) rs (ep_entries s)"
  using epr.run_refines [OF assms] by blast

text \<open>
  C14: A run of one turn calls, in this order: the callback of every registered descriptor
  with \<open>EPOLLIN | EPOLLOUT\<close> (edge-triggered descriptors are driven by hand), the callback
  of every ready descriptor with its mask, and the loop callback of every descriptor, each
  exactly once, in table order, and returns 0.
\<close>

theorem hp_epoll_run_once_calls:
  assumes "ep_inv s" and "epo s = Some e" and "ep_before_wait e = NULL"
    and "\<forall>(fd, m) \<in> set rs. kint s fd \<noteq> None" and "distinct (map fst rs)"
  shows "hp_epoll_run log_cbs True (W_ready rs # ws) (s, u) =
    Done (0, s, u @ drive_calls (ep_entries s) @ ready_calls (ep_entries s) rs @ loop_calls (ep_entries s))"
proof -
  have wf: "ep_wf e s" using assms(1,2) by (simp add: ep_inv_def)
  have ents: "ep_entries s = map (ep_entry s) (ed_used e)" using assms(2) by (simp add: ep_entries_def)
  have sl: "ep_slots s = length (ed e)" using assms(2) by (simp add: ep_slots_def)
  have drive: "ep_each True (ep_drive_act log_cbs) (length (ed e)) 0 (s, u) = Done (s, u @ drive_calls (ep_entries s))"
    using ep_each_frame [of "(s, u)" e "ep_drive_act log_cbs" "length (ed e)" 0 True]
    by (simp add: assms(2) wf fst_log_act fold_drive_log ents)
  have loop: "ep_each False (ep_loop_act log_cbs) (length (ed e)) 0 (s, u') = Done (s, u' @ loop_calls (ep_entries s))"
    for u'
    using ep_each_frame [of "(s, u')" e "ep_loop_act log_cbs" "length (ed e)" 0 False]
    by (simp add: assms(2) wf fst_log_act fold_loop_log ents)
  have ready: "ep_ready log_cbs (ep_wait_events s rs) (s, u') = Done (s, u' @ ready_calls (ep_entries s) rs)" for u'
    using ep_wait_events_all [OF wf assms(2,4,5)] ep_ready_log [OF wf assms(2,4)] by simp
  show ?thesis
    using assms(2,3) sl drive by (simp add: ep_prepare_def ep_turn_def ready loop)
qed

text \<open>
  Removing a descriptor frees its block at once, while a ready event of the same turn
  may still point at it: the loop then reads freed memory.
\<close>

lemma hp_epoll_rm_stale_event:
  assumes "ep_inv s" and "epo s = Some e" and "p \<in> set (ed_used e)" and "ev_data ev = p"
  shows "ep_ready cbs (ev # evs) (snd (hp_epoll_rm (ed_fd (ed_of s p)) s), u) = Undef"
proof -
  have wf: "ep_wf e s" using assms(1,2) by (simp add: ep_inv_def)
  have le: "ev_len e \<le> length (ed e)" and inj: "inject s = []" using wf by (simp_all add: ep_wf_def)
  obtain i where ix: "ep_index (ed_fd (ed_of s p)) e s = Some i"
    using assms(3) by (cases "ep_index (ed_fd (ed_of s p)) e s") (auto simp: ep_index_None_iff)
  note d = ep_index_SomeD [OF ix le]
  have "ed e ! i = p" using ep_wf_same_fd [OF wf _ assms(3), of "ed e ! i"] d by simp
  then have "heap (snd (hp_epoll_rm (ed_fd (ed_of s p)) s)) p = None"
    using assms(2) ix by (simp add: hp_epoll_rm_def Let_def)
  moreover have "NULL \<notin> set (ed_used e)" using wf by (simp add: ep_wf_def)
  with assms(3) have "p \<noteq> NULL" by metis
  ultimately show ?thesis using assms(4) by simp
qed

lemma hp_epoll_init_inv [hp_inv]:
  assumes "epo s = Some e0" and "epollfd \<noteq> -1" and "0 < nxt s" and "inject s = []" and "kint s = Map.empty"
  shows "fst (hp_epoll_init epollfd n t bw arg s) = 0 \<and> ep_inv (snd (hp_epoll_init epollfd n t bw arg s)) \<and>
    ep_entries (snd (hp_epoll_init epollfd n t bw arg s)) = [] \<and>
    ep_capacity (snd (hp_epoll_init epollfd n t bw arg s)) = (if n \<le> 0 then 65535 else nat n)"
  using assms
  by (simp add: hp_epoll_init_def Let_def ep_inv_def ep_wf_def ed_used_def ep_entries_def ep_capacity_def)

subsection \<open>The properties at a concrete table\<close>

definition epw_start :: epw where
  "epw_start = \<lparr>epo = Some \<lparr>ep_fd = 0, ep_ev = 0, ed = [], ev_len = 0, max_ev_len = 0, ep_timeout = 0,
     ep_before_wait = 0, ep_user = 0\<rparr>, heap = Map.empty, kint = Map.empty, nxt = 100, ep_errno = 0, inject = []\<rparr>"

definition epw_example :: epw where
  "epw_example = snd (hp_epoll_init 3 2 1000 0 0 epw_start)"

definition epw_two :: epw where
  "epw_two = snd (ep_add 8 (1, 21, 0, 41) (snd (ep_add 7 (5, 20, 30, 40) epw_example)))"

lemma epw_example_ok: "ep_inv epw_example" "ep_entries epw_example = []" "ep_capacity epw_example = 2"
  using hp_epoll_init_inv [of epw_start _ 3 2 1000 0 0] by (simp_all add: epw_start_def epw_example_def)

theorem hp_epoll_ops_refine_witness:
  "ep_entries (fold (impl_step ep_add hp_epoll_rm)
     [Op_add 7 (5, 20, 30, 40), Op_add 8 (1, 21, 0, 41), Op_add 9 (1, 22, 0, 42), Op_rm 7] epw_example) =
   [(8, 1, 21, 0, 41)]"
  using hp_epoll_ops_refine [of epw_example "[Op_add 7 (5, 20, 30, 40), Op_add 8 (1, 21, 0, 41),
      Op_add 9 (1, 22, 0, 42), Op_rm 7]"] epw_example_ok
  by (simp add: op_valid_def reg_step_def reg_put_def reg_del_def)

lemma epw_two_ok: "ep_inv epw_two" "ep_entries epw_two = [(7, 5, 20, 30, 40), (8, 1, 21, 0, 41)]"
  using epr.run_refines [of epw_example "[Op_add 7 (5, 20, 30, 40), Op_add 8 (1, 21, 0, 41)]"] epw_example_ok
  by (simp_all add: epw_two_def op_valid_def reg_step_def reg_put_def impl_step_def)

lemma epw_two_eval:
  "epo epw_two = Some \<lparr>ep_fd = 3, ep_ev = 100, ed = [102, 103], ev_len = 2, max_ev_len = 2, ep_timeout = 1000,
     ep_before_wait = 0, ep_user = 0\<rparr>"
  "kint epw_two = [7 \<mapsto> (5, 102), 8 \<mapsto> (1, 103)]" "ed_fd (ed_of epw_two 103) = 8"
  by (simp_all add: epw_two_def ep_add_def hp_epoll_add_def epw_example_def hp_epoll_init_def epw_start_def Let_def
      ep_index_def ed_used_def hp_lfind_def ep_add_new_def epoll_ctl_def ctl_errno_def ep_find_by_fd_def
      ed_of_def numeral_2_eq_2)

theorem hp_epoll_run_once_calls_witness:
  "hp_epoll_run log_cbs True [W_ready [(8, 4)]] (epw_two, []) =
    Done (0, epw_two, [L_event 20 5 40, L_event 21 5 41, L_event 21 4 41, L_loop 30 40])"
  using hp_epoll_run_once_calls [OF epw_two_ok(1) epw_two_eval(1), of "[(8, 4)]" "[]" "[]"]
  by (simp add: epw_two_eval epw_two_ok drive_calls_def ready_calls_def loop_calls_def)

lemma hp_epoll_rm_stale_event_witness:
  "ep_ready log_cbs [\<lparr>ev_events = 1, ev_data = 103\<rparr>] (snd (hp_epoll_rm 8 epw_two), []) = Undef"
  using hp_epoll_rm_stale_event [OF epw_two_ok(1) epw_two_eval(1), of 103 "\<lparr>ev_events = 1, ev_data = 103\<rparr>" log_cbs "[]" "[]"]
  by (simp only: epw_two_eval ed_used_def) simp

end
