(* ===== verification/Hp_Poll.thy ===== *)
theory Hp_Poll
  imports Hp_Registry Hp_Stdlib
begin

section \<open>hp\_poll: the poll event table and its loop\<close>

text \<open>
  Models \<open>src/hp_poll.c\<close>. One block holds, from its start, \<open>max_fd + 1\<close> \<open>hp_polld\<close> records
  and then as many \<open>pollfd\<close> records; \<open>fds\<close> points between them, so the callbacks of
  \<open>fds[i]\<close> lie at the negative index \<open>-i\<close>. Both halves are kept as lists in address
  order: \<open>polld_at po i\<close> is \<open>((hp_polld *)po->fds)[-i]\<close>. Slot 0 of both is unused. An
  empty list of \<open>fds\<close> stands for a NULL pointer.
\<close>

subsection \<open>State\<close>

record hp_polld =
  pd_fn :: fnptr
  pd_arg :: ptr
  pd_on_loop :: fnptr

record pollfd =
  pf_fd :: sock
  pf_events :: int
  pf_revents :: int

record hp_poll =
  polld :: "hp_polld list"
  fds :: "pollfd list"
  nfds :: nat
  max_fd :: nat
  po_timeout :: int
  po_before_wait :: fnptr
  po_user :: ptr

definition polld_pos :: "hp_poll \<Rightarrow> nat \<Rightarrow> nat" where
  "polld_pos po i = max_fd po + 1 - i"

definition polld_at :: "hp_poll \<Rightarrow> nat \<Rightarrow> hp_polld" where
  "polld_at po i = polld po ! polld_pos po i"

definition fds_used :: "hp_poll \<Rightarrow> pollfd list" where
  "fds_used po = take (nfds po) (drop 1 (fds po))"

definition zero_pollfd :: pollfd where
  "zero_pollfd = \<lparr>pf_fd = 0, pf_events = 0, pf_revents = 0\<rparr>"

definition zero_polld :: hp_polld where
  "zero_polld = \<lparr>pd_fn = NULL, pd_arg = NULL, pd_on_loop = NULL\<rparr>"

subsection \<open>Initialisation\<close>

definition hp_poll_init :: "hp_poll option \<Rightarrow> int \<Rightarrow> int \<Rightarrow> fnptr \<Rightarrow> ptr \<Rightarrow> int \<times> hp_poll option" where
  "hp_poll_init poo maxfd timeout bw arg =
     (case poo of None \<Rightarrow> (-1, None)
      | Some _ \<Rightarrow>
        let n = (if maxfd \<le> 0 then 65535 else maxfd + 1)
        in (0, Some \<lparr>polld = replicate (nat n) zero_polld, fds = replicate (nat n) zero_pollfd, nfds = 0,
                     max_fd = nat (n - 1), po_timeout = timeout, po_before_wait = bw, po_user = arg\<rparr>))"

text \<open>Uninit frees the block; the fields keep their values.\<close>

definition hp_poll_uninit :: "hp_poll option \<Rightarrow> hp_poll option" where
  "hp_poll_uninit poo =
     (case poo of None \<Rightarrow> None
      | Some po \<Rightarrow> if fds po = [] then Some po else Some (po\<lparr>polld := [], fds := []\<rparr>))"

subsection \<open>Add and remove\<close>

definition po_find_by_fd :: "sock \<Rightarrow> pollfd \<Rightarrow> int" where
  "po_find_by_fd fd pfd = c_not (pf_fd pfd = fd)"

text \<open>The index of a descriptor, counted from \<open>fds\<close> (1 for the first used slot).\<close>

definition po_index :: "sock \<Rightarrow> hp_poll \<Rightarrow> nat option" where
  "po_index fd po = map_option Suc (hp_lfind fd (fds_used po) po_find_by_fd)"

definition po_store :: "nat \<Rightarrow> sock \<Rightarrow> int \<Rightarrow> fnptr \<Rightarrow> fnptr \<Rightarrow> ptr \<Rightarrow> hp_poll \<Rightarrow> hp_poll" where
  "po_store i fd events fn on_loop arg po =
     po\<lparr>fds := (fds po)[i := \<lparr>pf_fd = fd, pf_events = events, pf_revents = 0\<rparr>],
        polld := (polld po)[polld_pos po i := \<lparr>pd_fn = fn, pd_arg = arg, pd_on_loop = on_loop\<rparr>]\<rparr>"

definition hp_poll_add ::
  "sock \<Rightarrow> int \<Rightarrow> fnptr \<Rightarrow> fnptr \<Rightarrow> ptr \<Rightarrow> hp_poll option \<Rightarrow> int \<times> hp_poll option" where
  "hp_poll_add fd events fn on_loop arg poo =
     (case poo of None \<Rightarrow> (-1, None)
      | Some po \<Rightarrow>
        if \<not> (fds po \<noteq> [] \<and> fd \<ge> 0) then (-1, Some po)
        else case po_index fd po of
          Some i \<Rightarrow> (0, Some (po_store i fd events fn on_loop arg po))
        | None \<Rightarrow>
            if nfds po \<ge> max_fd po then (-2, Some po)
            else (0, Some (po_store (nfds po + 1) fd events fn on_loop arg (po\<lparr>nfds := nfds po + 1\<rparr>))))"

definition hp_poll_rm_at :: "nat \<Rightarrow> hp_poll \<Rightarrow> int \<times> hp_poll" where
  "hp_poll_rm_at i po =
     (if \<not> (i \<ge> 1 \<and> i \<le> nfds po) then (-1, po)
      else
        let n = nfds po - i; start = polld_pos po (nfds po);
            po = (if i < nfds po
                  then po\<lparr>polld := mem_move (start + 1) start n (polld po),
                          fds := mem_move i (i + 1) n (fds po)\<rparr>
                  else po)
        in (0, po\<lparr>nfds := nfds po - 1\<rparr>))"

definition hp_poll_rm :: "sock \<Rightarrow> hp_poll option \<Rightarrow> int \<times> hp_poll option" where
  "hp_poll_rm fd poo =
     (case poo of None \<Rightarrow> (-1, None)
      | Some po \<Rightarrow>
        case po_index fd po of
          None \<Rightarrow> (-1, Some po)
        | Some i \<Rightarrow> (0, Some (snd (hp_poll_rm_at i po))))"

definition hp_poll_size :: "hp_poll option \<Rightarrow> nat" where
  "hp_poll_size poo = (case poo of None \<Rightarrow> 0 | Some po \<Rightarrow> nfds po)"

subsection \<open>Search\<close>

definition po_do_find :: "hp_poll \<Rightarrow> ptr \<times> (ptr \<Rightarrow> ptr \<Rightarrow> int) option \<Rightarrow> nat \<Rightarrow> int" where
  "po_do_find po tu i =
     (let arg = pd_arg (polld_at po i)
      in c_not (case snd tu of Some cmp \<Rightarrow> cmp (fst tu) arg \<noteq> 0 | None \<Rightarrow> fst tu = arg))"

definition hp_poll_find :: "ptr \<Rightarrow> (ptr \<Rightarrow> ptr \<Rightarrow> int) option \<Rightarrow> hp_poll option \<Rightarrow> ptr" where
  "hp_poll_find key cb poo =
     (case poo of None \<Rightarrow> NULL
      | Some po \<Rightarrow>
        case hp_lfind (key, cb) [1..<nfds po + 1] (po_do_find po) of
          None \<Rightarrow> NULL
        | Some k \<Rightarrow> pd_arg (polld_at po (k + 1)))"

subsection \<open>The event loop\<close>

text \<open>
  The callbacks get the index of their \<open>pollfd\<close>. \<open>poll\<close> answers from a script: the
  descriptors with their \<open>revents\<close> (0 for the others), or an error.
\<close>

record 'u po_cbs =
  pcb_fn :: "fnptr \<Rightarrow> nat \<Rightarrow> ptr \<Rightarrow> hp_poll \<times> 'u \<Rightarrow> hp_poll \<times> 'u"
  pcb_loop :: "fnptr \<Rightarrow> ptr \<Rightarrow> hp_poll \<times> 'u \<Rightarrow> hp_poll \<times> 'u"
  pcb_before :: "fnptr \<Rightarrow> hp_poll \<times> 'u \<Rightarrow> int \<times> hp_poll \<times> 'u"

datatype poll_ans = P_ready "(sock \<times> int) list" | P_fail int

definition poll_revents :: "(sock \<times> int) list \<Rightarrow> sock \<Rightarrow> int" where
  "poll_revents rs fd = (case map_of rs fd of None \<Rightarrow> 0 | Some r \<Rightarrow> r)"

definition poll_fill :: "(sock \<times> int) list \<Rightarrow> hp_poll \<Rightarrow> hp_poll" where
  "poll_fill rs po =
     po\<lparr>fds := take 1 (fds po) @ map (\<lambda>p. p\<lparr>pf_revents := poll_revents rs (pf_fd p)\<rparr>) (fds_used po) @
               drop (nfds po + 1) (fds po)\<rparr>"

definition checkifnotpolled :: "pollfd \<Rightarrow> bool" where
  "checkifnotpolled p \<longleftrightarrow> pf_revents p \<noteq> 0"

definition checkifnotlooped :: "pollfd \<Rightarrow> bool" where
  "checkifnotlooped p \<longleftrightarrow> pf_revents p = 0"

definition get_next_to_run :: "hp_poll \<Rightarrow> nat \<Rightarrow> (pollfd \<Rightarrow> bool) \<Rightarrow> nat option" where
  "get_next_to_run po n cb = find (\<lambda>i. cb (fds po ! i)) [1..<n + 1]"

text \<open>
  The dispatch loop ends only when no entry has \<open>revents\<close> set any more, which is up to the
  callbacks: \<open>None\<close> is fuel that has run out.
\<close>

primrec poll_dispatch :: "nat \<Rightarrow> 'u po_cbs \<Rightarrow> nat \<Rightarrow> hp_poll \<times> 'u \<Rightarrow> (hp_poll \<times> 'u) option" where
  "poll_dispatch 0 cbs n0 s = None"
| "poll_dispatch (Suc fuel) cbs n0 s =
     (case get_next_to_run (fst s) (min n0 (nfds (fst s))) checkifnotpolled of
        None \<Rightarrow> Some s
      | Some i \<Rightarrow>
          let pd = polld_at (fst s) i
          in poll_dispatch fuel cbs n0 (if pd_fn pd \<noteq> NULL then pcb_fn cbs (pd_fn pd) i (pd_arg pd) s else s))"

text \<open>The loop over the loop callbacks; \<open>m\<close> counts the slots left in the array.\<close>

primrec poll_loops :: "nat \<Rightarrow> 'u po_cbs \<Rightarrow> nat \<Rightarrow> hp_poll \<times> 'u \<Rightarrow> (hp_poll \<times> 'u) outcome" where
  "poll_loops 0 cbs i s = (if i \<le> nfds (fst s) then Undef else Done s)"
| "poll_loops (Suc m) cbs i s =
     (if \<not> i \<le> nfds (fst s) then Done s
      else let pd = polld_at (fst s) i
           in poll_loops m cbs (i + 1)
                (if pd_on_loop pd \<noteq> NULL then pcb_loop cbs (pd_on_loop pd) (pd_arg pd) s else s))"

primrec poll_run_loop ::
  "nat \<Rightarrow> 'u po_cbs \<Rightarrow> bool \<Rightarrow> poll_ans list \<Rightarrow> hp_poll \<times> 'u \<Rightarrow> (int \<times> hp_poll \<times> 'u) outcome option" where
  "poll_run_loop fuel cbs mode [] s =
     (let (rc, s) = (if mode \<and> po_before_wait (fst s) \<noteq> NULL then pcb_before cbs (po_before_wait (fst s)) s else (0, s))
      in Some (if rc \<noteq> 0 then Done (rc, s) else Blocked (0, s)))"
| "poll_run_loop fuel cbs mode (a # ans) s =
     (let (rc, s) = (if mode \<and> po_before_wait (fst s) \<noteq> NULL then pcb_before cbs (po_before_wait (fst s)) s else (0, s))
      in if rc \<noteq> 0 then Some (Done (rc, s))
         else case a of
           P_fail er \<Rightarrow>
             if er = EINTR \<or> er = EAGAIN then (if mode then Some (Done (0, s)) else poll_run_loop fuel cbs mode ans s)
             else Some (Done (-7, s))
         | P_ready rs \<Rightarrow>
             let s = (poll_fill rs (fst s), snd s) in
             if list_all (\<lambda>p. pf_revents p = 0) (fds_used (fst s))
             then (if mode then Some (Done (0, s)) else poll_run_loop fuel cbs mode ans s)
             else case poll_dispatch fuel cbs (nfds (fst s)) s of
               None \<Rightarrow> None
             | Some s \<Rightarrow>
                 (case poll_loops (max_fd (fst s)) cbs 1 s of
                    Done s \<Rightarrow> if mode then Some (Done (0, s)) else poll_run_loop fuel cbs mode ans s
                  | Undef \<Rightarrow> Some Undef
                  | Blocked s \<Rightarrow> Some (Blocked (0, s))))"

definition hp_poll_run ::
  "nat \<Rightarrow> 'u po_cbs \<Rightarrow> bool \<Rightarrow> poll_ans list \<Rightarrow> hp_poll option \<Rightarrow> 'u \<Rightarrow> (int \<times> hp_poll option \<times> 'u) outcome option" where
  "hp_poll_run fuel cbs mode ans poo u =
     (case poo of None \<Rightarrow> Some (Done (-1, None, u))
      | Some po \<Rightarrow>
        map_option (\<lambda>r. case r of Done (rc, po, u) \<Rightarrow> Done (rc, Some po, u)
                           | Blocked (rc, po, u) \<Rightarrow> Blocked (rc, Some po, u) | Undef \<Rightarrow> Undef)
          (poll_run_loop fuel cbs mode ans (po, u)))"

subsection \<open>Invariant and abstract table\<close>

type_synonym po_desc = "int \<times> fnptr \<times> fnptr \<times> ptr"

definition po_wf :: "hp_poll \<Rightarrow> bool" where
  "po_wf po \<longleftrightarrow>
     length (fds po) = max_fd po + 1 \<and> length (polld po) = max_fd po + 1 \<and> nfds po \<le> max_fd po \<and>
     distinct (map pf_fd (fds_used po))"

definition po_inv :: "hp_poll option \<Rightarrow> bool" where
  "po_inv poo = (case poo of None \<Rightarrow> False | Some po \<Rightarrow> po_wf po)"

definition po_entry :: "hp_poll \<Rightarrow> nat \<Rightarrow> sock \<times> po_desc" where
  "po_entry po i =
     (pf_fd (fds po ! i), pf_events (fds po ! i), pd_fn (polld_at po i), pd_on_loop (polld_at po i), pd_arg (polld_at po i))"

definition po_entries :: "hp_poll option \<Rightarrow> (sock \<times> po_desc) list" where
  "po_entries poo = (case poo of None \<Rightarrow> [] | Some po \<Rightarrow> map (po_entry po) [1..<nfds po + 1])"

definition po_capacity :: "hp_poll option \<Rightarrow> nat" where
  "po_capacity poo = (case poo of None \<Rightarrow> 0 | Some po \<Rightarrow> max_fd po)"

definition po_add :: "sock \<Rightarrow> po_desc \<Rightarrow> hp_poll option \<Rightarrow> int \<times> hp_poll option" where
  "po_add fd d poo = (case d of (events, fn, on_loop, arg) \<Rightarrow> hp_poll_add fd events fn on_loop arg poo)"

lemma length_fds_used: "po_wf po \<Longrightarrow> length (fds_used po) = nfds po"
  by (auto simp: po_wf_def fds_used_def min_def)

lemma nth_fds_used: "po_wf po \<Longrightarrow> j < nfds po \<Longrightarrow> fds_used po ! j = fds po ! Suc j"
  by (auto simp: po_wf_def fds_used_def)

lemma nth_po_entries: "j < nfds po \<Longrightarrow> po_entries (Some po) ! j = po_entry po (Suc j)"
  by (simp add: po_entries_def del: upt_Suc)

lemma length_po_entries [simp]: "length (po_entries (Some po)) = nfds po"
  by (simp add: po_entries_def)

lemma map_fst_po_entries: "po_wf po \<Longrightarrow> map fst (po_entries (Some po)) = map pf_fd (fds_used po)"
  by (rule nth_equalityI) (simp_all add: length_fds_used nth_fds_used nth_po_entries po_entry_def)

lemma po_index_None_iff: "po_wf po \<Longrightarrow> po_index fd po = None \<longleftrightarrow> fd \<notin> fst ` set (po_entries (Some po))"
proof -
  assume wf: "po_wf po"
  have "po_index fd po = None \<longleftrightarrow> fd \<notin> set (map pf_fd (fds_used po))"
    by (auto simp: po_index_def hp_lfind_None_iff po_find_by_fd_def)
  then show ?thesis using map_fst_po_entries [OF wf] by (metis list.set_map)
qed

lemma po_index_SomeD:
  assumes "po_wf po" and "po_index fd po = Some i"
  shows "1 \<le> i \<and> i \<le> nfds po \<and> pf_fd (fds po ! i) = fd"
proof -
  obtain j where "i = Suc j" "hp_lfind fd (fds_used po) po_find_by_fd = Some j"
    using assms(2) by (auto simp: po_index_def)
  with hp_lfind_SomeD [of fd "fds_used po" po_find_by_fd j] assms(1) show ?thesis
    by (auto simp: po_find_by_fd_def length_fds_used nth_fds_used)
qed

subsection \<open>Storing an entry\<close>

lemma polld_pos_inj: "i \<le> m + 1 \<Longrightarrow> j \<le> m + 1 \<Longrightarrow> max_fd po = m \<Longrightarrow> polld_pos po i = polld_pos po j \<longleftrightarrow> i = j"
  by (auto simp: polld_pos_def)

lemma po_entry_store:
  assumes "length (fds po) = max_fd po + 1" and "length (polld po) = max_fd po + 1"
    and "1 \<le> i" and "i \<le> max_fd po" and "1 \<le> j" and "j \<le> max_fd po"
  shows "po_entry (po_store i fd events fn on_loop arg po) j =
    (if j = i then (fd, events, fn, on_loop, arg) else po_entry po j)"
proof -
  have "polld_pos po i < length (polld po)" using assms by (simp add: polld_pos_def)
  moreover have "polld_pos po j \<noteq> polld_pos po i" if "j \<noteq> i" using that assms by (simp add: polld_pos_def)
  moreover have "polld_pos (po_store i fd events fn on_loop arg po) j = polld_pos po j"
    by (simp add: polld_pos_def po_store_def)
  ultimately show ?thesis
    using assms by (auto simp: po_entry_def polld_at_def po_store_def)
qed

lemma po_store_old:
  assumes wf: "po_wf po" and "1 \<le> i" and "i \<le> nfds po" and "pf_fd (fds po ! i) = fd"
    and po': "po' = po_store i fd events fn on_loop arg po"
  shows "po_wf po' \<and> max_fd po' = max_fd po \<and>
    po_entries (Some po') = (po_entries (Some po))[i - 1 := (fd, events, fn, on_loop, arg)]"
proof -
  have frame: "nfds po' = nfds po" "max_fd po' = max_fd po" "length (fds po') = length (fds po)"
    "length (polld po') = length (polld po)" by (simp_all add: po' po_store_def)
  have ents: "po_entries (Some po') = (po_entries (Some po))[i - 1 := (fd, events, fn, on_loop, arg)]"
  proof (rule nth_equalityI)
    fix j assume "j < length (po_entries (Some po'))"
    then have j: "j < nfds po" using frame by simp
    have "po_entry po' (Suc j) = (if Suc j = i then (fd, events, fn, on_loop, arg) else po_entry po (Suc j))"
      unfolding po' using wf assms(2,3) j by (intro po_entry_store) (auto simp: po_wf_def)
    then show "po_entries (Some po') ! j = (po_entries (Some po))[i - 1 := (fd, events, fn, on_loop, arg)] ! j"
      using j frame assms(2) by (auto simp: nth_po_entries nth_list_update)
  qed (simp add: frame)
  have "fds_used po' = (fds_used po)[i - 1 := \<lparr>pf_fd = fd, pf_events = events, pf_revents = 0\<rparr>]"
    using assms(2,3) by (cases i; cases "fds po") (auto simp: fds_used_def po' po_store_def take_update_swap)
  moreover have "fds_used po ! (i - 1) = fds po ! i" "i - 1 < length (fds_used po)"
    using assms(2,3) nth_fds_used [OF wf, of "i - 1"] length_fds_used [OF wf] by auto
  ultimately have "map pf_fd (fds_used po') = map pf_fd (fds_used po)"
    using assms(4) by (simp add: map_update list_update_same_conv)
  then have "po_wf po'" using wf frame by (simp add: po_wf_def)
  with ents frame show ?thesis by simp
qed

lemma po_store_new:
  assumes wf: "po_wf po" and "nfds po < max_fd po" and "fd \<notin> fst ` set (po_entries (Some po))"
    and po': "po' = po_store (nfds po + 1) fd events fn on_loop arg (po\<lparr>nfds := nfds po + 1\<rparr>)"
  shows "po_wf po' \<and> max_fd po' = max_fd po \<and>
    po_entries (Some po') = po_entries (Some po) @ [(fd, events, fn, on_loop, arg)]"
proof -
  let ?po = "po\<lparr>nfds := nfds po + 1\<rparr>"
  have frame: "nfds po' = nfds po + 1" "max_fd po' = max_fd po" "length (fds po') = length (fds po)"
    "length (polld po') = length (polld po)" by (simp_all add: po' po_store_def)
  have same: "po_entry ?po j = po_entry po j" for j by (simp add: po_entry_def polld_at_def polld_pos_def)
  have ents: "po_entries (Some po') = po_entries (Some po) @ [(fd, events, fn, on_loop, arg)]"
  proof (rule nth_equalityI)
    fix j assume "j < length (po_entries (Some po'))"
    then have j: "j < nfds po + 1" using frame by simp
    have "po_entry po' (Suc j) = (if Suc j = nfds po + 1 then (fd, events, fn, on_loop, arg) else po_entry ?po (Suc j))"
      unfolding po' using wf assms(2) j by (intro po_entry_store) (auto simp: po_wf_def)
    then show "po_entries (Some po') ! j = (po_entries (Some po) @ [(fd, events, fn, on_loop, arg)]) ! j"
      using j frame same by (auto simp: nth_po_entries nth_append)
  qed (simp add: frame)
  have "fds_used po' = fds_used po @ [\<lparr>pf_fd = fd, pf_events = events, pf_revents = 0\<rparr>]"
    using wf assms(2) by (cases "fds po") (auto simp: fds_used_def po' po_store_def po_wf_def take_Suc_conv_app_nth)
  moreover have "fd \<notin> set (map pf_fd (fds_used po))"
    using assms(3) map_fst_po_entries [OF wf] by (metis list.set_map)
  ultimately have "po_wf po'" using wf frame assms(2) by (simp add: po_wf_def)
  with ents frame show ?thesis by simp
qed

subsection \<open>Removing an entry\<close>

lemma rm_at_frame:
  assumes "1 \<le> i" and "i \<le> nfds po"
  shows "nfds (snd (hp_poll_rm_at i po)) = nfds po - 1" "max_fd (snd (hp_poll_rm_at i po)) = max_fd po"
    "fst (hp_poll_rm_at i po) = 0"
  using assms by (simp_all add: hp_poll_rm_at_def Let_def)

lemma rm_at_arrays:
  assumes wf: "po_wf po" and i: "1 \<le> i" "i \<le> nfds po" and j: "1 \<le> j" "j < nfds po"
  shows "fds (snd (hp_poll_rm_at i po)) ! j = (if j < i then fds po ! j else fds po ! Suc j)"
    and "polld_at (snd (hp_poll_rm_at i po)) j = (if j < i then polld_at po j else polld_at po (Suc j))"
proof -
  let ?po = "snd (hp_poll_rm_at i po)" and ?M = "max_fd po + 1" and ?n = "nfds po - i"
  have len: "length (fds po) = ?M" "length (polld po) = ?M" "nfds po \<le> max_fd po" using wf by (simp_all add: po_wf_def)
  show "fds ?po ! j = (if j < i then fds po ! j else fds po ! Suc j)"
  proof (cases "i < nfds po")
    case True
    then have "fds ?po = mem_move i (i + 1) ?n (fds po)" using i by (simp add: hp_poll_rm_at_def Let_def)
    with nth_mem_move [of i ?n "fds po" "i + 1" j] i j len True show ?thesis by auto
  next
    case False
    with i j show ?thesis by (simp add: hp_poll_rm_at_def Let_def)
  qed
  show "polld_at ?po j = (if j < i then polld_at po j else polld_at po (Suc j))"
  proof (cases "i < nfds po")
    case True
    let ?s = "polld_pos po (nfds po)"
    have pd: "polld ?po = mem_move (?s + 1) ?s ?n (polld po)" using i True by (simp add: hp_poll_rm_at_def Let_def)
    have pos: "polld_pos ?po j = ?M - j" using rm_at_frame [OF i] by (simp add: polld_pos_def)
    have "mem_move (?s + 1) ?s ?n (polld po) ! (?M - j) =
      (if ?s + 1 \<le> ?M - j \<and> ?M - j < ?s + 1 + ?n then polld po ! (?s + ((?M - j) - (?s + 1))) else polld po ! (?M - j))"
      by (rule nth_mem_move) (use i j len True in \<open>auto simp: polld_pos_def\<close>)
    moreover have "?s + 1 \<le> ?M - j \<and> ?M - j < ?s + 1 + ?n \<longleftrightarrow> i \<le> j"
      using i j len True by (auto simp: polld_pos_def)
    moreover have "?s + ((?M - j) - (?s + 1)) = ?M - Suc j" using j len by (auto simp: polld_pos_def)
    ultimately show ?thesis by (simp add: polld_at_def pd pos) (simp add: polld_pos_def)
  next
    case False
    with i j show ?thesis by (simp add: hp_poll_rm_at_def Let_def polld_at_def polld_pos_def)
  qed
qed

lemma rm_at_wf:
  assumes wf: "po_wf po" and i: "1 \<le> i" "i \<le> nfds po"
  shows "po_wf (snd (hp_poll_rm_at i po)) \<and>
    po_entries (Some (snd (hp_poll_rm_at i po))) = del_at (i - 1) (po_entries (Some po))"
proof -
  let ?po = "snd (hp_poll_rm_at i po)"
  have len: "length (fds po) = max_fd po + 1" "length (polld po) = max_fd po + 1" "nfds po \<le> max_fd po"
    using wf by (simp_all add: po_wf_def)
  have i1: "i - 1 < length (po_entries (Some po))" using i by simp
  have ents: "po_entries (Some ?po) = del_at (i - 1) (po_entries (Some po))"
  proof (rule nth_equalityI)
    show "length (po_entries (Some ?po)) = length (del_at (i - 1) (po_entries (Some po)))"
      using i1 rm_at_frame [OF i] by simp
    fix j assume "j < length (po_entries (Some ?po))"
    then have j: "j < nfds po - 1" using rm_at_frame [OF i] by simp
    have "po_entry ?po (Suc j) = (if Suc j < i then po_entry po (Suc j) else po_entry po (Suc (Suc j)))"
      using rm_at_arrays [OF wf i, of "Suc j"] j by (simp add: po_entry_def)
    moreover have "j < i - 1 \<longleftrightarrow> Suc j < i" by arith
    ultimately show "po_entries (Some ?po) ! j = del_at (i - 1) (po_entries (Some po)) ! j"
      using j rm_at_frame [OF i] i1 i by (simp add: nth_del_at nth_po_entries)
  qed
  have lens: "length (fds ?po) = max_fd po + 1" "length (polld ?po) = max_fd po + 1"
    using i len by (auto simp: hp_poll_rm_at_def Let_def polld_pos_def)
  have used: "length (fds_used ?po) = nfds po - 1"
    using lens rm_at_frame [OF i] len by (simp add: fds_used_def)
  have "map pf_fd (fds_used ?po) = map fst (po_entries (Some ?po))"
  proof (rule nth_equalityI)
    fix j assume "j < length (map pf_fd (fds_used ?po))"
    then have "j < nfds ?po" using used rm_at_frame [OF i] by simp
    then show "map pf_fd (fds_used ?po) ! j = map fst (po_entries (Some ?po)) ! j"
      using used rm_at_frame [OF i] lens len by (simp add: nth_po_entries po_entry_def) (simp add: fds_used_def)
  qed (use used rm_at_frame [OF i] in simp)
  moreover have "distinct (map fst (po_entries (Some po)))"
    using wf map_fst_po_entries [OF wf] by (simp add: po_wf_def)
  ultimately have "distinct (map pf_fd (fds_used ?po))"
    using ents by (simp add: map_del_at distinct_del_at)
  with lens len rm_at_frame [OF i] have "po_wf ?po" by (simp add: po_wf_def)
  with ents show ?thesis by blast
qed

subsection \<open>The contract holds\<close>

definition po_search :: "(ptr \<Rightarrow> bool) \<Rightarrow> hp_poll option \<Rightarrow> ptr" where
  "po_search P poo = hp_poll_find 0 (Some (\<lambda>k arg. if P arg then 1 else 0)) poo"

definition po_argument :: "po_desc \<Rightarrow> ptr" where
  "po_argument d = snd (snd (snd d))"

lemma po_add_cases:
  assumes "po_inv poo" and "0 \<le> fd"
  shows "if fd \<in> fst ` set (po_entries poo) \<or> length (po_entries poo) < po_capacity poo
    then fst (po_add fd d poo) = 0 \<and> po_entries (snd (po_add fd d poo)) = reg_put fd d (po_entries poo) \<and>
         po_inv (snd (po_add fd d poo)) \<and> po_capacity (snd (po_add fd d poo)) = po_capacity poo
    else po_add fd d poo = (-2, poo)"
proof -
  obtain po where po: "poo = Some po" and wf: "po_wf po"
    using assms(1) by (cases poo) (auto simp: po_inv_def)
  obtain events fn on_loop arg where d: "d = (events, fn, on_loop, arg)" by (cases d) auto
  have ne: "fds po \<noteq> []" and cap: "po_capacity poo = max_fd po"
    using wf po by (auto simp: po_wf_def po_capacity_def)
  show ?thesis
  proof (cases "po_index fd po")
    case None
    then have nin: "fd \<notin> fst ` set (po_entries (Some po))" using po_index_None_iff [OF wf] by simp
    let ?po = "po_store (nfds po + 1) fd events fn on_loop arg (po\<lparr>nfds := nfds po + 1\<rparr>)"
    show ?thesis
    proof (cases "nfds po < max_fd po")
      case True
      have "po_add fd d poo = (0, Some ?po)"
        using None po ne assms(2) True by (simp add: po_add_def d hp_poll_add_def)
      with po_store_new [OF wf True nin refl, of events fn on_loop arg] nin True cap po d show ?thesis
        by (simp add: reg_put_def po_inv_def) (simp add: po_capacity_def)
    next
      case False
      then show ?thesis using None po ne assms(2) nin cap by (simp add: po_add_def d hp_poll_add_def)
    qed
  next
    case (Some i)
    note ix = po_index_SomeD [OF wf Some]
    have dist: "distinct (map fst (po_entries (Some po)))"
      using wf map_fst_po_entries [OF wf] by (simp add: po_wf_def)
    have i1: "i - 1 < length (po_entries (Some po))" "fst (po_entries (Some po) ! (i - 1)) = fd"
      using ix by (auto simp: nth_po_entries po_entry_def)
    have put: "reg_put fd d (po_entries (Some po)) = (po_entries (Some po))[i - 1 := (fd, d)]"
      by (rule reg_put_at [OF dist i1])
    have mem: "fd \<in> fst ` set (po_entries (Some po))" using i1 by (metis image_eqI nth_mem)
    have "po_add fd d poo = (0, Some (po_store i fd events fn on_loop arg po))"
      using Some po ne assms(2) by (simp add: po_add_def d hp_poll_add_def)
    with po_store_old [OF wf _ _ _ refl, of i fd events fn on_loop arg] ix put mem cap po d show ?thesis
      by (simp add: po_inv_def) (simp add: po_capacity_def)
  qed
qed

lemma hp_poll_rm_cases:
  assumes "po_inv poo"
  shows "(fst (hp_poll_rm fd poo) = 0 \<longleftrightarrow> fd \<in> fst ` set (po_entries poo)) \<and>
    po_entries (snd (hp_poll_rm fd poo)) = reg_del fd (po_entries poo) \<and>
    po_inv (snd (hp_poll_rm fd poo)) \<and> po_capacity (snd (hp_poll_rm fd poo)) = po_capacity poo"
proof -
  obtain po where po: "poo = Some po" and wf: "po_wf po"
    using assms(1) by (cases poo) (auto simp: po_inv_def)
  show ?thesis
  proof (cases "po_index fd po")
    case None
    then have "fd \<notin> fst ` set (po_entries (Some po))" using po_index_None_iff [OF wf] by simp
    with None po assms show ?thesis by (simp add: hp_poll_rm_def reg_del_notin)
  next
    case (Some i)
    note ix = po_index_SomeD [OF wf Some]
    have dist: "distinct (map fst (po_entries (Some po)))"
      using wf map_fst_po_entries [OF wf] by (simp add: po_wf_def)
    have i1: "i - 1 < length (po_entries (Some po))" "fst (po_entries (Some po) ! (i - 1)) = fd"
      using ix by (auto simp: nth_po_entries po_entry_def)
    have del: "reg_del fd (po_entries (Some po)) = del_at (i - 1) (po_entries (Some po))"
      by (rule reg_del_at [OF dist i1])
    have "fd \<in> fst ` set (po_entries (Some po))" using i1 by (metis image_eqI nth_mem)
    with Some po del rm_at_wf [OF wf, of i] rm_at_frame [of i po] ix show ?thesis
      by (simp add: hp_poll_rm_def po_inv_def) (simp add: po_capacity_def)
  qed
qed

lemma po_argument_entry [simp]: "po_argument (snd (po_entry po i)) = pd_arg (polld_at po i)"
  by (simp add: po_entry_def po_argument_def)

lemma find_po_entries: "find (\<lambda>x. P (po_argument (snd x))) (map (po_entry po) xs) =
  map_option (po_entry po) (find (\<lambda>i. P (pd_arg (polld_at po i))) xs)"
  by (induction xs) auto

lemma hp_poll_find_entries:
  "hp_poll_find key cmp (Some po) =
    (case reg_find (\<lambda>d. (case cmp of Some c \<Rightarrow> c key (po_argument d) \<noteq> 0 | None \<Rightarrow> key = po_argument d))
       (po_entries (Some po)) of None \<Rightarrow> 0 | Some d \<Rightarrow> po_argument d)"
proof -
  let ?P = "\<lambda>a. case cmp of Some c \<Rightarrow> c key a \<noteq> 0 | None \<Rightarrow> key = a"
  let ?Q = "\<lambda>i. ?P (pd_arg (polld_at po i))" and ?xs = "[1..<nfds po + 1]"
  have lf: "hp_lfind (key, cmp) ?xs (po_do_find po) = lfind_idx ?Q ?xs"
    by (cases cmp) (simp_all add: hp_lfind_def po_do_find_def Let_def)
  have rf: "reg_find (\<lambda>d. ?P (po_argument d)) (po_entries (Some po)) =
      map_option (\<lambda>i. snd (po_entry po i)) (map_option (nth ?xs) (lfind_idx ?Q ?xs))"
    unfolding lfind_idx_find reg_find_def po_entries_def option.case find_po_entries [of ?P]
    by (simp add: option.map_comp comp_def)
  show ?thesis
  proof (cases "lfind_idx ?Q ?xs")
    case None
    with lf rf show ?thesis by (simp add: hp_poll_find_def)
  next
    case (Some k)
    from lfind_idx_SomeD [OF Some] have "?xs ! k = k + 1" by (simp del: upt_Suc)
    with Some lf rf show ?thesis by (simp add: hp_poll_find_def)
  qed
qed

interpretation por: searchable_registry po_inv po_entries po_capacity po_add hp_poll_rm po_search po_argument
proof
  fix s :: "hp_poll option" and fd :: sock and d :: po_desc and P
  assume inv: "po_inv s"
  then obtain po where po: "s = Some po" and wf: "po_wf po" by (cases s) (auto simp: po_inv_def)
  show "distinct (map fst (po_entries s))"
    using wf map_fst_po_entries [OF wf] po by (simp add: po_wf_def)
  show "length (po_entries s) \<le> po_capacity s"
    using wf po by (simp add: po_capacity_def po_wf_def)
  show "po_entries (snd (hp_poll_rm fd s)) = reg_del fd (po_entries s)"
    "fst (hp_poll_rm fd s) = 0 \<longleftrightarrow> fd \<in> fst ` set (po_entries s)"
    "po_inv (snd (hp_poll_rm fd s)) \<and> po_capacity (snd (hp_poll_rm fd s)) = po_capacity s"
    using hp_poll_rm_cases [OF inv] by blast+
  show "po_search P s = (case reg_find (\<lambda>d. P (po_argument d)) (po_entries s) of None \<Rightarrow> 0 | Some d \<Rightarrow> po_argument d)"
    using hp_poll_find_entries po by (simp add: po_search_def if_distrib cong: if_cong)
  assume "0 \<le> fd"
  note cases = po_add_cases [OF inv this, of d]
  show "fst (po_add fd d s) = -2 \<and> po_entries (snd (po_add fd d s)) = po_entries s"
    if "fd \<notin> fst ` set (po_entries s)" "po_capacity s \<le> length (po_entries s)"
    using cases that by simp
  show "fst (po_add fd d s) = 0 \<and> po_entries (snd (po_add fd d s)) = reg_put fd d (po_entries s)"
    if "fd \<in> fst ` set (po_entries s) \<or> length (po_entries s) < po_capacity s"
    using cases that by simp
  show "po_inv (snd (po_add fd d s)) \<and> po_capacity (snd (po_add fd d s)) = po_capacity s"
    using cases inv by (auto split: if_splits)
qed

subsection \<open>What one turn calls\<close>

datatype po_log = PL_event fnptr ptr | PL_loop fnptr ptr

text \<open>Callbacks that record their calls and, as the header asks, reset \<open>revents\<close>.\<close>

definition clear_revents :: "nat \<Rightarrow> hp_poll \<Rightarrow> hp_poll" where
  "clear_revents i po = po\<lparr>fds := (fds po)[i := (fds po ! i)\<lparr>pf_revents := 0\<rparr>]\<rparr>"

definition po_log_cbs :: "po_log list po_cbs" where
  "po_log_cbs = \<lparr>pcb_fn = (\<lambda>f i a (po, u). (clear_revents i po, u @ [PL_event f a])),
     pcb_loop = (\<lambda>f a (po, u). (po, u @ [PL_loop f a])), pcb_before = (\<lambda>f s. (0, s))\<rparr>"

lemma po_log_cbs_simps [simp]:
  "pcb_fn po_log_cbs f i a (po, u) = (clear_revents i po, u @ [PL_event f a])"
  "pcb_loop po_log_cbs f a (po, u) = (po, u @ [PL_loop f a])"
  by (simp_all add: po_log_cbs_def)

definition ready_idx :: "hp_poll \<Rightarrow> nat list" where
  "ready_idx po = filter (\<lambda>i. pf_revents (fds po ! i) \<noteq> 0) [1..<nfds po + 1]"

lemma get_next_ready:
  "get_next_to_run po (nfds po) checkifnotpolled = (case ready_idx po of [] \<Rightarrow> None | i # r \<Rightarrow> Some i)"
proof -
  have "find P xs = (case filter P xs of [] \<Rightarrow> None | i # r \<Rightarrow> Some i)" for P and xs :: "nat list"
    by (induction xs) auto
  then show ?thesis by (simp add: get_next_to_run_def ready_idx_def checkifnotpolled_def del: upt_Suc)
qed

lemma clear_revents_frame [simp]:
  "nfds (clear_revents i po) = nfds po" "polld_at (clear_revents i po) j = polld_at po j"
  "max_fd (clear_revents i po) = max_fd po" "length (fds (clear_revents i po)) = length (fds po)"
  by (simp_all add: clear_revents_def polld_at_def polld_pos_def)

lemma clear_revents_entry: "i < length (fds po) \<Longrightarrow> po_entry (clear_revents i po) j = po_entry po j"
  by (cases "j = i") (simp_all add: po_entry_def, simp_all add: clear_revents_def)

lemma ready_idx_clear:
  assumes "po_wf po" and "ready_idx po = i # r"
  shows "ready_idx (clear_revents i po) = r" and "1 \<le> i" and "i \<le> nfds po" and "i < length (fds po)"
proof -
  have "i \<in> set (ready_idx po)" using assms(2) by simp
  then show i: "1 \<le> i" "i \<le> nfds po" by (auto simp: ready_idx_def)
  with assms(1) show "i < length (fds po)" by (simp add: po_wf_def)
  then have "ready_idx (clear_revents i po) = filter (\<lambda>j. j \<noteq> i) (ready_idx po)"
    by (auto simp: ready_idx_def clear_revents_def nth_list_update simp del: upt_Suc intro!: filter_cong)
  moreover have "distinct (ready_idx po)" by (simp add: ready_idx_def del: upt_Suc)
  ultimately show "ready_idx (clear_revents i po) = r" using assms(2) by (auto simp: filter_id_conv)
qed

lemma clear_revents_wf: "po_wf po \<Longrightarrow> i < length (fds po) \<Longrightarrow> po_wf (clear_revents i po)"
proof -
  assume wf: "po_wf po" and i: "i < length (fds po)"
  have "map pf_fd (fds (clear_revents i po)) = map pf_fd (fds po)"
    using i by (simp add: clear_revents_def map_update list_update_same_conv)
  then have "map pf_fd (fds_used (clear_revents i po)) = map pf_fd (fds_used po)"
    by (simp add: fds_used_def take_map [symmetric] drop_map [symmetric])
  with wf show ?thesis by (simp add: po_wf_def) (simp add: clear_revents_def)
qed

lemma poll_dispatch_log:
  assumes "po_wf po" and "\<forall>i \<in> set (ready_idx po). pd_fn (polld_at po i) \<noteq> NULL"
    and "length (ready_idx po) < fuel"
  shows "\<exists>po'. poll_dispatch fuel po_log_cbs (nfds po) (po, u) =
      Some (po', u @ map (\<lambda>i. PL_event (pd_fn (polld_at po i)) (pd_arg (polld_at po i))) (ready_idx po)) \<and>
    po_wf po' \<and> nfds po' = nfds po \<and> max_fd po' = max_fd po \<and> polld_at po' = polld_at po \<and>
    po_entries (Some po') = po_entries (Some po)"
  using assms
proof (induction "ready_idx po" arbitrary: po fuel u)
  case Nil
  from Nil(1) [symmetric] Nil show ?case by (cases fuel) (auto simp: get_next_ready)
next
  case (Cons i r)
  note rc = ready_idx_clear [OF Cons.prems(1) Cons.hyps(2) [symmetric]]
  let ?po = "clear_revents i po"
  obtain f where f: "fuel = Suc f" using Cons.prems(3) by (cases fuel) auto
  have fn: "pd_fn (polld_at po i) \<noteq> NULL" using Cons.prems(2) Cons.hyps(2) [symmetric] by simp
  let ?u = "u @ [PL_event (pd_fn (polld_at po i)) (pd_arg (polld_at po i))]"
  have "\<forall>j \<in> set (ready_idx ?po). pd_fn (polld_at ?po j) \<noteq> NULL" "length (ready_idx ?po) < f"
    using rc(1) Cons.prems(2,3) Cons.hyps(2) [symmetric] f by simp_all
  from Cons.hyps(1) [OF rc(1) [symmetric] clear_revents_wf [OF Cons.prems(1) rc(4)] this, of ?u]
  obtain po' where po': "poll_dispatch f po_log_cbs (nfds ?po) (?po, ?u) =
      Some (po', ?u @ map (\<lambda>i. PL_event (pd_fn (polld_at po i)) (pd_arg (polld_at po i))) r)"
    "po_wf po'" "nfds po' = nfds po" "max_fd po' = max_fd po" "polld_at po' = polld_at ?po"
    "po_entries (Some po') = po_entries (Some ?po)"
    using rc(1) by auto
  have "poll_dispatch fuel po_log_cbs (nfds po) (po, u) = poll_dispatch f po_log_cbs (nfds ?po) (?po, ?u)"
    using fn Cons.hyps(2) [symmetric] by (simp add: f get_next_ready Let_def)
  moreover have "polld_at ?po = polld_at po" by (simp add: fun_eq_iff)
  moreover have "po_entries (Some ?po) = po_entries (Some po)"
    using rc(4) by (simp add: po_entries_def clear_revents_entry)
  ultimately show ?case
    using po' Cons.hyps(2) [symmetric] by (intro exI [of _ po']) simp
qed

definition po_loop_calls :: "(sock \<times> po_desc) list \<Rightarrow> po_log list" where
  "po_loop_calls es = map (\<lambda>(fd, v, fn, ol, a). PL_loop ol a) (filter (\<lambda>(fd, v, fn, ol, a). ol \<noteq> NULL) es)"

definition po_event_calls :: "(sock \<times> po_desc) list \<Rightarrow> (sock \<times> int) list \<Rightarrow> po_log list" where
  "po_event_calls es rs =
     map (\<lambda>(fd, v, fn, ol, a). PL_event fn a) (filter (\<lambda>(fd, v, fn, ol, a). poll_revents rs fd \<noteq> 0) es)"

lemma poll_loops_log:
  assumes "po_wf po" and "i + m = max_fd po + 1" and "1 \<le> i" and "i \<le> nfds po + 1"
  shows "poll_loops m po_log_cbs i (po, u) = Done (po, u @ po_loop_calls (map (po_entry po) [i..<nfds po + 1]))"
  using assms
proof (induction m arbitrary: i u)
  case 0
  then show ?case by (auto simp: po_wf_def po_loop_calls_def)
next
  case (Suc m)
  show ?case
  proof (cases "i \<le> nfds po")
    case True
    then have "[i..<nfds po + 1] = i # [i + 1..<nfds po + 1]" by (simp add: upt_rec)
    with Suc.IH [of "i + 1"] Suc.prems True show ?thesis
      by (simp add: po_loop_calls_def po_entry_def Let_def del: upt_Suc)
  next
    case False
    with Suc.prems show ?thesis by (simp add: po_loop_calls_def)
  qed
qed

lemma poll_fill_frame:
  assumes "po_wf po"
  shows "po_wf (poll_fill rs po)" "nfds (poll_fill rs po) = nfds po" "max_fd (poll_fill rs po) = max_fd po"
    "polld_at (poll_fill rs po) = polld_at po" "po_entries (Some (poll_fill rs po)) = po_entries (Some po)"
    "ready_idx (poll_fill rs po) = filter (\<lambda>i. poll_revents rs (pf_fd (fds po ! i)) \<noteq> 0) [1..<nfds po + 1]"
proof -
  let ?f = "\<lambda>p. p\<lparr>pf_revents := poll_revents rs (pf_fd p)\<rparr>"
  have len: "length (fds po) = max_fd po + 1" "length (fds_used po) = nfds po" "nfds po \<le> max_fd po"
    using assms length_fds_used [OF assms] by (simp_all add: po_wf_def)
  have one: "length (take 1 (fds po)) = 1" using len by simp
  have used: "fds_used (poll_fill rs po) = map ?f (fds_used po)"
    unfolding fds_used_def [of "poll_fill rs po"] using len one by (simp add: poll_fill_def)
  have at: "fds (poll_fill rs po) ! i = ?f (fds po ! i)" if "1 \<le> i" "i \<le> nfds po" for i
  proof -
    have "fds (poll_fill rs po) ! i = map ?f (fds_used po) ! (i - 1)"
      using that len one by (simp add: poll_fill_def nth_append)
    with that nth_fds_used [OF assms, of "i - 1"] len show ?thesis by simp
  qed
  show "nfds (poll_fill rs po) = nfds po" "max_fd (poll_fill rs po) = max_fd po"
    by (simp_all add: poll_fill_def)
  show "polld_at (poll_fill rs po) = polld_at po" by (simp add: fun_eq_iff polld_at_def polld_pos_def poll_fill_def)
  then show "po_entries (Some (poll_fill rs po)) = po_entries (Some po)"
    using at by (simp add: po_entries_def po_entry_def poll_fill_def del: upt_Suc)
  show "ready_idx (poll_fill rs po) = filter (\<lambda>i. poll_revents rs (pf_fd (fds po ! i)) \<noteq> 0) [1..<nfds po + 1]"
    using at by (auto simp: ready_idx_def poll_fill_def simp del: upt_Suc intro!: filter_cong)
  have "length (fds (poll_fill rs po)) = length (fds po)" using len one by (simp add: poll_fill_def)
  then show "po_wf (poll_fill rs po)"
    using assms used by (simp add: po_wf_def comp_def) (simp add: poll_fill_def)
qed

subsection \<open>Properties\<close>

text \<open>
  C6: Any sequence of add and remove requests leaves both halves of the poll table, read
  together as a list of descriptors with their mask and callbacks, exactly as the same
  requests leave the abstract bounded table: the copy at negative offsets and the
  \<open>memmove\<close> of the descriptors keep every descriptor paired with its own callbacks.
\<close>

theorem hp_poll_ops_refine:
  assumes "po_inv poo" and "list_all op_valid rs"
  shows "po_inv (fold (impl_step po_add hp_poll_rm) rs poo) \<and>
    po_entries (fold (impl_step po_add hp_poll_rm) rs poo) =
      fold (reg_step (po_capacity poo)) rs (po_entries poo)"
  using por.run_refines [OF assms] by blast

lemma po_event_calls_idx:
  "map (\<lambda>i. PL_event (pd_fn (polld_at po i)) (pd_arg (polld_at po i)))
     (filter (\<lambda>i. poll_revents rs (pf_fd (fds po ! i)) \<noteq> 0) [1..<nfds po + 1]) =
   po_event_calls (po_entries (Some po)) rs"
  by (simp add: po_event_calls_def po_entries_def filter_map comp_def po_entry_def del: upt_Suc)


text \<open>
  An entry without a callback (\<open>hp_poll_add\<close> accepts one) that becomes ready makes the
  dispatch loop spin for ever, whatever the other callbacks do: it is found again in every
  round, nothing resets its \<open>revents\<close>, and no amount of fuel lets the loop return.
\<close>

lemma hp_poll_null_callback_spins:
  assumes "ready_idx po = i # r" and "pd_fn (polld_at po i) = NULL"
  shows "poll_dispatch fuel cbs (nfds po) (po, u) = None"
  using assms by (induction fuel) (simp_all add: get_next_ready)

subsection \<open>The properties at a concrete table\<close>

definition poll_example :: "hp_poll option" where
  "poll_example = snd (hp_poll_init (Some \<lparr>polld = [], fds = [], nfds = 0, max_fd = 0, po_timeout = 0,
     po_before_wait = 0, po_user = 0\<rparr>) 3 200 0 0)"

lemma hp_poll_init_inv [hp_inv]:
  "hp_poll_init (Some po0) n t bw arg = (rc, poo) \<Longrightarrow>
   rc = 0 \<and> po_inv poo \<and> po_entries poo = [] \<and> po_capacity poo = (if n \<le> 0 then 65534 else nat n)"
  by (auto simp: hp_poll_init_def Let_def po_inv_def po_wf_def po_entries_def po_capacity_def fds_used_def nat_add_distrib)

lemma poll_example_ok: "po_inv poll_example" "po_entries poll_example = []" "po_capacity poll_example = 3"
  using hp_poll_init_inv [OF prod.collapse [symmetric], of _ 3 200 0 0] by (simp_all add: poll_example_def)

theorem hp_poll_ops_refine_witness:
  "po_entries (fold (impl_step po_add hp_poll_rm)
     [Op_add 7 (5, 20, 30, 40), Op_add 8 (1, 21, 0, 41), Op_add 9 (1, 22, 0, 42), Op_rm 7] poll_example) =
   [(8, 1, 21, 0, 41), (9, 1, 22, 0, 42)]"
  using hp_poll_ops_refine [of poll_example "[Op_add 7 (5, 20, 30, 40), Op_add 8 (1, 21, 0, 41),
      Op_add 9 (1, 22, 0, 42), Op_rm 7]"] poll_example_ok
  by (simp add: op_valid_def reg_step_def reg_put_def reg_del_def)

definition poll_two :: hp_poll where
  "poll_two = \<lparr>polld = [zero_polld, \<lparr>pd_fn = 21, pd_arg = 41, pd_on_loop = 0\<rparr>, \<lparr>pd_fn = 20, pd_arg = 40, pd_on_loop = 30\<rparr>],
     fds = [zero_pollfd, \<lparr>pf_fd = 7, pf_events = 1, pf_revents = 0\<rparr>, \<lparr>pf_fd = 8, pf_events = 1, pf_revents = 0\<rparr>],
     nfds = 2, max_fd = 2, po_timeout = 200, po_before_wait = 0, po_user = 0\<rparr>"

lemma poll_two_ok: "po_wf poll_two" "po_entries (Some poll_two) = [(7, 1, 20, 30, 40), (8, 1, 21, 0, 41)]"
  by (simp_all add: po_wf_def poll_two_def fds_used_def po_entries_def po_entry_def polld_at_def polld_pos_def
      upt_rec eval_nat_numeral)


lemma hp_poll_null_callback_spins_witness:
  "poll_dispatch 1000 po_log_cbs 1
    (\<lparr>polld = [zero_polld, zero_polld], fds = [zero_pollfd, \<lparr>pf_fd = 7, pf_events = 1, pf_revents = 1\<rparr>],
      nfds = 1, max_fd = 1, po_timeout = 200, po_before_wait = 0, po_user = 0\<rparr>, []) = None"
  (is "poll_dispatch 1000 po_log_cbs 1 (?po, []) = None")
proof -
  have "ready_idx ?po = 1 # []" "pd_fn (polld_at ?po 1) = NULL"
    by (simp_all add: ready_idx_def polld_at_def polld_pos_def zero_polld_def)
  from hp_poll_null_callback_spins [OF this, of 1000 po_log_cbs "[]"] show ?thesis by simp
qed

subsection \<open>Event names\<close>

text \<open>As \<open>hp_epoll_e2str\<close>: the buffer is the whole array, \<open>None\<close> is a NULL pointer, \<open>Undef\<close> a write outside it.\<close>

definition poll_name :: "u32 \<Rightarrow> u32 \<Rightarrow> string \<Rightarrow> string" where
  "poll_name events flag name = (if and events flag \<noteq> 0 then name else [])"

definition poll_names :: "u32 \<Rightarrow> string" where
  "poll_names events =
     poll_name events 0x8 ''POLLERR | '' @ poll_name events 0x1 ''POLLIN | '' @
     poll_name events 0x4 ''POLLOUT | '' @ poll_name events 0x10 ''POLLHUP | ''"

definition hp_poll_e2str :: "u32 \<Rightarrow> char list option \<Rightarrow> nat \<Rightarrow> char list option outcome" where
  "hp_poll_e2str events bufo len =
     (case bufo of
        None \<Rightarrow> if len > 0 then Done None else Undef
      | Some buf \<Rightarrow>
        let names = poll_names events; n = length names;
            left = and events (not (or 0x8 (or 0x1 (or 0x4 0x10))));
            r = Option.bind (buf_put 0 [char_of (0::nat)] buf) (\<lambda>buf.
                Option.bind (c_snprintf 0 len names buf) (\<lambda>buf.
                Option.bind (if buf ! 0 \<noteq> char_of (0::nat) \<and> n \<ge> 3 then buf_put (n - 3) [char_of (0::nat)] buf
                             else Some buf) (\<lambda>buf.
                if left \<noteq> 0 then c_snprintf n (sub_size len n) ('' | '' @ int_text (sint left)) buf else Some buf)))
        in case r of None \<Rightarrow> Undef | Some buf \<Rightarrow> Done (Some buf))"

subsection \<open>The event callback of a connection\<close>

text \<open>
  \<open>hp_io_t_internal_io_cb\<close> of \<open>src/hp_io_t.cpp\<close> where there is \<open>poll\<close> but no \<open>epoll\<close>. What the error handler, the reader
  and the writer of the connection do are functions on the table and the rest of the world; the callback gets the
  address of an element of the array, here its index, and looks at it again after each of them.
\<close>

definition pf_clear :: "nat \<Rightarrow> hp_poll \<Rightarrow> hp_poll" where
  "pf_clear i po = po\<lparr>fds := (fds po)[i := (fds po ! i)\<lparr>pf_revents := 0\<rparr>]\<rparr>"

definition io_cb_poll ::
  "(hp_poll \<times> 'u \<Rightarrow> hp_poll \<times> 'u) \<Rightarrow> (hp_poll \<times> 'u \<Rightarrow> hp_poll \<times> 'u) \<Rightarrow> (hp_poll \<times> 'u \<Rightarrow> hp_poll \<times> 'u) \<Rightarrow>
   nat \<Rightarrow> hp_poll \<times> 'u \<Rightarrow> hp_poll \<times> 'u" where
  "io_cb_poll on_error rd wr i s =
     (if and (pf_revents (fds (fst s) ! i)) 8 \<noteq> 0 then map_prod (pf_clear i) id (on_error s)
      else
        let s = (if and (pf_revents (fds (fst s) ! i)) 1 \<noteq> 0 then rd s else s);
            s = (if and (pf_revents (fds (fst s) ! i)) 4 \<noteq> 0 then wr s else s)
        in map_prod (pf_clear i) id s)"

text \<open>
  The error handler takes the descriptor out of the table, which moves the next one to its place: it is the
  events of the next connection that are cleared, and they are not reported in this turn.
\<close>

lemma io_cb_poll_error_clears_next:
  assumes "po_wf po" and "1 \<le> i" and "i < nfds po" and "and (pf_revents (fds po ! i)) 8 \<noteq> 0"
    and "on_error (po, u) = (snd (hp_poll_rm_at i po), u')"
  shows "\<exists>po'. io_cb_poll on_error rd wr i (po, u) = (po', u') \<and> fds po' ! i = (fds po ! Suc i)\<lparr>pf_revents := 0\<rparr>"
proof -
  have len: "i < length (fds po)" "i + 1 + (nfds po - i) \<le> length (fds po)" using assms(1-3) by (simp_all add: po_wf_def)
  have "fds (snd (hp_poll_rm_at i po)) = mem_move i (i + 1) (nfds po - i) (fds po)"
    using assms(2,3) by (simp add: hp_poll_rm_at_def Let_def)
  moreover have "mem_move i (i + 1) (nfds po - i) (fds po) ! i = fds po ! Suc i"
    using len assms(3) by (simp add: nth_mem_move)
  ultimately show ?thesis
    using assms(4,5) len by (simp add: io_cb_poll_def pf_clear_def)
qed

end
