(* ===== verification/Hp_Iot.thy ===== *)
theory Hp_Iot
  imports Hp_Epoll Hp_Rd Hp_Wr
begin

section \<open>hp\_io\_t: connections on top of the event loop, the reader and the writer\<close>

text \<open>
  Models \<open>src/hp_io_t.cpp\<close> for a system with epoll and \<open>writev\<close>. The world is the epoll
  world of \<open>Hp_Epoll\<close> (the \<open>epo\<close> of the one \<open>hp_io_ctx\<close>) together with the live
  \<open>hp_io_t\<close> objects (an address that is not in \<open>ior_ios\<close> is freed), the memory and the
  allocator of \<open>Hp_Wr\<close>, what every socket is going to deliver, to take and to accept, the
  sockets closed so far and a state of the program. A callback of the program may change
  all of it. Use of freed memory and a loop that never ends are recorded in \<open>ior_fault\<close>,
  the first one only. Assertions are off.
\<close>

subsection \<open>State\<close>

record hp_iohdl =
  h_on_new :: fnptr
  h_on_parse :: fnptr
  h_on_dispatch :: fnptr
  h_on_loop :: fnptr
  h_on_delete :: fnptr

record hp_io_t =
  io_ioctx :: bool
  io_id :: int
  io_fd :: sock
  io_rd :: hp_rd
  io_wr :: hp_wr
  io_hdl :: hp_iohdl
  io_user :: ptr

datatype io_fault = F_freed | F_hang

datatype accept_ans = A_conn sock bool | A_err int

record 'u ior =
  ior_ios :: "ptr \<rightharpoonup> hp_io_t"
  ior_kio :: kio
  ior_wscript :: "sock \<Rightarrow> wcall list"
  ior_sent :: "sock \<Rightarrow> byte list"
  ior_rio :: "sock \<Rightarrow> rio"
  ior_accept :: "sock \<Rightarrow> accept_ans list"
  ior_closed :: "sock list"
  ior_fault :: "io_fault option"
  ior_user :: 'u

type_synonym 'u iow = "epw \<times> 'u ior"

definition on_ior :: "('u ior \<Rightarrow> 'u ior) \<Rightarrow> 'u iow \<Rightarrow> 'u iow" where
  "on_ior f w = (fst w, f (snd w))"

definition io_of :: "'u iow \<Rightarrow> ptr \<Rightarrow> hp_io_t option" where
  "io_of w io = ior_ios (snd w) io"

definition io_put :: "ptr \<Rightarrow> hp_io_t \<Rightarrow> 'u iow \<Rightarrow> 'u iow" where
  "io_put io x = on_ior (\<lambda>r. r\<lparr>ior_ios := (ior_ios r)(io \<mapsto> x)\<rparr>)"

definition io_faulty :: "io_fault \<Rightarrow> 'u iow \<Rightarrow> 'u iow" where
  "io_faulty x = on_ior (\<lambda>r. r\<lparr>ior_fault := (if ior_fault r = None then Some x else ior_fault r)\<rparr>)"

text \<open>Every access through a pointer to an object goes through this test.\<close>

definition io_deref :: "ptr \<Rightarrow> 'u iow \<Rightarrow> 'u iow" where
  "io_deref io w = (if io_of w io = None then io_faulty F_freed w else w)"

text \<open>
  The callbacks of the program: the function stored in the handler, the object, and the
  arguments. \<open>strerr\<close> is \<open>strerror\<close>.
\<close>

record 'u io_cbs =
  u_new :: "fnptr \<Rightarrow> ptr \<Rightarrow> sock \<Rightarrow> 'u iow \<Rightarrow> ptr \<times> 'u iow"
  u_parse :: "fnptr \<Rightarrow> ptr \<Rightarrow> byte list \<Rightarrow> 'u iow \<Rightarrow> int \<times> byte list \<times> ptr \<times> ptr \<times> 'u iow"
  u_dispatch :: "fnptr \<Rightarrow> ptr \<Rightarrow> ptr \<Rightarrow> ptr \<Rightarrow> 'u iow \<Rightarrow> int \<times> 'u iow"
  u_loop :: "fnptr \<Rightarrow> ptr \<Rightarrow> 'u iow \<Rightarrow> int \<times> 'u iow"
  u_delete :: "fnptr \<Rightarrow> ptr \<Rightarrow> int \<Rightarrow> string \<Rightarrow> 'u iow \<Rightarrow> 'u iow"
  u_strerr :: "int \<Rightarrow> string"

text \<open>The addresses of the functions of this file that are handed to the other parts.\<close>

abbreviation (input) FN_ACCEPT :: fnptr where "FN_ACCEPT \<equiv> 1"
abbreviation (input) FN_IO_CB :: fnptr where "FN_IO_CB \<equiv> 2"
abbreviation (input) FN_ON_LOOP :: fnptr where "FN_ON_LOOP \<equiv> 3"
abbreviation (input) FN_DATA :: fnptr where "FN_DATA \<equiv> 4"
abbreviation (input) FN_RERROR :: fnptr where "FN_RERROR \<equiv> 5"
abbreviation (input) FN_WERROR :: fnptr where "FN_WERROR \<equiv> 6"

abbreviation (input) EPOLLERR :: int where "EPOLLERR \<equiv> 8"
abbreviation (input) EPOLLET :: int where "EPOLLET \<equiv> 2147483648"

subsection \<open>Data\<close>

text \<open>
  The loop over \<open>on_parse\<close>. With a dispatcher it returns after the first message; without
  one it parses on, for ever if \<open>on_parse\<close> keeps returning a positive value without
  taking anything: \<open>fuel\<close> bounds the turns.
\<close>

primrec io_parse_loop :: "'u io_cbs \<Rightarrow> nat \<Rightarrow> ptr \<Rightarrow> byte list \<Rightarrow> 'u iow \<Rightarrow> int \<times> byte list \<times> 'u iow" where
  "io_parse_loop cbs 0 io buf w = (0, buf, io_faulty F_hang w)"
| "io_parse_loop cbs (Suc m) io buf w =
     (if buf = [] then (0, buf, w)
      else case io_of w io of
        None \<Rightarrow> (0, buf, io_faulty F_freed w)
      | Some x \<Rightarrow>
        case u_parse cbs (h_on_parse (io_hdl x)) io buf w of (n, rest, hdr, body, w) \<Rightarrow>
          if n < 0 then (n, [], w)
          else if n > 0 then
            (case io_of w io of
               None \<Rightarrow> (0, rest, io_faulty F_freed w)
             | Some x \<Rightarrow>
               if h_on_dispatch (io_hdl x) \<noteq> NULL
               then (case u_dispatch cbs (h_on_dispatch (io_hdl x)) io hdr body w of (rc, w) \<Rightarrow> (rc, rest, w))
               else io_parse_loop cbs m io rest w)
          else (0, rest, w))"

definition hp_io_t_on_data :: "'u io_cbs \<Rightarrow> nat \<Rightarrow> ptr \<Rightarrow> byte list \<Rightarrow> 'u iow \<Rightarrow> int \<times> byte list \<times> 'u iow" where
  "hp_io_t_on_data cbs fuel io buf w =
     (case io_of w io of
        None \<Rightarrow> (0, buf, io_faulty F_freed w)
      | Some x \<Rightarrow>
        let buf = (if h_on_parse (io_hdl x) = NULL then [] else buf)
        in if buf = [] then (0, buf, w) else io_parse_loop cbs fuel io buf w)"

subsection \<open>Errors\<close>

text \<open>\<open>io_kio\<close> is the writer's world for one socket, and \<open>io_kio_put\<close> stores it back.\<close>

definition io_kio :: "sock \<Rightarrow> 'u iow \<Rightarrow> kio" where
  "io_kio fd w = (ior_kio (snd w))\<lparr>script := ior_wscript (snd w) fd, sent := ior_sent (snd w) fd\<rparr>"

definition io_kio_put :: "sock \<Rightarrow> kio \<Rightarrow> 'u iow \<Rightarrow> 'u iow" where
  "io_kio_put fd k = on_ior (\<lambda>r. r\<lparr>ior_kio := k, ior_wscript := (ior_wscript r)(fd := script k),
     ior_sent := (ior_sent r)(fd := sent k)\<rparr>)"

definition hp_io_t_on_error :: "'u io_cbs \<Rightarrow> ptr \<Rightarrow> int \<Rightarrow> string \<Rightarrow> 'u iow \<Rightarrow> 'u iow" where
  "hp_io_t_on_error cbs io err errstr w =
     (case io_of w io of
        None \<Rightarrow> io_faulty F_freed w
      | Some x \<Rightarrow>
        let w = (snd (hp_epoll_rm (io_fd x) (fst w)), snd w);
            w = on_ior (\<lambda>r. r\<lparr>ior_closed := ior_closed r @ [io_fd x]\<rparr>) w;
            rd = the (hp_rd_uninit (Some (io_rd x)));
            (wr, k) = hp_wr_uninit (Some (io_wr x)) (io_kio (io_fd x) w);
            w = io_put io (x\<lparr>io_rd := rd, io_wr := the wr\<rparr>) (io_kio_put (io_fd x) k w)
        in if h_on_delete (io_hdl x) \<noteq> NULL
           then u_delete cbs (h_on_delete (io_hdl x)) io err errstr w else w)"

definition hp_io_t_internal_on_werror :: "'u io_cbs \<Rightarrow> ptr \<Rightarrow> int \<Rightarrow> 'u iow \<Rightarrow> 'u iow" where
  "hp_io_t_internal_on_werror cbs io err w = hp_io_t_on_error cbs io err (u_strerr cbs err) w"

definition hp_io_t_internal_on_rerror :: "'u io_cbs \<Rightarrow> ptr \<Rightarrow> int \<Rightarrow> 'u iow \<Rightarrow> 'u iow" where
  "hp_io_t_internal_on_rerror cbs io err w =
     hp_io_t_on_error cbs io err (if err = 0 then ''EOF'' else u_strerr cbs err) w"

subsection \<open>Reading and writing one connection\<close>

text \<open>
  \<open>hp_rd_read\<close> works on \<open>io->rd\<close> in place: the callbacks find it stored in the object, and
  it is read back after them. A callback that frees the object leaves the rest of the
  function with a dangling pointer.
\<close>

definition io_sync_rd :: "ptr \<Rightarrow> hp_rd \<Rightarrow> 'u iow \<Rightarrow> 'u iow" where
  "io_sync_rd io rd w =
     (case io_of w io of None \<Rightarrow> io_faulty F_freed w | Some x \<Rightarrow> io_put io (x\<lparr>io_rd := rd\<rparr>) w)"

definition io_data_cb :: "'u io_cbs \<Rightarrow> nat \<Rightarrow> ptr \<Rightarrow> 'u iow data_cb" where
  "io_data_cb cbs fuel io f buf w =
     (case hp_io_t_on_data cbs fuel io buf w of (rc, rest, w) \<Rightarrow> (rc, rest, io_deref io w))"

definition io_rerr_cb :: "'u io_cbs \<Rightarrow> ptr \<Rightarrow> 'u iow rerr_cb" where
  "io_rerr_cb cbs io f err = (\<lambda>(rd, w).
     let w = hp_io_t_internal_on_rerror cbs io err (io_sync_rd io rd w)
     in (case io_of w io of None \<Rightarrow> rd | Some x \<Rightarrow> io_rd x, w))"

definition io_read :: "'u io_cbs \<Rightarrow> nat \<Rightarrow> ptr \<Rightarrow> hp_io_t \<Rightarrow> 'u iow \<Rightarrow> 'u iow" where
  "io_read cbs fuel io x w =
     (case hp_rd_read (io_data_cb cbs fuel io) (io_rerr_cb cbs io) (Some (io_rd x)) w (ior_rio (snd w) (io_fd x)) of
        (n, rdo, w, k) \<Rightarrow>
          let w = on_ior (\<lambda>r. r\<lparr>ior_rio := (ior_rio r)(io_fd x := k)\<rparr>) w
          in case io_of w io of None \<Rightarrow> w | Some y \<Rightarrow> io_put io (y\<lparr>io_rd := the rdo\<rparr>) w)"

text \<open>After the write error callback \<open>hp_wr_write\<close> stores \<open>wr->err\<close>: a use of the object.\<close>

definition io_werr_cb :: "'u io_cbs \<Rightarrow> ptr \<Rightarrow> sock \<Rightarrow> fnptr \<Rightarrow> int \<Rightarrow> hp_wr \<times> kio \<times> 'u iow \<Rightarrow> hp_wr \<times> kio \<times> 'u iow" where
  "io_werr_cb cbs io fd f err = (\<lambda>(wr, k, w).
     let w = io_kio_put fd k w;
         w = (case io_of w io of None \<Rightarrow> io_faulty F_freed w | Some x \<Rightarrow> io_put io (x\<lparr>io_wr := wr\<rparr>) w);
         w = io_deref io (hp_io_t_internal_on_werror cbs io err w)
     in (case io_of w io of None \<Rightarrow> wr | Some x \<Rightarrow> io_wr x, io_kio fd w, w))"

definition io_write :: "'u io_cbs \<Rightarrow> int \<Rightarrow> ptr \<Rightarrow> hp_io_t \<Rightarrow> 'u iow \<Rightarrow> 'u iow" where
  "io_write cbs iov_max io x w =
     (case hp_wr_write (io_werr_cb cbs io (io_fd x)) iov_max (Some (io_wr x)) (io_kio (io_fd x) w, w) of
        (n, wro, k, w) \<Rightarrow>
          let w = io_kio_put (io_fd x) k w
          in case io_of w io of None \<Rightarrow> w | Some y \<Rightarrow> io_put io (y\<lparr>io_wr := the wro\<rparr>) w)"

text \<open>
  The event callback. Without \<open>EPOLLIN\<close> the code tests a local variable it never set:
  \<open>junk\<close> is the value it happens to have.
\<close>

definition hp_io_t_internal_io_cb ::
  "'u io_cbs \<Rightarrow> nat \<Rightarrow> int \<Rightarrow> int \<Rightarrow> int \<Rightarrow> ptr \<Rightarrow> 'u iow \<Rightarrow> int \<times> 'u iow" where
  "hp_io_t_internal_io_cb cbs fuel iov_max junk events io w =
     (case io_of w io of
        None \<Rightarrow> (0, io_faulty F_freed w)
      | Some x \<Rightarrow>
        if and events EPOLLERR \<noteq> 0 then (EPOLLERR, hp_io_t_on_error cbs io EPOLLERR ''EPOLLERR'' w)
        else
          let (rc, w) =
            (if and events EPOLLIN \<noteq> 0
             then let w = io_deref io (io_read cbs fuel io x w)
                  in (case io_of w io of None \<Rightarrow> 0 | Some x \<Rightarrow> rd_err (io_rd x), w)
             else (junk, w))
          in if rc \<noteq> 0 then (rc, w)
             else case io_of w io of
               None \<Rightarrow> (0, w)
             | Some x \<Rightarrow> (0, if and events EPOLLOUT \<noteq> 0 then io_write cbs iov_max io x w else w))"

subsection \<open>Accepting and the loop callback\<close>

text \<open>
  The accept loop over the answers the listening socket gives; with none left \<open>accept\<close>
  fails with \<open>EAGAIN\<close>. The flag of \<open>A_conn\<close> tells whether \<open>TCP_NODELAY\<close> can be set.
\<close>

primrec io_accept_loop :: "'u io_cbs \<Rightarrow> ptr \<Rightarrow> accept_ans list \<Rightarrow> 'u iow \<Rightarrow> int \<times> 'u iow" where
  "io_accept_loop cbs io [] w = (0, w)"
| "io_accept_loop cbs io (a # as) w =
     (case io_of w io of
        None \<Rightarrow> (0, io_faulty F_freed w)
      | Some x \<Rightarrow>
        let w = on_ior (\<lambda>r. r\<lparr>ior_accept := (ior_accept r)(io_fd x := as)\<rparr>) w
        in case a of
             A_err e \<Rightarrow> (if e = EINTR \<or> e = EAGAIN then (0, w) else (-1, w))
           | A_conn confd nodelay \<Rightarrow>
               let close = on_ior (\<lambda>r. r\<lparr>ior_closed := ior_closed r @ [confd]\<rparr>)
               in if \<not> nodelay then io_accept_loop cbs io as (close w)
                  else case (if h_on_new (io_hdl x) \<noteq> NULL then u_new cbs (h_on_new (io_hdl x)) io confd w
                             else (NULL, w)) of
                      (nio, w) \<Rightarrow> io_accept_loop cbs io as (if nio = NULL then close w else w))"

definition hp_io_t_internal_on_accept :: "'u io_cbs \<Rightarrow> ptr \<Rightarrow> 'u iow \<Rightarrow> int \<times> 'u iow" where
  "hp_io_t_internal_on_accept cbs io w =
     (case io_of w io of
        None \<Rightarrow> (0, io_faulty F_freed w)
      | Some x \<Rightarrow> io_accept_loop cbs io (ior_accept (snd w) (io_fd x)) w)"

definition hp_io_t_internal_on_loop :: "'u io_cbs \<Rightarrow> ptr \<Rightarrow> 'u iow \<Rightarrow> int \<times> 'u iow" where
  "hp_io_t_internal_on_loop cbs io w =
     (case io_of w io of
        None \<Rightarrow> (0, io_faulty F_freed w)
      | Some x \<Rightarrow>
        if h_on_loop (io_hdl x) \<noteq> NULL then u_loop cbs (h_on_loop (io_hdl x)) io w else (0, w))"

subsection \<open>The interface\<close>

definition hp_io_init :: "int \<Rightarrow> int \<Rightarrow> int \<Rightarrow> 'u iow \<Rightarrow> int \<times> 'u iow" where
  "hp_io_init epollfd maxfd timeout w =
     (case epo (fst w) of None \<Rightarrow> (-1, w)
      | Some _ \<Rightarrow> case hp_epoll_init epollfd maxfd timeout 0 0 (fst w) of (rc, e) \<Rightarrow> (rc, e, snd w))"

definition hp_io_write :: "ptr \<Rightarrow> ptr \<Rightarrow> nat \<Rightarrow> hp_free_t \<Rightarrow> ptr \<Rightarrow> 'u iow \<Rightarrow> int \<times> 'u iow" where
  "hp_io_write io buf len freecb p w =
     (case io_of w io of
        None \<Rightarrow> (0, io_faulty F_freed w)
      | Some x \<Rightarrow>
        case hp_wr_add (Some (io_wr x)) buf len freecb p (io_kio (io_fd x) w) of
          (rc, wro, k) \<Rightarrow> (rc, io_put io (x\<lparr>io_wr := the wro\<rparr>) (io_kio_put (io_fd x) k w)))"

definition hp_io_uninit :: "'u iow \<Rightarrow> int \<times> 'u iow" where
  "hp_io_uninit w = (case epo (fst w) of None \<Rightarrow> (-1, w) | Some _ \<Rightarrow> (0, hp_epoll_uninit (fst w), snd w))"

definition hp_io_fd :: "hp_io_t option \<Rightarrow> sock" where
  "hp_io_fd xo = (case xo of None \<Rightarrow> -1 | Some x \<Rightarrow> if io_ioctx x then io_fd x else -1)"

definition hp_io_size :: "'u iow \<Rightarrow> int" where
  "hp_io_size w = (case epo (fst w) of None \<Rightarrow> -1 | Some _ \<Rightarrow> int (hp_epoll_size (fst w)))"

definition io_loop_fn :: "hp_iohdl \<Rightarrow> fnptr" where
  "io_loop_fn hdl = (if h_on_loop hdl \<noteq> NULL then FN_ON_LOOP else NULL)"

definition hp_io_add :: "ptr \<Rightarrow> sock \<Rightarrow> hp_iohdl \<Rightarrow> 'u iow \<Rightarrow> int \<times> 'u iow" where
  "hp_io_add io fd hdl w =
     (if \<not> (epo (fst w) \<noteq> None \<and> io \<noteq> NULL \<and> (h_on_new hdl \<noteq> NULL \<or> h_on_parse hdl \<noteq> NULL)) then (-1, w)
      else if \<not> fd \<ge> 0 then (-2, w)
      else case io_of w io of
        None \<Rightarrow> (0, io_faulty F_freed w)
      | Some x \<Rightarrow>
        let x = x\<lparr>io_ioctx := True, io_hdl := hdl, io_fd := fd, io_id := fd\<rparr>
        in if h_on_new hdl \<noteq> NULL then
             (case hp_epoll_add fd EPOLLIN FN_ACCEPT (io_loop_fn hdl) io (fst w) of
                (rc, e) \<Rightarrow> (rc, io_put io x (e, snd w)))
           else
             case hp_rd_init (Some (io_rd x)) (1024 * 8) FN_DATA FN_RERROR of
               (rc, rd) \<Rightarrow>
             case (if rc = 0 then hp_wr_init (Some (io_wr x)) 8 FN_WERROR else (rc, Some (io_wr x))) of
               (rc, wr) \<Rightarrow>
             let x = x\<lparr>io_rd := the rd, io_wr := the wr\<rparr>
             in case (if rc = 0
                      then hp_epoll_add fd (EPOLLIN + EPOLLOUT + EPOLLET) FN_IO_CB (io_loop_fn hdl) io (fst w)
                      else (rc, fst w)) of
                  (rc, e) \<Rightarrow> (rc, io_put io x (e, snd w)))"

definition hp_io_rm :: "int \<Rightarrow> 'u iow \<Rightarrow> int \<times> 'u iow" where
  "hp_io_rm fd w = (case hp_epoll_rm fd (fst w) of (rc, e) \<Rightarrow> (rc, e, snd w))"

definition hp_io_find :: "ptr \<Rightarrow> (ptr \<Rightarrow> ptr \<Rightarrow> int) option \<Rightarrow> 'u iow \<Rightarrow> ptr" where
  "hp_io_find key on_cmp w = hp_epoll_find key on_cmp (fst w)"

definition iolist_match :: "'u iow \<Rightarrow> ptr \<Rightarrow> hp_io_t option \<Rightarrow> int" where
  "iolist_match w p key =
     (case key of None \<Rightarrow> 0
      | Some k \<Rightarrow>
        let x = the (io_of w p)
        in if io_id k > 0 \<and> io_id x = io_id k \<or> hp_io_fd key \<ge> 0 \<and> hp_io_fd (Some x) = hp_io_fd key then 1 else 0)"

text \<open>How the event loop reaches the functions of this file, and one run of it.\<close>

definition io_ep_cbs :: "'u io_cbs \<Rightarrow> nat \<Rightarrow> int \<Rightarrow> int \<Rightarrow> 'u ior ep_cbs" where
  "io_ep_cbs cbs fuel iov_max junk =
     \<lparr>cb_fn = (\<lambda>f ev a w.
        if f = FN_ACCEPT then snd (hp_io_t_internal_on_accept cbs a w)
        else if f = FN_IO_CB then snd (hp_io_t_internal_io_cb cbs fuel iov_max junk (ev_events ev) a w)
        else w),
      cb_loop = (\<lambda>f a w. if f = FN_ON_LOOP then snd (hp_io_t_internal_on_loop cbs a w) else w),
      cb_before = (\<lambda>f w. (0, w))\<rparr>"

definition hp_io_run :: "'u io_cbs \<Rightarrow> nat \<Rightarrow> int \<Rightarrow> int \<Rightarrow> bool \<Rightarrow> wait_ans list \<Rightarrow> 'u iow \<Rightarrow> (int \<times> 'u iow) outcome" where
  "hp_io_run cbs fuel iov_max junk mode ws w = hp_epoll_run (io_ep_cbs cbs fuel iov_max junk) mode ws w"

subsection \<open>The contract of the table, for connections\<close>

text \<open>What \<open>hp_io_add\<close> registers for a handler: a listening socket or a connection.\<close>

definition io_interest :: "hp_iohdl \<Rightarrow> ptr \<Rightarrow> ep_desc" where
  "io_interest hdl io =
     (if h_on_new hdl \<noteq> NULL then (EPOLLIN, FN_ACCEPT, io_loop_fn hdl, io)
      else (EPOLLIN + EPOLLOUT + EPOLLET, FN_IO_CB, io_loop_fn hdl, io))"

lemma io_put_simps [simp]:
  "fst (io_put io x w) = fst w" "io_of (io_put io x w) p = (if p = io then Some x else io_of w p)"
  "ior_closed (snd (io_put io x w)) = ior_closed (snd w)" "ior_kio (snd (io_put io x w)) = ior_kio (snd w)"
  "ior_sent (snd (io_put io x w)) = ior_sent (snd w)" "ior_user (snd (io_put io x w)) = ior_user (snd w)"
  "ior_fault (snd (io_put io x w)) = ior_fault (snd w)"
  by (simp_all add: io_put_def on_ior_def io_of_def)

lemma io_kio_put_simps [simp]:
  "fst (io_kio_put fd k w) = fst w" "io_of (io_kio_put fd k w) p = io_of w p"
  "ior_closed (snd (io_kio_put fd k w)) = ior_closed (snd w)" "ior_kio (snd (io_kio_put fd k w)) = k"
  "ior_sent (snd (io_kio_put fd k w)) = (ior_sent (snd w))(fd := sent k)"
  "ior_fault (snd (io_kio_put fd k w)) = ior_fault (snd w)"
  "ior_user (snd (io_kio_put fd k w)) = ior_user (snd w)"
  by (simp_all add: io_kio_put_def on_ior_def io_of_def)

lemma io_kio_simps [simp]: "sent (io_kio fd w) = ior_sent (snd w) fd" "freed (io_kio fd w) = freed (ior_kio (snd w))"
  by (simp_all add: io_kio_def)

lemma hp_io_add_epoll:
  assumes "epo (fst w) \<noteq> None" and "io \<noteq> NULL" and "h_on_new hdl \<noteq> NULL \<or> h_on_parse hdl \<noteq> NULL"
    and "0 \<le> fd" and "io_of w io = Some x"
  shows "\<exists>y. hp_io_add io fd hdl w =
      (fst (ep_add fd (io_interest hdl io) (fst w)), io_put io y (snd (ep_add fd (io_interest hdl io) (fst w)), snd w)) \<and>
    io_ioctx y \<and> io_fd y = fd \<and> io_id y = fd \<and> io_hdl y = hdl \<and>
    (h_on_new hdl = NULL \<longrightarrow> i_buf (io_rd y) = [] \<and> rd_err (io_rd y) = 0 \<and> o_items (io_wr y) = [])"
  using assms
  by (auto simp: hp_io_add_def Let_def ep_add_def io_interest_def hp_rd_init_def hp_wr_init_def split: prod.splits)

lemma ep_find_pointer: "hp_epoll_find key None s = ep_search (\<lambda>a. key = a) s"
proof -
  have "ep_do_find h (key, None) = ep_do_find h (0, Some (\<lambda>k arg. if key = arg then 1 else 0))" for h
    by (rule ext) (simp add: ep_do_find_def Let_def)
  then show ?thesis by (cases "epo s") (simp_all add: hp_epoll_find_def ep_search_def hp_lfind_def)
qed


subsection \<open>The error path\<close>

lemma fold_free_item_frame: "script (fold free_item its k) = script k \<and> sent (fold free_item its k) = sent k \<and>
    freed (fold free_item its k) = freed k @ frees its \<and> mem (fold free_item its k) = mem k"
  by simp

lemma hp_wr_uninit_state:
  "hp_wr_uninit (Some wr) k = (Some (wr\<lparr>o_items := []\<rparr>), k\<lparr>freed := freed k @ frees (o_items wr)\<rparr>)"
  by (simp add: hp_wr_uninit_def hp_wr_clear_def hp_etio_del_n_def)

definition io_release :: "ptr \<Rightarrow> hp_io_t \<Rightarrow> 'u iow \<Rightarrow> 'u iow" where
  "io_release io x w =
     (let w1 = on_ior (\<lambda>r. r\<lparr>ior_closed := ior_closed r @ [io_fd x]\<rparr>) (snd (hp_epoll_rm (io_fd x) (fst w)), snd w);
          k = io_kio (io_fd x) w1
      in io_put io (x\<lparr>io_rd := (io_rd x)\<lparr>i_alloc := False\<rparr>, io_wr := (io_wr x)\<lparr>o_items := []\<rparr>\<rparr>)
           (io_kio_put (io_fd x) (k\<lparr>freed := freed k @ frees (o_items (io_wr x))\<rparr>) w1))"

lemma hp_io_t_on_error_eq:
  "io_of w io = Some x \<Longrightarrow> hp_io_t_on_error cbs io err errstr w =
    (if h_on_delete (io_hdl x) \<noteq> NULL then u_delete cbs (h_on_delete (io_hdl x)) io err errstr (io_release io x w)
     else io_release io x w)"
  by (simp add: hp_io_t_on_error_def io_release_def Let_def hp_wr_uninit_state hp_rd_uninit_def)

text \<open>The world \<open>on_delete\<close> finds: everything is released and closed, the object is still there.\<close>

definition io_released :: "ptr \<Rightarrow> hp_io_t \<Rightarrow> 'u iow \<Rightarrow> 'u iow \<Rightarrow> bool" where
  "io_released io x w w' \<longleftrightarrow>
     ep_inv (fst w') \<and> ep_entries (fst w') = reg_del (io_fd x) (ep_entries (fst w)) \<and>
     ior_closed (snd w') = ior_closed (snd w) @ [io_fd x] \<and>
     freed (ior_kio (snd w')) = freed (ior_kio (snd w)) @ frees (o_items (io_wr x)) \<and>
     ior_sent (snd w') = ior_sent (snd w) \<and> ior_fault (snd w') = ior_fault (snd w) \<and>
     ior_user (snd w') = ior_user (snd w) \<and>
     io_of w' io = Some (x\<lparr>io_rd := (io_rd x)\<lparr>i_alloc := False\<rparr>, io_wr := (io_wr x)\<lparr>o_items := []\<rparr>\<rparr>)"

text \<open>
  C7: An error removes the connection from the event table, closes its descriptor exactly
  once and releases every buffer still queued, and only then calls \<open>on_delete\<close>, once, with
  the error; nothing is sent any more.
\<close>

theorem hp_io_t_on_error_releases:
  assumes "ep_inv (fst w)" and "io_of w io = Some x"
  shows "\<exists>w'. io_released io x w w' \<and>
    hp_io_t_on_error cbs io err errstr w =
      (if h_on_delete (io_hdl x) \<noteq> NULL then u_delete cbs (h_on_delete (io_hdl x)) io err errstr w' else w')"
proof -
  have "io_released io x w (io_release io x w)"
    using epr.rm_entries [OF assms(1)] epr.rm_inv [OF assms(1)]
    by (simp add: io_released_def io_release_def Let_def on_ior_def io_kio_def)
  with hp_io_t_on_error_eq [OF assms(2)] show ?thesis by blast
qed

subsection \<open>A connection whose parser failed\<close>

text \<open>Callbacks that change nothing but the state of the program.\<close>

definition user_step :: "'u iow \<Rightarrow> 'u iow \<Rightarrow> bool" where
  "user_step w w' \<longleftrightarrow> (\<exists>u. w' = on_ior (\<lambda>r. r\<lparr>ior_user := u\<rparr>) w)"

definition io_calm :: "'u io_cbs \<Rightarrow> bool" where
  "io_calm cbs \<longleftrightarrow>
     (\<forall>f io buf w. user_step w (snd (snd (snd (snd (u_parse cbs f io buf w)))))) \<and>
     (\<forall>f io hdr body w. user_step w (snd (u_dispatch cbs f io hdr body w))) \<and>
     (\<forall>f io err str w. user_step w (u_delete cbs f io err str w))"

lemma io_calm_delete: "io_calm cbs \<Longrightarrow> user_step w (u_delete cbs f io err str w)"
  unfolding io_calm_def by blast

lemma user_step_frame:
  "user_step w w' \<Longrightarrow> ior_sent (snd w') = ior_sent (snd w) \<and> io_of w' io = io_of w io \<and> fst w' = fst w \<and>
    ior_fault (snd w') = ior_fault (snd w)"
  by (auto simp: user_step_def on_ior_def io_of_def)

definition io_keeps :: "ptr \<Rightarrow> (sock \<Rightarrow> byte list) \<Rightarrow> 'u iow \<Rightarrow> bool" where
  "io_keeps io ss w \<longleftrightarrow> ior_sent (snd w) = ss \<and> io_of w io \<noteq> None"

lemma io_keeps_faulty [simp]: "io_keeps io ss (io_faulty x w) = io_keeps io ss w"
  by (simp add: io_keeps_def io_faulty_def on_ior_def io_of_def)

lemma io_keeps_deref [simp]: "io_keeps io ss (io_deref io w) = io_keeps io ss w"
  by (simp add: io_deref_def)

lemma io_keeps_put [simp]: "io_keeps io ss (io_put io x w) \<longleftrightarrow> ior_sent (snd w) = ss"
  by (simp add: io_keeps_def)

lemma user_step_keeps: "user_step w w' \<Longrightarrow> io_keeps io ss w \<Longrightarrow> io_keeps io ss w'"
  by (simp add: io_keeps_def user_step_frame)

lemma io_parse_loop_keeps:
  assumes "io_calm cbs"
  shows "io_keeps io ss w \<Longrightarrow> io_keeps io ss (snd (snd (io_parse_loop cbs m io buf w)))"
proof (induction m arbitrary: buf w)
  case (Suc m)
  then obtain x where x: "io_of w io = Some x" by (auto simp: io_keeps_def)
  obtain n rest hdr body w1 where p: "u_parse cbs (h_on_parse (io_hdl x)) io buf w = (n, rest, hdr, body, w1)"
    using prod_cases5 by blast
  with assms have "user_step w w1" unfolding io_calm_def by (metis snd_conv)
  from user_step_keeps [OF this Suc.prems] have k1: "io_keeps io ss w1" .
  then obtain y where y: "io_of w1 io = Some y" by (auto simp: io_keeps_def)
  obtain rc w2 where d: "u_dispatch cbs (h_on_dispatch (io_hdl y)) io hdr body w1 = (rc, w2)" by (rule prod.exhaust)
  with assms have "user_step w1 w2" unfolding io_calm_def by (metis snd_conv)
  from user_step_keeps [OF this k1] have "io_keeps io ss w2" .
  with x p y d k1 Suc show ?case by simp
qed simp

lemma io_data_cb_keeps:
  "io_calm cbs \<Longrightarrow> io_keeps io ss w \<Longrightarrow> io_keeps io ss (snd (snd (io_data_cb cbs fuel io f buf w)))"
  using io_parse_loop_keeps [of cbs io ss w fuel]
  by (auto simp: io_data_cb_def hp_io_t_on_data_def Let_def split: option.splits prod.splits)
    (metis snd_conv)+

lemma io_release_keeps: "io_keeps io (ior_sent (snd w)) (io_release io x w)"
  by (simp add: io_release_def Let_def on_ior_def io_kio_def)

lemma on_rerror_calm:
  assumes "io_calm cbs" and "io_of w io = Some x"
  shows "hp_io_t_internal_on_rerror cbs io e w = io_release io x w \<or>
    user_step (io_release io x w) (hp_io_t_internal_on_rerror cbs io e w)"
proof -
  have "user_step (io_release io x w) (u_delete cbs (h_on_delete (io_hdl x)) io e str (io_release io x w))" for str
    by (rule io_calm_delete [OF assms(1)])
  then show ?thesis unfolding hp_io_t_internal_on_rerror_def hp_io_t_on_error_eq [OF assms(2)] by simp
qed

lemma io_rerr_cb_keeps:
  assumes "io_calm cbs" and "io_keeps io ss w" and "rd_err rd \<noteq> 0"
  shows "io_keeps io ss (snd (io_rerr_cb cbs io f e (rd, w))) \<and> rd_err (fst (io_rerr_cb cbs io f e (rd, w))) \<noteq> 0"
proof -
  obtain x where x: "io_of w io = Some x" using assms(2) by (auto simp: io_keeps_def)
  let ?x = "x\<lparr>io_rd := rd\<rparr>"
  let ?w = "io_put io ?x w"
  have r: "io_keeps io ss (io_release io ?x ?w)" using assms(2) io_release_keeps [of io ?w] by (simp add: io_keeps_def)
  have o: "io_of (io_release io ?x ?w) io = Some (?x\<lparr>io_rd := rd\<lparr>i_alloc := False\<rparr>, io_wr := (io_wr x)\<lparr>o_items := []\<rparr>\<rparr>)"
    by (simp add: io_release_def Let_def)
  let ?w' = "hp_io_t_internal_on_rerror cbs io e ?w"
  have "?w' = io_release io ?x ?w \<or> user_step (io_release io ?x ?w) ?w'"
    by (rule on_rerror_calm [OF assms(1)]) simp
  then have "io_keeps io ss ?w' \<and> io_of ?w' io = io_of (io_release io ?x ?w) io"
  proof (elim disjE)
    assume eq: "?w' = io_release io ?x ?w"
    show ?thesis unfolding eq using r by simp
  next
    assume st: "user_step (io_release io ?x ?w) ?w'"
    show ?thesis using user_step_keeps [OF st r] user_step_frame [OF st] by blast
  qed
  with o x assms(3) show ?thesis by (simp add: io_rerr_cb_def io_sync_rd_def Let_def)
qed

text \<open>
  When a parser rejects its input (a negative result, documented to close the client)
  the connection is not closed; instead its error value stays set for ever, and from then
  on no event that announces input lets the connection send a byte.
\<close>

lemma io_cb_parse_failure_mutes:
  assumes "io_calm cbs" and "io_of w io = Some x" and "rd_err (io_rd x) \<noteq> 0"
    and "and events EPOLLERR = 0" and "and events EPOLLIN \<noteq> 0"
    and "hp_io_t_internal_io_cb cbs fuel iov_max junk events io w = (rc, w')"
  shows "rc \<noteq> 0 \<and> ior_sent (snd w') = ior_sent (snd w) \<and>
    (\<exists>x'. io_of w' io = Some x' \<and> rd_err (io_rd x') \<noteq> 0)"
proof -
  let ?ss = "ior_sent (snd w)"
  let ?w1 = "io_read cbs fuel io x w"
  have k: "io_keeps io ?ss w" using assms(2) by (simp add: io_keeps_def)
  have "\<exists>y. io_of ?w1 io = Some y \<and> rd_err (io_rd y) \<noteq> 0 \<and> ior_sent (snd ?w1) = ?ss"
  proof (cases "rd_data (io_rd x) = NULL")
    case True
    with assms(2,3) show ?thesis by (simp add: io_read_def hp_rd_read_def Let_def on_ior_def io_of_def io_put_def)
  next
    case False
    obtain n rd w2 k2 where l: "hp_rd_loop (io_data_cb cbs fuel io) (io_rerr_cb cbs io) 0 ((io_rd x)\<lparr>i_alloc := True\<rparr>) w
        (ior_rio (snd w) (io_fd x)) = (n, rd, w2, k2)"
      using prod_cases4 by blast
    have "io_keeps io ?ss w2 \<and> rd_err rd \<noteq> 0"
      by (rule hp_rd_loop_keeps [where P = "io_keeps io ?ss", OF io_data_cb_keeps [OF assms(1)] io_rerr_cb_keeps [OF assms(1)] k _ l])
        (use assms(3) in simp_all)
    then show ?thesis using False l
      by (auto simp: io_read_def hp_rd_read_def Let_def io_keeps_def on_ior_def io_of_def io_put_def)
  qed
  then obtain y where "io_of ?w1 io = Some y" "rd_err (io_rd y) \<noteq> 0" "ior_sent (snd ?w1) = ?ss" by blast
  with assms(2,4-6) show ?thesis
    by (auto simp: hp_io_t_internal_io_cb_def Let_def io_deref_def)
qed

subsection \<open>Deleting the object in \<open>on_delete\<close>\<close>

lemma io_of_on_ior_rio [simp]: "io_of (on_ior (\<lambda>r. r\<lparr>ior_rio := g r\<rparr>) w) p = io_of w p"
  by (simp add: io_of_def on_ior_def)

lemma io_rerr_cb_frees:
  assumes "io_of w io = Some x" and "h_on_delete (io_hdl x) \<noteq> NULL"
    and "\<And>e str w. io_of (u_delete cbs (h_on_delete (io_hdl x)) io e str w) io = None"
  shows "io_of (snd (io_rerr_cb cbs io f e (rd, w))) io = None"
proof -
  let ?x = "x\<lparr>io_rd := rd\<rparr>"
  have s: "io_sync_rd io rd w = io_put io ?x w" using assms(1) by (simp add: io_sync_rd_def)
  have "io_of (io_put io ?x w) io = Some ?x" by simp
  from hp_io_t_on_error_eq [OF this] assms(2,3)
  have "io_of (hp_io_t_internal_on_rerror cbs io e (io_put io ?x w)) io = None"
    by (simp add: hp_io_t_internal_on_rerror_def)
  with s show ?thesis by (simp add: io_rerr_cb_def Let_def)
qed

lemma hp_rd_loop_eof_empty:
  assumes "i_buf rd = []" and "rscript k = (R_eof, t) # rest" and "rd_read_error rd \<noteq> NULL"
  shows "\<exists>ib' e rd' k'. hp_rd_loop dcb recb ib rd w k =
    (ib', fst (recb (rd_read_error rd) e (rd', w)), snd (recb (rd_read_error rd) e (rd', w)), k')"
proof -
  have r: "read_fd n k = ((0, [], t), k\<lparr>r_sizes := r_sizes k @ [n], rscript := rest\<rparr>)" for n
    using assms(2) by (simp add: read_fd_def)
  let ?e = "if r_errno k = 0 then EIO else r_errno k"
  have "rd_read_error (rd_grow rd) \<noteq> NULL" "i_buf (rd_grow rd) = []" using assms(1,3) by simp_all
  then have "rd_stop dcb recb 0 (r_errno k') (rd_grow rd, w) =
      recb (rd_read_error rd) ?e ((rd_grow rd)\<lparr>rd_err := ?e\<rparr>, w)" if "r_errno k' = r_errno k" for k' :: rio
    using that by (simp add: rd_stop_def call_data_def Let_def)
  then have "\<exists>k'. hp_rd_loop dcb recb ib rd w k =
      (ib, fst (recb (rd_read_error rd) ?e ((rd_grow rd)\<lparr>rd_err := ?e\<rparr>, w)),
       snd (recb (rd_read_error rd) ?e ((rd_grow rd)\<lparr>rd_err := ?e\<rparr>, w)), k')"
    unfolding hp_rd_loop.simps [of dcb recb ib rd w k]
    by (simp add: call_data_def assms(1) r Let_def case_prod_beta)
  then show ?thesis by blast
qed

text \<open>
  C40: The documented place to delete a connection object is \<open>on_delete\<close>. When it does so at
  the end of the input, the event callback goes on to read \<open>io->rd.err\<close> out of the freed
  object.
\<close>

theorem io_cb_eof_use_after_free:
  assumes "io_of w io = Some x" and "i_buf (io_rd x) = []" and "rd_data (io_rd x) \<noteq> NULL"
    and "rd_read_error (io_rd x) \<noteq> NULL" and "rscript (ior_rio (snd w) (io_fd x)) = (R_eof, t) # rest"
    and "h_on_delete (io_hdl x) \<noteq> NULL"
    and "\<And>e str w. io_of (u_delete cbs (h_on_delete (io_hdl x)) io e str w) io = None"
    and "and events EPOLLERR = 0" and "and events EPOLLIN \<noteq> 0"
  shows "ior_fault (snd (snd (hp_io_t_internal_io_cb cbs fuel iov_max junk events io w))) \<noteq> None"
proof -
  let ?rd = "(io_rd x)\<lparr>i_alloc := True\<rparr>" and ?k = "ior_rio (snd w) (io_fd x)"
  have pre: "i_buf ?rd = []" "rd_read_error ?rd \<noteq> NULL" using assms(2,4) by simp_all
  from hp_rd_loop_eof_empty [OF pre(1) assms(5) pre(2), of "io_data_cb cbs fuel io" "io_rerr_cb cbs io" 0 w]
  obtain ib e rd' k' where l: "hp_rd_loop (io_data_cb cbs fuel io) (io_rerr_cb cbs io) 0 ?rd w ?k =
      (ib, fst (io_rerr_cb cbs io (rd_read_error ?rd) e (rd', w)), snd (io_rerr_cb cbs io (rd_read_error ?rd) e (rd', w)), k')"
    by blast
  have "io_of (snd (io_rerr_cb cbs io (rd_read_error ?rd) e (rd', w))) io = None"
    by (rule io_rerr_cb_frees [OF assms(1,6,7)])
  then have "io_of (io_read cbs fuel io x w) io = None"
    using assms(3) l by (simp add: io_read_def hp_rd_read_def Let_def)
  with assms(1,8,9) show ?thesis
    by (simp add: hp_io_t_internal_io_cb_def Let_def io_deref_def io_faulty_def on_ior_def io_of_def)
qed

subsection \<open>The properties at a concrete connection\<close>

definition conn_hdl :: hp_iohdl where
  "conn_hdl = \<lparr>h_on_new = 0, h_on_parse = 50, h_on_dispatch = 51, h_on_loop = 0, h_on_delete = 52\<rparr>"

definition conn_example :: "int \<Rightarrow> hp_io_t" where
  "conn_example e = \<lparr>io_ioctx = True, io_id = 7, io_fd = 7,
     io_rd = \<lparr>i_buf = [], i_alloc = True, I_BUF_MAX = 8, i_bytes = 0, rd_stat = None, rd_data = 4, rd_read_error = 5,
       rd_err = e\<rparr>,
     io_wr = wr_example, io_hdl = conn_hdl, io_user = 0\<rparr>"

definition iow_example :: "epw \<Rightarrow> int \<Rightarrow> unit iow" where
  "iow_example e err = (e, \<lparr>ior_ios = [40 \<mapsto> conn_example err], ior_kio = kio_example [], ior_wscript = (\<lambda>s. []),
     ior_sent = (\<lambda>s. []), ior_rio = (\<lambda>s. \<lparr>rscript = [(R_eof, 1)], r_errno = 0, r_sizes = []\<rparr>),
     ior_accept = (\<lambda>s. []), ior_closed = [], ior_fault = None, ior_user = ()\<rparr>)"

text \<open>Callbacks that do nothing, except that \<open>on_delete\<close> frees the object when told so.\<close>

definition null_cbs :: "bool \<Rightarrow> unit io_cbs" where
  "null_cbs del = \<lparr>u_new = (\<lambda>f io fd w. (0, w)), u_parse = (\<lambda>f io buf w. (0, buf, 0, 0, w)),
     u_dispatch = (\<lambda>f io h b w. (0, w)), u_loop = (\<lambda>f io w. (0, w)),
     u_delete = (\<lambda>f io e str w. if del then on_ior (\<lambda>r. r\<lparr>ior_ios := (ior_ios r)(io := None)\<rparr>) w else w),
     u_strerr = (\<lambda>e. [])\<rparr>"

lemma io_calm_null: "io_calm (null_cbs False)"
proof -
  have "user_step w w" for w :: "unit iow"
    unfolding user_step_def by (rule exI [of _ "()"]) (cases w, cases "snd w", simp add: on_ior_def)
  then show ?thesis by (simp add: io_calm_def null_cbs_def)
qed

lemma io_of_example: "io_of (iow_example e err) 40 = Some (conn_example err)" "fst (iow_example e err) = e"
  by (simp_all add: iow_example_def io_of_def)


theorem hp_io_t_on_error_releases_witness:
  "\<exists>w'. hp_io_t_on_error (null_cbs False) 40 9 [] (iow_example epw_two 0) = w' \<and>
    ior_closed (snd w') = [7] \<and> freed (ior_kio (snd w')) = [(LibcFree, 100)] \<and> map fst (ep_entries (fst w')) = [8]"
proof -
  have "ep_inv (fst (iow_example epw_two 0))" by (simp add: io_of_example epw_two_ok)
  from hp_io_t_on_error_releases [OF this io_of_example(1), of "null_cbs False" 9 "[]"]
  obtain w' where w': "io_released 40 (conn_example 0) (iow_example epw_two 0) w'"
    "hp_io_t_on_error (null_cbs False) 40 9 [] (iow_example epw_two 0) = w'"
  proof (rule exE)
    fix w' assume a: "io_released 40 (conn_example 0) (iow_example epw_two 0) w' \<and>
      hp_io_t_on_error (null_cbs False) 40 9 [] (iow_example epw_two 0) =
        (if h_on_delete (io_hdl (conn_example 0)) \<noteq> NULL
         then u_delete (null_cbs False) (h_on_delete (io_hdl (conn_example 0))) 40 9 [] w' else w')"
    have "(if h_on_delete (io_hdl (conn_example 0)) \<noteq> NULL
         then u_delete (null_cbs False) (h_on_delete (io_hdl (conn_example 0))) 40 9 [] w' else w') = w'"
      by (simp add: null_cbs_def)
    with a show thesis using that by metis
  qed
  from w'(1) have a: "ior_closed (snd w') = [7] \<and> freed (ior_kio (snd w')) = [(LibcFree, 100)] \<and>
      map fst (ep_entries (fst w')) = [8]"
    by (simp add: io_released_def io_of_example epw_two_ok reg_del_def conn_example_def iow_example_def
        wr_example_def kio_example_def frees_def)
  show ?thesis by (rule exI [of _ w'], rule conjI [OF w'(2) a])
qed

lemma io_cb_parse_failure_mutes_witness:
  "\<exists>rc w'. hp_io_t_internal_io_cb (null_cbs False) 9 1024 0 5 40 (iow_example epw_two (-3)) = (rc, w') \<and> rc \<noteq> 0 \<and>
    ior_sent (snd w') 7 = []"
proof -
  obtain rc w' where r: "hp_io_t_internal_io_cb (null_cbs False) 9 1024 0 5 40 (iow_example epw_two (-3)) = (rc, w')"
    by (rule prod.exhaust)
  have "rd_err (io_rd (conn_example (-3))) \<noteq> 0" "and (5::int) EPOLLERR = 0" "and (5::int) EPOLLIN \<noteq> 0"
    by (simp_all add: conn_example_def)
  from io_cb_parse_failure_mutes [OF io_calm_null io_of_example(1) this r]
  have "rc \<noteq> 0 \<and> ior_sent (snd w') 7 = []" by (simp add: iow_example_def)
  with r show ?thesis by blast
qed

theorem io_cb_eof_use_after_free_witness:
  "ior_fault (snd (snd (hp_io_t_internal_io_cb (null_cbs True) 9 1024 0 5 40 (iow_example epw_two 0)))) \<noteq> None"
  by (rule io_cb_eof_use_after_free [OF io_of_example(1), where t = 1 and rest = "[]"])
    (simp_all add: conn_example_def iow_example_def conn_hdl_def null_cbs_def io_of_def on_ior_def)

end
