(* ===== verification/Hp_Iocp.thy ===== *)
theory Hp_Iocp
  imports Hp_Wr
begin

section \<open>hp\_iocp: connections over Windows completion ports\<close>

text \<open>
  Models \<open>src/hp_iocp.c\<close>. The user thread owns the table of connections and the message
  handler; the poll thread owns a table of descriptors and gets messages from the user
  thread; the overlapped requests are blocks in a heap. The two threads share nothing but
  messages, so each is a function on its own state and an interleaving is a sequence of
  their steps. The code only compiles with assertions (its counters are declared for debug
  builds), so a failed assertion, like a use of freed memory or a write outside a buffer, is
  a fault; the first one is recorded in \<open>iw_fault\<close>.
\<close>

subsection \<open>State\<close>

abbreviation (input) W_POLLERR :: int where "W_POLLERR \<equiv> 1"
abbreviation (input) W_POLLHUP :: int where "W_POLLHUP \<equiv> 2"
abbreviation (input) W_POLLOUT :: int where "W_POLLOUT \<equiv> 16"
abbreviation (input) W_POLLIN :: int where "W_POLLIN \<equiv> 768"

abbreviation (input) DEF_ACCEPT :: fnptr where "DEF_ACCEPT \<equiv> 1"
abbreviation (input) DEF_DATA :: fnptr where "DEF_DATA \<equiv> 2"
abbreviation (input) DEF_LOOP :: fnptr where "DEF_LOOP \<equiv> 3"
abbreviation (input) DEF_ERROR :: fnptr where "DEF_ERROR \<equiv> 4"

text \<open>
  \<open>ol_bytes\<close> are the bytes still to be sent, or the room and later the bytes of a read;
  \<open>ol_high\<close> is \<open>InternalHigh\<close>, the count of the finished operation. \<open>ol_lastr\<close> is the slot of
  the poll thread's table that \<open>lastr\<close> points into.
\<close>

record hp_iocp_ol =
  ol_id :: int
  ol_ptr :: ptr
  ol_free :: hp_free_t
  ol_bytes :: "byte list"
  ol_high :: nat
  ol_lastr :: nat

record hp_iocp_item =
  it_id :: int
  it_fd :: sock
  it_obuf :: "ptr list"
  it_obuf_live :: bool
  it_ibuf :: "byte list"
  it_icap :: nat
  it_ibytes :: nat
  it_obytes :: nat
  it_on_accept :: fnptr
  it_on_data :: fnptr
  it_on_error :: fnptr
  it_on_loop :: fnptr
  it_err :: int
  it_arg :: ptr

datatype poll_msg = WM_ADD int sock | WM_RM int int

datatype user_msg = WM_FD int int | WM_IO ptr int

record hp_iocp_polld =
  pd_id :: int
  pd_fd :: sock
  pd_lastr :: int
  pd_lastR :: int
  pd_flags :: int

datatype iocp_fault = F_assert | F_memory | F_spin | F_overflow

text \<open>
  The world. \<open>iw_items\<close> to \<open>iw_ioid\<close> are the fields of \<open>hp_iocp\<close>, \<open>iw_pds\<close> and \<open>iw_nfds\<close> the
  table of the poll thread (the whole array and its used length), \<open>iw_posts\<close> and \<open>iw_uq\<close> the
  message queues of the two threads, \<open>iw_inflight\<close> the requests the kernel holds. \<open>iw_wsa\<close>
  and \<open>iw_bind\<close> hold the answers of the kernel to come.
\<close>

record 'u iocpw =
  iw_items :: "hp_iocp_item list"
  iw_maxfd :: nat
  iw_ioid :: int
  iw_ols :: "ptr \<rightharpoonup> hp_iocp_ol"
  iw_nxt :: ptr
  iw_freed :: "(hp_free_t \<times> ptr) list"
  iw_pds :: "hp_iocp_polld list"
  iw_nfds :: nat
  iw_posts :: "poll_msg list"
  iw_uq :: "user_msg list"
  iw_inflight :: "(sock \<times> ptr) list"
  iw_wsa :: "int list"
  iw_bind :: "bool list"
  iw_drops :: "nat \<times> nat"
  iw_fault :: "iocp_fault option"
  iw_user :: 'u

record 'u iocp_cbs =
  ic_accept :: "fnptr \<Rightarrow> ptr \<Rightarrow> 'u iocpw \<Rightarrow> 'u iocpw"
  ic_data :: "fnptr \<Rightarrow> ptr \<Rightarrow> byte list \<Rightarrow> 'u iocpw \<Rightarrow> int \<times> byte list \<times> 'u iocpw"
  ic_error :: "fnptr \<Rightarrow> ptr \<Rightarrow> int \<Rightarrow> 'u iocpw \<Rightarrow> 'u iocpw"
  ic_loop :: "fnptr \<Rightarrow> ptr \<Rightarrow> 'u iocpw \<Rightarrow> int \<times> 'u iocpw"

definition iw_fail :: "iocp_fault \<Rightarrow> 'u iocpw \<Rightarrow> 'u iocpw" where
  "iw_fail x w = w\<lparr>iw_fault := (if iw_fault w = None then Some x else iw_fault w)\<rparr>"

definition upd_item :: "nat \<Rightarrow> (hp_iocp_item \<Rightarrow> hp_iocp_item) \<Rightarrow> 'u iocpw \<Rightarrow> 'u iocpw" where
  "upd_item i f w = w\<lparr>iw_items := (iw_items w)[i := f (iw_items w ! i)]\<rparr>"

text \<open>
  The four default callbacks a removed connection gets.
\<close>

definition call_accept :: "'u iocp_cbs \<Rightarrow> fnptr \<Rightarrow> ptr \<Rightarrow> 'u iocpw \<Rightarrow> 'u iocpw" where
  "call_accept cbs f a w = (if f = DEF_ACCEPT then w else ic_accept cbs f a w)"

definition call_on_data :: "'u iocp_cbs \<Rightarrow> fnptr \<Rightarrow> ptr \<Rightarrow> byte list \<Rightarrow> 'u iocpw \<Rightarrow> int \<times> byte list \<times> 'u iocpw" where
  "call_on_data cbs f a buf w =
     (if f = NULL then (0, buf, iw_fail F_memory w)
      else if f = DEF_DATA then (-1, buf, w) else ic_data cbs f a buf w)"

definition call_loop :: "'u iocp_cbs \<Rightarrow> fnptr \<Rightarrow> ptr \<Rightarrow> 'u iocpw \<Rightarrow> int \<times> 'u iocpw" where
  "call_loop cbs f a w = (if f = DEF_LOOP then (-1, w) else ic_loop cbs f a w)"

definition call_error :: "'u iocp_cbs \<Rightarrow> fnptr \<Rightarrow> ptr \<Rightarrow> int \<Rightarrow> 'u iocpw \<Rightarrow> 'u iocpw" where
  "call_error cbs f a e w = (if f = NULL \<or> f = DEF_ERROR then w else ic_error cbs f a e w)"

subsection \<open>Overlapped requests\<close>

definition hp_iocp_ol_newo :: "int \<Rightarrow> ptr \<Rightarrow> byte list \<Rightarrow> hp_free_t \<Rightarrow> ptr \<Rightarrow> 'u iocpw \<Rightarrow> ptr \<times> 'u iocpw" where
  "hp_iocp_ol_newo kid data bytes freecb p w =
     (iw_nxt w, w\<lparr>iw_nxt := iw_nxt w + 1, iw_ols := (iw_ols w)(iw_nxt w \<mapsto>
        \<lparr>ol_id = kid, ol_ptr = (if p = NULL then data else p), ol_free = freecb, ol_bytes = bytes, ol_high = 0, ol_lastr = 0\<rparr>)\<rparr>)"

definition hp_iocp_ol_newi :: "int \<Rightarrow> nat \<Rightarrow> nat \<Rightarrow> 'u iocpw \<Rightarrow> ptr \<times> 'u iocpw" where
  "hp_iocp_ol_newi kid n lastr w =
     (iw_nxt w, w\<lparr>iw_nxt := iw_nxt w + 1, iw_ols := (iw_ols w)(iw_nxt w \<mapsto>
        \<lparr>ol_id = kid, ol_ptr = NULL, ol_free = NoFree, ol_bytes = replicate n 0, ol_high = 0, ol_lastr = lastr\<rparr>)\<rparr>)"

definition hp_iocp_ol_del :: "ptr \<Rightarrow> 'u iocpw \<Rightarrow> 'u iocpw" where
  "hp_iocp_ol_del a w =
     (case iw_ols w a of None \<Rightarrow> iw_fail F_memory w
      | Some ol \<Rightarrow>
        w\<lparr>iw_freed := iw_freed w @ (if ol_free ol \<noteq> NoFree then [(ol_free ol, ol_ptr ol)] else []),
          iw_ols := (iw_ols w)(a := None)\<rparr>)"

definition ol_read :: "hp_iocp_ol \<Rightarrow> bool" where
  "ol_read ol = (ol_ptr ol = NULL)"

subsection \<open>Search\<close>

text \<open>
  \<open>bsearch\<close> of the C library: \<open>cmp\<close> compares the key with an element. The range is the
  slots from \<open>lo\<close> up to, not including, \<open>hi\<close>.
\<close>

function c_bsearch :: "('a \<Rightarrow> int) \<Rightarrow> 'a list \<Rightarrow> nat \<Rightarrow> nat \<Rightarrow> nat option" where
  "c_bsearch cmp xs lo hi =
     (if hi \<le> lo then None
      else let mid = (lo + hi) div 2; c = cmp (xs ! mid)
           in if c < 0 then c_bsearch cmp xs lo mid
              else if c > 0 then c_bsearch cmp xs (mid + 1) hi else Some mid)"
  by pat_completeness auto
termination
  by (relation "measure (\<lambda>(cmp, xs, lo, hi). hi - lo)") auto

declare c_bsearch.simps [simp del]

definition hp_iocp_item_find_by_id2 :: "int \<Rightarrow> hp_iocp_item \<Rightarrow> int" where
  "hp_iocp_item_find_by_id2 kid item = (if kid < it_id item then -1 else if kid = it_id item then 0 else 1)"

definition hp_iocp_item_find :: "int \<Rightarrow> hp_iocp_item list \<Rightarrow> nat option" where
  "hp_iocp_item_find kid items = c_bsearch (hp_iocp_item_find_by_id2 kid) items 0 (length items)"

definition hp_iocp_item_is_removed :: "hp_iocp_item \<Rightarrow> bool" where
  "hp_iocp_item_is_removed item = (it_on_accept item = DEF_ACCEPT \<or> it_on_data item = DEF_DATA)"

subsection \<open>Errors, sockets, reading and writing\<close>

definition post_poll :: "poll_msg \<Rightarrow> 'u iocpw \<Rightarrow> 'u iocpw" where
  "post_poll m w = w\<lparr>iw_posts := iw_posts w @ [m]\<rparr>"

text \<open>\<open>i\<close> is the index the code computes from the address of the item.\<close>

definition hp_iocp_item_on_error :: "'u iocp_cbs \<Rightarrow> nat \<Rightarrow> 'u iocpw \<Rightarrow> int \<times> 'u iocpw" where
  "hp_iocp_item_on_error cbs i w =
     (let item = iw_items w ! i;
          w = upd_item i (\<lambda>x. x\<lparr>it_obuf_live := False\<rparr>) w;
          w = post_poll (WM_RM (it_id item) 0) w;
          w = call_error cbs (it_on_error item) (it_arg item) (it_err item) w;
          n = length (iw_items w)
      in (if i + 1 < n then 1 else 0, w\<lparr>iw_items := del_at i (iw_items w)\<rparr>))"

definition hp_iocp_do_socket :: "hp_iocp_item \<Rightarrow> 'u iocpw \<Rightarrow> int \<times> 'u iocpw" where
  "hp_iocp_do_socket item w =
     (let ok = (case iw_bind w of [] \<Rightarrow> True | b # bs \<Rightarrow> b); w = w\<lparr>iw_bind := tl (iw_bind w)\<rparr>
      in if \<not> ok then (-4, w)
         else (0, if it_on_accept item = NULL then post_poll (WM_ADD (it_id item) (it_fd item)) w else w))"

text \<open>The result of a send or receive call: 0 for success or pending, otherwise the error.\<close>

definition wsa_call :: "'u iocpw \<Rightarrow> int \<times> 'u iocpw" where
  "wsa_call w = (case iw_wsa w of [] \<Rightarrow> (0, w) | e # es \<Rightarrow> (e, w\<lparr>iw_wsa := es\<rparr>))"

definition hp_iocp_do_read :: "int \<Rightarrow> sock \<Rightarrow> nat \<Rightarrow> nat \<Rightarrow> 'u iocpw \<Rightarrow> int \<times> 'u iocpw" where
  "hp_iocp_do_read kid fd n lastr w =
     (case hp_iocp_ol_newi kid n lastr w of (a, w) \<Rightarrow>
        case wsa_call w of (e, w) \<Rightarrow>
          if e \<noteq> 0 then (-1, hp_iocp_ol_del a w) else (0, w\<lparr>iw_inflight := iw_inflight w @ [(fd, a)]\<rparr>))"

definition hp_iocp_do_write :: "nat \<Rightarrow> 'u iocpw \<Rightarrow> int \<times> 'u iocpw" where
  "hp_iocp_do_write i w =
     (let item = iw_items w ! i in
      if \<not> it_obuf_live item then (0, iw_fail F_memory w)
      else case it_obuf item of
        [] \<Rightarrow> (0, w)
      | a # as \<Rightarrow>
        let w = upd_item i (\<lambda>x. x\<lparr>it_obuf := as\<rparr>) w
        in if iw_ols w a = None then (0, iw_fail F_memory w)
           else case wsa_call w of (e, w) \<Rightarrow>
             if e \<noteq> 0 then (-1, upd_item i (\<lambda>x. x\<lparr>it_err := e\<rparr>) (hp_iocp_ol_del a w))
             else (0, upd_item i (\<lambda>x. x\<lparr>it_err := 0\<rparr>) (w\<lparr>iw_inflight := iw_inflight w @ [(it_fd item, a)]\<rparr>)))"

subsection \<open>The message handler\<close>

text \<open>A readiness message of the poll thread.\<close>

definition handle_fd :: "'u iocp_cbs \<Rightarrow> int \<Rightarrow> int \<Rightarrow> 'u iocpw \<Rightarrow> 'u iocpw" where
  "handle_fd cbs kid flags w =
     (case hp_iocp_item_find kid (iw_items w) of
        None \<Rightarrow> w\<lparr>iw_drops := (fst (iw_drops w) + 1, snd (iw_drops w))\<rparr>
      | Some i \<Rightarrow>
        let (rc, w) =
          (if and flags (W_POLLERR + W_POLLHUP) \<noteq> 0 then (0, upd_item i (\<lambda>x. x\<lparr>it_err := flags\<rparr>) w)
           else if and flags W_POLLOUT \<noteq> 0 then hp_iocp_do_write i w else (0, w))
        in if rc \<noteq> 0 \<or> it_err (iw_items w ! i) \<noteq> 0 then snd (hp_iocp_item_on_error cbs i w) else w)"

text \<open>
  The bytes of a finished read. With bytes left from before, \<open>on_data\<close> is called until the
  buffer has room for the new ones (\<open>fuel\<close> bounds the calls: they may never make room).
  Without, the new bytes are offered in place and the rest is copied, with no test of the
  room.
\<close>

definition set_lastr :: "nat \<Rightarrow> int \<Rightarrow> 'u iocpw \<Rightarrow> 'u iocpw" where
  "set_lastr k x w = w\<lparr>iw_pds := (iw_pds w)[k := (iw_pds w ! k)\<lparr>pd_lastr := x\<rparr>]\<rparr>"

primrec make_room :: "'u iocp_cbs \<Rightarrow> nat \<Rightarrow> nat \<Rightarrow> nat \<Rightarrow> 'u iocpw \<Rightarrow> int \<times> 'u iocpw" where
  "make_room cbs 0 i nbuf w = (0, iw_fail F_spin w)"
| "make_room cbs (Suc m) i nbuf w =
     (let item = iw_items w ! i in
      if \<not> it_icap item - length (it_ibuf item) < nbuf then (0, w)
      else case call_on_data cbs (it_on_data item) (it_arg item) (it_ibuf item) w of
        (rc, rest, w) \<Rightarrow>
          let w = upd_item i (\<lambda>x. x\<lparr>it_ibuf := rest\<rparr>) w
          in if rc < 0 then (rc, w) else make_room cbs m i nbuf w)"

definition read_done :: "'u iocp_cbs \<Rightarrow> nat \<Rightarrow> nat \<Rightarrow> nat \<Rightarrow> byte list \<Rightarrow> 'u iocpw \<Rightarrow> int \<times> 'u iocpw" where
  "read_done cbs fuel i lastr bytes w =
     (let nbuf = length bytes;
          w = upd_item i (\<lambda>x. x\<lparr>it_ibytes := it_ibytes x + nbuf\<rparr>) w;
          w = set_lastr lastr (int nbuf) w;
          item = iw_items w ! i
      in if it_ibuf item \<noteq> [] then
           (case make_room cbs fuel i nbuf w of (rc, w) \<Rightarrow>
              if rc < 0 then (rc, w)
              else
                let w = upd_item i (\<lambda>x. x\<lparr>it_ibuf := it_ibuf x @ bytes\<rparr>) w; item = iw_items w ! i
                in case call_on_data cbs (it_on_data item) (it_arg item) (it_ibuf item) w of
                     (rc, rest, w) \<Rightarrow> (rc, upd_item i (\<lambda>x. x\<lparr>it_ibuf := rest\<rparr>) w))
         else
           (case call_on_data cbs (it_on_data item) (it_arg item) bytes w of
              (rc, rest, w) \<Rightarrow>
                if rc \<ge> 0 \<and> rest \<noteq> [] then
                  (if it_icap (iw_items w ! i) < length rest then (rc, iw_fail F_memory w)
                   else (rc, upd_item i (\<lambda>x. x\<lparr>it_ibuf := rest\<rparr>) w))
                else (rc, w)))"

text \<open>
  A finished write. A partial one puts the request back on the queue with the rest of its
  bytes.
\<close>

definition write_done :: "nat \<Rightarrow> ptr \<Rightarrow> hp_iocp_ol \<Rightarrow> 'u iocpw \<Rightarrow> 'u iocpw" where
  "write_done i a ol w =
     (let nbuf = ol_high ol; item = iw_items w ! i in
      if \<not> nbuf \<le> length (ol_bytes ol) then iw_fail F_assert w
      else if nbuf \<noteq> length (ol_bytes ol) then
        (if \<not> it_obuf_live item then iw_fail F_memory w
         else post_poll (WM_RM (it_id item) (W_POLLIN + W_POLLOUT))
           (upd_item i (\<lambda>x. x\<lparr>it_obytes := it_obytes x + nbuf, it_obuf := it_obuf x @ [a]\<rparr>)
             (w\<lparr>iw_ols := (iw_ols w)(a \<mapsto> ol\<lparr>ol_bytes := drop nbuf (ol_bytes ol)\<rparr>)\<rparr>)))
      else w)"

definition handle_io :: "'u iocp_cbs \<Rightarrow> nat \<Rightarrow> ptr \<Rightarrow> int \<Rightarrow> 'u iocpw \<Rightarrow> 'u iocpw" where
  "handle_io cbs fuel a err w =
     (case iw_ols w a of None \<Rightarrow> iw_fail F_memory w
      | Some ol \<Rightarrow>
        let w = (case hp_iocp_item_find (ol_id ol) (iw_items w) of
            None \<Rightarrow> w\<lparr>iw_drops := (fst (iw_drops w), snd (iw_drops w) + 1)\<rparr>
          | Some i \<Rightarrow>
            if ol_high ol = 0 then
              snd (hp_iocp_item_on_error cbs i (upd_item i (\<lambda>x. x\<lparr>it_err := err\<rparr>) w))
            else if ol_read ol then
              (case read_done cbs fuel i (ol_lastr ol) (take (ol_high ol) (ol_bytes ol)) w of
                 (rc, w) \<Rightarrow> if rc < 0 then snd (hp_iocp_item_on_error cbs i w) else w)
            else write_done i a ol w)
        in hp_iocp_ol_del a w)"

definition hp_iocp_handle_msg :: "'u iocp_cbs \<Rightarrow> nat \<Rightarrow> user_msg \<Rightarrow> 'u iocpw \<Rightarrow> 'u iocpw" where
  "hp_iocp_handle_msg cbs fuel m w =
     (case m of WM_FD kid flags \<Rightarrow> handle_fd cbs kid flags w | WM_IO a err \<Rightarrow> handle_io cbs fuel a err w)"

subsection \<open>One turn of the user thread\<close>

text \<open>
  The loop over the table: an item that is removed by its loop callback is replaced by its
  successor, which is visited next. \<open>fuel\<close> bounds the visits: callbacks may add items.
\<close>

primrec run_items :: "'u iocp_cbs \<Rightarrow> nat \<Rightarrow> nat \<Rightarrow> 'u iocpw \<Rightarrow> 'u iocpw" where
  "run_items cbs 0 i w = (if i < length (iw_items w) then iw_fail F_spin w else w)"
| "run_items cbs (Suc m) i w =
     (if \<not> i < length (iw_items w) then w
      else
        let item = iw_items w ! i;
            w = (if it_on_accept item \<noteq> NULL then call_accept cbs (it_on_accept item) (it_arg item) w else w);
            item = iw_items w ! i;
            (rc, w) = (if it_on_loop item \<noteq> NULL then call_loop cbs (it_on_loop item) (it_arg item) w else (0, w))
        in if rc < 0 then
             (case hp_iocp_item_on_error cbs i w of (r, w) \<Rightarrow> run_items cbs m (if r \<noteq> 0 then i else i + 1) w)
           else run_items cbs m (i + 1) w)"

text \<open>The message loop of a turn: only the other threads post to this queue.\<close>

definition drain_user :: "'u iocp_cbs \<Rightarrow> nat \<Rightarrow> 'u iocpw \<Rightarrow> 'u iocpw" where
  "drain_user cbs fuel w = fold (hp_iocp_handle_msg cbs fuel) (iw_uq w) (w\<lparr>iw_uq := []\<rparr>)"

definition hp_iocp_run_once :: "'u iocp_cbs \<Rightarrow> nat \<Rightarrow> 'u iocpw \<Rightarrow> 'u iocpw" where
  "hp_iocp_run_once cbs fuel w = run_items cbs fuel 0 (drain_user cbs fuel w)"

subsection \<open>The calls of the client\<close>

definition WM_USER_MIN :: int where "WM_USER_MIN = 1024"

text \<open>
  The object is there and the thread has an id, so the two checks of them pass; the call of \<open>select\<close> has no limit
  on the number of descriptors here.
\<close>

record hp_iocp_conf =
  cf_threads :: int
  cf_wmuser :: int
  cf_stime_out :: int

definition hp_iocp_init :: "int \<Rightarrow> int \<Rightarrow> int \<Rightarrow> int \<Rightarrow> int \<Rightarrow> 'u \<Rightarrow> int \<times> (hp_iocp_conf \<times> 'u iocpw) option" where
  "hp_iocp_init ncpu maxfd nthreads wmuser stime_out user =
     (if \<not> (maxfd \<ge> 0 \<and> nthreads \<ge> 0) then (-1, None)
      else
        let nthreads = (if nthreads > 64 then 64 else nthreads);
            nthreads = (if nthreads = 0 then ncpu - 1 else nthreads);
            wmuser = (if wmuser < WM_USER_MIN then WM_USER_MIN + 2021 else wmuser);
            maxfd = (if maxfd = 0 then 65535 else maxfd)
        in (0, Some (\<lparr>cf_threads = nthreads, cf_wmuser = wmuser, cf_stime_out = stime_out\<rparr>,
             \<lparr>iw_items = [], iw_maxfd = nat maxfd, iw_ioid = 0, iw_ols = Map.empty, iw_nxt = 1,
              iw_freed = [],
              iw_pds = replicate (nat maxfd) \<lparr>pd_id = 0, pd_fd = 0, pd_lastr = 0, pd_lastR = 0, pd_flags = 0\<rparr>,
              iw_nfds = 0, iw_posts = [], iw_uq = [], iw_inflight = [], iw_wsa = [], iw_bind = [],
              iw_drops = (0, 0), iw_fault = None, iw_user = user\<rparr>)))"

text \<open>
  \<open>sds_room len add\<close> is the capacity \<open>sdsMakeRoomFor\<close> gives a string of length \<open>len\<close> that
  needs \<open>add\<close> more bytes. \<open>INVALID_SOCKET\<close> is all ones.
\<close>

abbreviation (input) INT_MAX_1 :: int where "INT_MAX_1 \<equiv> 2147483646"

definition find_by_fd :: "sock \<Rightarrow> hp_iocp_item list \<Rightarrow> nat option" where
  "find_by_fd fd items = lfind_idx (\<lambda>x. it_fd x = fd) items"

definition hp_iocp_add ::
  "(nat \<Rightarrow> nat \<Rightarrow> nat) \<Rightarrow> int \<Rightarrow> sock \<Rightarrow> fnptr \<Rightarrow> fnptr \<Rightarrow> fnptr \<Rightarrow> fnptr \<Rightarrow> ptr \<Rightarrow> 'u iocpw \<Rightarrow> int \<times> 'u iocpw" where
  "hp_iocp_add sds_room nibuf fd on_accept on_data on_error on_loop arg w =
     (if \<not> (nibuf \<ge> 0 \<and> fd \<noteq> -1 \<and> (on_data \<noteq> NULL \<or> on_accept \<noteq> NULL)) then (-1, w)
      else
        let nibuf = (if nibuf = 0 then 4096 else nat nibuf)
        in case find_by_fd fd (iw_items w) of
          Some i \<Rightarrow>
            let x = iw_items w ! i
            in (it_id x, upd_item i (\<lambda>x. x\<lparr>it_on_accept := on_accept, it_on_data := on_data,
                  it_on_error := on_error, it_on_loop := on_loop, it_arg := arg,
                  it_icap := (if nibuf > length (it_ibuf x)
                              then max (it_icap x) (sds_room (length (it_ibuf x)) (nibuf - length (it_ibuf x)))
                              else it_icap x)\<rparr>) w)
        | None \<Rightarrow>
            if length (iw_items w) = iw_maxfd w then (-2, w)
            else
              let w = (if iw_ioid w = INT_MAX_1 then w\<lparr>iw_ioid := 0\<rparr> else w);
                  item = \<lparr>it_id = iw_ioid w, it_fd = fd, it_obuf = [], it_obuf_live = True, it_ibuf = [],
                    it_icap = sds_room 0 nibuf, it_ibytes = 0, it_obytes = 0, it_on_accept = on_accept,
                    it_on_data = on_data, it_on_error = on_error, it_on_loop = on_loop, it_err = 0,
                    it_arg = arg\<rparr>
              in case hp_iocp_do_socket item w of
                (rc, w) \<Rightarrow>
                  if rc \<noteq> 0 then (-3, w)
                  else (it_id item, w\<lparr>iw_ioid := iw_ioid w + 1, iw_items := iw_items w @ [item]\<rparr>))"

definition to_defaults :: "bool \<Rightarrow> hp_iocp_item \<Rightarrow> hp_iocp_item" where
  "to_defaults with_loop x =
     x\<lparr>it_on_accept := (if it_on_accept x \<noteq> NULL then DEF_ACCEPT else NULL),
       it_on_data := (if it_on_data x \<noteq> NULL then DEF_DATA else NULL),
       it_on_loop := (if with_loop then (if it_on_loop x \<noteq> NULL then DEF_LOOP else NULL) else it_on_loop x),
       it_on_error := (if it_on_error x \<noteq> NULL then DEF_ERROR else NULL)\<rparr>"

definition hp_iocp_rm :: "int \<Rightarrow> 'u iocpw \<Rightarrow> int \<times> 'u iocpw" where
  "hp_iocp_rm kid w =
     (if \<not> kid \<ge> 0 then (-1, w)
      else case hp_iocp_item_find kid (iw_items w) of
        None \<Rightarrow> (-2, w)
      | Some i \<Rightarrow> (0, upd_item i (to_defaults True) w))"

definition hp_iocp_size :: "'u iocpw \<Rightarrow> nat" where
  "hp_iocp_size w = length (filter (\<lambda>x. \<not> hp_iocp_item_is_removed x) (iw_items w))"

text \<open>With a comparison function the table is searched from the front, without one by id.\<close>

definition hp_iocp_find :: "int \<Rightarrow> (ptr \<Rightarrow> bool) option \<Rightarrow> 'u iocpw \<Rightarrow> ptr" where
  "hp_iocp_find kid on_cmp w =
     (let i = (case on_cmp of
                 Some eq \<Rightarrow> lfind_idx (\<lambda>x. eq (it_arg x)) (iw_items w)
               | None \<Rightarrow> hp_iocp_item_find kid (iw_items w))
      in case i of None \<Rightarrow> NULL
         | Some i \<Rightarrow> if \<not> hp_iocp_item_is_removed (iw_items w ! i) then it_arg (iw_items w ! i) else NULL)"

definition hp_iocp_write :: "int \<Rightarrow> ptr \<Rightarrow> byte list \<Rightarrow> hp_free_t \<Rightarrow> ptr \<Rightarrow> 'u iocpw \<Rightarrow> int \<times> 'u iocpw" where
  "hp_iocp_write kid data bytes freecb p w =
     (let fail = (\<lambda>rc. (rc, w\<lparr>iw_freed := iw_freed w @ (if freecb \<noteq> NoFree
                                then [(freecb, if p \<noteq> NULL then p else data)] else [])\<rparr>))
      in if \<not> (data \<noteq> NULL \<and> bytes \<noteq> []) then fail (-1)
         else case hp_iocp_item_find kid (iw_items w) of
           None \<Rightarrow> fail (-2)
         | Some i \<Rightarrow>
           if hp_iocp_item_is_removed (iw_items w ! i) then fail (-2)
           else
             (case hp_iocp_ol_newo kid data bytes freecb p w of
                (a, w) \<Rightarrow>
                  (0, if \<not> it_obuf_live (iw_items w ! i) then iw_fail F_memory w
                      else post_poll (WM_RM (it_id (iw_items w ! i)) (W_POLLIN + W_POLLOUT))
                             (upd_item i (\<lambda>x. x\<lparr>it_obuf := it_obuf x @ [a]\<rparr>) w))))"

text \<open>
  Shutting down: the completion threads are gone, the messages they left are handled with
  the default callbacks, the poll thread is told to quit and the table is freed.
\<close>

definition hp_iocp_uninit :: "'u iocp_cbs \<Rightarrow> nat \<Rightarrow> 'u iocpw \<Rightarrow> 'u iocpw" where
  "hp_iocp_uninit cbs fuel w =
     (let w = w\<lparr>iw_items := map (to_defaults False) (iw_items w)\<rparr>; w = drain_user cbs fuel w
      in w\<lparr>iw_ioid := -1, iw_items := []\<rparr>)"

subsection \<open>The poll thread\<close>

definition hp_iocp_polld_find_by_id2 :: "int \<Rightarrow> hp_iocp_polld \<Rightarrow> int" where
  "hp_iocp_polld_find_by_id2 kid pd = (if kid < pd_id pd then -1 else if kid = pd_id pd then 0 else 1)"

definition upd_pd :: "nat \<Rightarrow> (hp_iocp_polld \<Rightarrow> hp_iocp_polld) \<Rightarrow> 'u iocpw \<Rightarrow> 'u iocpw" where
  "upd_pd i f w = w\<lparr>iw_pds := (iw_pds w)[i := f (iw_pds w ! i)]\<rparr>"

definition poll_take :: "poll_msg \<Rightarrow> 'u iocpw \<Rightarrow> 'u iocpw" where
  "poll_take m w =
     (case m of
        WM_ADD kid fd \<Rightarrow>
          if c_bsearch (hp_iocp_polld_find_by_id2 kid) (iw_pds w) 0 (iw_nfds w) \<noteq> None then iw_fail F_assert w
          else if \<not> iw_nfds w < iw_maxfd w then iw_fail F_memory w
          else (upd_pd (iw_nfds w) (\<lambda>_. \<lparr>pd_id = kid, pd_fd = fd, pd_lastr = 1024, pd_lastR = 1024, pd_flags = W_POLLIN\<rparr>) w)
                 \<lparr>iw_nfds := iw_nfds w + 1\<rparr>
      | WM_RM kid flags \<Rightarrow>
          (case c_bsearch (hp_iocp_polld_find_by_id2 kid) (iw_pds w) 0 (iw_nfds w) of
             None \<Rightarrow> iw_fail F_assert w
           | Some i \<Rightarrow>
             let w = upd_pd i (\<lambda>x. x\<lparr>pd_flags := flags\<rparr>) w; n = iw_nfds w
             in if flags = 0
                then w\<lparr>iw_pds := (if i + 1 < n then mem_move i (i + 1) (n - (i + 1)) (iw_pds w) else iw_pds w),
                       iw_nfds := n - 1\<rparr>
                else w))"

text \<open>The message loop, and the answer of \<open>select\<close>: nothing, an error, or the ready descriptors.\<close>

definition poll_drain :: "'u iocpw \<Rightarrow> 'u iocpw" where
  "poll_drain w = (if iw_ioid w = -1 then w else fold poll_take (iw_posts w) (w\<lparr>iw_posts := []\<rparr>))"

datatype sel_res = Sel_none | Sel_err | Sel_ready "sock list" "sock list" "sock list"

text \<open>
  A read is started with a buffer that doubles while reads fill it; the new size is an
  \<open>int\<close> of the code.
\<close>

definition start_read :: "nat \<Rightarrow> 'u iocpw \<Rightarrow> int \<times> 'u iocpw" where
  "start_read i w =
     (let pd = iw_pds w ! i;
          lastR = (if pd_lastr pd = pd_lastR pd then pd_lastR pd * 2 else pd_lastr pd + 1);
          w = upd_pd i (\<lambda>x. x\<lparr>pd_lastR := lastR\<rparr>) w
      in if lastR > 2147483647 then (-1, iw_fail F_overflow w)
         else hp_iocp_do_read (pd_id pd) (pd_fd pd) (nat lastR) i w)"

definition post_user :: "user_msg \<Rightarrow> 'u iocpw \<Rightarrow> 'u iocpw" where
  "post_user m w = w\<lparr>iw_uq := iw_uq w @ [m]\<rparr>"

definition select_one :: "sock list \<Rightarrow> sock list \<Rightarrow> sock list \<Rightarrow> nat \<Rightarrow> 'u iocpw \<Rightarrow> 'u iocpw" where
  "select_one rfds wfds exceptfds i w =
     (let pd = iw_pds w ! i; fd = pd_fd pd in
      if \<not> (fd \<in> set rfds \<or> fd \<in> set wfds \<or> fd \<in> set exceptfds) then w
      else
        let flags = (if fd \<in> set wfds then W_POLLOUT else 0);
            w = (if fd \<in> set wfds then upd_pd i (\<lambda>x. x\<lparr>pd_flags := and (pd_flags x) (not W_POLLOUT)\<rparr>) w else w);
            flags = (if fd \<in> set exceptfds then W_POLLERR else flags)
        in if flags \<noteq> W_POLLERR \<and> fd \<in> set rfds then
             (case start_read i w of
                (rc, w) \<Rightarrow> post_user (WM_FD (pd_id pd) (if rc \<noteq> 0 then W_POLLERR else flags)) w)
           else post_user (WM_FD (pd_id pd) flags) w)"

definition wanted :: "int \<Rightarrow> 'u iocpw \<Rightarrow> sock list" where
  "wanted fl w = map pd_fd (filter (\<lambda>x. and (pd_flags x) fl \<noteq> 0) (take (iw_nfds w) (iw_pds w)))"

definition hp_iocp_select_turn :: "sel_res \<Rightarrow> 'u iocpw \<Rightarrow> 'u iocpw" where
  "hp_iocp_select_turn sel w =
     (if iw_nfds w = 0 then w
      else case sel of Sel_none \<Rightarrow> w | Sel_err \<Rightarrow> w
      | Sel_ready r wr ex \<Rightarrow>
        let rfds = filter (\<lambda>x. x \<in> set r) (wanted W_POLLIN w);
            wfds = filter (\<lambda>x. x \<in> set wr) (wanted W_POLLOUT w);
            exceptfds = filter (\<lambda>x. x \<in> set ex) (map pd_fd (take (iw_nfds w) (iw_pds w)))
        in fold (select_one rfds wfds exceptfds) [0..<iw_nfds w] w)"

text \<open>
  The variant over \<open>WSAPoll\<close>: \<open>revents\<close> is the answer for each slot; \<open>pd_flags\<close> stands for
  the \<open>events\<close> of the parallel array.
\<close>

definition wsapoll_one :: "(nat \<Rightarrow> int) \<Rightarrow> nat \<Rightarrow> 'u iocpw \<Rightarrow> 'u iocpw" where
  "wsapoll_one revents i w =
     (if revents i = 0 then w
      else
        let pd = iw_pds w ! i;
            w = (if and (revents i) W_POLLOUT \<noteq> 0
                 then upd_pd i (\<lambda>x. x\<lparr>pd_flags := and (pd_flags x) (not W_POLLOUT)\<rparr>) w else w)
        in if and (revents i) W_POLLIN \<noteq> 0 then
             (case start_read i w of
                (rc, w) \<Rightarrow> post_user (WM_FD (pd_id pd) (if rc \<noteq> 0 then W_POLLERR else revents i)) w)
           else post_user (WM_FD (pd_id pd) (revents i)) w)"

definition hp_iocp_poll_turn :: "int \<Rightarrow> (nat \<Rightarrow> int) \<Rightarrow> 'u iocpw \<Rightarrow> 'u iocpw" where
  "hp_iocp_poll_turn n revents w =
     (if iw_nfds w = 0 \<or> n = 0 \<or> n = -1 then w else fold (wsapoll_one revents) [0..<iw_nfds w] w)"

subsection \<open>The completion threads\<close>

text \<open>
  One return of \<open>GetQueuedCompletionStatus\<close>: \<open>rc\<close>, the request if one was dequeued, and the
  error. The result says whether the thread goes on.
\<close>

definition hp_iocp_threadfn :: "bool \<Rightarrow> ptr option \<Rightarrow> int \<Rightarrow> 'u iocpw \<Rightarrow> bool \<times> 'u iocpw" where
  "hp_iocp_threadfn rc overlapped err w =
     (case overlapped of
        None \<Rightarrow> (\<not> rc, w)
      | Some a \<Rightarrow> (True, post_user (WM_IO a err) w))"

text \<open>The kernel finishes request \<open>a\<close>: a read delivers bytes, a write takes some.\<close>

definition io_finish :: "nat \<Rightarrow> byte list \<Rightarrow> nat \<Rightarrow> 'u iocpw \<Rightarrow> 'u iocpw" where
  "io_finish q bytes n w =
     (let a = snd (iw_inflight w ! q)
      in w\<lparr>iw_inflight := del_at q (iw_inflight w),
           iw_ols := (iw_ols w)(a := map_option (\<lambda>ol. if ol_read ol
               then ol\<lparr>ol_bytes := bytes, ol_high := length bytes\<rparr> else ol\<lparr>ol_high := n\<rparr>) (iw_ols w a))\<rparr>)"

subsection \<open>Binary search over ids in order\<close>

lemma sorted_nth_less:
  "sorted_wrt (<) (map (f :: 'a \<Rightarrow> int) xs) \<Longrightarrow> i < j \<Longrightarrow> j < length xs \<Longrightarrow> f (xs ! i) < f (xs ! j)"
  using sorted_wrt_nth_less [of "(<)" "map f xs" i j] by simp

lemma sorted_nth_inj:
  fixes f :: "'a \<Rightarrow> int"
  assumes "sorted_wrt (<) (map f xs)" and "i < length xs" and "j < length xs" and "f (xs ! i) = f (xs ! j)"
  shows "i = j"
proof (rule ccontr)
  assume "i \<noteq> j"
  then consider "i < j" | "j < i" by arith
  then show False
  proof cases
    case 1
    from sorted_nth_less [OF assms(1) 1 assms(3)] assms(4) show False by simp
  next
    case 2
    from sorted_nth_less [OF assms(1) 2 assms(2)] assms(4) show False by simp
  qed
qed

definition cmp_key :: "('a \<Rightarrow> int) \<Rightarrow> int \<Rightarrow> 'a \<Rightarrow> int" where
  "cmp_key f k x = (if k < f x then -1 else if k = f x then 0 else 1)"

lemma c_bsearch_step:
  "lo < hi \<Longrightarrow> c_bsearch (cmp_key f k) xs lo hi =
    (if k < f (xs ! ((lo + hi) div 2)) then c_bsearch (cmp_key f k) xs lo ((lo + hi) div 2)
     else if k = f (xs ! ((lo + hi) div 2)) then Some ((lo + hi) div 2)
     else c_bsearch (cmp_key f k) xs ((lo + hi) div 2 + 1) hi)"
  by (subst c_bsearch.simps) (simp add: cmp_key_def Let_def)

lemma c_bsearch_empty: "hi \<le> lo \<Longrightarrow> c_bsearch cmp xs lo hi = None"
  by (subst c_bsearch.simps) simp

lemma c_bsearch_Some:
  "c_bsearch (cmp_key f k) xs lo hi = Some i \<Longrightarrow> lo \<le> i \<and> i < hi \<and> f (xs ! i) = k"
proof (induction "hi - lo" arbitrary: lo hi rule: less_induct)
  case less
  let ?m = "(lo + hi) div 2"
  have lh: "lo < hi"
    by (rule ccontr) (use less.prems in \<open>simp add: c_bsearch_empty not_less\<close>)
  then have m: "lo \<le> ?m" "?m < hi" by auto
  consider "k < f (xs ! ?m)" | "k = f (xs ! ?m)" | "f (xs ! ?m) < k" by linarith
  then show ?case
  proof cases
    case 1
    with less.prems have "c_bsearch (cmp_key f k) xs lo ?m = Some i" by (simp add: c_bsearch_step [OF lh])
    then have h: "lo \<le> i \<and> i < ?m \<and> f (xs ! i) = k" by (rule less.hyps [rotated]) (use m in arith)
    show ?thesis
      using h less_trans [OF conjunct1 [OF conjunct2 [OF h]] m(2)] by blast
  next
    case 2
    with less.prems m show ?thesis by (simp add: c_bsearch_step [OF lh])
  next
    case 3
    with less.prems have "c_bsearch (cmp_key f k) xs (?m + 1) hi = Some i" by (simp add: c_bsearch_step [OF lh])
    then have h: "?m + 1 \<le> i \<and> i < hi \<and> f (xs ! i) = k" by (rule less.hyps [rotated]) (use m in arith)
    show ?thesis
      using h le_trans [OF m(1) le_trans [OF le_add1 conjunct1 [OF h]]] by blast
  qed
qed

lemma c_bsearch_None:
  "c_bsearch (cmp_key f k) xs lo hi = None \<Longrightarrow> sorted_wrt (<) (map f (take n xs)) \<Longrightarrow> hi \<le> n \<Longrightarrow> n \<le> length xs \<Longrightarrow>
   lo \<le> i \<Longrightarrow> i < hi \<Longrightarrow> f (xs ! i) \<noteq> k"
proof (induction "hi - lo" arbitrary: lo hi rule: less_induct)
  case less
  let ?m = "(lo + hi) div 2"
  have lh: "lo < hi" using less.prems by simp
  then have m: "lo \<le> ?m" "?m < hi" by auto
  have mono: "f (xs ! i) < f (xs ! j)" if "i < j" "j < hi" for i j
    using sorted_nth_less [OF less.prems(2) that(1)] that less.prems(3,4) by simp
  consider "k < f (xs ! ?m)" | "k = f (xs ! ?m)" | "f (xs ! ?m) < k" by linarith
  then show ?case
  proof cases
    case 1
    with less.prems(1) have n: "c_bsearch (cmp_key f k) xs lo ?m = None" by (simp add: c_bsearch_step [OF lh])
    show ?thesis
    proof (cases "i < ?m")
      case True
      then show ?thesis using less.hyps [OF _ n less.prems(2)] less.prems(3-5) m by auto
    next
      case False
      then have "f (xs ! ?m) \<le> f (xs ! i)" using mono [of ?m i] less.prems(6) by (cases "i = ?m") auto
      with 1 show ?thesis by simp
    qed
  next
    case 2
    with less.prems(1) show ?thesis by (simp add: c_bsearch_step [OF lh])
  next
    case 3
    with less.prems(1) have n: "c_bsearch (cmp_key f k) xs (?m + 1) hi = None" by (simp add: c_bsearch_step [OF lh])
    show ?thesis
    proof (cases "?m < i")
      case True
      then show ?thesis using less.hyps [OF _ n less.prems(2)] less.prems(3-6) m by auto
    next
      case False
      then have "f (xs ! i) \<le> f (xs ! ?m)" using mono [of i ?m] m by (cases "i = ?m") auto
      with 3 show ?thesis by simp
    qed
  qed
qed

lemma c_bsearch_iff:
  assumes "sorted_wrt (<) (map f (take n xs))" and "n \<le> length xs"
  shows "c_bsearch (cmp_key f k) xs 0 n = Some i \<longleftrightarrow> i < n \<and> f (xs ! i) = k"
proof
  assume "c_bsearch (cmp_key f k) xs 0 n = Some i"
  then show "i < n \<and> f (xs ! i) = k" using c_bsearch_Some by fastforce
next
  assume i: "i < n \<and> f (xs ! i) = k"
  then obtain j where j: "c_bsearch (cmp_key f k) xs 0 n = Some j"
    using c_bsearch_None [OF _ assms(1) order_refl assms(2), of k 0 i]
    by (cases "c_bsearch (cmp_key f k) xs 0 n") auto
  from c_bsearch_Some [OF j] have "j < n" "f (xs ! j) = k" by auto
  with i have "j = i"
    using sorted_nth_inj [OF assms(1), of j i] assms(2) by simp
  with j show "c_bsearch (cmp_key f k) xs 0 n = Some i" by simp
qed

lemma cmp_fns:
  "hp_iocp_item_find_by_id2 k = cmp_key it_id k" "hp_iocp_polld_find_by_id2 k = cmp_key pd_id k"
  by (auto simp: hp_iocp_item_find_by_id2_def hp_iocp_polld_find_by_id2_def cmp_key_def)

lemma hp_iocp_item_find_iff:
  "sorted_wrt (<) (map it_id items) \<Longrightarrow>
   hp_iocp_item_find kid items = Some i \<longleftrightarrow> i < length items \<and> it_id (items ! i) = kid"
  unfolding hp_iocp_item_find_def cmp_fns by (rule c_bsearch_iff) simp_all

subsection \<open>The protocol between the user thread and the poll thread\<close>

text \<open>
  \<open>replay\<close> is what the poll thread's table becomes when it takes the messages it has not
  taken yet; \<open>None\<close> when one of them fails an assertion or finds the table full.
\<close>

primrec replay1 :: "nat \<Rightarrow> poll_msg \<Rightarrow> int list \<Rightarrow> int list option" where
  "replay1 n (WM_ADD kid fd) ids = (if length ids < n \<and> (\<forall>x \<in> set ids. x < kid) then Some (ids @ [kid]) else None)"
| "replay1 n (WM_RM kid fl) ids =
     (if kid \<in> set ids then Some (if fl = 0 then filter (\<lambda>x. x \<noteq> kid) ids else ids) else None)"

fun replay :: "nat \<Rightarrow> poll_msg list \<Rightarrow> int list \<Rightarrow> int list option" where
  "replay n [] ids = Some ids"
| "replay n (m # ms) ids = (case replay1 n m ids of None \<Rightarrow> None | Some ids' \<Rightarrow> replay n ms ids')"

lemma replay_append:
  "replay n (ms @ ms') ids = (case replay n ms ids of None \<Rightarrow> None | Some ids' \<Rightarrow> replay n ms' ids')"
  by (induction ms arbitrary: ids) (auto split: option.split)

text \<open>What of the world the protocol is about, and its invariant.\<close>

record iocp_view =
  v_ids :: "int list"
  v_ioid :: int
  v_max :: nat
  v_pds :: "int list"
  v_nfds :: nat
  v_posts :: "poll_msg list"

definition view :: "'u iocpw \<Rightarrow> iocp_view" where
  "view w = \<lparr>v_ids = map it_id (iw_items w), v_ioid = iw_ioid w, v_max = iw_maxfd w,
     v_pds = map pd_id (iw_pds w), v_nfds = iw_nfds w, v_posts = iw_posts w\<rparr>"

definition vinv :: "int option \<Rightarrow> iocp_view \<Rightarrow> bool" where
  "vinv k v \<longleftrightarrow>
     sorted_wrt (<) (v_ids v) \<and> (\<forall>x \<in> set (v_ids v). 0 \<le> x \<and> x < v_ioid v) \<and>
     0 \<le> v_ioid v \<and> v_ioid v \<le> INT_MAX_1 \<and> (\<forall>x. k = Some x \<longrightarrow> x < v_ioid v) \<and> length (v_ids v) \<le> v_max v \<and>
     length (v_pds v) = v_max v \<and> v_nfds v \<le> v_max v \<and>
     sorted_wrt (<) (take (v_nfds v) (v_pds v)) \<and>
     replay (v_max v) (v_posts v) (take (v_nfds v) (v_pds v)) = Some (filter (\<lambda>x. Some x \<noteq> k) (v_ids v))"

definition iocp_inv :: "'u iocpw \<Rightarrow> bool" where
  "iocp_inv w \<longleftrightarrow> vinv None (view w)"

lemma view_iw_fail [simp]: "view (iw_fail x w) = view w"
  by (simp add: iw_fail_def view_def)

lemma view_upd_item [simp]:
  assumes "\<And>x. it_id (f x) = it_id x"
  shows "view (upd_item i f w) = view w"
proof -
  have "map it_id ((iw_items w)[i := f (iw_items w ! i)]) = map it_id (iw_items w)"
    by (cases "i < length (iw_items w)") (simp_all add: map_update assms list_update_same_conv list_update_beyond)
  then show ?thesis by (simp add: upd_item_def view_def)
qed

lemma view_upd_pd:
  assumes "\<And>x. pd_id (f x) = pd_id x"
  shows "view (upd_pd i f w) = view w"
proof -
  have "map pd_id ((iw_pds w)[i := f (iw_pds w ! i)]) = map pd_id (iw_pds w)"
    by (cases "i < length (iw_pds w)") (simp_all add: map_update assms list_update_same_conv list_update_beyond)
  then show ?thesis by (simp add: upd_pd_def view_def)
qed

lemma set_lastr_upd_pd: "set_lastr k x w = upd_pd k (\<lambda>p. p\<lparr>pd_lastr := x\<rparr>) w"
  by (simp add: set_lastr_def upd_pd_def)

lemma view_set_lastr [simp]: "view (set_lastr k x w) = view w"
  unfolding set_lastr_upd_pd by (rule view_upd_pd) simp

lemma view_fields [simp]:
  "view (w\<lparr>iw_ols := a\<rparr>) = view w" "view (w\<lparr>iw_nxt := b\<rparr>) = view w" "view (w\<lparr>iw_freed := c\<rparr>) = view w"
  "view (w\<lparr>iw_inflight := d\<rparr>) = view w" "view (w\<lparr>iw_wsa := e\<rparr>) = view w" "view (w\<lparr>iw_bind := f\<rparr>) = view w"
  "view (w\<lparr>iw_drops := g\<rparr>) = view w" "view (w\<lparr>iw_uq := h\<rparr>) = view w" "view (w\<lparr>iw_user := u\<rparr>) = view w"
  by (simp_all add: view_def)

lemma view_ol_del [simp]: "view (hp_iocp_ol_del a w) = view w"
  by (simp add: hp_iocp_ol_del_def split: option.split)

lemma view_newo [simp]: "view (snd (hp_iocp_ol_newo kid data bytes fr p w)) = view w"
  by (simp add: hp_iocp_ol_newo_def)

lemma view_newi [simp]: "view (snd (hp_iocp_ol_newi kid n l w)) = view w"
  by (simp add: hp_iocp_ol_newi_def)

lemma view_wsa_call [simp]: "view (snd (wsa_call w)) = view w"
  by (simp add: wsa_call_def split: list.split)

lemma view_do_read [simp]: "view (snd (hp_iocp_do_read kid fd n l w)) = view w"
  unfolding hp_iocp_do_read_def
  by (simp add: split_beta del: split_paired_All)

lemma view_do_write [simp]: "view (snd (hp_iocp_do_write i w)) = view w"
  unfolding hp_iocp_do_write_def Let_def
  by (simp add: split_beta split: list.split)

lemma view_post_user [simp]: "view (post_user m w) = view w"
  by (simp add: post_user_def)

lemma view_start_read [simp]: "view (snd (start_read i w)) = view w"
  unfolding start_read_def Let_def by (simp add: view_upd_pd)

lemma view_io_finish [simp]: "view (io_finish q bytes n w) = view w"
  by (simp add: io_finish_def Let_def)

lemma view_select_one [simp]: "view (select_one r wr e i w) = view w"
  unfolding select_one_def Let_def by (simp add: split_beta view_upd_pd)

lemma view_wsapoll_one [simp]: "view (wsapoll_one rv i w) = view w"
  unfolding wsapoll_one_def Let_def by (simp add: split_beta view_upd_pd)

lemma view_fold: "(\<And>x w. view (f x w) = view w) \<Longrightarrow> view (fold f xs w) = view w"
  by (induction xs arbitrary: w) simp_all

lemma view_select_turn [simp]: "view (hp_iocp_select_turn sel w) = view w"
  unfolding hp_iocp_select_turn_def Let_def by (simp add: view_fold split: sel_res.split)

lemma view_poll_turn [simp]: "view (hp_iocp_poll_turn n rv w) = view w"
  unfolding hp_iocp_poll_turn_def by (simp add: view_fold)

lemma view_threadfn [simp]: "view (snd (hp_iocp_threadfn rc a e w)) = view w"
  by (simp add: hp_iocp_threadfn_def split: option.split)

lemma filter_neq_del_at:
  assumes "distinct xs" and "i < length xs"
  shows "filter (\<lambda>x. x \<noteq> xs ! i) xs = del_at i xs"
proof -
  have xs: "xs = take i xs @ xs ! i # drop (Suc i) xs" by (rule del_at_split [OF assms(2)])
  have "distinct (take i xs @ xs ! i # drop (Suc i) xs)" using assms(1) xs by simp
  then have "xs ! i \<notin> set (take i xs)" "xs ! i \<notin> set (drop (Suc i) xs)" by auto
  then have "filter (\<lambda>x. x \<noteq> xs ! i) (take i xs) = take i xs"
    "filter (\<lambda>x. x \<noteq> xs ! i) (drop (Suc i) xs) = drop (Suc i) xs"
    by (auto intro!: filter_True)
  then have "filter (\<lambda>x. x \<noteq> xs ! i) (take i xs @ xs ! i # drop (Suc i) xs) = del_at i xs"
    by (simp only: del_at_def filter_append filter.simps) simp
  with xs show ?thesis by simp
qed

lemma sorted_distinct: "sorted_wrt (<) xs \<Longrightarrow> distinct (xs :: int list)"
  using strict_sorted_iff [of xs] by blast

lemma sorted_wrt_filter_lt: "sorted_wrt (<) xs \<Longrightarrow> sorted_wrt (<) (filter P xs)"
  by (rule sorted_wrt_filter)

text \<open>What the poll thread does with a message, on the ids of its table.\<close>

definition pids :: "'u iocpw \<Rightarrow> int list" where
  "pids w = map pd_id (take (iw_nfds w) (iw_pds w))"

lemma poll_take_replay1:
  assumes "length (iw_pds w) = iw_maxfd w" and "iw_nfds w \<le> iw_maxfd w"
    and "sorted_wrt (<) (pids w)" and "replay1 (iw_maxfd w) m (pids w) = Some ids'"
  shows "pids (poll_take m w) = ids' \<and> sorted_wrt (<) ids' \<and> length (iw_pds (poll_take m w)) = iw_maxfd w \<and>
    iw_nfds (poll_take m w) \<le> iw_maxfd w \<and> iw_fault (poll_take m w) = iw_fault w \<and>
    iw_items (poll_take m w) = iw_items w \<and> iw_ioid (poll_take m w) = iw_ioid w \<and>
    iw_maxfd (poll_take m w) = iw_maxfd w \<and> iw_posts (poll_take m w) = iw_posts w"
proof -
  have nl: "iw_nfds w \<le> length (iw_pds w)" using assms(1,2) by simp
  have iff: "c_bsearch (hp_iocp_polld_find_by_id2 kid) (iw_pds w) 0 (iw_nfds w) = Some i \<longleftrightarrow>
      i < iw_nfds w \<and> pd_id (iw_pds w ! i) = kid" for kid i
    unfolding cmp_fns using c_bsearch_iff [of pd_id "iw_nfds w" "iw_pds w" kid i] assms(3) nl
    by (simp add: pids_def)
  have mem: "pd_id (iw_pds w ! i) \<in> set (pids w)" if "i < iw_nfds w" for i
    using nth_mem [of i "pids w"] that nl by (simp add: pids_def)
  show ?thesis
  proof (cases m)
    case (WM_ADD kid fd)
    from assms(4) have a: "length (pids w) < iw_maxfd w" "\<forall>x \<in> set (pids w). x < kid" "ids' = pids w @ [kid]"
      by (auto simp: WM_ADD split: if_splits)
    have n: "iw_nfds w < iw_maxfd w" using a(1) nl by (simp add: pids_def)
    have none: "c_bsearch (hp_iocp_polld_find_by_id2 kid) (iw_pds w) 0 (iw_nfds w) = None"
    proof (rule ccontr)
      assume "\<not> ?thesis"
      then obtain i where "i < iw_nfds w" "pd_id (iw_pds w ! i) = kid" using iff by auto
      with mem a(2) show False by fastforce
    qed
    have "pids (poll_take m w) = ids'"
      using n assms(1) a(3) by (simp add: WM_ADD poll_take_def none pids_def upd_pd_def take_Suc_conv_app_nth)
    moreover have "sorted_wrt (<) ids'" using a(2,3) assms(3) by (simp add: sorted_wrt_append)
    ultimately show ?thesis using n assms(1) by (simp add: WM_ADD poll_take_def none upd_pd_def)
  next
    case (WM_RM kid fl)
    from assms(4) have a: "kid \<in> set (pids w)" "ids' = (if fl = 0 then filter (\<lambda>x. x \<noteq> kid) (pids w) else pids w)"
      by (auto simp: WM_RM split: if_splits)
    from a(1) obtain i where i: "i < iw_nfds w" "pd_id (iw_pds w ! i) = kid"
      using nl by (auto simp: pids_def in_set_conv_nth)
    then have b: "c_bsearch (hp_iocp_polld_find_by_id2 kid) (iw_pds w) 0 (iw_nfds w) = Some i" using iff by simp
    let ?ps = "(iw_pds w)[i := (iw_pds w ! i)\<lparr>pd_flags := fl\<rparr>]"
    have ids: "map pd_id ?ps = map pd_id (iw_pds w)"
      using i nl by (simp add: map_update list_update_same_conv)
    have s: "sorted_wrt (<) ids'" using a(2) assms(3) by (simp add: sorted_wrt_filter_lt)
    show ?thesis
    proof (cases "fl = 0")
      case False
      then have "pids (poll_take m w) = ids'"
        using a(2) ids by (simp add: WM_RM poll_take_def b upd_pd_def Let_def pids_def take_map [symmetric])
      then show ?thesis using s False assms(1,2) by (simp add: WM_RM poll_take_def b upd_pd_def Let_def)
    next
      case True
      let ?p0 = "(iw_pds w)[i := (iw_pds w ! i)\<lparr>pd_flags := 0\<rparr>]"
      have ids0: "map pd_id ?p0 = map pd_id (iw_pds w)" using ids True by simp
      let ?qs = "if i + 1 < iw_nfds w then mem_move i (i + 1) (iw_nfds w - (i + 1)) ?p0 else ?p0"
      have "take (iw_nfds w - 1) ?qs = del_at i (take (iw_nfds w) ?p0)"
      proof (cases "i + 1 < iw_nfds w")
        case True
        then show ?thesis using take_mem_move_del_at [of i "iw_nfds w" ?p0] i nl by simp
      next
        case False
        then have "iw_nfds w = Suc i" using i(1) by simp
        then show ?thesis by (simp add: del_at_def)
      qed
      then have "map pd_id (take (iw_nfds w - 1) ?qs) = del_at i (pids w)"
        using ids0 by (simp add: map_del_at take_map [symmetric] pids_def)
      also have "\<dots> = ids'"
        using filter_neq_del_at [OF sorted_distinct [OF assms(3)], of i] i nl a(2) True by (simp add: pids_def)
      finally have "pids (poll_take m w) = ids'"
        using True by (cases "i + 1 < iw_nfds w") (simp_all add: WM_RM poll_take_def b upd_pd_def Let_def pids_def)
      moreover have "length ?qs = length (iw_pds w)" using i nl by simp
      ultimately show ?thesis using s True assms(1,2) by (simp add: WM_RM poll_take_def b upd_pd_def Let_def)
    qed
  qed
qed

subsection \<open>The calls of the client keep the protocol\<close>

text \<open>
  The worlds a client reaches with the API. Listening sockets (\<open>on_accept\<close>) are left out:
  the poll thread never hears of them. \<open>wr\<close> says whether it may write: an error callback
  must not. The ids are used up after 2147483646 connections.
\<close>

inductive iocp_api :: "(nat \<Rightarrow> nat \<Rightarrow> nat) \<Rightarrow> bool \<Rightarrow> 'u iocpw \<Rightarrow> 'u iocpw \<Rightarrow> bool"
  for room :: "nat \<Rightarrow> nat \<Rightarrow> nat" and wr :: bool and w :: "'u iocpw" where
  api_refl: "iocp_api room wr w w"
| api_user: "iocp_api room wr w w' \<Longrightarrow> iocp_api room wr w (w'\<lparr>iw_user := u\<rparr>)"
| api_add: "iocp_api room wr w w' \<Longrightarrow> iw_ioid w' \<noteq> INT_MAX_1 \<Longrightarrow>
    iocp_api room wr w (snd (hp_iocp_add room nibuf fd NULL d e l a w'))"
| api_rm: "iocp_api room wr w w' \<Longrightarrow> iocp_api room wr w (snd (hp_iocp_rm kid w'))"
| api_write: "iocp_api room wr w w' \<Longrightarrow> wr \<Longrightarrow>
    iocp_api room wr w (snd (hp_iocp_write kid data bytes fr p w'))"

definition cbs_ok :: "(nat \<Rightarrow> nat \<Rightarrow> nat) \<Rightarrow> 'u iocp_cbs \<Rightarrow> bool" where
  "cbs_ok room cbs \<longleftrightarrow>
     (\<forall>f a w. iocp_api room True w (ic_accept cbs f a w)) \<and>
     (\<forall>f a b w. iocp_api room True w (snd (snd (ic_data cbs f a b w)))) \<and>
     (\<forall>f a e w. iocp_api room False w (ic_error cbs f a e w)) \<and>
     (\<forall>f a w. iocp_api room True w (snd (ic_loop cbs f a w)))"

definition ids_of :: "'u iocpw \<Rightarrow> int list" where
  "ids_of w = map it_id (iw_items w)"

definition keeps :: "int option \<Rightarrow> 'u iocpw \<Rightarrow> 'u iocpw \<Rightarrow> bool" where
  "keeps k w w' \<longleftrightarrow> (vinv k (view w) \<longrightarrow> vinv k (view w')) \<and> (\<exists>ys. ids_of w' = ids_of w @ ys)"

lemma keeps_trans: "keeps k a b \<Longrightarrow> keeps k b c \<Longrightarrow> keeps k a c"
  unfolding keeps_def by (elim conjE exE, intro conjI) (blast, metis append_assoc)

lemma view_ids_of: "view w' = view w \<Longrightarrow> ids_of w' = ids_of w"
  by (simp add: view_def ids_of_def)

lemma keeps_view: "view w' = view w \<Longrightarrow> keeps k w w'"
  using view_ids_of [of w' w] by (simp add: keeps_def)

lemma keeps_inv: "keeps k w w' \<Longrightarrow> vinv k (view w) \<Longrightarrow> vinv k (view w')"
  by (simp add: keeps_def)

lemma keeps_length: "keeps k w w' \<Longrightarrow> length (iw_items w) \<le> length (iw_items w')"
  unfolding keeps_def ids_of_def by (metis length_append length_map le_add1)

lemma keeps_id:
  assumes "keeps k w w'" and "i < length (iw_items w)"
  shows "it_id (iw_items w' ! i) = it_id (iw_items w ! i)"
proof -
  from assms(1) obtain ys where "map it_id (iw_items w') = map it_id (iw_items w) @ ys"
    by (auto simp: keeps_def ids_of_def)
  then have "map it_id (iw_items w') ! i = map it_id (iw_items w) ! i" using assms(2) by (simp add: nth_append)
  then show ?thesis using keeps_length [OF assms(1)] assms(2) by simp
qed

lemma vinv_sorted: "vinv k (view w) \<Longrightarrow> sorted_wrt (<) (map it_id (iw_items w))"
  by (simp add: vinv_def view_def)

lemma keeps_post:
  assumes "i < length (iw_items w)" and "Some (it_id (iw_items w ! i)) \<noteq> k" and "fl \<noteq> 0"
  shows "keeps k w (post_poll (WM_RM (it_id (iw_items w ! i)) fl) w)"
proof -
  let ?x = "it_id (iw_items w ! i)"
  have "?x \<in> set (filter (\<lambda>x. Some x \<noteq> k) (map it_id (iw_items w)))"
    using assms(1,2) nth_mem [OF assms(1)] by auto
  then have "vinv k (view w) \<Longrightarrow> vinv k (view (post_poll (WM_RM ?x fl) w))"
    using assms(3) by (simp add: vinv_def view_def post_poll_def replay_append)
  then show ?thesis by (simp add: keeps_def ids_of_def post_poll_def)
qed

lemma keeps_write:
  assumes "k = None" shows "keeps k w (snd (hp_iocp_write kid data bytes fr p w))"
proof (cases "data \<noteq> NULL \<and> bytes \<noteq> []")
  case False
  then show ?thesis by (auto simp: hp_iocp_write_def Let_def intro!: keeps_view)
next
  case True
  show ?thesis
  proof (cases "hp_iocp_item_find kid (iw_items w)")
    case None
    with True show ?thesis by (auto simp: hp_iocp_write_def Let_def intro!: keeps_view)
  next
    case (Some i)
    obtain a w1 where n: "hp_iocp_ol_newo kid data bytes fr p w = (a, w1)"
      by (cases "hp_iocp_ol_newo kid data bytes fr p w")
    have v1: "view w1 = view w" using view_newo [of kid data bytes fr p w] n by simp
    let ?w2 = "upd_item i (\<lambda>x. x\<lparr>it_obuf := it_obuf x @ [a]\<rparr>) w1"
    have v2: "view ?w2 = view w" using v1 by simp
    have i: "i < length (iw_items w)"
      using c_bsearch_Some Some unfolding hp_iocp_item_find_def cmp_fns by fastforce
    have l: "length (iw_items ?w2) = length (iw_items w)" using view_ids_of [OF v2]
      unfolding ids_of_def by (rule map_eq_imp_length_eq)
    have e: "it_id (iw_items w1 ! i) = it_id (iw_items ?w2 ! i)"
      using i l by (simp add: upd_item_def)
    have "keeps k w (post_poll (WM_RM (it_id (iw_items w1 ! i)) (W_POLLIN + W_POLLOUT)) ?w2)"
      unfolding e using keeps_trans [OF keeps_view [OF v2] keeps_post] i l assms by simp
    then show ?thesis
      using True Some n v1 by (auto simp: hp_iocp_write_def Let_def intro!: keeps_view)
  qed
qed

lemma keeps_rm: "keeps k w (snd (hp_iocp_rm kid w))"
  unfolding hp_iocp_rm_def to_defaults_def by (auto intro!: keeps_view split: option.split)

lemma view_do_socket: "view (snd (hp_iocp_do_socket item w)) =
  (view w)\<lparr>v_posts := v_posts (view w) @
     (if fst (hp_iocp_do_socket item w) = 0 \<and> it_on_accept item = NULL
      then [WM_ADD (it_id item) (it_fd item)] else [])\<rparr>"
  by (auto simp: hp_iocp_do_socket_def Let_def view_def post_poll_def)

lemma keeps_add:
  assumes "iw_ioid w \<noteq> INT_MAX_1"
  shows "keeps k w (snd (hp_iocp_add room nibuf fd NULL d e l a w))"
proof (cases "nibuf \<ge> 0 \<and> fd \<noteq> -1 \<and> d \<noteq> NULL \<and> find_by_fd fd (iw_items w) = None \<and> length (iw_items w) \<noteq> iw_maxfd w")
  case False
  then show ?thesis
    by (auto simp: hp_iocp_add_def Let_def intro!: keeps_view split: option.split)
next
  case True
  define item where "item = \<lparr>it_id = iw_ioid w, it_fd = fd, it_obuf = [], it_obuf_live = True, it_ibuf = [],
    it_icap = room 0 (if nibuf = 0 then 4096 else nat nibuf), it_ibytes = 0, it_obytes = 0, it_on_accept = NULL,
    it_on_data = d, it_on_error = e, it_on_loop = l, it_err = 0, it_arg = a\<rparr>"
  obtain rc w1 where so: "hp_iocp_do_socket item w = (rc, w1)" by (cases "hp_iocp_do_socket item w")
  have v: "view w1 = (view w)\<lparr>v_posts := v_posts (view w) @ (if rc = 0 then [WM_ADD (iw_ioid w) fd] else [])\<rparr>"
    using view_do_socket [of item w] unfolding so by (simp add: item_def)
  have add: "snd (hp_iocp_add room nibuf fd NULL d e l a w) =
      (if rc \<noteq> 0 then w1 else w1\<lparr>iw_ioid := iw_ioid w1 + 1, iw_items := iw_items w1 @ [item]\<rparr>)"
    using True assms so by (simp add: hp_iocp_add_def item_def [symmetric])
  show ?thesis
  proof (cases "rc = 0")
    case False
    then show ?thesis unfolding add using v by (simp add: keeps_view)
  next
    case rc: True
    let ?w2 = "w1\<lparr>iw_ioid := iw_ioid w1 + 1, iw_items := iw_items w1 @ [item]\<rparr>"
    have v2: "view ?w2 = (view w)\<lparr>v_ids := v_ids (view w) @ [iw_ioid w], v_ioid := v_ioid (view w) + 1,
        v_posts := v_posts (view w) @ [WM_ADD (iw_ioid w) fd]\<rparr>"
      using v rc by (simp add: view_def item_def)
    have "vinv k (view ?w2)" if inv: "vinv k (view w)"
    proof -
      let ?ids = "map it_id (iw_items w)"
      have lt: "\<forall>x \<in> set ?ids. 0 \<le> x \<and> x < iw_ioid w" and k: "\<forall>x. k = Some x \<longrightarrow> x < iw_ioid w"
        and le: "length ?ids < iw_maxfd w"
        and rp: "replay (iw_maxfd w) (iw_posts w) (take (iw_nfds w) (map pd_id (iw_pds w))) =
          Some (filter (\<lambda>x. Some x \<noteq> k) ?ids)"
        using inv True by (auto simp: vinv_def view_def)
      have "length (filter (\<lambda>x. Some x \<noteq> k) ?ids) < iw_maxfd w"
        using le length_filter_le [of "\<lambda>x. Some x \<noteq> k" ?ids] by linarith
      moreover have "Some (iw_ioid w) \<noteq> k" using k by auto
      ultimately have "replay (iw_maxfd w) (iw_posts w @ [WM_ADD (iw_ioid w) fd]) (take (iw_nfds w) (map pd_id (iw_pds w))) =
          Some (filter (\<lambda>x. Some x \<noteq> k) (?ids @ [iw_ioid w]))"
        using rp lt by (auto simp: replay_append)
      then show ?thesis
        unfolding v2 using inv assms le lt
        by (auto simp: vinv_def view_def sorted_wrt_append)
    qed
    moreover have "ids_of ?w2 = ids_of w @ [iw_ioid w]"
      using arg_cong [OF v2, of v_ids] by (simp add: ids_of_def view_def)
    ultimately show ?thesis unfolding add using rc by (simp add: keeps_def)
  qed
qed

lemma keeps_api: "iocp_api room wr w w' \<Longrightarrow> (wr \<Longrightarrow> k = None) \<Longrightarrow> keeps k w w'"
proof (induction rule: iocp_api.induct)
  case api_refl
  show ?case by (rule keeps_view) (rule refl)
next
  case (api_user w' u)
  show ?case by (rule keeps_trans [OF api_user.IH keeps_view]) (use api_user.prems in simp_all)
next
  case (api_add w' nibuf fd d e l a)
  show ?case by (rule keeps_trans [OF api_add.IH keeps_add]) (use api_add in simp_all)
next
  case (api_rm w' kid)
  show ?case by (rule keeps_trans [OF api_rm.IH keeps_rm]) (use api_rm in simp_all)
next
  case (api_write w' kid data bytes fr p)
  show ?case by (rule keeps_trans [OF api_write.IH keeps_write]) (use api_write in simp_all)
qed

subsection \<open>The message handler and the loop keep the protocol\<close>

lemma item_find_less: "hp_iocp_item_find kid items = Some i \<Longrightarrow> i < length items"
  using c_bsearch_Some unfolding hp_iocp_item_find_def cmp_fns by fastforce

lemma view_length: "view w' = view w \<Longrightarrow> length (iw_items w') = length (iw_items w)"
  using view_ids_of [of w' w] unfolding ids_of_def by (blast intro: map_eq_imp_length_eq)

lemma vinv_remove: "vinv (Some x) v \<Longrightarrow> vinv None (v\<lparr>v_ids := filter (\<lambda>y. y \<noteq> x) (v_ids v)\<rparr>)"
  using le_trans [OF length_filter_le [of "\<lambda>y. y \<noteq> x" "v_ids v"], of "v_max v"]
  by (auto simp: vinv_def sorted_wrt_filter_lt)

lemma keeps_accept: "cbs_ok room cbs \<Longrightarrow> keeps None w (call_accept cbs f a w)"
  unfolding cbs_ok_def call_accept_def by (simp add: keeps_view keeps_api [where room = room and wr = True])

lemma keeps_data: "cbs_ok room cbs \<Longrightarrow> keeps None w (snd (snd (call_on_data cbs f a b w)))"
  unfolding cbs_ok_def call_on_data_def by (simp add: keeps_view keeps_api [where room = room and wr = True])

lemma keeps_loop: "cbs_ok room cbs \<Longrightarrow> keeps None w (snd (call_loop cbs f a w))"
  unfolding cbs_ok_def call_loop_def by (simp add: keeps_view keeps_api [where room = room and wr = True])

lemma keeps_error: "cbs_ok room cbs \<Longrightarrow> keeps k w (call_error cbs f a e w)"
  unfolding cbs_ok_def call_error_def by (simp add: keeps_view keeps_api [where room = room and wr = False])

lemma inv_on_error:
  assumes ok: "cbs_ok room cbs" and inv: "vinv None (view w)" and i: "i < length (iw_items w)"
  shows "vinv None (view (snd (hp_iocp_item_on_error cbs i w)))"
proof -
  let ?x = "it_id (iw_items w ! i)"
  let ?w1 = "upd_item i (\<lambda>x. x\<lparr>it_obuf_live := False\<rparr>) w"
  let ?w2 = "post_poll (WM_RM ?x 0) ?w1"
  let ?w3 = "call_error cbs (it_on_error (iw_items w ! i)) (it_arg (iw_items w ! i)) (it_err (iw_items w ! i)) ?w2"
  have v1: "view ?w1 = view w" by simp
  have ids1: "ids_of ?w2 = ids_of w" using view_ids_of [OF v1] by (simp add: ids_of_def post_poll_def)
  have sorted: "sorted_wrt (<) (ids_of w)" using vinv_sorted [OF inv] by (simp add: ids_of_def)
  have x: "?x \<in> set (ids_of w)" using i by (simp add: ids_of_def)
  have v2: "view ?w2 = (view w)\<lparr>v_posts := v_posts (view w) @ [WM_RM ?x 0]\<rparr>"
    using v1 by (simp add: view_def post_poll_def)
  have inv2: "vinv (Some ?x) (view ?w2)"
    unfolding v2 using inv x by (auto simp: vinv_def view_def ids_of_def replay_append)
  have k3: "keeps (Some ?x) ?w2 ?w3" by (rule keeps_error [OF ok])
  have inv3: "vinv (Some ?x) (view ?w3)" by (rule keeps_inv [OF k3 inv2])
  have l2: "length (iw_items ?w2) = length (iw_items w)"
    using ids1 unfolding ids_of_def by (rule map_eq_imp_length_eq)
  have i3: "i < length (iw_items ?w3)" using keeps_length [OF k3] l2 i by simp
  have x3: "map it_id (iw_items ?w3) ! i = ?x"
  proof -
    have "it_id (iw_items ?w3 ! i) = it_id (iw_items ?w2 ! i)" by (rule keeps_id [OF k3]) (use l2 i in simp)
    also have "\<dots> = ids_of ?w2 ! i" using l2 i by (simp add: ids_of_def)
    also have "\<dots> = ?x" using ids1 i by (simp add: ids_of_def)
    finally show ?thesis using i3 by simp
  qed
  have s3: "sorted_wrt (<) (map it_id (iw_items ?w3))" by (rule vinv_sorted [OF inv3])
  have del: "filter (\<lambda>x. x \<noteq> ?x) (map it_id (iw_items ?w3)) = del_at i (map it_id (iw_items ?w3))"
    using filter_neq_del_at [OF sorted_distinct [OF s3], of i] i3 unfolding x3 by simp
  let ?w4 = "?w3\<lparr>iw_items := del_at i (iw_items ?w3)\<rparr>"
  have v4: "view ?w4 = (view ?w3)\<lparr>v_ids := filter (\<lambda>x. x \<noteq> ?x) (v_ids (view ?w3))\<rparr>"
    using del by (simp add: view_def map_del_at)
  have "vinv None (view ?w4)"
    unfolding v4 by (rule vinv_remove [OF inv3])
  then show ?thesis by (simp add: hp_iocp_item_on_error_def Let_def)
qed

lemma inv_handle_fd:
  assumes ok: "cbs_ok room cbs" and inv: "vinv None (view w)" shows "vinv None (view (handle_fd cbs kid flags w))"
proof (cases "hp_iocp_item_find kid (iw_items w)")
  case None
  then show ?thesis using inv by (simp add: handle_fd_def)
next
  case (Some i)
  define r where "r = (if and flags (W_POLLERR + W_POLLHUP) \<noteq> 0 then (0, upd_item i (\<lambda>x. x\<lparr>it_err := flags\<rparr>) w)
           else if and flags W_POLLOUT \<noteq> 0 then hp_iocp_do_write i w else (0, w))"
  have v: "view (snd r) = view w" unfolding r_def by simp
  have h: "handle_fd cbs kid flags w =
      (if fst r \<noteq> 0 \<or> it_err (iw_items (snd r) ! i) \<noteq> 0 then snd (hp_iocp_item_on_error cbs i (snd r)) else snd r)"
    unfolding handle_fd_def Some option.case Let_def r_def [symmetric] by (cases r) simp
  have "vinv None (view (snd r))" "i < length (iw_items (snd r))"
    using inv v view_length [OF v] item_find_less [OF Some] by simp_all
  then show ?thesis unfolding h using inv_on_error [OF ok] by simp
qed

lemma keeps_make_room: "cbs_ok room cbs \<Longrightarrow> keeps None w (snd (make_room cbs m i n w))"
proof (induction m arbitrary: w)
  case 0
  show ?case by (simp add: keeps_view)
next
  case (Suc m)
  obtain rc rest w1 where d: "call_on_data cbs (it_on_data (iw_items w ! i)) (it_arg (iw_items w ! i))
      (it_ibuf (iw_items w ! i)) w = (rc, rest, w1)" by (rule prod_cases3)
  have k1: "keeps None w w1" using keeps_data [OF Suc.prems, of w] d by (metis snd_conv)
  have k2: "keeps None w (upd_item i (\<lambda>x. x\<lparr>it_ibuf := rest\<rparr>) w1)"
    by (rule keeps_trans [OF k1 keeps_view]) simp
  show ?case
    using k2 keeps_trans [OF k2 Suc.IH [OF Suc.prems]] by (simp add: d Let_def keeps_view)
qed

lemma keeps_read_done:
  assumes ok: "cbs_ok room cbs" shows "keeps None w (snd (read_done cbs m i l bytes w))"
proof -
  define w1 where "w1 = set_lastr l (int (length bytes)) (upd_item i (\<lambda>x. x\<lparr>it_ibytes := it_ibytes x + length bytes\<rparr>) w)"
  have k1: "keeps None w w1" unfolding w1_def by (rule keeps_view) simp
  have upd: "keeps None a (upd_item i (\<lambda>x. x\<lparr>it_ibuf := f x\<rparr>) b)" if "keeps None a b"
    for f and a b :: "'u iocpw"
    by (rule keeps_trans [OF that keeps_view]) simp
  show ?thesis
  proof (cases "it_ibuf (iw_items w1 ! i) = []")
    case False
    obtain rc w2 where r: "make_room cbs m i (length bytes) w1 = (rc, w2)"
      by (cases "make_room cbs m i (length bytes) w1")
    have k2: "keeps None w w2" using keeps_trans [OF k1 keeps_make_room [OF ok, of w1 m i "length bytes"]] r by simp
    define w3 where "w3 = upd_item i (\<lambda>x. x\<lparr>it_ibuf := it_ibuf x @ bytes\<rparr>) w2"
    have k3: "keeps None w w3" unfolding w3_def by (rule upd [OF k2])
    obtain rc2 rest w4 where d: "call_on_data cbs (it_on_data (iw_items w3 ! i)) (it_arg (iw_items w3 ! i))
      (it_ibuf (iw_items w3 ! i)) w3 = (rc2, rest, w4)" by (rule prod_cases3)
    have k4: "keeps None w w4" using keeps_trans [OF k3 keeps_data [OF ok]] d by (metis snd_conv)
    have "snd (read_done cbs m i l bytes w) =
        (if rc < 0 then w2 else upd_item i (\<lambda>x. x\<lparr>it_ibuf := rest\<rparr>) w4)"
      using False by (simp add: read_done_def Let_def w1_def [symmetric] r w3_def [symmetric] d)
    then show ?thesis using k2 upd [OF k4] by simp
  next
    case True
    obtain rc2 rest w4 where d: "call_on_data cbs (it_on_data (iw_items w1 ! i)) (it_arg (iw_items w1 ! i))
      bytes w1 = (rc2, rest, w4)" by (rule prod_cases3)
    have k4: "keeps None w w4" using keeps_trans [OF k1 keeps_data [OF ok]] d by (metis snd_conv)
    have "snd (read_done cbs m i l bytes w) \<in>
        {w4, iw_fail F_memory w4, upd_item i (\<lambda>x. x\<lparr>it_ibuf := rest\<rparr>) w4}"
      using True by (simp add: read_done_def Let_def w1_def [symmetric] d)
    then show ?thesis using k4 upd [OF k4] keeps_trans [OF k4 keeps_view [OF view_iw_fail]] by auto
  qed
qed

lemma inv_write_done:
  assumes inv: "vinv None (view w)" and i: "i < length (iw_items w)"
  shows "vinv None (view (write_done i a ol w))"
proof -
  let ?w1 = "w\<lparr>iw_ols := (iw_ols w)(a \<mapsto> ol\<lparr>ol_bytes := drop (ol_high ol) (ol_bytes ol)\<rparr>)\<rparr>"
  let ?w2 = "upd_item i (\<lambda>x. x\<lparr>it_obytes := it_obytes x + ol_high ol, it_obuf := it_obuf x @ [a]\<rparr>) ?w1"
  have v2: "view ?w2 = view w" by simp
  have i2: "i < length (iw_items ?w2)" using view_length [OF v2] i by simp
  have e: "it_id (iw_items w ! i) = it_id (iw_items ?w2 ! i)" using i by (simp add: upd_item_def)
  have "keeps None ?w2 (post_poll (WM_RM (it_id (iw_items w ! i)) (W_POLLIN + W_POLLOUT)) ?w2)"
    unfolding e by (rule keeps_post [OF i2]) simp_all
  from keeps_inv [OF this] v2 inv
  show ?thesis by (simp add: write_done_def Let_def)
qed

lemma inv_handle_io:
  assumes ok: "cbs_ok room cbs" and inv: "vinv None (view w)"
  shows "vinv None (view (handle_io cbs fuel a err w))"
proof (cases "iw_ols w a")
  case None
  then show ?thesis using inv by (simp add: handle_io_def)
next
  case (Some ol)
  show ?thesis
  proof (cases "hp_iocp_item_find (ol_id ol) (iw_items w)")
    case None
    then show ?thesis using Some inv by (simp add: handle_io_def Let_def)
  next
    case f: (Some i)
    have i: "i < length (iw_items w)" by (rule item_find_less [OF f])
    let ?e = "upd_item i (\<lambda>x. x\<lparr>it_err := err\<rparr>) w"
    have ve: "view ?e = view w" by simp
    have e: "vinv None (view (snd (hp_iocp_item_on_error cbs i ?e)))"
      by (rule inv_on_error [OF ok]) (use inv i ve view_length [OF ve] in simp_all)
    obtain rc w1 where r: "read_done cbs fuel i (ol_lastr ol) (take (ol_high ol) (ol_bytes ol)) w = (rc, w1)"
      by (cases "read_done cbs fuel i (ol_lastr ol) (take (ol_high ol) (ol_bytes ol)) w")
    have k: "keeps None w w1" using keeps_read_done [OF ok] r by (metis snd_conv)
    have r1: "vinv None (view w1)" by (rule keeps_inv [OF k inv])
    have r2: "vinv None (view (snd (hp_iocp_item_on_error cbs i w1)))"
      by (rule inv_on_error [OF ok r1]) (use keeps_length [OF k] i in simp)
    show ?thesis
      using Some f e r1 r2 inv_write_done [OF inv i] by (simp add: handle_io_def Let_def r)
  qed
qed

lemma inv_handle_msg:
  "cbs_ok room cbs \<Longrightarrow> vinv None (view w) \<Longrightarrow> vinv None (view (hp_iocp_handle_msg cbs fuel m w))"
  by (cases m) (simp_all add: hp_iocp_handle_msg_def inv_handle_fd inv_handle_io)

lemma inv_fold_msgs:
  "cbs_ok room cbs \<Longrightarrow> vinv None (view w) \<Longrightarrow> vinv None (view (fold (hp_iocp_handle_msg cbs fuel) ms w))"
  by (induction ms arbitrary: w) (simp_all add: inv_handle_msg)

lemma inv_run_items:
  "cbs_ok room cbs \<Longrightarrow> vinv None (view w) \<Longrightarrow> vinv None (view (run_items cbs m i w))"
proof (induction m arbitrary: i w)
  case 0
  then show ?case by simp
next
  case (Suc m)
  show ?case
  proof (cases "i < length (iw_items w)")
    case False
    then show ?thesis using Suc.prems by simp
  next
    case True
    define w1 where "w1 = (if it_on_accept (iw_items w ! i) \<noteq> NULL
      then call_accept cbs (it_on_accept (iw_items w ! i)) (it_arg (iw_items w ! i)) w else w)"
    define r where "r = (if it_on_loop (iw_items w1 ! i) \<noteq> NULL
      then call_loop cbs (it_on_loop (iw_items w1 ! i)) (it_arg (iw_items w1 ! i)) w1 else (0, w1))"
    have k1: "keeps None w w1" using keeps_accept [OF Suc.prems(1)] by (simp add: w1_def keeps_view)
    have kr: "keeps None w1 (snd r)" using keeps_loop [OF Suc.prems(1)] by (simp add: r_def keeps_view)
    have k: "keeps None w (snd r)" by (rule keeps_trans [OF k1 kr])
    have inv: "vinv None (view (snd r))" by (rule keeps_inv [OF k Suc.prems(2)])
    have e: "vinv None (view (snd (hp_iocp_item_on_error cbs i (snd r))))"
      by (rule inv_on_error [OF Suc.prems(1) inv]) (use keeps_length [OF k] True in simp)
    have "run_items cbs (Suc m) i w =
        (if fst r < 0 then
           run_items cbs m (if fst (hp_iocp_item_on_error cbs i (snd r)) \<noteq> 0 then i else i + 1)
             (snd (hp_iocp_item_on_error cbs i (snd r)))
         else run_items cbs m (i + 1) (snd r))"
      unfolding run_items.simps Let_def w1_def [symmetric] r_def [symmetric] using True
      by (simp add: split_beta)
    then show ?thesis using Suc.IH [OF Suc.prems(1)] inv e by simp
  qed
qed

lemma inv_run_once:
  "cbs_ok room cbs \<Longrightarrow> vinv None (view w) \<Longrightarrow> vinv None (view (hp_iocp_run_once cbs fuel w))"
  unfolding hp_iocp_run_once_def drain_user_def
  by (rule inv_run_items) (simp_all add: inv_fold_msgs)

subsection \<open>The system as steps\<close>

text \<open>
  One step: a call of the client, a turn of the user thread, a message taken or a poll made
  by the poll thread (either variant), a request finished by the kernel, a completion passed
  on by a completion thread, or new answers of the kernel to come.
\<close>

inductive iocp_step :: "(nat \<Rightarrow> nat \<Rightarrow> nat) \<Rightarrow> 'u iocp_cbs \<Rightarrow> 'u iocpw \<Rightarrow> 'u iocpw \<Rightarrow> bool"
  for room :: "nat \<Rightarrow> nat \<Rightarrow> nat" and cbs :: "'u iocp_cbs" where
  s_client: "iocp_api room True w w' \<Longrightarrow> iocp_step room cbs w w'"
| s_run: "iocp_step room cbs w (hp_iocp_run_once cbs fuel w)"
| s_take: "iw_posts w = m # ms \<Longrightarrow> iocp_step room cbs w (poll_take m (w\<lparr>iw_posts := ms\<rparr>))"
| s_select: "iocp_step room cbs w (hp_iocp_select_turn sel w)"
| s_poll: "iocp_step room cbs w (hp_iocp_poll_turn n rv w)"
| s_finish: "iocp_step room cbs w (io_finish q bytes n w)"
| s_thread: "iocp_step room cbs w (snd (hp_iocp_threadfn rc a err w))"
| s_kernel: "iocp_step room cbs w (w\<lparr>iw_wsa := es, iw_bind := bs\<rparr>)"

inductive_cases iocp_stepE: "iocp_step room cbs w w'"

inductive iocp_reach :: "(nat \<Rightarrow> nat \<Rightarrow> nat) \<Rightarrow> 'u iocp_cbs \<Rightarrow> 'u iocpw \<Rightarrow> 'u iocpw \<Rightarrow> bool"
  for room :: "nat \<Rightarrow> nat \<Rightarrow> nat" and cbs :: "'u iocp_cbs" and w0 :: "'u iocpw" where
  r_start: "iocp_reach room cbs w0 w0"
| r_step: "iocp_reach room cbs w0 w \<Longrightarrow> iocp_step room cbs w w' \<Longrightarrow> iocp_reach room cbs w0 w'"

lemma inv_take:
  assumes "iw_posts w = m # ms" and "vinv None (view w)"
  shows "vinv None (view (poll_take m (w\<lparr>iw_posts := ms\<rparr>))) \<and>
    iw_fault (poll_take m (w\<lparr>iw_posts := ms\<rparr>)) = iw_fault w"
proof -
  let ?w = "w\<lparr>iw_posts := ms\<rparr>"
  have P: "pids w = take (iw_nfds w) (map pd_id (iw_pds w))" "pids ?w = pids w" by (simp_all add: pids_def take_map)
  from assms obtain ids' where ids': "replay1 (iw_maxfd w) m (pids w) = Some ids'"
    and rp: "replay (iw_maxfd w) ms ids' = Some (map it_id (iw_items w))"
    by (auto simp: vinv_def view_def P(1) split: option.splits)
  have t: "pids (poll_take m ?w) = ids' \<and> sorted_wrt (<) ids' \<and> length (iw_pds (poll_take m ?w)) = iw_maxfd ?w \<and>
    iw_nfds (poll_take m ?w) \<le> iw_maxfd ?w \<and> iw_fault (poll_take m ?w) = iw_fault ?w \<and>
    iw_items (poll_take m ?w) = iw_items ?w \<and> iw_ioid (poll_take m ?w) = iw_ioid ?w \<and>
    iw_maxfd (poll_take m ?w) = iw_maxfd ?w \<and> iw_posts (poll_take m ?w) = iw_posts ?w"
    by (rule poll_take_replay1) (use assms ids' P in \<open>simp_all add: vinv_def view_def\<close>)
  from t assms(2) rp show ?thesis
    by (simp add: vinv_def view_def pids_def take_map)
qed

lemma inv_step: "iocp_step room cbs w w' \<Longrightarrow> cbs_ok room cbs \<Longrightarrow> vinv None (view w) \<Longrightarrow> vinv None (view w')"
proof (induction rule: iocp_step.induct)
  case (s_client w w')
  show ?case by (rule keeps_inv [OF keeps_api [OF s_client(1)]]) (use s_client in simp_all)
qed (simp_all add: inv_run_once inv_take)

subsection \<open>The two tables agree\<close>

lemma inv_init:
  assumes "hp_iocp_init ncpu maxfd nthreads wmuser st user = (0, Some (cf, w0))"
  shows "vinv None (view w0) \<and> iw_fault w0 = None"
  using assms by (auto simp: hp_iocp_init_def Let_def vinv_def view_def split: if_splits)

lemma inv_reach:
  "iocp_reach room cbs w0 w \<Longrightarrow> cbs_ok room cbs \<Longrightarrow> vinv None (view w0) \<Longrightarrow> vinv None (view w)"
  by (induction rule: iocp_reach.induct) (auto intro: inv_step)

lemma inv_drain:
  assumes "vinv None (view w)"
  shows "vinv None (view (fold poll_take (iw_posts w) (w\<lparr>iw_posts := []\<rparr>))) \<and>
    iw_fault (fold poll_take (iw_posts w) (w\<lparr>iw_posts := []\<rparr>)) = iw_fault w \<and>
    iw_posts (fold poll_take (iw_posts w) (w\<lparr>iw_posts := []\<rparr>)) = [] \<and>
    iw_items (fold poll_take (iw_posts w) (w\<lparr>iw_posts := []\<rparr>)) = iw_items w"
proof -
  have posts: "poll_take m (v\<lparr>iw_posts := ps\<rparr>) = (poll_take m v)\<lparr>iw_posts := ps\<rparr>"
    "iw_items (poll_take m v) = iw_items v" "iw_posts (poll_take m v) = iw_posts v" for m ps and v :: "'u iocpw"
    by (cases m; simp add: poll_take_def upd_pd_def iw_fail_def Let_def split: option.split)+
  have "\<And>w. iw_posts w = ms \<Longrightarrow> vinv None (view w) \<Longrightarrow>
      vinv None (view (fold poll_take ms (w\<lparr>iw_posts := []\<rparr>))) \<and>
      iw_fault (fold poll_take ms (w\<lparr>iw_posts := []\<rparr>)) = iw_fault w \<and>
      iw_posts (fold poll_take ms (w\<lparr>iw_posts := []\<rparr>)) = [] \<and>
      iw_items (fold poll_take ms (w\<lparr>iw_posts := []\<rparr>)) = iw_items w" for ms
  proof (induction ms)
    case Nil
    then show ?case by (metis fold_simps(1) iocpw.surjective iocpw.update_convs(9) old.unit.exhaust)
  next
    case (Cons m ms)
    let ?w1 = "poll_take m (w\<lparr>iw_posts := ms\<rparr>)"
    have i: "vinv None (view ?w1) \<and> iw_fault ?w1 = iw_fault w" by (rule inv_take [OF Cons.prems])
    have p: "iw_posts ?w1 = ms" by (simp add: posts)
    have e: "?w1\<lparr>iw_posts := []\<rparr> = poll_take m (w\<lparr>iw_posts := []\<rparr>)" by (simp add: posts(1))
    from Cons.IH [OF p conjunct1 [OF i]] i show ?case unfolding e by (simp add: posts)
  qed
  from this [OF refl assms] show ?thesis .
qed

lemma inv_posts_empty: "vinv None (view w) \<Longrightarrow> iw_posts w = [] \<Longrightarrow> pids w = ids_of w"
  by (simp add: vinv_def view_def pids_def ids_of_def take_map)

text \<open>
  C4: Every connection is found by its id, and the two threads stay in step. From
  initialisation on, whatever the threads, the kernel and the client (without listening
  sockets, and without writing from an error callback) do and in whatever order, the binary
  search finds exactly the connection with the id, neither table outgrows its array, the
  poll thread takes every message without failing an assertion or writing behind its table,
  and when it has taken all of them it watches exactly the connections of the user thread.
\<close>

theorem hp_iocp_threads_agree:
  assumes "hp_iocp_init ncpu maxfd nthreads wmuser st user = (0, Some (cf, w0))"
    and "cbs_ok room cbs" and "iocp_reach room cbs w0 w"
  shows "(hp_iocp_item_find kid (iw_items w) = Some i \<longleftrightarrow> i < length (iw_items w) \<and> it_id (iw_items w ! i) = kid) \<and>
    length (iw_items w) \<le> iw_maxfd w \<and> iw_nfds w \<le> iw_maxfd w \<and>
    iw_fault (fold poll_take (iw_posts w) (w\<lparr>iw_posts := []\<rparr>)) = iw_fault w \<and>
    pids (fold poll_take (iw_posts w) (w\<lparr>iw_posts := []\<rparr>)) = map it_id (iw_items w)"
proof -
  have inv: "vinv None (view w)"
    using inv_reach [OF assms(3,2)] inv_init [OF assms(1)] by blast
  note d = inv_drain [OF inv]
  have "length (iw_items w) \<le> iw_maxfd w" "iw_nfds w \<le> iw_maxfd w" using inv by (simp_all add: vinv_def view_def)
  with d inv_posts_empty [OF conjunct1 [OF d]] hp_iocp_item_find_iff [OF vinv_sorted [OF inv]]
  show ?thesis by (simp add: ids_of_def)
qed

definition no_cbs :: "unit iocp_cbs" where
  "no_cbs = \<lparr>ic_accept = (\<lambda>f a w. w), ic_data = (\<lambda>f a b w. (0, [], w)), ic_error = (\<lambda>f a e w. w), ic_loop = (\<lambda>f a w. (0, w))\<rparr>"

definition iocp_w0 :: "unit iocpw" where
  "iocp_w0 = snd (the (snd (hp_iocp_init 4 2 1 0 10 ())))"

definition iocp_w1 :: "unit iocpw" where
  "iocp_w1 = snd (hp_iocp_add (\<lambda>n k. n + k) 0 7 NULL 9 9 NULL 5 iocp_w0)"

lemma no_cbs_ok: "cbs_ok room no_cbs"
  by (simp add: cbs_ok_def no_cbs_def iocp_api.intros)

theorem hp_iocp_threads_agree_witness:
  "hp_iocp_item_find 0 (iw_items iocp_w1) = Some 0 \<and>
   pids (fold poll_take (iw_posts iocp_w1) (iocp_w1\<lparr>iw_posts := []\<rparr>)) = [0]"
proof -
  have i: "hp_iocp_init 4 2 1 0 10 () =
      (0, Some (fst (the (snd (hp_iocp_init 4 2 1 0 10 ()))), iocp_w0))"
    by (simp add: hp_iocp_init_def Let_def iocp_w0_def)
  have "iocp_reach (\<lambda>n k. n + k) no_cbs iocp_w0 iocp_w1"
    unfolding iocp_w1_def
    by (rule r_step [OF r_start], rule s_client, rule api_add [OF api_refl])
      (simp add: iocp_w0_def hp_iocp_init_def Let_def)
  note t = hp_iocp_threads_agree [OF i no_cbs_ok this, of 0 0]
  have "map it_id (iw_items iocp_w1) = [0]"
    by (simp add: iocp_w1_def iocp_w0_def hp_iocp_init_def hp_iocp_add_def find_by_fd_def Let_def
        hp_iocp_do_socket_def post_poll_def)
  with t show ?thesis by auto
qed

subsection \<open>Three ways out of the protocol\<close>

text \<open>
  A write that finishes in part loses its request: the handler puts the request back on
  the connection's queue with the rest of its bytes and asks for the next writable moment,
  and then frees it as it frees every finished request. The queue holds a dangling pointer,
  the client's buffer is gone before it is sent, and the next writable moment reads freed
  memory.
\<close>

lemma hp_iocp_partial_write_use_after_free:
  assumes "iw_ols w a = Some ol" and "\<not> ol_read ol" and "0 < ol_high ol" and "ol_high ol < length (ol_bytes ol)"
    and "hp_iocp_item_find (ol_id ol) (iw_items w) = Some i" and "it_obuf_live (iw_items w ! i)"
    and "ol_free ol \<noteq> NoFree" and "iw_fault w = None"
  shows "let w' = hp_iocp_handle_msg cbs fuel (WM_IO a err) w in
    it_obuf (iw_items w' ! i) = it_obuf (iw_items w ! i) @ [a] \<and> iw_ols w' a = None \<and>
    iw_freed w' = iw_freed w @ [(ol_free ol, ol_ptr ol)] \<and>
    (it_obuf (iw_items w ! i) = [] \<longrightarrow> iw_fault (snd (hp_iocp_do_write i w')) = Some F_memory)"
proof -
  have i: "i < length (iw_items w)" by (rule item_find_less [OF assms(5)])
  show ?thesis
    using assms i
    by (auto simp: hp_iocp_handle_msg_def handle_io_def write_done_def Let_def hp_iocp_ol_del_def upd_item_def
        post_poll_def hp_iocp_do_write_def iw_fail_def)
qed

definition iocp_w2 :: "unit iocpw" where
  "iocp_w2 = io_finish 0 [] 2 (snd (hp_iocp_do_write 0 (snd (hp_iocp_write 0 33 [1, 2, 3] LibcFree NULL iocp_w1))))"

lemma iocp_w1_items:
  "iw_items iocp_w1 = [\<lparr>it_id = 0, it_fd = 7, it_obuf = [], it_obuf_live = True, it_ibuf = [], it_icap = 4096,
     it_ibytes = 0, it_obytes = 0, it_on_accept = NULL, it_on_data = 9, it_on_error = 9, it_on_loop = NULL,
     it_err = 0, it_arg = 5\<rparr>]"
  by (simp add: iocp_w1_def iocp_w0_def hp_iocp_init_def hp_iocp_add_def find_by_fd_def Let_def
        hp_iocp_do_socket_def post_poll_def)

lemma iocp_w1_rest:
  "iw_ols iocp_w1 = Map.empty \<and> iw_nxt iocp_w1 = 1 \<and> iw_wsa iocp_w1 = [] \<and> iw_inflight iocp_w1 = [] \<and>
   iw_fault iocp_w1 = None \<and> iw_freed iocp_w1 = []"
  by (simp add: iocp_w1_def iocp_w0_def hp_iocp_init_def hp_iocp_add_def find_by_fd_def Let_def
        hp_iocp_do_socket_def post_poll_def)

lemma find_single: "it_id x = kid \<Longrightarrow> hp_iocp_item_find kid [x] = Some 0"
  using hp_iocp_item_find_iff [of "[x]" kid 0] by simp

lemma iocp_w2_facts:
  "iw_items iocp_w2 = (iw_items iocp_w1)[0 := (iw_items iocp_w1 ! 0)\<lparr>it_err := 0\<rparr>] \<and>
   iw_ols iocp_w2 (Suc 0) = Some \<lparr>ol_id = 0, ol_ptr = 33, ol_free = LibcFree, ol_bytes = [1, 2, 3], ol_high = 2, ol_lastr = 0\<rparr> \<and>
   iw_fault iocp_w2 = None \<and> iw_freed iocp_w2 = []"
  unfolding iocp_w2_def
  by (simp add: iocp_w1_items iocp_w1_rest hp_iocp_write_def Let_def find_single hp_iocp_item_is_removed_def
      hp_iocp_ol_newo_def post_poll_def upd_item_def hp_iocp_do_write_def wsa_call_def io_finish_def ol_read_def)

lemma hp_iocp_partial_write_use_after_free_witness:
  "iw_fault (snd (hp_iocp_do_write 0 (hp_iocp_handle_msg no_cbs 1 (WM_IO 1 0) iocp_w2))) = Some F_memory"
proof -
  have "hp_iocp_item_find 0 (iw_items iocp_w2) = Some 0"
    by (simp add: iocp_w2_facts iocp_w1_items find_single)
  then show ?thesis
    using hp_iocp_partial_write_use_after_free [of iocp_w2 1
      "\<lparr>ol_id = 0, ol_ptr = 33, ol_free = LibcFree, ol_bytes = [1, 2, 3], ol_high = 2, ol_lastr = 0\<rparr>" 0 no_cbs 1 0]
    by (simp add: iocp_w2_facts iocp_w1_items ol_read_def Let_def find_single)
qed

text \<open>
  What a client leaves of a read is copied without a look at the room. A read comes in
  while nothing is buffered: the client is offered the bytes in place, and what it leaves is
  copied to the connection's buffer. The copy is in bounds exactly when the rest fits the
  buffer's capacity, which nothing in the code ensures: the size of a read grows with what
  the peer sends, the buffer does not.
\<close>

lemma hp_iocp_read_rest_overflow:
  assumes "it_ibuf (iw_items w ! i) = []" and "i < length (iw_items w)" and "iw_fault w1 = None"
    and "call_on_data cbs (it_on_data (iw_items w ! i)) (it_arg (iw_items w ! i)) bytes
      (set_lastr l (int (length bytes)) (upd_item i (\<lambda>x. x\<lparr>it_ibytes := it_ibytes x + length bytes\<rparr>) w)) = (rc, rest, w1)"
    and "0 \<le> rc"
  shows "iw_fault (snd (read_done cbs fuel i l bytes w)) =
    (if length rest \<le> it_icap (iw_items w1 ! i) then None else Some F_memory)"
proof -
  define w0 where "w0 = set_lastr l (int (length bytes)) (upd_item i (\<lambda>x. x\<lparr>it_ibytes := it_ibytes x + length bytes\<rparr>) w)"
  have a: "iw_items w0 ! i = (iw_items w ! i)\<lparr>it_ibytes := it_ibytes (iw_items w ! i) + length bytes\<rparr>"
    using assms(2) by (simp add: w0_def set_lastr_def upd_item_def)
  show ?thesis
    using assms(1,3,5) assms(4) [folded w0_def]
    unfolding read_done_def Let_def w0_def [symmetric]
    by (auto simp: a iw_fail_def upd_item_def)
qed

definition lazy_cbs :: "unit iocp_cbs" where
  "lazy_cbs = no_cbs\<lparr>ic_data := (\<lambda>f a b w. (0, b, w))\<rparr>"

lemma hp_iocp_read_rest_overflow_witness:
  "iw_fault (snd (read_done lazy_cbs 1 0 0 (replicate 5000 7) iocp_w1)) = Some F_memory"
proof -
  let ?w0 = "set_lastr 0 (int (length (replicate 5000 (7 :: byte))))
    (upd_item 0 (\<lambda>x. x\<lparr>it_ibytes := it_ibytes x + length (replicate 5000 (7 :: byte))\<rparr>) iocp_w1)"
  have "iw_fault ?w0 = None" "it_icap (iw_items ?w0 ! 0) = 4096"
    by (simp_all add: set_lastr_def upd_item_def iocp_w1_items iocp_w1_rest)
  moreover have "call_on_data lazy_cbs 9 5 (replicate 5000 7) ?w0 = (0, replicate 5000 7, ?w0)"
    by (simp add: call_on_data_def lazy_cbs_def)
  ultimately show ?thesis
    using hp_iocp_read_rest_overflow [of iocp_w1 0 ?w0 lazy_cbs "replicate 5000 7" 0 0 "replicate 5000 7" 1]
    by (simp add: iocp_w1_items)
qed

lemma poll_drain_snoc:
  fixes w v :: "'u iocpw"
  assumes "vinv None (view w)" and "kid \<notin> set (ids_of w)" and "iw_fault w = None" and "iw_ioid w \<noteq> -1"
    and v: "iw_posts v = iw_posts w @ [WM_RM kid fl]" "iw_pds v = iw_pds w" "iw_nfds v = iw_nfds w"
      "iw_maxfd v = iw_maxfd w" "iw_fault v = None" "iw_ioid v \<noteq> -1"
  shows "iw_fault (poll_drain v) = Some F_assert"
proof -
  text \<open>The thread's messages only touch its table, so it does not matter that \<open>v\<close> is not \<open>w\<close>.\<close>
  have sim: "iw_pds (fold poll_take ms a) = iw_pds (fold poll_take ms b) \<and>
      iw_nfds (fold poll_take ms a) = iw_nfds (fold poll_take ms b) \<and>
      iw_fault (fold poll_take ms a) = iw_fault (fold poll_take ms b)"
    if "iw_pds a = iw_pds b" "iw_nfds a = iw_nfds b" "iw_maxfd a = iw_maxfd b" "iw_fault a = iw_fault b" for ms and a b :: "'u iocpw"
    using that
  proof (induction ms arbitrary: a b)
    case (Cons m ms)
    have "iw_pds (poll_take m a) = iw_pds (poll_take m b) \<and> iw_nfds (poll_take m a) = iw_nfds (poll_take m b) \<and>
        iw_maxfd (poll_take m a) = iw_maxfd (poll_take m b) \<and> iw_fault (poll_take m a) = iw_fault (poll_take m b)"
      using Cons.prems
      by (cases m) (simp_all add: poll_take_def upd_pd_def iw_fail_def Let_def split: option.split)
    then show ?case using Cons.IH [of "poll_take m a" "poll_take m b"] by simp
  qed simp
  let ?x = "fold poll_take (iw_posts w) (w\<lparr>iw_posts := []\<rparr>)" and ?y = "fold poll_take (iw_posts w) (v\<lparr>iw_posts := []\<rparr>)"
  note d = inv_drain [OF assms(1)]
  have s: "iw_pds ?y = iw_pds ?x \<and> iw_nfds ?y = iw_nfds ?x \<and> iw_fault ?y = iw_fault ?x"
    by (rule sim) (use v assms(3) in simp_all)
  have p: "pids ?x = ids_of w" using inv_posts_empty [OF conjunct1 [OF d]] d by (simp add: ids_of_def)
  have xv: "vinv None (view ?x)" using d by blast
  have n: "c_bsearch (hp_iocp_polld_find_by_id2 kid) (iw_pds ?x) 0 (iw_nfds ?x) = None"
  proof (rule ccontr)
    assume "\<not> ?thesis"
    then obtain i where "c_bsearch (cmp_key pd_id kid) (iw_pds ?x) 0 (iw_nfds ?x) = Some i" unfolding cmp_fns by auto
    from c_bsearch_Some [OF this] have i: "i < iw_nfds ?x" "pd_id (iw_pds ?x ! i) = kid" by auto
    moreover have "iw_nfds ?x \<le> length (iw_pds ?x)" using xv by (simp add: vinv_def view_def)
    ultimately have "kid \<in> set (pids ?x)" using nth_mem [of i "pids ?x"] by (simp add: pids_def)
    with p assms(2) show False by simp
  qed
  have "poll_drain v = poll_take (WM_RM kid fl) ?y" using v by (simp add: poll_drain_def)
  also have "\<dots> = iw_fail F_assert ?y" using n s by (simp add: poll_take_def)
  finally show ?thesis using s d assms(3) by (simp add: iw_fail_def)
qed

text \<open>
  A listening connection cannot be removed: it is added without a message to the poll
  thread, but its removal sends one, and the poll thread, which finds no such connection,
  fails its assertion (or, compiled without assertions, writes through a null pointer).
\<close>

lemma hp_iocp_accept_removal_asserts:
  assumes "iocp_inv w" and "iw_fault w = None" and "iw_ioid w \<noteq> INT_MAX_1"
    and "on_accept \<noteq> NULL" and "find_by_fd fd (iw_items w) = None"
    and "hp_iocp_add room nibuf fd on_accept on_data NULL on_loop arg w = (kid, w1)" and "0 \<le> kid"
  shows "iw_fault w1 = None \<and>
    iw_fault (poll_drain (snd (hp_iocp_item_on_error cbs (length (iw_items w)) w1))) = Some F_assert"
proof -
  have inv: "vinv None (view w)" using assms(1) by (simp add: iocp_inv_def)
  define item where "item = \<lparr>it_id = iw_ioid w, it_fd = fd, it_obuf = [], it_obuf_live = True, it_ibuf = [],
    it_icap = room 0 (if nibuf = 0 then 4096 else nat nibuf), it_ibytes = 0, it_obytes = 0, it_on_accept = on_accept,
    it_on_data = on_data, it_on_error = NULL, it_on_loop = on_loop, it_err = 0, it_arg = arg\<rparr>"
  have w1: "w1 = w\<lparr>iw_bind := tl (iw_bind w), iw_ioid := iw_ioid w + 1, iw_items := iw_items w @ [item]\<rparr>"
  proof -
    have so: "hp_iocp_do_socket item w =
        (if (case iw_bind w of [] \<Rightarrow> True | b # bs \<Rightarrow> b) then 0 else -4, w\<lparr>iw_bind := tl (iw_bind w)\<rparr>)"
      using assms(4) by (simp add: hp_iocp_do_socket_def item_def Let_def)
    have nn: "nibuf \<ge> 0 \<and> fd \<noteq> -1 \<and> length (iw_items w) \<noteq> iw_maxfd w"
    proof (rule ccontr)
      assume "\<not> ?thesis"
      then have "fst (hp_iocp_add room nibuf fd on_accept on_data NULL on_loop arg w) < 0"
        using assms(5) by (auto simp: hp_iocp_add_def Let_def)
      with assms(6,7) show False by simp
    qed
    have "hp_iocp_add room nibuf fd on_accept on_data NULL on_loop arg w =
        (if (case iw_bind w of [] \<Rightarrow> True | b # bs \<Rightarrow> b)
         then (iw_ioid w, w\<lparr>iw_bind := tl (iw_bind w), iw_ioid := iw_ioid w + 1, iw_items := iw_items w @ [item]\<rparr>)
         else (-3, w\<lparr>iw_bind := tl (iw_bind w)\<rparr>))"
      using nn assms(3-5) so by (simp add: hp_iocp_add_def item_def [symmetric]) (simp add: item_def)
    with assms(6,7) show ?thesis by (auto split: if_splits)
  qed
  have k: "iw_ioid w \<notin> set (ids_of w)" "0 \<le> iw_ioid w" using inv by (auto simp: vinv_def view_def ids_of_def)
  let ?v = "snd (hp_iocp_item_on_error cbs (length (iw_items w)) w1)"
  have "iw_posts ?v = iw_posts w @ [WM_RM (iw_ioid w) 0] \<and> iw_pds ?v = iw_pds w \<and> iw_nfds ?v = iw_nfds w \<and>
      iw_maxfd ?v = iw_maxfd w \<and> iw_fault ?v = iw_fault w \<and> iw_ioid ?v = iw_ioid w + 1"
    by (simp add: w1 hp_iocp_item_on_error_def Let_def upd_item_def post_poll_def call_error_def item_def)
  then have "iw_fault (poll_drain ?v) = Some F_assert"
    using poll_drain_snoc [OF inv k(1) assms(2), of ?v 0] k(2) assms(2) by simp
  then show ?thesis using w1 assms(2) by simp
qed

lemma hp_iocp_accept_removal_asserts_witness:
  "iw_fault (poll_drain (snd (hp_iocp_item_on_error no_cbs 0
      (snd (hp_iocp_add (\<lambda>n k. n + k) 0 7 8 9 NULL NULL 5 iocp_w0))))) = Some F_assert"
proof -
  have w0: "iw_items iocp_w0 = []" "iw_ioid iocp_w0 = 0" "iw_maxfd iocp_w0 = 2" "iw_bind iocp_w0 = []"
    by (simp_all add: iocp_w0_def hp_iocp_init_def Let_def)
  have i: "iocp_inv iocp_w0 \<and> iw_fault iocp_w0 = None"
    unfolding iocp_inv_def
    by (rule inv_init [of 4 2 1 0 10 "()" "fst (the (snd (hp_iocp_init 4 2 1 0 10 ())))"])
      (simp add: hp_iocp_init_def Let_def iocp_w0_def)
  let ?r = "hp_iocp_add (\<lambda>n k. n + k) 0 7 8 9 NULL NULL 5 iocp_w0"
  have "fst ?r = 0" by (simp add: hp_iocp_add_def find_by_fd_def w0 hp_iocp_do_socket_def Let_def)
  then have "?r = (0, snd ?r)" by (metis prod.collapse)
  then show ?thesis
    using hp_iocp_accept_removal_asserts [of iocp_w0 8 7 "\<lambda>n k. n + k" 0 9 NULL 5 0 "snd ?r" no_cbs] i
    by (simp add: w0 find_by_fd_def)
qed

end
