(* ===== verification/Klist.thy ===== *)
theory Klist
  imports Prelude
begin

section \<open>klist: intrusive doubly linked lists\<close>

text \<open>
  Models \<open>include/hp/klist.h\<close>. The heap holds the two links of every \<open>struct list_head\<close>.
  A list is a ring through its head node; \<open>klist_ok h head xs\<close> says that the ring of
  \<open>head\<close> passes exactly the nodes \<open>xs\<close> in this order. Every operation is the sequence of
  assignments of the source.
\<close>

subsection \<open>Links and operations\<close>

record lheap =
  lnext :: "ptr \<Rightarrow> ptr"
  lprev :: "ptr \<Rightarrow> ptr"

definition set_next :: "ptr \<Rightarrow> ptr \<Rightarrow> lheap \<Rightarrow> lheap" where
  "set_next a b h = h\<lparr>lnext := (lnext h)(a := b)\<rparr>"

definition set_prev :: "ptr \<Rightarrow> ptr \<Rightarrow> lheap \<Rightarrow> lheap" where
  "set_prev a b h = h\<lparr>lprev := (lprev h)(a := b)\<rparr>"

definition INIT_LIST_HEAD :: "ptr \<Rightarrow> lheap \<Rightarrow> lheap" where
  "INIT_LIST_HEAD p h = set_prev p p (set_next p p h)"

definition list_add_between :: "ptr \<Rightarrow> ptr \<Rightarrow> ptr \<Rightarrow> lheap \<Rightarrow> lheap" where
  "list_add_between n p q h = set_next p n (set_prev n p (set_next n q (set_prev q n h)))"

definition klist_add :: "ptr \<Rightarrow> ptr \<Rightarrow> lheap \<Rightarrow> lheap" where
  "klist_add n head h = list_add_between n head (lnext h head) h"

definition list_add_tail :: "ptr \<Rightarrow> ptr \<Rightarrow> lheap \<Rightarrow> lheap" where
  "list_add_tail n head h = list_add_between n (lprev h head) head h"

definition list_del_between :: "ptr \<Rightarrow> ptr \<Rightarrow> lheap \<Rightarrow> lheap" where
  "list_del_between p q h = set_next p q (set_prev q p h)"

definition list_del :: "ptr \<Rightarrow> lheap \<Rightarrow> lheap" where
  "list_del e h = set_prev e NULL (set_next e NULL (list_del_between (lprev h e) (lnext h e) h))"

definition list_del_init :: "ptr \<Rightarrow> lheap \<Rightarrow> lheap" where
  "list_del_init e h = INIT_LIST_HEAD e (list_del_between (lprev h e) (lnext h e) h)"

definition list_move :: "ptr \<Rightarrow> ptr \<Rightarrow> lheap \<Rightarrow> lheap" where
  "list_move e head h = klist_add e head (list_del_between (lprev h e) (lnext h e) h)"

definition list_move_tail :: "ptr \<Rightarrow> ptr \<Rightarrow> lheap \<Rightarrow> lheap" where
  "list_move_tail e head h = list_add_tail e head (list_del_between (lprev h e) (lnext h e) h)"

definition list_empty :: "ptr \<Rightarrow> lheap \<Rightarrow> bool" where
  "list_empty head h = (lnext h head = head)"

definition list_splice_between :: "ptr \<Rightarrow> ptr \<Rightarrow> lheap \<Rightarrow> lheap" where
  "list_splice_between l head h =
     (let first = lnext h l; last = lprev h l; at = lnext h head
      in set_prev at last (set_next last at (set_next head first (set_prev first head h))))"

definition list_splice :: "ptr \<Rightarrow> ptr \<Rightarrow> lheap \<Rightarrow> lheap" where
  "list_splice l head h = (if \<not> list_empty l h then list_splice_between l head h else h)"

definition list_splice_init :: "ptr \<Rightarrow> ptr \<Rightarrow> lheap \<Rightarrow> lheap" where
  "list_splice_init l head h =
     (if \<not> list_empty l h then INIT_LIST_HEAD l (list_splice_between l head h) else h)"

text \<open>
  The traversals: the nodes visited from \<open>pos\<close> up to the head. \<open>fuel\<close> bounds the number of
  nodes, \<open>None\<close> is a traversal that has not come back to the head by then. The safe one
  runs a body that may remove the node: the successor is read before the body.
\<close>

primrec list_for_each :: "nat \<Rightarrow> ptr \<Rightarrow> ptr \<Rightarrow> lheap \<Rightarrow> ptr list option" where
  "list_for_each 0 pos head h = (if pos = head then Some [] else None)"
| "list_for_each (Suc m) pos head h =
     (if pos = head then Some [] else map_option (Cons pos) (list_for_each m (lnext h pos) head h))"

primrec list_for_each_prev :: "nat \<Rightarrow> ptr \<Rightarrow> ptr \<Rightarrow> lheap \<Rightarrow> ptr list option" where
  "list_for_each_prev 0 pos head h = (if pos = head then Some [] else None)"
| "list_for_each_prev (Suc m) pos head h =
     (if pos = head then Some [] else map_option (Cons pos) (list_for_each_prev m (lprev h pos) head h))"

primrec list_for_each_safe :: "(ptr \<Rightarrow> lheap \<Rightarrow> lheap) \<Rightarrow> nat \<Rightarrow> ptr \<Rightarrow> ptr \<Rightarrow> ptr \<Rightarrow> lheap \<Rightarrow> (ptr list \<times> lheap) option" where
  "list_for_each_safe body 0 pos n head h = (if pos = head then Some ([], h) else None)"
| "list_for_each_safe body (Suc m) pos n head h =
     (if pos = head then Some ([], h)
      else let h = body pos h
           in map_option (\<lambda>(ps, h). (pos # ps, h)) (list_for_each_safe body m n (lnext h n) head h))"

subsection \<open>Rings\<close>

fun linked :: "lheap \<Rightarrow> ptr list \<Rightarrow> bool" where
  "linked h (a # b # xs) \<longleftrightarrow> lnext h a = b \<and> lprev h b = a \<and> linked h (b # xs)"
| "linked h _ \<longleftrightarrow> True"

definition klist_ok :: "ptr \<Rightarrow> lheap \<Rightarrow> ptr list \<Rightarrow> bool" where
  "klist_ok head h xs \<longleftrightarrow> distinct (head # xs) \<and> linked h (head # xs @ [head])"

lemma heap_simps [simp]:
  "lnext (set_next a b h) = (lnext h)(a := b)" "lprev (set_next a b h) = lprev h"
  "lprev (set_prev a b h) = (lprev h)(a := b)" "lnext (set_prev a b h) = lnext h"
  by (simp_all add: set_next_def set_prev_def)

lemma linked_Cons:
  "linked h (a # xs) \<longleftrightarrow> (xs \<noteq> [] \<longrightarrow> lnext h a = hd xs \<and> lprev h (hd xs) = a) \<and> linked h xs"
  by (cases xs) auto

lemma in_set_tlD: "a \<in> set (tl xs) \<Longrightarrow> a \<in> set xs"
  by (cases xs) auto

lemma linked_append:
  "linked h (xs @ ys) \<longleftrightarrow> linked h xs \<and> linked h ys \<and>
     (xs \<noteq> [] \<and> ys \<noteq> [] \<longrightarrow> lnext h (last xs) = hd ys \<and> lprev h (hd ys) = last xs)"
proof (induction xs)
  case (Cons a xs)
  then show ?case by (cases "xs = []") (auto simp: linked_Cons)
qed simp

text \<open>The chain depends only on the links that lie on it.\<close>

lemma linked_frame:
  "(\<And>a. a \<in> set (butlast xs) \<Longrightarrow> lnext h' a = lnext h a) \<Longrightarrow> (\<And>a. a \<in> set (tl xs) \<Longrightarrow> lprev h' a = lprev h a) \<Longrightarrow>
   linked h' xs = linked h xs"
proof (induction xs)
  case (Cons a xs)
  show ?case
  proof (cases xs)
    case (Cons b ys)
    have "linked h' xs = linked h xs"
      by (rule Cons.IH) (use Cons.prems Cons in \<open>auto simp: in_set_tlD\<close>)
    with Cons Cons.prems show ?thesis by simp
  qed simp
qed simp

lemma last_ring: "last (head # xs) \<in> insert head (set xs)"
  by auto

lemma hd_ring: "hd (xs @ [head]) \<in> insert head (set xs)"
  by (cases xs) auto

lemma ring_split: "head # (ys @ zs) @ [head] = (head # ys) @ (zs @ [head])"
  by simp

lemma klist_ok_ends:
  assumes "klist_ok head h (ys @ zs)"
  shows "lnext h (last (head # ys)) = hd (zs @ [head]) \<and> lprev h (hd (zs @ [head])) = last (head # ys)"
  using assms unfolding klist_ok_def ring_split linked_append by blast

lemma butlast_notin_last: "distinct xs \<Longrightarrow> a \<in> set (butlast xs) \<Longrightarrow> a \<noteq> last xs"
  by (cases xs rule: rev_cases) auto

lemma tl_notin_hd: "distinct xs \<Longrightarrow> a \<in> set (tl xs) \<Longrightarrow> a \<noteq> hd xs"
  by (cases xs) auto

lemma distinct_rot: "distinct (head # xs) \<Longrightarrow> distinct (xs @ [head])"
  by auto

text \<open>Linking a node in and out between two neighbours of a ring.\<close>

lemma list_add_between_ok:
  assumes ok: "klist_ok head h (ys @ zs)" and n: "n \<notin> set (head # ys @ zs)"
  shows "klist_ok head (list_add_between n (last (head # ys)) (hd (zs @ [head])) h) (ys @ n # zs)"
proof -
  let ?p = "last (head # ys)" and ?q = "hd (zs @ [head])"
  let ?h = "list_add_between n ?p ?q h"
  have d: "distinct (head # ys @ zs)" using ok by (simp add: klist_ok_def)
  have pq: "?p \<noteq> n" "?q \<noteq> n" using n last_ring [of head ys] hd_ring [of zs head] by (auto simp del: last.simps)
  have links: "lnext ?h = (lnext h)(n := ?q, ?p := n)" "lprev ?h = (lprev h)(?q := n, n := ?p)"
    by (simp_all add: list_add_between_def del: last.simps)
  have 1: "linked h (head # ys)" "linked h (zs @ [head])"
    using ok unfolding klist_ok_def ring_split linked_append by auto
  have A: "linked ?h (head # ys)"
  proof (subst linked_frame [of _ ?h h])
    fix a assume a: "a \<in> set (butlast (head # ys))"
    then have "a \<noteq> ?p" using d butlast_notin_last [of "head # ys" a] by auto
    moreover have "a \<noteq> n" using in_set_butlastD [OF a] n by auto
    ultimately show "lnext ?h a = lnext h a" unfolding links by simp
  next
    fix a assume a: "a \<in> set (tl (head # ys))"
    then have "a \<noteq> ?q" using d hd_ring [of zs head] by auto
    moreover have "a \<noteq> n" using a n by auto
    ultimately show "lprev ?h a = lprev h a" unfolding links by simp
  qed (rule 1)
  have B: "linked ?h (zs @ [head])"
  proof (subst linked_frame [of _ ?h h])
    fix a assume a: "a \<in> set (butlast (zs @ [head]))"
    then have "a \<noteq> ?p" using d last_ring [of head ys] by (auto simp del: last.simps)
    moreover have "a \<noteq> n" using a n by auto
    ultimately show "lnext ?h a = lnext h a" unfolding links by simp
  next
    fix a assume a: "a \<in> set (tl (zs @ [head]))"
    then have "a \<noteq> ?q" using d tl_notin_hd [of "zs @ [head]" a] by auto
    moreover have "a \<noteq> n" using in_set_tlD [OF a] n by auto
    ultimately show "lprev ?h a = lprev h a" unfolding links by simp
  qed (rule 1)
  have "linked ?h ((head # ys) @ n # (zs @ [head]))"
    unfolding linked_append [of ?h "head # ys"] linked_Cons [of ?h n] using A B pq links
    by (simp del: last.simps)
  with d n show ?thesis by (simp add: klist_ok_def)
qed

lemma list_del_between_ok:
  assumes ok: "klist_ok head h (ys @ n # zs)"
  shows "klist_ok head (list_del_between (last (head # ys)) (hd (zs @ [head])) h) (ys @ zs)"
proof -
  let ?p = "last (head # ys)" and ?q = "hd (zs @ [head])"
  let ?h = "list_del_between ?p ?q h"
  have d: "distinct (head # ys @ n # zs)" using ok by (simp add: klist_ok_def)
  have links: "lnext ?h = (lnext h)(?p := ?q)" "lprev ?h = (lprev h)(?q := ?p)"
    by (simp_all add: list_del_between_def del: last.simps)
  have "linked h ((head # ys) @ ([n] @ zs @ [head]))" using ok by (simp add: klist_ok_def)
  then have 1: "linked h (head # ys)" "linked h (zs @ [head])" unfolding linked_append by auto
  have A: "linked ?h (head # ys)"
  proof (subst linked_frame [of _ ?h h])
    fix a assume a: "a \<in> set (butlast (head # ys))"
    then have "a \<noteq> ?p" using d butlast_notin_last [of "head # ys" a] by auto
    then show "lnext ?h a = lnext h a" unfolding links by simp
  next
    fix a assume a: "a \<in> set (tl (head # ys))"
    then have "a \<noteq> ?q" using d hd_ring [of zs head] by auto
    then show "lprev ?h a = lprev h a" unfolding links by simp
  qed (rule 1)
  have B: "linked ?h (zs @ [head])"
  proof (subst linked_frame [of _ ?h h])
    fix a assume a: "a \<in> set (butlast (zs @ [head]))"
    then have "a \<noteq> ?p" using d last_ring [of head ys] by (auto simp del: last.simps)
    then show "lnext ?h a = lnext h a" unfolding links by simp
  next
    fix a assume a: "a \<in> set (tl (zs @ [head]))"
    then have "a \<noteq> ?q" using d tl_notin_hd [of "zs @ [head]" a] by auto
    then show "lprev ?h a = lprev h a" unfolding links by simp
  qed (rule 1)
  have "linked ?h ((head # ys) @ (zs @ [head]))"
    unfolding linked_append [of ?h "head # ys"] using A B links by (simp del: last.simps)
  with d show ?thesis by (simp add: klist_ok_def)
qed

subsection \<open>Every operation on the list it represents\<close>

lemma klist_ok_frame:
  assumes "klist_ok head h xs" and "\<And>a. a \<in> set (head # xs) \<Longrightarrow> lnext h' a = lnext h a \<and> lprev h' a = lprev h a"
  shows "klist_ok head h' xs"
proof -
  have "linked h' (head # xs @ [head]) = linked h (head # xs @ [head])"
  proof (rule linked_frame)
    fix a assume "a \<in> set (butlast (head # xs @ [head]))"
    then have "a \<in> set (head # xs)" using in_set_butlastD by fastforce
    with assms(2) show "lnext h' a = lnext h a" by blast
  next
    fix a assume "a \<in> set (tl (head # xs @ [head]))"
    with assms(2) [of a] show "lprev h' a = lprev h a" by auto
  qed
  with assms(1) show ?thesis by (simp add: klist_ok_def)
qed

lemma klist_ok_head:
  assumes "klist_ok head h xs"
  shows "lprev h head = last (head # xs)" and "lnext h head = hd (xs @ [head])"
  using klist_ok_ends [of head h xs "[]"] klist_ok_ends [of head h "[]" xs] assms by (simp_all del: last.simps) simp

lemma klist_ok_node:
  assumes "klist_ok head h (ys @ e # zs)"
  shows "lprev h e = last (head # ys)" and "lnext h e = hd (zs @ [head])"
  using klist_ok_ends [of head h ys "e # zs"] klist_ok_ends [of head h "ys @ [e]" zs] assms
  by (simp_all del: last.simps) simp

lemma list_add_tail_ok [hp_inv]:
  "klist_ok head h xs \<Longrightarrow> n \<notin> set (head # xs) \<Longrightarrow> klist_ok head (list_add_tail n head h) (xs @ [n])"
  using list_add_between_ok [of head h xs "[]" n] by (simp add: list_add_tail_def klist_ok_head del: last.simps)

lemma klist_add_ok [hp_inv]:
  "klist_ok head h xs \<Longrightarrow> n \<notin> set (head # xs) \<Longrightarrow> klist_ok head (klist_add n head h) (n # xs)"
  using list_add_between_ok [of head h "[]" xs n] by (simp add: klist_add_def klist_ok_head)

lemma klist_ok_distinct: "klist_ok head h xs \<Longrightarrow> distinct (head # xs)"
  by (simp add: klist_ok_def)

lemma list_del_ok [hp_inv]:
  assumes "klist_ok head h (ys @ e # zs)"
  shows "klist_ok head (list_del e h) (ys @ zs)"
proof (rule klist_ok_frame [OF list_del_between_ok [OF assms]])
  fix a assume "a \<in> set (head # ys @ zs)"
  then have "a \<noteq> e" using klist_ok_distinct [OF assms] by auto
  then show "lnext (list_del e h) a = lnext (list_del_between (last (head # ys)) (hd (zs @ [head])) h) a \<and>
    lprev (list_del e h) a = lprev (list_del_between (last (head # ys)) (hd (zs @ [head])) h) a"
    by (simp add: list_del_def klist_ok_node [OF assms] del: last.simps)
qed

lemma list_del_init_ok [hp_inv]:
  assumes "klist_ok head h (ys @ e # zs)"
  shows "klist_ok head (list_del_init e h) (ys @ zs)" and "klist_ok e (list_del_init e h) []"
proof -
  show "klist_ok head (list_del_init e h) (ys @ zs)"
  proof (rule klist_ok_frame [OF list_del_between_ok [OF assms]])
    fix a assume "a \<in> set (head # ys @ zs)"
    then have "a \<noteq> e" using klist_ok_distinct [OF assms] by auto
    then show "lnext (list_del_init e h) a = lnext (list_del_between (last (head # ys)) (hd (zs @ [head])) h) a \<and>
      lprev (list_del_init e h) a = lprev (list_del_between (last (head # ys)) (hd (zs @ [head])) h) a"
      by (simp add: list_del_init_def INIT_LIST_HEAD_def klist_ok_node [OF assms] del: last.simps)
  qed
  show "klist_ok e (list_del_init e h) []"
    by (simp add: klist_ok_def list_del_init_def INIT_LIST_HEAD_def)
qed

lemma list_move_ok [hp_inv]:
  assumes "klist_ok head h (ys @ e # zs)"
  shows "klist_ok head (list_move e head h) (e # ys @ zs)" and "klist_ok head (list_move_tail e head h) ((ys @ zs) @ [e])"
proof -
  have "e \<notin> set (head # ys @ zs)" using klist_ok_distinct [OF assms] by auto
  with klist_add_ok [OF list_del_between_ok [OF assms]] list_add_tail_ok [OF list_del_between_ok [OF assms]]
  show "klist_ok head (list_move e head h) (e # ys @ zs)" "klist_ok head (list_move_tail e head h) ((ys @ zs) @ [e])"
    by (simp_all add: list_move_def list_move_tail_def klist_ok_node [OF assms] del: last.simps)
qed

lemma list_empty_ok: "klist_ok head h xs \<Longrightarrow> list_empty head h \<longleftrightarrow> xs = []"
  by (cases xs) (auto simp: list_empty_def klist_ok_def)

lemma INIT_LIST_HEAD_ok: "klist_ok p (INIT_LIST_HEAD p h) []"
  by (simp add: klist_ok_def INIT_LIST_HEAD_def)

text \<open>A traversal visits the nodes in order and comes back to the head.\<close>

lemma list_for_each_head [simp]: "list_for_each m head head h = Some []"
  by (cases m) simp_all

lemma list_for_each_linked:
  "linked h (p # xs @ [head]) \<Longrightarrow> head \<notin> set (p # xs) \<Longrightarrow> length xs < m \<Longrightarrow> list_for_each m p head h = Some (p # xs)"
proof (induction xs arbitrary: p m)
  case Nil
  then show ?case by (cases m) auto
next
  case (Cons x xs)
  then obtain k where "m = Suc k" "length xs < k" by (cases m) auto
  with Cons show ?case by auto
qed

lemma list_for_each_ok:
  assumes "klist_ok head h xs" and "length xs \<le> m"
  shows "list_for_each m (lnext h head) head h = Some xs"
proof (cases xs)
  case Nil
  with assms klist_ok_head [OF assms(1)] show ?thesis by (cases m) auto
next
  case (Cons x ys)
  with assms have "linked h (x # ys @ [head])" "head \<notin> set (x # ys)" "length ys < m" "lnext h head = x"
    by (auto simp: klist_ok_def)
  with Cons list_for_each_linked [of h x ys head m] show ?thesis by simp
qed

subsection \<open>The contract of an intrusive list\<close>

locale intrusive_list =
  fixes ok :: "ptr \<Rightarrow> 's \<Rightarrow> ptr list \<Rightarrow> bool"
    and add_tail :: "ptr \<Rightarrow> ptr \<Rightarrow> 's \<Rightarrow> 's"
    and del :: "ptr \<Rightarrow> 's \<Rightarrow> 's"
  assumes add_ok: "ok head s xs \<Longrightarrow> n \<notin> set (head # xs) \<Longrightarrow> ok head (add_tail n head s) (xs @ [n])"
    and del_ok: "ok head s (ys @ e # zs) \<Longrightarrow> ok head (del e s) (ys @ zs)"
    and ok_distinct: "ok head s xs \<Longrightarrow> distinct (head # xs)"
begin

lemma add_all:
  "ok head s xs \<Longrightarrow> distinct (head # xs @ ns) \<Longrightarrow> ok head (fold (\<lambda>n. add_tail n head) ns s) (xs @ ns)"
proof (induction ns arbitrary: s xs)
  case (Cons n ns)
  from Cons.prems have "ok head (add_tail n head s) (xs @ [n])" by (intro add_ok) auto
  from Cons.IH [OF this] Cons.prems show ?case by simp
qed simp

lemma drain: "ok head s (xs @ ys) \<Longrightarrow> ok head (fold del xs s) ys"
proof (induction xs arbitrary: s)
  case (Cons x xs)
  from del_ok [of head s "[]" x "xs @ ys"] Cons.prems have "ok head (del x s) (xs @ ys)" by simp
  from Cons.IH [OF this] show ?case by simp
qed simp

lemma del_added: "ok head s xs \<Longrightarrow> n \<notin> set (head # xs) \<Longrightarrow> ok head (del n (add_tail n head s)) xs"
  using del_ok [of head "add_tail n head s" xs n "[]"] add_ok by simp

end

interpretation kl: intrusive_list klist_ok list_add_tail list_del
  by unfold_locales (auto intro: list_add_tail_ok list_del_ok dest: klist_ok_distinct)

text \<open>
  The safe traversal with a removing body: every node is visited once and the list is
  empty afterwards.
\<close>

lemma list_for_each_safe_drain:
  "klist_ok head h xs \<Longrightarrow> length xs \<le> m \<Longrightarrow>
   list_for_each_safe list_del m (lnext h head) (lnext h (lnext h head)) head h = Some (xs, fold list_del xs h)"
proof (induction xs arbitrary: h m)
  case Nil
  with klist_ok_head [OF Nil(1)] show ?case by (cases m) auto
next
  case (Cons x xs)
  obtain k where k: "m = Suc k" "length xs \<le> k" using Cons.prems by (cases m) auto
  have ok: "klist_ok head (list_del x h) xs" using list_del_ok [of head h "[]" x xs] Cons.prems by simp
  have d: "head \<noteq> x" using Cons.prems klist_ok_distinct by fastforce
  have nx: "lnext h head = x" using klist_ok_head(2) [OF Cons.prems(1)] by simp
  have nn: "lnext h x = lnext (list_del x h) head"
    using klist_ok_head(2) [OF ok] klist_ok_node(2) [of head h "[]" x xs] Cons.prems by simp
  from Cons.IH [OF ok k(2)] nx nn d k show ?case by simp
qed

subsection \<open>Splicing\<close>

lemma list_splice_between_ok:
  assumes l: "klist_ok l h ls" and h: "klist_ok head h xs" and ne: "ls \<noteq> []"
    and dis: "set (l # ls) \<inter> set (head # xs) = {}"
  shows "klist_ok head (list_splice_between l head h) (ls @ xs)"
proof -
  let ?at = "hd (xs @ [head])" and ?h = "list_splice_between l head h"
  have e: "lnext h l = hd ls" "lprev h l = last ls" "lnext h head = ?at"
    using klist_ok_head [OF l] klist_ok_head [OF h] ne by auto
  have links: "lnext ?h = (lnext h)(head := hd ls, last ls := ?at)" "lprev ?h = (lprev h)(hd ls := head, ?at := last ls)"
    using e by (simp_all add: list_splice_between_def Let_def)
  have d: "distinct (l # ls)" "distinct (head # xs)" using l h by (simp_all add: klist_ok_def)
  have ends: "hd ls \<in> set ls" "last ls \<in> set ls" "?at \<in> set (head # xs)" using ne hd_ring [of xs head] by auto
  have "linked h ls" using l by (auto simp: klist_ok_def linked_append linked_Cons)
  have L: "linked ?h ls"
  proof (subst linked_frame [of _ ?h h])
    fix a assume a: "a \<in> set (butlast ls)"
    then have "a \<noteq> last ls" "a \<noteq> head" using d butlast_notin_last [of ls a] in_set_butlastD [OF a] dis by auto
    then show "lnext ?h a = lnext h a" unfolding links by simp
  next
    fix a assume a: "a \<in> set (tl ls)"
    then have "a \<noteq> hd ls" "a \<noteq> ?at" using d tl_notin_hd [of ls a] in_set_tlD [OF a] dis ends by auto
    then show "lprev ?h a = lprev h a" unfolding links by simp
  qed fact
  have "linked h (xs @ [head])" using h by (auto simp: klist_ok_def linked_Cons)
  have X: "linked ?h (xs @ [head])"
  proof (subst linked_frame [of _ ?h h])
    fix a assume "a \<in> set (butlast (xs @ [head]))"
    then have "a \<noteq> last ls" "a \<noteq> head" using d ends dis by auto
    then show "lnext ?h a = lnext h a" unfolding links by simp
  next
    fix a assume a: "a \<in> set (tl (xs @ [head]))"
    then have "a \<noteq> ?at" "a \<noteq> hd ls" using d tl_notin_hd [of "xs @ [head]" a] in_set_tlD [OF a] dis ends by auto
    then show "lprev ?h a = lprev h a" unfolding links by simp
  qed fact
  have "?at \<noteq> hd ls" "last ls \<noteq> head" using ends dis by auto
  then have "linked ?h (head # (ls @ (xs @ [head])))"
    unfolding linked_Cons [of ?h head] linked_append [of ?h ls] using L X ne links by simp
  with d dis show ?thesis by (auto simp: klist_ok_def)
qed

lemma list_splice_init_ok:
  assumes "klist_ok l h ls" and "klist_ok head h xs" and "set (l # ls) \<inter> set (head # xs) = {}"
  shows "klist_ok head (list_splice l head h) (ls @ xs)"
    and "klist_ok head (list_splice_init l head h) (ls @ xs) \<and> klist_ok l (list_splice_init l head h) []"
proof -
  show *: "klist_ok head (list_splice l head h) (ls @ xs)"
    using assms list_splice_between_ok by (auto simp: list_splice_def list_empty_ok)
  have "klist_ok head (INIT_LIST_HEAD l h') zs" if "klist_ok head h' zs" "l \<notin> set (head # zs)" for h' zs
    by (rule klist_ok_frame [OF that(1)]) (use that(2) in \<open>auto simp: INIT_LIST_HEAD_def\<close>)
  moreover have "l \<notin> set (head # ls @ xs)" using assms klist_ok_distinct [OF assms(1)] by auto
  ultimately show "klist_ok head (list_splice_init l head h) (ls @ xs) \<and> klist_ok l (list_splice_init l head h) []"
    using * assms(1) list_empty_ok [OF assms(1)]
    by (auto simp: list_splice_init_def list_splice_def INIT_LIST_HEAD_ok)
qed

subsection \<open>Refinement of a list\<close>

text \<open>Requests on one ring, what they do to the heap and to the list, and when they are allowed.\<close>

datatype list_op = L_add ptr | L_add_tail ptr | L_del ptr | L_del_init ptr | L_move ptr | L_move_tail ptr

fun list_op_heap :: "ptr \<Rightarrow> list_op \<Rightarrow> lheap \<Rightarrow> lheap" where
  "list_op_heap head (L_add n) h = klist_add n head h"
| "list_op_heap head (L_add_tail n) h = list_add_tail n head h"
| "list_op_heap head (L_del e) h = list_del e h"
| "list_op_heap head (L_del_init e) h = list_del_init e h"
| "list_op_heap head (L_move e) h = list_move e head h"
| "list_op_heap head (L_move_tail e) h = list_move_tail e head h"

fun list_op_abs :: "list_op \<Rightarrow> ptr list \<Rightarrow> ptr list" where
  "list_op_abs (L_add n) xs = n # xs"
| "list_op_abs (L_add_tail n) xs = xs @ [n]"
| "list_op_abs (L_del e) xs = remove1 e xs"
| "list_op_abs (L_del_init e) xs = remove1 e xs"
| "list_op_abs (L_move e) xs = e # remove1 e xs"
| "list_op_abs (L_move_tail e) xs = remove1 e xs @ [e]"

fun list_op_valid :: "ptr \<Rightarrow> ptr list \<Rightarrow> list_op \<Rightarrow> bool" where
  "list_op_valid head xs (L_add n) \<longleftrightarrow> n \<notin> set (head # xs)"
| "list_op_valid head xs (L_add_tail n) \<longleftrightarrow> n \<notin> set (head # xs)"
| "list_op_valid head xs (L_del e) \<longleftrightarrow> e \<in> set xs"
| "list_op_valid head xs (L_del_init e) \<longleftrightarrow> e \<in> set xs"
| "list_op_valid head xs (L_move e) \<longleftrightarrow> e \<in> set xs"
| "list_op_valid head xs (L_move_tail e) \<longleftrightarrow> e \<in> set xs"

fun list_ops_valid :: "ptr \<Rightarrow> ptr list \<Rightarrow> list_op list \<Rightarrow> bool" where
  "list_ops_valid head xs [] \<longleftrightarrow> True"
| "list_ops_valid head xs (r # rs) \<longleftrightarrow> list_op_valid head xs r \<and> list_ops_valid head (list_op_abs r xs) rs"

lemma remove1_at: "e \<notin> set ys \<Longrightarrow> remove1 e (ys @ e # zs) = ys @ zs"
  by (simp add: remove1_append)

lemma list_op_refines:
  assumes ok: "klist_ok head h xs" and v: "list_op_valid head xs r"
  shows "klist_ok head (list_op_heap head r h) (list_op_abs r xs)"
proof -
  have sp: "\<exists>ys zs. xs = ys @ e # zs \<and> remove1 e xs = ys @ zs" if "e \<in> set xs" for e
    using split_list_first [OF that] remove1_at by metis
  have del: "P (remove1 e xs)" if "e \<in> set xs" "\<And>ys zs. klist_ok head h (ys @ e # zs) \<Longrightarrow> P (ys @ zs)" for e P
    using sp [OF that(1)] that(2) ok by metis
  show ?thesis
  proof (cases r)
    case (L_add n)
    with ok v klist_add_ok show ?thesis by simp
  next
    case (L_add_tail n)
    with ok v list_add_tail_ok show ?thesis by simp
  next
    case (L_del e)
    with v del [of e "klist_ok head (list_del e h)"] list_del_ok show ?thesis by simp
  next
    case (L_del_init e)
    with v del [of e "klist_ok head (list_del_init e h)"] list_del_init_ok show ?thesis by simp
  next
    case (L_move e)
    with v del [of e "\<lambda>xs. klist_ok head (list_move e head h) (e # xs)"] list_move_ok(1) show ?thesis by simp
  next
    case (L_move_tail e)
    with v del [of e "\<lambda>xs. klist_ok head (list_move_tail e head h) (xs @ [e])"] list_move_ok(2) show ?thesis by simp
  qed
qed

text \<open>
  C8: Any sequence of insertions, removals and moves on a ring of links leaves a ring that
  represents the list the same operations give on plain lists, and the traversal macro
  visits exactly its nodes, in order, and comes back to the head.
\<close>

theorem klist_ops_refine:
  assumes "klist_ok head h xs" and "list_ops_valid head xs rs"
  shows "klist_ok head (fold (list_op_heap head) rs h) (fold list_op_abs rs xs) \<and>
    list_for_each (length (fold list_op_abs rs xs)) (lnext (fold (list_op_heap head) rs h) head) head
      (fold (list_op_heap head) rs h) = Some (fold list_op_abs rs xs)"
proof -
  have "klist_ok head (fold (list_op_heap head) rs h) (fold list_op_abs rs xs)"
    using assms
  proof (induction rs arbitrary: h xs)
    case (Cons r rs)
    then have "klist_ok head (list_op_heap head r h) (list_op_abs r xs)" by (intro list_op_refines) auto
    from Cons.IH [OF this] Cons.prems show ?case by simp
  qed simp
  then show ?thesis using list_for_each_ok by blast
qed

theorem klist_ops_refine_witness:
  "klist_ok 1 (fold (list_op_heap 1) [L_add 2, L_add_tail 3, L_move 3, L_del 2]
     (INIT_LIST_HEAD 1 \<lparr>lnext = (\<lambda>_. 0), lprev = (\<lambda>_. 0)\<rparr>)) [3]"
  using klist_ops_refine [OF INIT_LIST_HEAD_ok, of 1 "[L_add 2, L_add_tail 3, L_move 3, L_del 2]"
      "\<lparr>lnext = (\<lambda>_. 0), lprev = (\<lambda>_. 0)\<rparr>"] by simp

end
