(* ===== verification/Hp_Str.thy ===== *)
theory Hp_Str
  imports Hp_Stdlib "HOL-Library.Char_ord" "HOL-Library.List_Lexorder"
begin

section \<open>hp\_str: string helpers\<close>

text \<open>
  Models \<open>src/hp_str.c\<close>. A C string that is only read is the list of its characters
  without the terminator. Where a function writes, the buffer is the whole memory block and
  a read or write outside it is \<open>None\<close>. Characters are signed bytes. Functions of the sds
  library (\<open>sdscmp\<close>, \<open>sdssplitlen\<close>) are parameters.
\<close>

abbreviation (input) NUL :: char where "NUL \<equiv> char_of (0::nat)"

abbreviation char_code :: "char \<Rightarrow> nat" where "char_code \<equiv> of_char"

subsection \<open>Case, blanks and searching\<close>

definition lower_char :: "char \<Rightarrow> char" where
  "lower_char c = (if 65 \<le> char_code c \<and> char_code c \<le> 90 then char_of (char_code c + 32) else c)"

definition upper_char :: "char \<Rightarrow> char" where
  "upper_char c = (if 97 \<le> char_code c \<and> char_code c \<le> 122 then char_of (char_code c - 32) else c)"

definition strlwr :: "string \<Rightarrow> string" where
  "strlwr s = map lower_char s"

definition strupr :: "string \<Rightarrow> string" where
  "strupr s = map upper_char s"

text \<open>
  \<open>str_upper\<close> increments its pointer in the condition, so the body changes the character
  after the one tested; it stops behind the terminator and returns that pointer. The block
  is given whole; the result is the block and the offset returned.
\<close>

function str_upper_loop :: "nat \<Rightarrow> char list \<Rightarrow> (char list \<times> nat) option" where
  "str_upper_loop i b =
     (if i < length b then
        (if b ! i \<noteq> NUL
         then (if i + 1 < length b then str_upper_loop (i + 1) (b[i + 1 := upper_char (b ! (i + 1))]) else None)
         else Some (b, i + 1))
      else None)"
  by pat_completeness auto
termination
  by (relation "measure (\<lambda>(i, b). length b - i)") auto

definition str_upper :: "char list \<Rightarrow> (char list \<times> nat) option" where
  "str_upper b = str_upper_loop 0 b"

definition strnrchr :: "char list \<Rightarrow> nat \<Rightarrow> char \<Rightarrow> nat option" where
  "strnrchr buf sz ch = find (\<lambda>i. buf ! i = ch) (rev [0..<sz])"

definition c_isspace :: "char \<Rightarrow> bool" where
  "c_isspace c \<longleftrightarrow> char_code c \<in> {9, 10, 11, 12, 13, 32}"

primrec blank_loop :: "string \<Rightarrow> int" where
  "blank_loop [] = 1"
| "blank_loop (c # s) = (if \<not> c_isspace c then 0 else blank_loop s)"

definition hp_isblank :: "string option \<Rightarrow> int" where
  "hp_isblank lo = (case lo of None \<Rightarrow> 1 | Some s \<Rightarrow> blank_loop s)"

definition hp_strcasecmp :: "string \<Rightarrow> string \<Rightarrow> int" where
  "hp_strcasecmp a b = c_not (map lower_char a = map lower_char b)"

subsection \<open>Sizes\<close>

text \<open>The unit and the divisor of the quotient the code computes as a \<open>double\<close>.\<close>

definition byte_to_mb_kb :: "nat \<Rightarrow> char \<times> nat" where
  "byte_to_mb_kb bytes =
     (if bytes \<ge> 1024 * 1024 \<and> bytes < 1024 * 1024 * 1024 then (CHR ''M'', 1024 * 1024)
      else if bytes \<ge> 1024 * 1024 * 1024 then (CHR ''G'', 1024 * 1024 * 1024)
      else if bytes \<ge> 1024 then (CHR ''K'', 1024)
      else (CHR '' '', 1))"

subsection \<open>Numbers\<close>

text \<open>
  \<open>myatoi\<close> collects the digits in an array of 64 and sums them with powers of ten; more
  digits, or a sum that leaves the range of \<open>int\<close>, are \<open>None\<close>.
\<close>

definition is_digit :: "char \<Rightarrow> bool" where
  "is_digit c \<longleftrightarrow> 48 \<le> char_code c \<and> char_code c \<le> 57"

definition digit_val :: "char \<Rightarrow> int" where
  "digit_val c = int (char_code c) - 48"

definition int_range :: "int \<Rightarrow> int option" where
  "int_range i = (if - (2 ^ 31) \<le> i \<and> i < 2 ^ 31 then Some i else None)"

primrec sum_digits :: "int list \<Rightarrow> int \<Rightarrow> int option" where
  "sum_digits [] r = Some r"
| "sum_digits (d # ds) r = Option.bind (int_range (r + d * 10 ^ length ds)) (sum_digits ds)"

definition myatoi :: "string option \<Rightarrow> nat \<Rightarrow> int option" where
  "myatoi so len =
     (case so of None \<Rightarrow> Some 0
      | Some s \<Rightarrow>
        if s = [] \<or> len = 0 then Some 0
        else
          let f = (hd s = CHR ''-'');
              (s, len) = (if hd s = CHR ''+'' \<or> hd s = CHR ''-'' then (tl s, len - 1) else (s, len));
              ints = map digit_val (takeWhile is_digit (take len s))
          in if length ints > 64 then None
             else Option.bind (sum_digits ints 0) (\<lambda>r. Some (if f then - r else r)))"

definition hp_str_cmp_int :: "int \<Rightarrow> int \<Rightarrow> int" where
  "hp_str_cmp_int a b = c_not (a = b)"

text \<open>
  The pieces between commas, the empty ones skipped; each is read with its own length from
  the rest of the string. More than 256 numbers leave the array.
\<close>

function find_loop :: "string \<Rightarrow> int list \<Rightarrow> int list option" where
  "find_loop p protos =
     (let q = takeWhile (\<lambda>c. c \<noteq> CHR '','') p; rest = drop (length q) p in
      case (if q = [] then Some protos
            else if length protos \<ge> 256 then None
            else map_option (\<lambda>v. protos @ [v]) (myatoi (Some p) (length q))) of
        None \<Rightarrow> None
      | Some protos \<Rightarrow> if rest = [] then Some protos else find_loop (tl rest) protos)"
  by pat_completeness auto
termination
  by (relation "measure (\<lambda>(p, protos). length p)")
    (auto simp: Let_def less_diff_conv split: if_splits)

declare find_loop.simps [simp del]

definition hp_str_find :: "int \<Rightarrow> string option \<Rightarrow> int option" where
  "hp_str_find val so =
     (case so of None \<Rightarrow> Some 0
      | Some s \<Rightarrow>
        if s = [] then Some 0
        else map_option (\<lambda>protos. case hp_lfind val protos hp_str_cmp_int of None \<Rightarrow> 0 | Some _ \<Rightarrow> 1) (find_loop s []))"

text \<open>C \<open>atoi\<close> on text without leading blanks: an optional sign and the digits.\<close>

definition c_atoi :: "string \<Rightarrow> int" where
  "c_atoi s =
     (let f = (s \<noteq> [] \<and> hd s = CHR ''-'');
          s = (if s \<noteq> [] \<and> (hd s = CHR ''-'' \<or> hd s = CHR ''+'') then tl s else s);
          v = foldl (\<lambda>r c. 10 * r + digit_val c) 0 (takeWhile is_digit s)
      in if f then - v else v)"

subsection \<open>Versions\<close>

text \<open>\<open>split\<close> is \<open>sdssplitlen(s, strlen(s), ".", 1, \<dots>)\<close>.\<close>

definition ver_part :: "string list \<Rightarrow> nat \<Rightarrow> int" where
  "ver_part v i = c_atoi (if i < length v then v ! i else ''0'')"

primrec vercmp_loop :: "string list \<Rightarrow> string list \<Rightarrow> nat list \<Rightarrow> int" where
  "vercmp_loop v c [] = 0"
| "vercmp_loop v c (i # is) =
     (if ver_part v i > ver_part c i then 1
      else if ver_part v i < ver_part c i then -1
      else vercmp_loop v c is)"

definition hp_vercmp :: "(string \<Rightarrow> string list) \<Rightarrow> string option \<Rightarrow> string option \<Rightarrow> int" where
  "hp_vercmp split ver cmp =
     (let v = split (case ver of None \<Rightarrow> [] | Some s \<Rightarrow> s);
          c = split (case cmp of None \<Rightarrow> [] | Some s \<Rightarrow> s)
      in vercmp_loop v c [0..<nat (hp_max (int (length v)) (int (length c)))])"

subsection \<open>Keys and sorted string tables\<close>

definition sds_key :: "('a list \<Rightarrow> 'a list \<Rightarrow> int) \<Rightarrow> 'a list \<Rightarrow> 'a list \<Rightarrow> 'a list" where
  "sds_key sdscmp uid1 uid2 = (if sdscmp uid1 uid2 > 0 then uid2 @ uid1 else uid1 @ uid2)"

definition sds_quote :: "string \<Rightarrow> string" where
  "sds_quote s = CHR 0x27 # s @ [CHR 0x27]"

definition compare_strs :: "string \<Rightarrow> string \<Rightarrow> int" where
  "compare_strs a b = (if a < b then -1 else if a = b then 0 else 1)"

definition strutil_qsort :: "string list \<Rightarrow> string list" where
  "strutil_qsort strs = sort strs"

definition strutil_findmax :: "string \<Rightarrow> string list \<Rightarrow> string option \<times> string list" where
  "strutil_findmax str strs =
     (let s = sort strs in
      (map_option (\<lambda>i. s ! (i - 1))
         (find (\<lambda>i. take (length (s ! i)) str = s ! i \<and> i > 0) [0..<length s]), s))"

subsection \<open>Reading printed numbers\<close>

definition dec_val :: "int list \<Rightarrow> int" where
  "dec_val ds = foldl (\<lambda>r d. 10 * r + d) 0 ds"

lemma dec_val_Cons: "dec_val (d # ds) = d * 10 ^ length ds + dec_val ds"
proof -
  have "foldl (\<lambda>r d. 10 * r + d) x ds = x * 10 ^ length ds + foldl (\<lambda>r d. 10 * r + d) 0 ds" for x :: int
  proof (induction ds arbitrary: x)
    case (Cons e ds)
    have "foldl (\<lambda>r d. 10 * r + d) x (e # ds) = (10 * x + e) * 10 ^ length ds + foldl (\<lambda>r d. 10 * r + d) 0 ds"
      using Cons [of "10 * x + e"] by simp
    also have "\<dots> = x * 10 ^ length (e # ds) + (e * 10 ^ length ds + foldl (\<lambda>r d. 10 * r + d) 0 ds)"
      by (simp add: distrib_right mult.assoc mult.left_commute)
    also have "e * 10 ^ length ds + foldl (\<lambda>r d. 10 * r + d) 0 ds = foldl (\<lambda>r d. 10 * r + d) 0 (e # ds)"
      using Cons [of e] by simp
    finally show ?case .
  qed simp
  from this [of d] show ?thesis by (simp add: dec_val_def)
qed

lemma dec_val_nonneg: "\<forall>d \<in> set ds. 0 \<le> d \<Longrightarrow> 0 \<le> dec_val ds"
  by (induction ds) (auto simp: dec_val_Cons, simp add: dec_val_def)

lemma sum_digits_value:
  assumes "\<forall>d \<in> set ds. 0 \<le> d" and "0 \<le> r" and "r + dec_val ds < 2 ^ 31"
  shows "sum_digits ds r = Some (r + dec_val ds)"
  using assms
proof (induction ds arbitrary: r)
  case Nil
  then show ?case by (simp add: dec_val_def)
next
  case (Cons d ds)
  let ?r = "r + d * 10 ^ length ds"
  have "0 \<le> dec_val ds" using Cons.prems(1) by (intro dec_val_nonneg) simp
  moreover have "0 \<le> d * 10 ^ length ds" using Cons.prems(1) by simp
  ultimately have "0 \<le> ?r" "?r < 2 ^ 31" "?r + dec_val ds < 2 ^ 31"
    using Cons.prems(2,3) by (simp_all add: dec_val_Cons)
  with Cons.IH [of ?r] Cons.prems(1) show ?case by (simp add: int_range_def dec_val_Cons)
qed

lemma digit_char_props:
  "d < 10 \<Longrightarrow> is_digit (digit_char d) \<and> digit_val (digit_char d) = int d"
  by (simp add: is_digit_def digit_val_def digit_char_def)

lemma nat_text_props:
  "(\<forall>c \<in> set (nat_text n). is_digit c) \<and> dec_val (map digit_val (nat_text n)) = int n \<and> nat_text n \<noteq> []"
proof (induction n rule: nat_text.induct)
  case (1 n)
  note t = nat_text.simps [of n]
  show ?case
  proof (cases "n < 10")
    case True
    with digit_char_props [of n] show ?thesis by (simp add: t dec_val_def)
  next
    case False
    have "dec_val (xs @ [y]) = 10 * dec_val xs + y" for xs y by (simp add: dec_val_def)
    moreover have "10 * int (n div 10) + int (n mod 10) = int n" by presburger
    ultimately show ?thesis using 1 False digit_char_props [of "n mod 10"] by (simp add: t)
  qed
qed

lemma digit_val_nonneg: "is_digit c \<Longrightarrow> 0 \<le> digit_val c"
  by (simp add: is_digit_def digit_val_def)

lemma length_nat_text_le: "n < 10 ^ Suc k \<Longrightarrow> length (nat_text n) \<le> Suc k"
proof (induction k arbitrary: n)
  case 0
  then show ?case by (simp add: nat_text.simps [of n])
next
  case (Suc k)
  have "n div 10 < 10 ^ Suc k" using Suc.prems by (simp add: less_mult_imp_div_less)
  from Suc.IH [OF this] show ?case by (simp add: nat_text.simps [of n])
qed

lemma takeWhile_digits:
  assumes "rest = [] \<or> \<not> is_digit (hd rest)"
  shows "takeWhile is_digit (nat_text n @ rest) = nat_text n"
proof -
  have "takeWhile is_digit rest = []" using assms by (cases rest) auto
  with nat_text_props [of n] show ?thesis by (simp add: takeWhile_append2)
qed

lemma sign_chars: "\<not> is_digit (CHR ''-'')" "\<not> is_digit (CHR ''+'')" "\<not> is_digit (CHR '','')"
  by (simp_all add: is_digit_def)

lemma myatoi_int_text:
  assumes "\<bar>i\<bar> < 2 ^ 31"
  shows "myatoi (Some (int_text i @ rest)) (length (int_text i)) = Some i"
proof -
  obtain n where n: "n = nat \<bar>i\<bar>" by blast
  let ?ds = "map digit_val (nat_text n)"
  note p = nat_text_props [of n]
  have len: "length (nat_text n) \<le> Suc 9" using assms n by (intro length_nat_text_le) auto
  have nn: "\<forall>d \<in> set ?ds. 0 \<le> d" using p digit_val_nonneg by auto
  have sum: "sum_digits ?ds 0 = Some (int n)"
    using sum_digits_value [OF nn] p assms n by simp
  have tw: "takeWhile is_digit (nat_text n) = nat_text n" using takeWhile_digits [of "[]" n] by simp
  have hd: "hd (nat_text n) \<noteq> CHR ''-''" "hd (nat_text n) \<noteq> CHR ''+''" "nat_text n \<noteq> []"
    using p sign_chars by (metis hd_in_set)+
  show ?thesis
  proof (cases "i < 0")
    case True
    then have t: "int_text i = CHR ''-'' # nat_text n" "- int n = i" using n by (simp_all add: int_text_def)
    show ?thesis using t(2) len unfolding t(1) by (simp add: myatoi_def tw sum del: takeWhile_eq_all_conv)
  next
    case False
    then have t: "int_text i = nat_text n" "int n = i" using n by (simp_all add: int_text_def)
    show ?thesis using t(2) len hd unfolding t(1) by (simp add: myatoi_def tw sum del: takeWhile_eq_all_conv)
  qed
qed

text \<open>A comma-separated list, as configuration files write it.\<close>

fun comma_list :: "int list \<Rightarrow> string" where
  "comma_list [] = []"
| "comma_list [i] = int_text i"
| "comma_list (i # is) = int_text i @ CHR '','' # comma_list is"

lemma int_text_no_comma: "\<forall>c \<in> set (int_text i). c \<noteq> CHR '',''" "int_text i \<noteq> []"
  using nat_text_props [of "nat i"] nat_text_props [of "nat (- i)"] sign_chars
  by (auto simp: int_text_def)

lemma find_loop_list:
  assumes "\<forall>i \<in> set is. \<bar>i\<bar> < 2 ^ 31" and "length protos + length is \<le> 256" and "is \<noteq> []"
  shows "find_loop (comma_list is) protos = Some (protos @ is)"
  using assms
proof (induction "is" arbitrary: protos rule: comma_list.induct)
  case (2 i)
  have tw: "takeWhile (\<lambda>c. c \<noteq> CHR '','') (int_text i) = int_text i" using int_text_no_comma by simp
  have "myatoi (Some (int_text i)) (length (int_text i)) = Some i" using myatoi_int_text [of i "[]"] 2 by simp
  then show ?case using 2(2) int_text_no_comma(2) [of i]
    by (subst find_loop.simps) (simp add: Let_def tw del: takeWhile_eq_all_conv)
next
  case (3 i j js)
  let ?r = "comma_list (j # js)"
  have tw: "takeWhile (\<lambda>c. c \<noteq> CHR '','') (int_text i @ CHR '','' # ?r) = int_text i"
    using int_text_no_comma by (simp add: takeWhile_append2)
  have m: "myatoi (Some (int_text i @ CHR '','' # ?r)) (length (int_text i)) = Some i"
    by (rule myatoi_int_text) (use 3 in simp)
  have "find_loop ?r (protos @ [i]) = Some ((protos @ [i]) @ j # js)"
    by (rule 3(1)) (use 3 in auto)
  then show ?case using 3(3) int_text_no_comma(2) [of i] m
    by (subst comma_list.simps, subst find_loop.simps) (simp add: Let_def tw)
qed simp

text \<open>
  On a comma-separated list of up to 256 numbers, \<open>hp_str_find\<close> tells whether the number
  is one of them: every number of the \<open>int\<close> range except the smallest is read back as it
  was printed, and nothing is written outside the two arrays.
\<close>

lemma hp_str_find_list:
  assumes "\<forall>i \<in> set is. \<bar>i\<bar> < 2 ^ 31" and "length is \<le> 256" and "is \<noteq> []"
  shows "hp_str_find v (Some (comma_list is)) = Some (if v \<in> set is then 1 else 0)"
proof -
  have "comma_list is \<noteq> []"
    using assms(3) int_text_no_comma(2) by (cases "is" rule: comma_list.cases) auto
  moreover have "find_loop (comma_list is) [] = Some is" using find_loop_list [of "is" "[]"] assms by simp
  moreover have "hp_lfind v is hp_str_cmp_int = None \<longleftrightarrow> v \<notin> set is"
    by (auto simp: hp_lfind_None_iff hp_str_cmp_int_def)
  ultimately show ?thesis by (auto simp: hp_str_find_def split: option.splits)
qed

lemma hp_str_find_list_witness:
  "hp_str_find (-7) (Some (comma_list [80, -7, 2147483647])) = Some 1"
  using hp_str_find_list [of "[80, -7, 2147483647]" "-7"] by simp

lemma hp_vercmp_antisym: "hp_vercmp split b a = - hp_vercmp split a b"
proof -
  have "vercmp_loop c v is = - vercmp_loop v c is" for v c "is" by (induction "is") auto
  moreover have "hp_max (int (length (split b'))) (int (length (split a'))) =
    hp_max (int (length (split a'))) (int (length (split b')))" for a' b' by (simp add: hp_max_def)
  ultimately show ?thesis unfolding hp_vercmp_def Let_def by (metis (no_types, lifting))
qed

lemma sds_key_sym:
  assumes "sdscmp a b > 0 \<longleftrightarrow> sdscmp b a < 0" and "sdscmp b a > 0 \<longleftrightarrow> sdscmp a b < 0"
    and "sdscmp a b = 0 \<Longrightarrow> a = b"
  shows "sds_key sdscmp a b = sds_key sdscmp b a"
  using assms by (cases "sdscmp a b" "0 :: int" rule: linorder_cases) (auto simp: sds_key_def)

subsection \<open>Printable text of raw bytes\<close>

text \<open>\<open>strcpy(buf + off, s)\<close>: the text and its terminator.\<close>

definition c_strcpy :: "nat \<Rightarrow> string \<Rightarrow> char list \<Rightarrow> char list option" where
  "c_strcpy off s buf = buf_put off (s @ [NUL]) buf"

definition c_isprint :: "char \<Rightarrow> bool" where
  "c_isprint c \<longleftrightarrow> 32 \<le> char_code c \<and> char_code c \<le> 126"

definition dump_text :: "char \<Rightarrow> string" where
  "dump_text c =
     (if c = char_of (13::nat) then [CHR 0x5C, CHR ''r'']
      else if c = char_of (10::nat) then [CHR 0x5C, CHR ''n'']
      else if c = char_of (9::nat) then [CHR 0x5C, CHR ''t'']
      else if c = NUL then [CHR 0x5C, CHR ''0'']
      else if char_code c < 128 \<and> c_isprint c then [c] else ''X'')"

definition opt_copy :: "string option \<Rightarrow> nat \<times> char list \<Rightarrow> (nat \<times> char list) option" where
  "opt_copy so nb =
     (case so of None \<Rightarrow> Some nb
      | Some s \<Rightarrow> map_option (\<lambda>b. (fst nb + length s, b)) (c_strcpy (fst nb) s (snd nb)))"

definition sdump_chr :: "nat \<Rightarrow> char \<Rightarrow> string option \<Rightarrow> string option \<Rightarrow> char list \<Rightarrow> (nat \<times> char list) option" where
  "sdump_chr off chr beg end buf =
     Option.bind (opt_copy beg (off, buf)) (\<lambda>nb.
     Option.bind (opt_copy (Some (dump_text chr)) nb) (opt_copy end))"

primrec dump_loop :: "char list \<Rightarrow> nat \<times> char list \<Rightarrow> (nat \<times> char list) option" where
  "dump_loop [] nb = Some nb"
| "dump_loop (c # cs) nb = Option.bind (sdump_chr (fst nb) c None None (snd nb)) (dump_loop cs)"

text \<open>The result string is read off the buffer; \<open>Some []\<close> with length 0 is the empty literal.\<close>

definition sdump_str ::
  "char list option \<Rightarrow> char list option \<Rightarrow> nat \<Rightarrow> string option \<Rightarrow> string option \<Rightarrow> (char list option \<times> string option) option" where
  "sdump_str outo bufo len beg end =
     (case (outo, bufo) of
        (Some out, Some buf) \<Rightarrow>
          if len = 0 then Some (Some out, Some [])
          else Option.bind (opt_copy beg (0, out)) (\<lambda>nb.
               Option.bind (dump_loop (take len buf) nb) (\<lambda>nb.
               Option.bind (opt_copy end nb) (\<lambda>nb.
               map_option (\<lambda>b. (Some b, Some (c_str b))) (buf_put (fst nb) [NUL] (snd nb)))))
      | _ \<Rightarrow> Some (outo, None))"

definition dumpstr_r :: "char list option \<Rightarrow> char list option \<Rightarrow> nat \<Rightarrow> nat \<Rightarrow> (char list option \<times> string option) option" where
  "dumpstr_r out buf len dumplen =
     sdump_str out buf (if dumplen < len then dumplen else len) None (if dumplen < len then Some ''...'' else None)"

definition dumpstr :: "char list option \<Rightarrow> nat \<Rightarrow> nat \<Rightarrow> (char list option \<times> string option) option" where
  "dumpstr buf len dumplen =
     (let dumpbuf = replicate 1024 NUL;
          alen = (if dumplen \<le> 1023 then (if dumplen < len then dumplen else len) else 1023)
      in sdump_str (Some dumpbuf) buf alen None (if dumplen < len then Some ''...'' else None))"

text \<open>What the stream versions print.\<close>

definition fdump_chr :: "char \<Rightarrow> string option \<Rightarrow> string option \<Rightarrow> string" where
  "fdump_chr chr beg end =
     (case beg of None \<Rightarrow> [] | Some s \<Rightarrow> s) @
     (if chr = char_of (13::nat) then [CHR 0x5C, CHR ''r''] else []) @
     (if chr = char_of (10::nat) then [CHR 0x5C, CHR ''n'']
      else if chr = NUL then [CHR 0x5C, CHR ''0'']
      else if chr = char_of (9::nat) then [CHR 0x5C, CHR ''t'']
      else [chr]) @
     (case end of None \<Rightarrow> [] | Some s \<Rightarrow> s)"

definition fdump_str :: "char list option \<Rightarrow> nat \<Rightarrow> string option \<Rightarrow> string option \<Rightarrow> string" where
  "fdump_str bufo len beg end =
     (case bufo of None \<Rightarrow> []
      | Some buf \<Rightarrow>
        if len = 0 then []
        else (case beg of None \<Rightarrow> [] | Some s \<Rightarrow> s) @
          concat (map (\<lambda>c. fdump_chr c None None) (take len buf)) @
          (case end of None \<Rightarrow> [] | Some s \<Rightarrow> s))"

definition str_t_fprint :: "char list option \<Rightarrow> string \<times> int" where
  "str_t_fprint so =
     (case so of None \<Rightarrow> ([], 0)
      | Some s \<Rightarrow>
        (let t = map (\<lambda>c. if c = NUL then [CHR 0x5C, CHR ''0''] else if c = char_of (10::nat) then [CHR 0x5C, CHR ''n''] else [c]) s
         in (concat t @ [char_of (10::nat)], if t = [] then 0 else int (length (last t)))))"

lemma buf_put_Some: "buf_put off cs buf = Some b \<longleftrightarrow>
  off + length cs \<le> length buf \<and> b = take off buf @ cs @ drop (off + length cs) buf"
  by (auto simp: buf_put_def)

lemma dump_text_length: "1 \<le> length (dump_text c) \<and> length (dump_text c) \<le> 2"
  by (simp add: dump_text_def)

lemma dump_text_nonzero: "\<forall>d \<in> set (dump_text c). d \<noteq> NUL"
  by (auto simp: dump_text_def c_isprint_def char_of_def)

definition dump_all :: "char list \<Rightarrow> string" where
  "dump_all cs = concat (map dump_text cs)"

text \<open>Where there is room, the loop appends the text of every character.\<close>

lemma dump_loop_room:
  assumes "n + length (dump_all cs) < length buf"
  shows "\<exists>b. dump_loop cs (n, buf) = Some (n + length (dump_all cs), b) \<and> length b = length buf \<and>
    take (n + length (dump_all cs)) b = take n buf @ dump_all cs"
  using assms
proof (induction cs arbitrary: n buf)
  case Nil
  then show ?case by (simp add: dump_all_def)
next
  case (Cons c cs)
  let ?t = "dump_text c"
  obtain b0 where b0: "b0 = take n buf @ (?t @ [NUL]) @ drop (n + length (?t @ [NUL])) buf" by blast
  have da: "dump_all (c # cs) = ?t @ dump_all cs" by (simp add: dump_all_def)
  have room: "n + length (?t @ [NUL]) \<le> length buf" using Cons.prems by (simp add: da)
  have step: "dump_loop (c # cs) (n, buf) = dump_loop cs (n + length ?t, b0)"
    using room by (simp add: sdump_chr_def opt_copy_def c_strcpy_def buf_put_def b0)
  have lb: "length b0 = length buf" using room by (simp add: b0)
  have "n + length ?t + length (dump_all cs) < length b0" using Cons.prems by (simp add: da lb)
  from Cons.IH [OF this] obtain b where
    b: "dump_loop cs (n + length ?t, b0) = Some (n + length ?t + length (dump_all cs), b)" "length b = length buf"
    "take (n + length ?t + length (dump_all cs)) b = take (n + length ?t) b0 @ dump_all cs"
    unfolding lb by blast
  moreover have "take (n + length ?t) b0 = take n buf @ ?t" using room by (simp add: b0)
  ultimately show ?case unfolding step da by (intro exI [of _ b]) (simp add: add.assoc)
qed

text \<open>Where there is none, it leaves the buffer.\<close>

lemma dump_loop_overflow:
  "length buf \<le> n + length (dump_all cs) \<Longrightarrow> n < length buf \<Longrightarrow> dump_loop cs (n, buf) = None"
proof (induction cs arbitrary: n buf)
  case (Cons c cs)
  let ?t = "dump_text c"
  show ?case
  proof (cases "n + length (?t @ [NUL]) \<le> length buf")
    case True
    let ?b = "take n buf @ (?t @ [NUL]) @ drop (n + length (?t @ [NUL])) buf"
    have "dump_loop (c # cs) (n, buf) = dump_loop cs (n + length ?t, ?b)"
      using True by (simp add: sdump_chr_def opt_copy_def c_strcpy_def buf_put_def)
    moreover have "dump_loop cs (n + length ?t, ?b) = None"
      by (rule Cons.IH) (use Cons.prems True in \<open>simp_all add: dump_all_def\<close>)
    ultimately show ?thesis by simp
  next
    case False
    then show ?thesis by (simp add: sdump_chr_def opt_copy_def c_strcpy_def buf_put_def)
  qed
qed (simp add: dump_all_def)

text \<open>
  \<open>dumpstr\<close> cuts its input to 1023 bytes to fit its static buffer of 1024, but control
  characters take two places: any input whose escaped text has more than 1023 characters
  makes it write outside the buffer, and shorter text without a cut comes out whole.
\<close>

lemma dumpstr_bounds:
  assumes "0 < n" and "n \<le> 1023" and "n \<le> length buf"
  shows "map_option snd (dumpstr (Some buf) n n) =
    (if 1023 < length (dump_all (take n buf)) then None else Some (Some (dump_all (take n buf))))"
proof (cases "1023 < length (dump_all (take n buf))")
  case True
  then have "dump_loop (take n buf) (0, replicate 1024 NUL) = None"
    by (intro dump_loop_overflow) simp_all
  with True assms show ?thesis by (simp add: dumpstr_def sdump_str_def opt_copy_def Let_def)
next
  case False
  let ?d = "dump_all (take n buf)"
  from False dump_loop_room [of 0 "take n buf" "replicate 1024 NUL"] obtain b where
    b: "dump_loop (take n buf) (0, replicate 1024 NUL) = Some (length ?d, b)" "length b = 1024" "take (length ?d) b = ?d"
    by auto
  have nz: "\<forall>c \<in> set ?d. c \<noteq> NUL" using dump_text_nonzero by (auto simp: dump_all_def)
  have p: "buf_put (length ?d) [NUL] b = Some (?d @ [NUL] @ drop (Suc (length ?d)) b)"
    using False b by (simp add: buf_put_def)
  have "c_str (?d @ [NUL] @ drop (Suc (length ?d)) b) = ?d"
    using nz by (simp add: c_str_def takeWhile_append2)
  with False assms b(1) p show ?thesis by (simp add: dumpstr_def sdump_str_def opt_copy_def Let_def)
qed

lemma dumpstr_bounds_witness:
  "map_option snd (dumpstr (Some (replicate 600 (char_of (10::nat)))) 600 600) = None"
proof -
  have "length (dump_all (replicate m (char_of (10::nat)))) = 2 * m" for m
    by (induction m) (simp_all add: dump_all_def dump_text_def char_of_def)
  with dumpstr_bounds [of 600 "replicate 600 (char_of (10::nat))"] show ?thesis by simp
qed

subsection \<open>Search and replace\<close>

definition starts_with :: "string \<Rightarrow> string \<Rightarrow> bool" where
  "starts_with p s \<longleftrightarrow> take (length p) s = p"

definition strstr :: "string \<Rightarrow> string \<Rightarrow> nat option" where
  "strstr s p = find (\<lambda>i. starts_with p (drop i s)) [0..<length s + 1]"

text \<open>The counting loop; it does not end for an empty search text, which is handled before.\<close>

function count_occ :: "string \<Rightarrow> string \<Rightarrow> nat" where
  "count_occ search p =
     (if search = [] then 0
      else case strstr p search of None \<Rightarrow> 0 | Some i \<Rightarrow> Suc (count_occ search (drop (i + length search) p)))"
  by pat_completeness auto

lemma strstr_bound: "strstr s p = Some i \<Longrightarrow> i + length p \<le> length s"
proof -
  assume "strstr s p = Some i"
  then have "take (length p) (drop i s) = p" "i \<le> length s"
    by (auto simp: strstr_def starts_with_def find_Some_iff simp del: upt_Suc)
  then have "length p \<le> length (drop i s)" by (metis length_take min.cobounded1)
  with \<open>i \<le> length s\<close> show ?thesis by simp
qed

lemma strstr_progress:
  "search \<noteq> [] \<Longrightarrow> strstr p search = Some i \<Longrightarrow> length (drop (i + length search) p) < length p"
proof -
  assume a: "search \<noteq> []" "strstr p search = Some i"
  have "i + length search \<le> length p" by (rule strstr_bound [OF a(2)])
  moreover have "0 < length search" using a(1) by simp
  ultimately show ?thesis by (simp only: length_drop)
qed

termination count_occ
proof (relation "measure (\<lambda>(search, p). length p)", goal_cases)
  case (2 search p i)
  then show ?case unfolding in_measure prod.case by (rule strstr_progress)
qed simp

declare count_occ.simps [simp del]

definition c_strlen :: "char list \<Rightarrow> nat option" where
  "c_strlen buf = (if NUL \<in> set buf then Some (length (c_str buf)) else None)"

text \<open>
  The copying loop. \<open>old\<close> and \<open>p\<close> of the source are the same pointer at the start of every
  turn: the rest of the subject that is not copied yet. \<open>strncpy\<close> copies the text before the
  match without a terminator, so the next \<open>strlen\<close> reads whatever \<open>malloc\<close> left there.
\<close>

function replace_loop :: "string \<Rightarrow> string \<Rightarrow> string \<Rightarrow> char list option \<Rightarrow> char list option" where
  "replace_loop search repl p buf =
     (case (if search = [] then None else strstr p search) of
        None \<Rightarrow> Option.bind buf (\<lambda>b. Option.bind (c_strlen b) (\<lambda>off. c_strcpy off p b))
      | Some i \<Rightarrow>
          let buf = Option.bind buf (\<lambda>b. Option.bind (c_strlen b) (\<lambda>off. buf_put off (take i p) b));
              buf = Option.bind buf (\<lambda>b. Option.bind (c_strlen b) (\<lambda>off. c_strcpy off repl b))
          in replace_loop search repl (drop (i + length search) p) buf)"
  by pat_completeness auto
termination
proof (relation "measure (\<lambda>(search, repl, p, buf). length p)", goal_cases)
  case (2 search repl p buf i)
  then have "search \<noteq> []" "strstr p search = Some i" by (auto split: if_splits)
  then show ?case unfolding in_measure prod.case by (rule strstr_progress)
qed simp

declare replace_loop.simps [simp del]

definition replace_size :: "string \<Rightarrow> string \<Rightarrow> string \<Rightarrow> int" where
  "replace_size search repl subject =
     to_int32 ((int (length repl) - int (length search)) * int (count_occ search subject) + int (length subject))"

text \<open>\<open>junk n\<close> is the content of a fresh block of \<open>n\<close> bytes.\<close>

definition hp_str_replace :: "(nat \<Rightarrow> char list) \<Rightarrow> string \<Rightarrow> string \<Rightarrow> string \<Rightarrow> char list outcome" where
  "hp_str_replace junk search repl subject =
     (if search = [] then Blocked []
      else case Option.bind (c_strcpy 0 [] (junk (to_size (replace_size search repl subject))))
                  (\<lambda>b. replace_loop search repl subject (Some b)) of
             None \<Rightarrow> Undef | Some b \<Rightarrow> Done b)"

text \<open>The room the rest of the subject still needs after replacement.\<close>

definition replace_need :: "string \<Rightarrow> string \<Rightarrow> string \<Rightarrow> int" where
  "replace_need search repl p = (int (length repl) - int (length search)) * int (count_occ search p) + int (length p)"

lemma replace_need_match:
  assumes "search \<noteq> []" and "strstr p search = Some i"
  shows "replace_need search repl p =
    int i + int (length repl) + replace_need search repl (drop (i + length search) p)"
proof -
  have "count_occ search p = Suc (count_occ search (drop (i + length search) p))"
    using assms by (subst count_occ.simps) simp
  moreover have "i + length search \<le> length p" using strstr_bound [OF assms(2)] .
  ultimately show ?thesis by (simp add: replace_need_def algebra_simps of_nat_diff)
qed

lemma c_strlen_Some: "c_strlen b = Some n \<Longrightarrow> n < length b \<and> NUL \<notin> set (take n b) \<and> b ! n = NUL"
proof -
  assume "c_strlen b = Some n"
  then have m: "NUL \<in> set b" and n: "n = length (c_str b)"
    by (auto simp: c_strlen_def split: if_splits)
  from split_list_first [OF m] obtain ys zs where b: "b = ys @ NUL # zs" "NUL \<notin> set ys" by blast
  have "c_str b = ys" unfolding c_str_def b(1) using b(2) by (subst takeWhile_append2) auto
  with n b show ?thesis by simp
qed

lemma c_strlen_ge: "NUL \<notin> set (take k b) \<Longrightarrow> k \<le> length b \<Longrightarrow> c_strlen b = Some n \<Longrightarrow> k \<le> n"
proof (rule ccontr)
  assume a: "NUL \<notin> set (take k b)" "k \<le> length b" "c_strlen b = Some n" "\<not> k \<le> n"
  note n = c_strlen_Some [OF a(3)]
  have "b ! n \<in> set (take k b)" using a n by (auto simp: in_set_conv_nth intro!: exI [of _ n])
  with a(1) n show False by simp
qed

lemma c_strlen_put:
  assumes "c_strlen b = Some off" and "buf_put off cs b = Some b'" and "NUL \<notin> set cs" and "c_strlen b' = Some n"
  shows "off + length cs \<le> n \<and> length b' = length b"
proof -
  have b': "b' = take off b @ cs @ drop (off + length cs) b" "off + length cs \<le> length b"
    using assms(2) by (auto simp: buf_put_Some)
  have "take (off + length cs) b' = take off b @ cs" using b' by simp
  then have "NUL \<notin> set (take (off + length cs) b')" using c_strlen_Some [OF assms(1)] assms(3) by simp
  with c_strlen_ge [of "off + length cs" b' n] b' assms(4) show ?thesis by simp
qed

lemma replace_loop_overflow:
  assumes "search \<noteq> []" and "NUL \<notin> set repl" and "NUL \<notin> set p"
    and "\<And>b n. buf = Some b \<Longrightarrow> c_strlen b = Some n \<Longrightarrow> int (length b) \<le> int n + replace_need search repl p"
  shows "replace_loop search repl p buf = None"
  using assms
proof (induction search repl p buf rule: replace_loop.induct)
  case (1 search repl p buf)
  note unf = replace_loop.simps [of search repl p buf]
  show ?case
  proof (cases "strstr p search")
    case None
    then have need: "replace_need search repl p = int (length p)"
      using "1.prems"(1) by (simp add: replace_need_def) (simp add: count_occ.simps [of search p])
    show ?thesis
    proof (cases "Option.bind buf c_strlen")
      case None': None
      then show ?thesis using None unfolding unf by (cases buf) auto
    next
      case (Some n)
      then obtain b where b: "buf = Some b" "c_strlen b = Some n" by (cases buf) auto
      with "1.prems"(4) need have "length b \<le> n + length p" by fastforce
      with b None show ?thesis unfolding unf by (simp add: c_strcpy_def buf_put_def)
    qed
  next
    case (Some i)
    let ?p = "drop (i + length search) p"
    let ?b1 = "Option.bind buf (\<lambda>b. Option.bind (c_strlen b) (\<lambda>off. buf_put off (take i p) b))"
    let ?b2 = "Option.bind ?b1 (\<lambda>b. Option.bind (c_strlen b) (\<lambda>off. c_strcpy off repl b))"
    have "replace_loop search repl ?p ?b2 = None"
    proof (rule "1.IH" [OF _ refl refl "1.prems"(1,2)])
      show "(if search = [] then None else strstr p search) = Some i" using Some "1.prems"(1) by simp
      show "NUL \<notin> set ?p" using "1.prems"(3) by (meson in_set_dropD)
      fix b2 n assume b2: "?b2 = Some b2" "c_strlen b2 = Some n"
      from b2(1) obtain b off b1 off1 where b: "buf = Some b" "c_strlen b = Some off"
        "buf_put off (take i p) b = Some b1" "c_strlen b1 = Some off1" "c_strcpy off1 repl b1 = Some b2"
        by (auto simp: bind_eq_Some_conv)
      have "NUL \<notin> set (take i p)" using "1.prems"(3) by (meson in_set_takeD)
      from c_strlen_put [OF b(2,3) this b(4)] have 1: "off + length (take i p) \<le> off1" "length b1 = length b" by auto
      have "i \<le> length p" using strstr_bound [OF Some] by simp
      with 1 have o1: "off + i \<le> off1" by simp
      have b2': "b2 = take off1 b1 @ (repl @ [NUL]) @ drop (off1 + length (repl @ [NUL])) b1"
        "off1 + length (repl @ [NUL]) \<le> length b1"
        using b(5) by (auto simp: c_strcpy_def buf_put_Some)
      have l2: "length b2 = length b" using b2' 1 by simp
      have "take (off1 + length repl) b2 = take off1 b1 @ repl" using b2' by simp
      then have "NUL \<notin> set (take (off1 + length repl) b2)" using c_strlen_Some [OF b(4)] "1.prems"(2) by simp
      moreover have "off1 + length repl \<le> length b2" using b2' 1 l2 by simp
      ultimately have "off1 + length repl \<le> n" using c_strlen_ge b2(2) by blast
      moreover have "int (length b) \<le> int off + replace_need search repl p" using "1.prems"(4) b(1,2) by blast
      ultimately show "int (length b2) \<le> int n + replace_need search repl ?p"
        using replace_need_match [OF "1.prems"(1) Some, of repl] o1 l2 by simp
    qed
    with Some "1.prems"(1) show ?thesis by (simp add: unf Let_def)
  qed
qed

text \<open>
  The block \<open>hp_str_replace\<close> allocates has no room for the terminator of its result (and
  the text copied before a match is not terminated either): for every non-empty search text
  it writes, or reads, outside the block, whatever the block held before. For an empty one
  it never returns.
\<close>

lemma hp_str_replace_overflow:
  assumes "NUL \<notin> set repl" and "NUL \<notin> set subject" and "\<And>n. length (junk n) = n"
    and "0 \<le> replace_need search repl subject" and "replace_need search repl subject < 2 ^ 31"
  shows "hp_str_replace junk search repl subject = (if search = [] then Blocked [] else Undef)"
proof (cases "search = []")
  case True
  then show ?thesis by (simp add: hp_str_replace_def)
next
  case False
  let ?n = "to_size (replace_size search repl subject)"
  have "replace_size search repl subject = replace_need search repl subject"
    using assms(4,5) unfolding replace_size_def replace_need_def by (intro to_int32_id) auto
  then have n: "int ?n = replace_need search repl subject"
    using assms(4,5) by (simp add: to_size_def)
  have "Option.bind (c_strcpy 0 [] (junk ?n)) (\<lambda>b. replace_loop search repl subject (Some b)) = None"
  proof (cases "c_strcpy 0 [] (junk ?n)")
    case (Some b)
    then have b: "b = NUL # drop 1 (junk ?n)" "1 \<le> length (junk ?n)" by (auto simp: c_strcpy_def buf_put_Some)
    then have "length b = ?n" using assms(3) by simp
    then have "replace_loop search repl subject (Some b) = None"
      using n by (intro replace_loop_overflow [OF False assms(1,2)]) auto
    with Some show ?thesis by simp
  qed simp
  with False show ?thesis by (simp add: hp_str_replace_def)
qed

lemma hp_str_replace_overflow_witness:
  "hp_str_replace (\<lambda>n. replicate n CHR ''z'') ''b'' ''xy'' ''abc'' = Undef"
proof -
  have "strstr ''abc'' ''b'' = Some 1" "strstr ''c'' ''b'' = None" by code_simp+
  then have "count_occ ''b'' ''abc'' = 1" by (simp add: count_occ.simps)
  then have "replace_need ''b'' ''xy'' ''abc'' = 4" by (simp add: replace_need_def)
  with hp_str_replace_overflow [of "''xy''" "''abc''" "\<lambda>n. replicate n CHR ''z''" "''b''"]
  show ?thesis by (simp add: char_of_def)
qed

end
