(* ===== verification/Hp_Pub.thy ===== *)
theory Hp_Pub
  imports Klist Hp_Str
begin

section \<open>hp\_pub: publishing and subscribing through Redis\<close>

text \<open>
  Models \<open>src/hp_pub.c\<close>. The hiredis library is a set of connections: a command is sent
  with a callback and a private pointer, its result is taken from a script (0 when the
  script is exhausted), and a command that was accepted gets exactly one reply, later and
  in any order relative to other events. The blocks the code allocates (subscriptions and
  outstanding requests) live in explicit heaps, so a use after free is visible; it is
  recorded in \<open>pw_fault\<close>. The list of the outstanding requests of a subscription is the
  list the operations of \<open>Klist\<close> implement (\<open>klist_ops_refine\<close>).
\<close>

subsection \<open>State\<close>

type_synonym conn = nat

datatype redis_reply =
    RR_status string
  | RR_string string
  | RR_error string
  | RR_integer int
  | RR_nil
  | RR_array "redis_reply list"

definition rr_elements :: "redis_reply \<Rightarrow> redis_reply list" where
  "rr_elements r = (case r of RR_array rs \<Rightarrow> rs | _ \<Rightarrow> [])"

definition rr_str :: "redis_reply \<Rightarrow> string" where
  "rr_str r = (case r of RR_status s \<Rightarrow> s | RR_string s \<Rightarrow> s | RR_error s \<Rightarrow> s | _ \<Rightarrow> [])"

definition rr_integer :: "redis_reply \<Rightarrow> int" where
  "rr_integer r = (case r of RR_integer i \<Rightarrow> i | _ \<Rightarrow> 0)"

text \<open>The test \<open>reply && reply->type != REDIS_REPLY_ERROR\<close>; \<open>None\<close> is a NULL reply.\<close>

definition reply_ok :: "redis_reply option \<Rightarrow> bool" where
  "reply_ok ro = (case ro of None \<Rightarrow> False | Some r \<Rightarrow> (case r of RR_error e \<Rightarrow> False | _ \<Rightarrow> True))"

datatype redis_cb = CB_none | CB_pub | CB_user fnptr | CB_all | CB_msg | CB_session | CB_sup

record hp_sub_t =
  sub_c :: conn
  sub_subc :: conn
  sub_shasub :: string
  sub_shasup :: string
  sub_sid :: string
  sub_cb :: fnptr
  sub_arg :: ptr
  sub_argi :: int
  async_list :: "ptr list"

record hp_sub_async_t =
  as_s :: ptr

record 'u pubw =
  subs :: "ptr \<rightharpoonup> hp_sub_t"
  asyncs :: "ptr \<rightharpoonup> hp_sub_async_t"
  cdata :: "conn \<Rightarrow> ptr"
  cdiscon :: "conn \<Rightarrow> bool"
  cerr :: "conn \<Rightarrow> int \<times> string"
  pending :: "(conn \<times> redis_cb \<times> ptr) list"
  cmds :: "(conn \<times> string list) list"
  rcs :: "int list"
  pnxt :: ptr
  pw_fault :: bool
  pw_user :: 'u

text \<open>
  The callback of a subscription: topic (\<open>None\<close> for NULL), message id and message. It may
  change the whole world, for instance send commands or free a connection.
\<close>

type_synonym 'u sub_cbs = "fnptr \<Rightarrow> ptr \<Rightarrow> string option \<Rightarrow> string \<Rightarrow> string \<Rightarrow> 'u pubw \<Rightarrow> 'u pubw"

definition redisAsyncCommand :: "conn \<Rightarrow> redis_cb \<Rightarrow> ptr \<Rightarrow> string list \<Rightarrow> 'u pubw \<Rightarrow> int \<times> 'u pubw" where
  "redisAsyncCommand c cb priv argv w =
     (let rc = (case rcs w of [] \<Rightarrow> 0 | r # rs \<Rightarrow> r); w = w\<lparr>rcs := tl (rcs w)\<rparr>
      in if rc \<noteq> 0 then (rc, w)
         else (0, w\<lparr>cmds := cmds w @ [(c, argv)], pending := pending w @ [(c, cb, priv)]\<rparr>))"

subsection \<open>Publishing\<close>

text \<open>\<open>sec\<close> and \<open>usec\<close> are what \<open>gettimeofday\<close> returns; the score is their milliseconds.\<close>

definition hp_pub :: "int \<Rightarrow> int \<Rightarrow> conn option \<Rightarrow> string option \<Rightarrow> string option \<Rightarrow> int \<Rightarrow> fnptr \<Rightarrow> 'u pubw \<Rightarrow> int \<times> 'u pubw" where
  "hp_pub sec usec co topico msgo len done w =
     (case (co, topico, msgo) of
        (Some c, Some topic, Some msg) \<Rightarrow>
          let len = (if len \<le> 0 then int (length msg) else len);
              uuid = int_text (sec * 1000 + usec div 1000);
              w = snd (redisAsyncCommand c CB_none NULL [''ZADD'', topic, uuid, take (nat len) msg] w)
          in redisAsyncCommand c (if done \<noteq> NULL then CB_user done else CB_pub) done [''publish'', topic, uuid] w
      | _ \<Rightarrow> (-1, w))"

subsection \<open>Outstanding requests\<close>

definition sub_upd :: "ptr \<Rightarrow> (hp_sub_t \<Rightarrow> hp_sub_t) \<Rightarrow> 'u pubw \<Rightarrow> 'u pubw" where
  "sub_upd p f w = (case subs w p of None \<Rightarrow> w\<lparr>pw_fault := True\<rparr> | Some s \<Rightarrow> w\<lparr>subs := (subs w)(p \<mapsto> f s)\<rparr>)"

text \<open>\<open>calloc\<close> of a request for the subscription \<open>p\<close>, linked at the end of its list.\<close>

definition async_new :: "ptr \<Rightarrow> 'u pubw \<Rightarrow> ptr \<times> 'u pubw" where
  "async_new p w =
     (let a = pnxt w; w = w\<lparr>pnxt := a + 1, asyncs := (asyncs w)(a \<mapsto> \<lparr>as_s = p\<rparr>)\<rparr>
      in (a, sub_upd p (\<lambda>s. s\<lparr>async_list := async_list s @ [a]\<rparr>) w))"

text \<open>The end of both reply callbacks: unlink if the subscription is still there, and free.\<close>

definition async_done :: "ptr \<Rightarrow> 'u pubw \<Rightarrow> 'u pubw" where
  "async_done a w =
     (case asyncs w a of
        None \<Rightarrow> w\<lparr>pw_fault := True\<rparr>
      | Some x \<Rightarrow>
        let w = (if as_s x \<noteq> NULL then sub_upd (as_s x) (\<lambda>s. s\<lparr>async_list := remove1 a (async_list s)\<rparr>) w else w)
        in w\<lparr>asyncs := (asyncs w)(a := None)\<rparr>)"

definition hp_sub_all :: "ptr \<Rightarrow> 'u pubw \<Rightarrow> int \<times> 'u pubw" where
  "hp_sub_all p w =
     (case subs w p of None \<Rightarrow> (0, w\<lparr>pw_fault := True\<rparr>)
      | Some s \<Rightarrow>
        case async_new p w of (a, w) \<Rightarrow>
          redisAsyncCommand (sub_c s) CB_all a [''evalsha'', sub_shasub s, ''0'', sub_sid s] w)"

subsection \<open>The history reply\<close>

type_synonym sort_ctx = "string \<times> string \<times> string"

text \<open>The reply holds a topic and its entries alternately, the entries a message and its id.\<close>

fun pairs_of :: "'a list \<Rightarrow> ('a \<times> 'a) list" where
  "pairs_of (a # b # xs) = (a, b) # pairs_of xs"
| "pairs_of _ = []"

definition sub_history :: "redis_reply list \<Rightarrow> sort_ctx list" where
  "sub_history rs =
     concat (map (\<lambda>(t, d). map (\<lambda>(m, mid). (rr_str mid, rr_str m, rr_str t)) (pairs_of (rr_elements d))) (pairs_of rs))"

text \<open>\<open>sdscmp\<close> compares bytes, then lengths: the order of lists. Equal ids keep their order.\<close>

definition sub_order :: "sort_ctx list \<Rightarrow> sort_ctx list" where
  "sub_order = sort_key (\<lambda>x. map char_code (fst x))"

text \<open>
  One turn of the delivery loop reads \<open>as->s->cb\<close> again, after whatever the previous
  callback did.
\<close>

primrec sub_deliver :: "'u sub_cbs \<Rightarrow> ptr \<Rightarrow> sort_ctx list \<Rightarrow> 'u pubw \<Rightarrow> 'u pubw" where
  "sub_deliver cbs a [] w = w"
| "sub_deliver cbs a (x # xs) w =
     (case asyncs w a of None \<Rightarrow> w\<lparr>pw_fault := True\<rparr>
      | Some y \<Rightarrow>
        case subs w (as_s y) of None \<Rightarrow> w\<lparr>pw_fault := True\<rparr>
        | Some s \<Rightarrow>
          sub_deliver cbs a xs
            (if sub_cb s \<noteq> NULL then cbs (sub_cb s) (as_s y) (Some (snd (snd x))) (fst x) (fst (snd x)) w else w))"

definition hp_sub_all_cb :: "'u sub_cbs \<Rightarrow> redis_reply option \<Rightarrow> ptr \<Rightarrow> 'u pubw \<Rightarrow> 'u pubw" where
  "hp_sub_all_cb cbs ro a w =
     (case asyncs w a of None \<Rightarrow> w\<lparr>pw_fault := True\<rparr>
      | Some x \<Rightarrow>
        let w = (if as_s x = NULL then w
                 else if \<not> (reply_ok ro \<and> rr_elements (the ro) \<noteq> []) then w
                 else sub_deliver cbs a (sub_order (sub_history (rr_elements (the ro)))) w)
        in async_done a w)"

subsection \<open>Messages on the subscription connection\<close>

definition msg_cb :: "'u sub_cbs \<Rightarrow> conn \<Rightarrow> redis_reply option \<Rightarrow> 'u pubw \<Rightarrow> 'u pubw" where
  "msg_cb cbs c ro w =
     (let p = cdata w c in
      if \<not> reply_ok ro then w
      else
        let es = rr_elements (the ro) in
        if es = [] then w\<lparr>pw_fault := True\<rparr>
        else if rr_str (es ! 0) = ''subscribe'' then
          (if length es \<le> 2 then w\<lparr>pw_fault := True\<rparr>
           else if rr_integer (es ! 2) = 1 then snd (hp_sub_all p w) else w)
        else if rr_str (es ! 0) = ''unsubscribe'' then
          (case subs w p of None \<Rightarrow> w\<lparr>pw_fault := True\<rparr>
           | Some s \<Rightarrow>
             if sub_cb s \<noteq> NULL then
               (if length es \<le> 2 then w\<lparr>pw_fault := True\<rparr>
                else if rr_integer (es ! 2) = 0 then cbs (sub_cb s) p (Some []) [] [] w else w)
             else w)
        else snd (hp_sub_all p w))"

text \<open>The text of an error report; \<open>err\<close> and \<open>errstr\<close> come from the connection.\<close>

definition redis_failed :: "string \<Rightarrow> string \<Rightarrow> int \<times> string \<Rightarrow> string \<Rightarrow> string" where
  "redis_failed fn what e str =
     fn @ '': redis '' @ what @ '' failed, err/errstr='' @ int_text (fst e) @ ''/'' @ sds_quote str @ ''/'' @ sds_quote (snd e)"

definition hp_sub_dosub :: "'u sub_cbs \<Rightarrow> conn \<Rightarrow> string list \<Rightarrow> 'u pubw \<Rightarrow> int \<times> 'u pubw" where
  "hp_sub_dosub cbs c topics w =
     (let p = cdata w c;
          (rc, w) = redisAsyncCommand c CB_msg NULL (''subscribe'' # topics) w
      in if rc = 0 then (rc, w)
         else case subs w p of None \<Rightarrow> (rc, w\<lparr>pw_fault := True\<rparr>)
           | Some s \<Rightarrow>
             (rc, if sub_cb s \<noteq> NULL
                  then cbs (sub_cb s) p None ''subscribe'' (redis_failed ''hp_sub_dosub'' ''subscribe'' (cerr w c) []) w
                  else w))"

definition hp_sub_session_cb :: "'u sub_cbs \<Rightarrow> conn \<Rightarrow> redis_reply option \<Rightarrow> ptr \<Rightarrow> 'u pubw \<Rightarrow> 'u pubw" where
  "hp_sub_session_cb cbs c ro a w =
     (case asyncs w a of None \<Rightarrow> w\<lparr>pw_fault := True\<rparr>
      | Some x \<Rightarrow>
        let es = (case ro of None \<Rightarrow> [] | Some r \<Rightarrow> rr_elements r);
            w = (if as_s x = NULL then w
                 else case subs w (as_s x) of None \<Rightarrow> w\<lparr>pw_fault := True\<rparr>
                   | Some s \<Rightarrow>
                     if \<not> reply_ok ro then
                       (if sub_cb s \<noteq> NULL
                        then cbs (sub_cb s) (as_s x) None ''HKEYS''
                          (redis_failed ''hp_sub_session_cb'' ''HKEYS'' (cerr w c) (case ro of None \<Rightarrow> [] | Some r \<Rightarrow> rr_str r)) w
                        else w)
                     else if es = [] then w
                     else snd (hp_sub_dosub cbs (sub_subc s) (map rr_str es) w))
        in async_done a w)"

definition hp_sub_sup :: "conn \<Rightarrow> string \<Rightarrow> string \<Rightarrow> string list \<Rightarrow> 'u pubw \<Rightarrow> int \<times> 'u pubw" where
  "hp_sub_sup c shasup sid topics w =
     redisAsyncCommand c CB_sup NULL ([''evalsha'', shasup, nat_text (length topics)] @ topics @ [sid]) w"

subsection \<open>Set-up, requests and clean-up\<close>

text \<open>
  \<open>hp_subc_free\<close> is the clean-up hiredis calls when the connection goes: every outstanding
  request forgets the subscription, and the subscription is freed.
\<close>

definition async_forget :: "ptr \<Rightarrow> 'u pubw \<Rightarrow> 'u pubw" where
  "async_forget a w =
     (case asyncs w a of None \<Rightarrow> w\<lparr>pw_fault := True\<rparr> | Some x \<Rightarrow> w\<lparr>asyncs := (asyncs w)(a \<mapsto> x\<lparr>as_s := NULL\<rparr>)\<rparr>)"

definition hp_subc_free :: "ptr \<Rightarrow> 'u pubw \<Rightarrow> 'u pubw" where
  "hp_subc_free p w =
     (case subs w p of None \<Rightarrow> w\<lparr>pw_fault := True\<rparr>
      | Some s \<Rightarrow> let w = fold async_forget (async_list s) w in w\<lparr>subs := (subs w)(p := None)\<rparr>)"

definition disconnectCallback :: "'u sub_cbs \<Rightarrow> conn \<Rightarrow> 'u pubw \<Rightarrow> 'u pubw" where
  "disconnectCallback cbs c w =
     (if cdata w c = NULL then w
      else case subs w (cdata w c) of None \<Rightarrow> w\<lparr>pw_fault := True\<rparr>
        | Some s \<Rightarrow> if sub_cb s \<noteq> NULL then cbs (sub_cb s) (cdata w c) None [] (snd (cerr w c)) w else w)"

text \<open>
  The ids are copied with \<open>strncpy\<close>, which fills up with zeros, into zeroed arrays of 64 and
  128 bytes.
\<close>

definition c_strncpy :: "nat \<Rightarrow> string \<Rightarrow> string" where
  "c_strncpy n src = take n src"

definition hp_subc_arg ::
  "conn option \<Rightarrow> conn option \<Rightarrow> string option \<Rightarrow> string option \<Rightarrow> string option \<Rightarrow> fnptr \<Rightarrow> ptr \<times> int \<Rightarrow> 'u pubw \<Rightarrow>
   conn option \<times> 'u pubw" where
  "hp_subc_arg co subco shasubo shasupo sido cb arg w =
     (case (co, subco, shasubo, shasupo, sido) of
        (Some c, Some subc, Some shasub, Some shasup, Some sid) \<Rightarrow>
          let w = (if cdata w subc = NULL
                   then w\<lparr>subs := (subs w)(pnxt w \<mapsto>
                            \<lparr>sub_c = 0, sub_subc = 0, sub_shasub = [], sub_shasup = [], sub_sid = [], sub_cb = NULL,
                             sub_arg = NULL, sub_argi = 0, async_list = []\<rparr>),
                          cdata := (cdata w)(subc := pnxt w), pnxt := pnxt w + 1\<rparr>
                   else w);
              w = sub_upd (cdata w subc) (\<lambda>s. s\<lparr>sub_cb := cb, sub_arg := fst arg, sub_argi := snd arg, sub_c := c,
                    sub_subc := subc, sub_shasub := c_strncpy 63 shasub,
                    sub_sid := c_strncpy 127 sid, sub_shasup := c_strncpy 63 shasup\<rparr>) w
          in (Some subc, w\<lparr>cdiscon := (cdiscon w)(subc := True)\<rparr>)
      | _ \<Rightarrow> (None, w))"

definition hp_subc ::
  "conn option \<Rightarrow> conn option \<Rightarrow> string option \<Rightarrow> string option \<Rightarrow> string option \<Rightarrow> fnptr \<Rightarrow> ptr \<Rightarrow> 'u pubw \<Rightarrow>
   conn option \<times> 'u pubw" where
  "hp_subc co subco shasubo shasupo sido cb arg = hp_subc_arg co subco shasubo shasupo sido cb (arg, 0)"

definition hp_sub :: "'u sub_cbs \<Rightarrow> conn option \<Rightarrow> int \<Rightarrow> string list option \<Rightarrow> 'u pubw \<Rightarrow> int \<times> 'u pubw" where
  "hp_sub cbs subco n_topic topico w =
     (case subco of None \<Rightarrow> (-1, w)
      | Some subc \<Rightarrow>
        if cdata w subc = NULL then (-1, w)
        else case subs w (cdata w subc) of None \<Rightarrow> (0, w\<lparr>pw_fault := True\<rparr>)
          | Some s \<Rightarrow>
            if topico \<noteq> None \<and> n_topic > 0 then
              let topics = take (nat n_topic) (the topico);
                  w = snd (hp_sub_sup (sub_c s) (sub_shasup s) (sub_sid s) topics w)
              in hp_sub_dosub cbs subc topics w
            else case async_new (cdata w subc) w of (a, w) \<Rightarrow>
              redisAsyncCommand (sub_c s) CB_session a [''HKEYS'', sub_sid s] w)"

definition hp_unsub :: "conn option \<Rightarrow> 'u pubw \<Rightarrow> int \<times> 'u pubw" where
  "hp_unsub subco w = (case subco of None \<Rightarrow> (-1, w) | Some c \<Rightarrow> redisAsyncCommand c CB_none NULL [''UNSUBSCRIBE''] w)"

definition hp_sub_ping :: "conn option \<Rightarrow> 'u pubw \<Rightarrow> int \<times> 'u pubw" where
  "hp_sub_ping subco w = (case subco of None \<Rightarrow> (-1, w) | Some c \<Rightarrow> redisAsyncCommand c CB_none NULL [''ping''] w)"

subsection \<open>Events\<close>

text \<open>The reply callbacks hiredis calls; \<open>hp_pub_pub_cb\<close> and \<open>sup_cb\<close> only write to the log.\<close>

fun pub_reply :: "'u sub_cbs \<Rightarrow> conn \<times> redis_cb \<times> ptr \<Rightarrow> redis_reply option \<Rightarrow> 'u pubw \<Rightarrow> 'u pubw" where
  "pub_reply cbs (c, CB_all, a) ro w = hp_sub_all_cb cbs ro a w"
| "pub_reply cbs (c, CB_session, a) ro w = hp_sub_session_cb cbs c ro a w"
| "pub_reply cbs (c, CB_msg, a) ro w = msg_cb cbs c ro w"
| "pub_reply cbs (c, _, a) ro w = w"

text \<open>Replies on a subscription connection, as documented: three elements, or an error.\<close>

definition msg_reply :: "redis_reply option \<Rightarrow> bool" where
  "msg_reply ro \<longleftrightarrow> (case ro of None \<Rightarrow> True | Some r \<Rightarrow> reply_ok ro \<longrightarrow> 3 \<le> length (rr_elements r))"

text \<open>
  The events: calls of the program, replies to outstanding commands in any order, further
  messages for a subscription, and the end of a connection. hiredis gives every command
  that is outstanding on it a NULL reply before it calls the disconnect callback and the
  clean-up.
\<close>

inductive pub_step :: "'u sub_cbs \<Rightarrow> 'u pubw \<Rightarrow> 'u pubw \<Rightarrow> bool" for cbs where
  pub_setup_step: "pub_step cbs w (snd (hp_subc_arg co subco shasub shasup sid cb arg w))"
| pub_subscribe_step: "pub_step cbs w (snd (hp_sub cbs subco n topics w))"
| pub_unsubscribe_step: "pub_step cbs w (snd (hp_unsub subco w))"
| pub_ping_step: "pub_step cbs w (snd (hp_sub_ping subco w))"
| pub_publish_step: "pub_step cbs w (snd (hp_pub sec usec co topic msg len done w))"
| pub_reply_step: "k \<in> set (pending w) \<Longrightarrow> (fst (snd k) = CB_msg \<longrightarrow> msg_reply ro) \<Longrightarrow>
    pub_step cbs w (pub_reply cbs k ro (w\<lparr>pending := remove1 k (pending w)\<rparr>))"
| pub_message_step: "cdata w c \<noteq> NULL \<Longrightarrow> msg_reply ro \<Longrightarrow> pub_step cbs w (msg_cb cbs c ro w)"
| pub_disconnect_step: "cdata w c \<noteq> NULL \<Longrightarrow> c \<notin> fst ` set (pending w) \<Longrightarrow>
    pub_step cbs w ((hp_subc_free (cdata w c) (disconnectCallback cbs c w))\<lparr>cdata := (cdata w)(c := NULL)\<rparr>)"

inductive_cases pub_stepE: "pub_step cbs w w'"

subsection \<open>Invariant\<close>

text \<open>The blocks the outstanding requests point to.\<close>

definition is_async :: "redis_cb \<Rightarrow> bool" where
  "is_async cb = (cb = CB_all \<or> cb = CB_session)"

definition pend_asyncs :: "(conn \<times> redis_cb \<times> ptr) list \<Rightarrow> ptr list" where
  "pend_asyncs ps = map (\<lambda>k. snd (snd k)) (filter (\<lambda>k. is_async (fst (snd k))) ps)"

definition pi_subs :: "'u pubw \<Rightarrow> bool" where
  "pi_subs w \<longleftrightarrow> (\<forall>p s. subs w p = Some s \<longrightarrow>
     p \<noteq> NULL \<and> p < pnxt w \<and> distinct (async_list s) \<and> cdata w (sub_subc s) = p \<and>
     (\<forall>a \<in> set (async_list s). asyncs w a = Some \<lparr>as_s = p\<rparr>))"

definition pi_asyncs :: "'u pubw \<Rightarrow> bool" where
  "pi_asyncs w \<longleftrightarrow> (\<forall>a x. asyncs w a = Some x \<longrightarrow>
     a < pnxt w \<and> (as_s x = NULL \<or> (\<exists>s. subs w (as_s x) = Some s \<and> a \<in> set (async_list s))))"

definition pi_data :: "'u pubw \<Rightarrow> bool" where
  "pi_data w \<longleftrightarrow> (\<forall>c. cdata w c \<noteq> NULL \<longrightarrow> (\<exists>s. subs w (cdata w c) = Some s \<and> sub_subc s = c)) \<and>
     0 < pnxt w \<and> \<not> pw_fault w"

definition pi_pend :: "'u pubw \<Rightarrow> bool" where
  "pi_pend w \<longleftrightarrow> distinct (pend_asyncs (pending w)) \<and> set (pend_asyncs (pending w)) \<subseteq> dom (asyncs w) \<and>
     (\<forall>k \<in> set (pending w). fst (snd k) = CB_msg \<longrightarrow> cdata w (fst k) \<noteq> NULL)"

text \<open>Nothing is lost: with every command accepted, each live block but those of \<open>X\<close> awaits a reply.\<close>

definition pi_live :: "bool \<Rightarrow> ptr set \<Rightarrow> 'u pubw \<Rightarrow> bool" where
  "pi_live b X w \<longleftrightarrow> (b \<longrightarrow> rcs w = [] \<and> dom (asyncs w) \<subseteq> set (pend_asyncs (pending w)) \<union> X)"

definition pub_inv :: "bool \<Rightarrow> ptr set \<Rightarrow> 'u pubw \<Rightarrow> bool" where
  "pub_inv b X w \<longleftrightarrow> pi_subs w \<and> pi_asyncs w \<and> pi_data w \<and> pi_pend w \<and> pi_live b X w"

lemmas pub_inv_defs = pub_inv_def pi_subs_def pi_asyncs_def pi_data_def pi_pend_def pi_live_def

lemma pend_asyncs_simps [simp]:
  "pend_asyncs (xs @ ys) = pend_asyncs xs @ pend_asyncs ys" "pend_asyncs [] = []"
  "pend_asyncs (k # ks) = (if is_async (fst (snd k)) then snd (snd k) # pend_asyncs ks else pend_asyncs ks)"
  by (simp_all add: pend_asyncs_def)

lemma pend_asyncs_mem: "k \<in> set ks \<Longrightarrow> is_async (fst (snd k)) \<Longrightarrow> snd (snd k) \<in> set (pend_asyncs ks)"
  by (force simp: pend_asyncs_def)

lemma pend_asyncs_remove1:
  assumes "distinct (pend_asyncs ks)" and "k \<in> set ks"
  shows "pend_asyncs (remove1 k ks) =
    (if is_async (fst (snd k)) then remove1 (snd (snd k)) (pend_asyncs ks) else pend_asyncs ks)"
  using assms
proof (induction ks)
  case (Cons j ks)
  show ?case
  proof (cases "k = j")
    case False
    then have "k \<in> set ks" using Cons.prems by simp
    with Cons False pend_asyncs_mem [of k ks] show ?thesis by (auto split: if_splits)
  qed simp
qed simp

lemma pub_inv_asyncD:
  "pub_inv b X w \<Longrightarrow> asyncs w a = Some x \<Longrightarrow>
   a < pnxt w \<and> (as_s x = NULL \<or> (\<exists>s. subs w (as_s x) = Some s \<and> a \<in> set (async_list s)))"
  unfolding pub_inv_def pi_asyncs_def by blast

lemma pub_inv_data_upd:
  assumes "pub_inv b X w" and "subs w p = Some s" and "sub_subc s1 = sub_subc s" and "cdata w c \<noteq> NULL"
  shows "\<exists>s'. ((subs w)(p \<mapsto> s1)) (cdata w c) = Some s' \<and> sub_subc s' = c"
proof -
  obtain s' where "subs w (cdata w c) = Some s'" "sub_subc s' = c"
    using assms(1,4) by (auto simp: pub_inv_def pi_data_def)
  with assms(2,3) show ?thesis by (cases "cdata w c = p") auto
qed

text \<open>A sent command that carries no block.\<close>

lemma pub_inv_command:
  assumes "pub_inv b X w" and "\<not> is_async cb" and "cb = CB_msg \<longrightarrow> cdata w c \<noteq> NULL"
  shows "pub_inv b X (snd (redisAsyncCommand c cb p argv w))"
  using assms by (cases "rcs w") (auto simp: redisAsyncCommand_def Let_def pub_inv_defs)

lemma redisAsyncCommand_frame:
  assumes "redisAsyncCommand c cb p argv w = (rc, w')"
  shows "subs w' = subs w \<and> asyncs w' = asyncs w \<and> cdata w' = cdata w \<and> pw_fault w' = pw_fault w \<and>
    pnxt w' = pnxt w \<and> rcs w' = tl (rcs w) \<and>
    (pending w' = pending w @ [(c, cb, p)] \<or> pending w' = pending w \<and> rcs w \<noteq> [])"
  using assms by (auto simp: redisAsyncCommand_def Let_def split: list.splits if_splits)

subsection \<open>Each operation keeps the invariant\<close>

text \<open>A request: a new block, linked to its subscription, and the command that carries it.\<close>

lemma pub_inv_request:
  assumes inv: "pub_inv b X w" and s: "subs w p = Some s" and cb: "is_async cb" and n: "async_new p w = (a, w1)"
  shows "pub_inv b X (snd (redisAsyncCommand c cb a argv w1))"
proof -
  let ?s = "s\<lparr>async_list := async_list s @ [pnxt w]\<rparr>"
  have a: "a = pnxt w" and w1: "w1 = w\<lparr>pnxt := pnxt w + 1, asyncs := (asyncs w)(pnxt w \<mapsto> \<lparr>as_s = p\<rparr>),
      subs := (subs w)(p \<mapsto> ?s)\<rparr>"
    using n s by (auto simp: async_new_def sub_upd_def Let_def)
  have fresh: "asyncs w (pnxt w) = None"
    using inv by (cases "asyncs w (pnxt w)") (auto simp: pub_inv_def pi_asyncs_def)
  have notin: "pnxt w \<notin> set (async_list s')" if "subs w q = Some s'" for q s'
    using inv that fresh by (auto simp: pub_inv_def pi_subs_def)
  have np: "pnxt w \<notin> set (pend_asyncs (pending w))" using inv fresh by (auto simp: pub_inv_def pi_pend_def)
  obtain rc w2 where r: "redisAsyncCommand c cb a argv w1 = (rc, w2)" by (rule prod.exhaust)
  note fr = redisAsyncCommand_frame [OF r]
  have ps: "pending w2 = pending w @ [(c, cb, pnxt w)] \<or> pending w2 = pending w \<and> rcs w \<noteq> []"
    using fr by (simp add: w1 a)
  let ?w = w2
  have f: "subs ?w = (subs w)(p \<mapsto> ?s)" "asyncs ?w = (asyncs w)(pnxt w \<mapsto> \<lparr>as_s = p\<rparr>)" "cdata ?w = cdata w"
    "pnxt ?w = pnxt w + 1" "pw_fault ?w = pw_fault w" "rcs ?w = tl (rcs w)"
    using fr by (simp_all add: w1)
  have "pi_subs ?w" unfolding pi_subs_def f
    using inv s notin fresh by (auto simp: pub_inv_def pi_subs_def less_Suc_eq)
  moreover have "pi_asyncs ?w" unfolding pi_asyncs_def f
  proof (intro allI impI)
    fix d x assume "((asyncs w)(pnxt w \<mapsto> \<lparr>as_s = p\<rparr>)) d = Some x"
    then have "d = pnxt w \<and> x = \<lparr>as_s = p\<rparr> \<or> asyncs w d = Some x" by (cases "d = pnxt w") simp_all
    then show "d < pnxt w + 1 \<and> (as_s x = NULL \<or> (\<exists>s'. ((subs w)(p \<mapsto> ?s)) (as_s x) = Some s' \<and> d \<in> set (async_list s')))"
    proof (elim disjE conjE)
      assume "asyncs w d = Some x"
      note d = pub_inv_asyncD [OF inv this]
      show ?thesis
      proof (cases "as_s x = p")
        case True
        with d s show ?thesis by auto
      next
        case False
        with d show ?thesis by simp
      qed
    qed simp
  qed
  moreover have "pi_data ?w" unfolding pi_data_def f
    using inv pub_inv_data_upd [OF inv s] by (simp add: pub_inv_def pi_data_def)
  moreover have "pi_pend ?w" unfolding pi_pend_def f
    using inv ps np cb by (auto simp: pub_inv_def pi_pend_def is_async_def)
  moreover have "pi_live b X ?w" unfolding pi_live_def f
    using inv ps cb by (auto simp: pub_inv_def pi_live_def)
  ultimately show ?thesis using r by (simp add: pub_inv_def)
qed

lemma pub_inv_cdata: "pub_inv b X w \<Longrightarrow> cdata w c \<noteq> NULL \<Longrightarrow> \<exists>s. subs w (cdata w c) = Some s"
  by (auto simp: pub_inv_def pi_data_def)

lemma hp_sub_all_inv: "pub_inv b X w \<Longrightarrow> subs w p \<noteq> None \<Longrightarrow> pub_inv b X (snd (hp_sub_all p w))"
  using pub_inv_request [of b X w p _ CB_all]
  by (auto simp: hp_sub_all_def is_async_def split: option.splits prod.splits)

text \<open>The end of a request: its block is unlinked and freed.\<close>

lemma async_done_inv:
  assumes inv: "pub_inv b {a} w" and a: "asyncs w a \<noteq> None" and np: "a \<notin> set (pend_asyncs (pending w))"
  shows "pub_inv b {} (async_done a w)"
proof -
  obtain x where x: "asyncs w a = Some x" using a by blast
  show ?thesis
  proof (cases "as_s x = NULL")
    case True
    have "a \<notin> set (async_list s)" if "subs w p = Some s" for p s
      using inv that x True by (force simp: pub_inv_def pi_subs_def)
    then have "pi_subs (async_done a w)" using inv x True by (auto simp: async_done_def pub_inv_def pi_subs_def)
    with inv x True np show ?thesis by (auto simp: async_done_def pub_inv_defs)
  next
    case False
    then obtain s where s: "subs w (as_s x) = Some s" "a \<in> set (async_list s)"
      using pub_inv_asyncD [OF inv x] by auto
    let ?w = "async_done a w"
    have f: "subs ?w = (subs w)(as_s x \<mapsto> s\<lparr>async_list := remove1 a (async_list s)\<rparr>)" "asyncs ?w = (asyncs w)(a := None)"
      "cdata ?w = cdata w" "pnxt ?w = pnxt w" "pw_fault ?w = pw_fault w" "pending ?w = pending w" "rcs ?w = rcs w"
      using x s False by (simp_all add: async_done_def sub_upd_def)
    have d: "distinct (async_list s)" using inv s by (auto simp: pub_inv_def pi_subs_def)
    have other: "a \<notin> set (async_list s')" if "subs w q = Some s'" "q \<noteq> as_s x" for q s'
      using inv that x by (force simp: pub_inv_def pi_subs_def)
    have "pi_subs ?w" unfolding pi_subs_def f
      using inv s other d by (auto simp: pub_inv_def pi_subs_def)
    moreover have "pi_asyncs ?w" unfolding pi_asyncs_def f
    proof (intro allI impI)
      fix d z assume "((asyncs w)(a := None)) d = Some z"
      then have "d \<noteq> a" "asyncs w d = Some z" by (auto split: if_splits)
      from this(1) pub_inv_asyncD [OF inv this(2)] s
      show "d < pnxt w \<and> (as_s z = NULL \<or>
        (\<exists>s'. ((subs w)(as_s x \<mapsto> s\<lparr>async_list := remove1 a (async_list s)\<rparr>)) (as_s z) = Some s' \<and> d \<in> set (async_list s')))"
        by auto
    qed
    moreover have "pi_data ?w" unfolding pi_data_def f
      using inv pub_inv_data_upd [OF inv s(1)] by (simp add: pub_inv_def pi_data_def)
    moreover have "pi_pend ?w" unfolding pi_pend_def f using inv np by (auto simp: pub_inv_def pi_pend_def)
    moreover have "pi_live b {} ?w" unfolding pi_live_def f using inv by (auto simp: pub_inv_def pi_live_def)
    ultimately show ?thesis by (simp add: pub_inv_def)
  qed
qed

text \<open>Callbacks that change nothing but the state of the program.\<close>

definition sub_calm :: "'u sub_cbs \<Rightarrow> bool" where
  "sub_calm cbs \<longleftrightarrow> (\<forall>f p t i m w. \<exists>u. cbs f p t i m w = w\<lparr>pw_user := u\<rparr>)"

lemma pub_inv_user [simp]: "pub_inv b X (w\<lparr>pw_user := u\<rparr>) = pub_inv b X w"
  by (simp add: pub_inv_defs)

lemma sub_calm_inv: "sub_calm cbs \<Longrightarrow> pub_inv b X w \<Longrightarrow> pub_inv b X (cbs f p t i m w)"
  by (metis sub_calm_def pub_inv_user)

lemma sub_deliver_calm:
  assumes "sub_calm cbs" and "asyncs w a = Some y" and "subs w (as_s y) \<noteq> None"
  shows "\<exists>u. sub_deliver cbs a xs w = w\<lparr>pw_user := u\<rparr>"
  using assms(2,3)
proof (induction xs arbitrary: w)
  case Nil
  show ?case by (intro exI [of _ "pw_user w"]) simp
next
  case (Cons x xs)
  then obtain s where s: "subs w (as_s y) = Some s" by blast
  define w1 where "w1 = (if sub_cb s \<noteq> NULL
    then cbs (sub_cb s) (as_s y) (Some (snd (snd x))) (fst x) (fst (snd x)) w else w)"
  have "\<exists>u. w1 = w\<lparr>pw_user := u\<rparr>"
  proof (cases "sub_cb s = NULL")
    case True
    then show ?thesis by (intro exI [of _ "pw_user w"]) (simp add: w1_def)
  next
    case False
    then show ?thesis using assms(1) by (simp add: w1_def sub_calm_def)
  qed
  then obtain u where u: "w1 = w\<lparr>pw_user := u\<rparr>" by blast
  then have "asyncs w1 a = Some y" "subs w1 (as_s y) \<noteq> None" using Cons.prems by simp_all
  from Cons.IH [OF this] obtain u' where "sub_deliver cbs a xs w1 = w1\<lparr>pw_user := u'\<rparr>" by blast
  moreover have "sub_deliver cbs a (x # xs) w = sub_deliver cbs a xs w1" using Cons.prems s by (simp add: w1_def)
  ultimately show ?case using u by (intro exI [of _ u']) simp
qed

lemma redis_dosub_inv:
  assumes "sub_calm cbs" and "pub_inv b X w" and "cdata w c \<noteq> NULL"
  shows "pub_inv b X (snd (hp_sub_dosub cbs c topics w))"
proof -
  obtain rc w1 where r: "redisAsyncCommand c CB_msg NULL (''subscribe'' # topics) w = (rc, w1)" by (rule prod.exhaust)
  have i: "pub_inv b X w1" using pub_inv_command [OF assms(2), of CB_msg c NULL "''subscribe'' # topics"] assms(3) r
    by (simp add: is_async_def)
  have "subs w1 (cdata w c) \<noteq> None" using pub_inv_cdata [OF assms(2,3)] redisAsyncCommand_frame [OF r] by auto
  with r i sub_calm_inv [OF assms(1) i] show ?thesis by (auto simp: hp_sub_dosub_def Let_def)
qed

lemma hp_subc_arg_inv:
  assumes inv: "pub_inv b X w"
  shows "pub_inv b X (snd (hp_subc_arg co subco shasubo shasupo sido cb arg w))"
proof (cases "co = None \<or> subco = None \<or> shasubo = None \<or> shasupo = None \<or> sido = None")
  case True
  with inv show ?thesis by (auto simp: hp_subc_arg_def split: option.splits)
next
  case False
  then obtain c subc sh su sid where args: "co = Some c" "subco = Some subc" "shasubo = Some sh" "shasupo = Some su" "sido = Some sid"
    by auto
  show ?thesis
  proof (cases "cdata w subc = NULL")
    case True
    let ?p = "pnxt w"
    define s0 where "s0 = \<lparr>sub_c = c, sub_subc = subc, sub_shasub = c_strncpy 63 sh, sub_shasup = c_strncpy 63 su,
      sub_sid = c_strncpy 127 sid, sub_cb = cb, sub_arg = fst arg, sub_argi = snd arg, async_list = []\<rparr>"
    let ?w = "snd (hp_subc_arg co subco shasubo shasupo sido cb arg w)"
    have f: "subs ?w = (subs w)(?p \<mapsto> s0)" "asyncs ?w = asyncs w" "cdata ?w = (cdata w)(subc := ?p)"
      "pnxt ?w = ?p + 1" "pw_fault ?w = pw_fault w" "pending ?w = pending w" "rcs ?w = rcs w"
      by (simp_all add: hp_subc_arg_def args True sub_upd_def s0_def Let_def)
    have s0: "sub_subc s0 = subc" "async_list s0 = []" by (simp_all add: s0_def)
    have fresh: "subs w ?p = None"
      using inv by (cases "subs w ?p") (auto simp: pub_inv_def pi_subs_def)
    have pos: "0 < ?p" using inv by (simp add: pub_inv_def pi_data_def)
    have "pi_subs ?w" unfolding pi_subs_def f
    proof (intro allI impI)
      fix q s assume q: "((subs w)(?p \<mapsto> s0)) q = Some s"
      show "q \<noteq> NULL \<and> q < ?p + 1 \<and> distinct (async_list s) \<and> ((cdata w)(subc := ?p)) (sub_subc s) = q \<and>
        (\<forall>a \<in> set (async_list s). asyncs w a = Some \<lparr>as_s = q\<rparr>)"
      proof (cases "q = ?p")
        case True
        with q s0 pos show ?thesis by simp
      next
        case False
        with q have "subs w q = Some s" by simp
        with inv have "q \<noteq> NULL \<and> q < ?p \<and> distinct (async_list s) \<and> cdata w (sub_subc s) = q \<and>
          (\<forall>a \<in> set (async_list s). asyncs w a = Some \<lparr>as_s = q\<rparr>)"
          unfolding pub_inv_def pi_subs_def by blast
        with True show ?thesis by auto
      qed
    qed
    moreover have "pi_asyncs ?w" unfolding pi_asyncs_def f
    proof (intro allI impI)
      fix a x assume "asyncs w a = Some x"
      from pub_inv_asyncD [OF inv this] fresh
      show "a < ?p + 1 \<and> (as_s x = NULL \<or> (\<exists>s. ((subs w)(?p \<mapsto> s0)) (as_s x) = Some s \<and> a \<in> set (async_list s)))"
        by (cases "as_s x = ?p") auto
    qed
    moreover have "pi_data ?w" unfolding pi_data_def f
    proof (intro conjI allI impI)
      fix d assume d: "((cdata w)(subc := ?p)) d \<noteq> NULL"
      show "\<exists>s. ((subs w)(?p \<mapsto> s0)) (((cdata w)(subc := ?p)) d) = Some s \<and> sub_subc s = d"
      proof (cases "d = subc")
        case True
        with s0 show ?thesis by simp
      next
        case False
        with d inv obtain s where "subs w (cdata w d) = Some s" "sub_subc s = d"
          by (auto simp: pub_inv_def pi_data_def)
        with False fresh show ?thesis by (cases "cdata w d = ?p") auto
      qed
    qed (use inv in \<open>simp_all add: pub_inv_def pi_data_def\<close>)
    moreover have "pi_pend ?w" unfolding pi_pend_def f
      using inv pos by (auto simp: pub_inv_def pi_pend_def)
    moreover have "pi_live b X ?w" unfolding pi_live_def f using inv by (simp add: pub_inv_def pi_live_def)
    ultimately show ?thesis by (simp add: pub_inv_def)
  next
    case nz: False
    let ?p = "cdata w subc"
    obtain s where s: "subs w ?p = Some s" "sub_subc s = subc"
      using inv nz by (auto simp: pub_inv_def pi_data_def)
    define s1 where "s1 = s\<lparr>sub_cb := cb, sub_arg := fst arg, sub_argi := snd arg, sub_c := c, sub_subc := subc,
      sub_shasub := c_strncpy 63 sh, sub_sid := c_strncpy 127 sid, sub_shasup := c_strncpy 63 su\<rparr>"
    let ?w = "snd (hp_subc_arg co subco shasubo shasupo sido cb arg w)"
    have f: "subs ?w = (subs w)(?p \<mapsto> s1)" "asyncs ?w = asyncs w" "cdata ?w = cdata w"
      "pnxt ?w = pnxt w" "pw_fault ?w = pw_fault w" "pending ?w = pending w" "rcs ?w = rcs w"
      using nz s by (simp_all add: hp_subc_arg_def args sub_upd_def s1_def Let_def)
    have s1: "sub_subc s1 = sub_subc s" "async_list s1 = async_list s" using s by (simp_all add: s1_def)
    have "pi_subs ?w" unfolding pi_subs_def f
      using inv s s1 by (auto simp: pub_inv_def pi_subs_def)
    moreover have "pi_asyncs ?w" unfolding pi_asyncs_def f
    proof (intro allI impI)
      fix a x assume "asyncs w a = Some x"
      from pub_inv_asyncD [OF inv this] s s1
      show "a < pnxt w \<and> (as_s x = NULL \<or> (\<exists>s. ((subs w)(?p \<mapsto> s1)) (as_s x) = Some s \<and> a \<in> set (async_list s)))"
        by (cases "as_s x = ?p") auto
    qed
    moreover have "pi_data ?w" unfolding pi_data_def f
      using inv pub_inv_data_upd [OF inv s(1) s1(1)] by (simp add: pub_inv_def pi_data_def)
    moreover have "pi_pend ?w" unfolding pi_pend_def f using inv by (simp add: pub_inv_def pi_pend_def)
    moreover have "pi_live b X ?w" unfolding pi_live_def f using inv by (simp add: pub_inv_def pi_live_def)
    ultimately show ?thesis by (simp add: pub_inv_def)
  qed
qed

text \<open>The clean-up: no request remembers the subscription.\<close>

lemma fold_async_forget:
  "\<forall>a \<in> set as. asyncs w a \<noteq> None \<Longrightarrow>
   fold async_forget as w = w\<lparr>asyncs := (\<lambda>a. if a \<in> set as then Some \<lparr>as_s = NULL\<rparr> else asyncs w a)\<rparr>"
proof (induction as arbitrary: w)
  case Nil
  show ?case by simp
next
  case (Cons a as)
  let ?w = "w\<lparr>asyncs := (asyncs w)(a \<mapsto> \<lparr>as_s = NULL\<rparr>)\<rparr>"
  obtain y where y: "asyncs w a = Some y" using Cons.prems by auto
  have eq: "y\<lparr>as_s := NULL\<rparr> = \<lparr>as_s = NULL\<rparr>" by (cases y) simp
  have "async_forget a w = w\<lparr>asyncs := (asyncs w)(a \<mapsto> y\<lparr>as_s := NULL\<rparr>)\<rparr>"
    using y by (simp add: async_forget_def)
  then have "async_forget a w = ?w" unfolding eq .
  moreover have "fold async_forget as ?w = ?w\<lparr>asyncs := (\<lambda>d. if d \<in> set as then Some \<lparr>as_s = NULL\<rparr> else asyncs ?w d)\<rparr>"
    by (rule Cons.IH) (use Cons.prems in auto)
  moreover have "(\<lambda>d. if d \<in> set as then Some \<lparr>as_s = NULL\<rparr> else asyncs ?w d) =
      (\<lambda>d. if d \<in> set (a # as) then Some \<lparr>as_s = NULL\<rparr> else asyncs w d)" by auto
  ultimately show ?case by simp
qed

lemma hp_subc_free_inv:
  assumes inv: "pub_inv b X w" and c: "cdata w c \<noteq> NULL" and np: "c \<notin> fst ` set (pending w)"
  shows "pub_inv b X ((hp_subc_free (cdata w c) w)\<lparr>cdata := (cdata w)(c := NULL)\<rparr>)"
proof -
  let ?p = "cdata w c"
  obtain s where s: "subs w ?p = Some s" "sub_subc s = c" using inv c by (auto simp: pub_inv_def pi_data_def)
  have sx: "q \<noteq> NULL \<and> q < pnxt w \<and> distinct (async_list s') \<and> cdata w (sub_subc s') = q \<and>
      (\<forall>a \<in> set (async_list s'). asyncs w a = Some \<lparr>as_s = q\<rparr>)" if "subs w q = Some s'" for q s'
    using inv that unfolding pub_inv_def pi_subs_def by blast
  have "\<forall>a \<in> set (async_list s). asyncs w a \<noteq> None" using sx [OF s(1)] by auto
  note fold = fold_async_forget [OF this]
  let ?as = "\<lambda>a. if a \<in> set (async_list s) then Some \<lparr>as_s = NULL\<rparr> else asyncs w a"
  let ?w = "(hp_subc_free ?p w)\<lparr>cdata := (cdata w)(c := NULL)\<rparr>"
  have f: "subs ?w = (subs w)(?p := None)" "asyncs ?w = ?as" "cdata ?w = (cdata w)(c := NULL)" "pnxt ?w = pnxt w"
    "pw_fault ?w = pw_fault w" "pending ?w = pending w" "rcs ?w = rcs w"
    using s fold by (simp_all add: hp_subc_free_def Let_def)
  have other: "a \<notin> set (async_list s)" if "subs w q = Some s'" "q \<noteq> ?p" "a \<in> set (async_list s')" for q s' a
    using sx [OF that(1)] sx [OF s(1)] that(2,3) by (metis hp_sub_async_t.ext_inject option.inject)
  have "pi_subs ?w" unfolding pi_subs_def f
  proof (intro allI impI)
    fix q s' assume "((subs w)(?p := None)) q = Some s'"
    then have q: "subs w q = Some s'" "q \<noteq> ?p" by (auto split: if_splits)
    have "sub_subc s' \<noteq> c" using sx [OF q(1)] q(2) by auto
    with sx [OF q(1)] other [OF q] show "q \<noteq> NULL \<and> q < pnxt w \<and> distinct (async_list s') \<and>
      ((cdata w)(c := NULL)) (sub_subc s') = q \<and> (\<forall>a \<in> set (async_list s'). ?as a = Some \<lparr>as_s = q\<rparr>)" by auto
  qed
  moreover have "pi_asyncs ?w" unfolding pi_asyncs_def f
  proof (intro allI impI)
    fix a x assume a: "?as a = Some x"
    show "a < pnxt w \<and> (as_s x = NULL \<or> (\<exists>s. ((subs w)(?p := None)) (as_s x) = Some s \<and> a \<in> set (async_list s)))"
    proof (cases "a \<in> set (async_list s)")
      case True
      then have "asyncs w a = Some \<lparr>as_s = ?p\<rparr>" using sx [OF s(1)] by blast
      from pub_inv_asyncD [OF inv this] have "a < pnxt w" by simp
      moreover have "as_s x = NULL" using a True by auto
      ultimately show ?thesis by simp
    next
      case False
      with a have x: "asyncs w a = Some x" by simp
      have "as_s x \<noteq> ?p \<or> as_s x = NULL" using pub_inv_asyncD [OF inv x] s False by auto
      with pub_inv_asyncD [OF inv x] show ?thesis by auto
    qed
  qed
  moreover have "pi_data ?w" unfolding pi_data_def f
  proof (intro conjI allI impI)
    fix d assume d: "((cdata w)(c := NULL)) d \<noteq> NULL"
    then have dc: "d \<noteq> c" "cdata w d \<noteq> NULL" by (auto split: if_splits)
    with inv obtain s' where s': "subs w (cdata w d) = Some s'" "sub_subc s' = d"
      by (auto simp: pub_inv_def pi_data_def)
    with s dc have "cdata w d \<noteq> ?p" by auto
    with s' dc show "\<exists>s. ((subs w)(?p := None)) (((cdata w)(c := NULL)) d) = Some s \<and> sub_subc s = d" by simp
  qed (use inv in \<open>simp_all add: pub_inv_def pi_data_def\<close>)
  moreover have dom: "dom ?as = dom (asyncs w)" using sx [OF s(1)] by (auto split: if_splits)
  then have "pi_pend ?w" unfolding pi_pend_def f
    using inv np by (auto simp: pub_inv_def pi_pend_def)
  moreover have "pi_live b X ?w" unfolding pi_live_def f dom using inv by (simp add: pub_inv_def pi_live_def)
  ultimately show ?thesis by (simp add: pub_inv_def)
qed

lemma pub_inv_reply_pending:
  assumes inv: "pub_inv b {} w" and k: "(c, cb, a) \<in> set (pending w)"
  shows "pub_inv b (if is_async cb then {a} else {}) (w\<lparr>pending := remove1 (c, cb, a) (pending w)\<rparr>)"
    and "is_async cb \<Longrightarrow> asyncs w a \<noteq> None \<and> a \<notin> set (pend_asyncs (remove1 (c, cb, a) (pending w)))"
proof -
  have d: "distinct (pend_asyncs (pending w))" and sub: "set (pend_asyncs (pending w)) \<subseteq> dom (asyncs w)"
    using inv by (simp_all add: pub_inv_def pi_pend_def)
  note r = pend_asyncs_remove1 [OF d k]
  show "is_async cb \<Longrightarrow> asyncs w a \<noteq> None \<and> a \<notin> set (pend_asyncs (remove1 (c, cb, a) (pending w)))"
    using pend_asyncs_mem [OF k] sub d r by auto
  let ?w = "w\<lparr>pending := remove1 (c, cb, a) (pending w)\<rparr>"
  have "pi_pend ?w"
    using inv d r unfolding pub_inv_def pi_pend_def
    by (auto dest: notin_set_remove1 [THEN contrapos_nn] split: if_splits intro: subsetD [OF set_remove1_subset]
        simp: distinct_remove1)
  moreover have "pi_live b (if is_async cb then {a} else {}) ?w"
    using inv d r by (auto simp: pub_inv_def pi_live_def)
  ultimately show "pub_inv b (if is_async cb then {a} else {}) ?w"
    using inv by (simp add: pub_inv_def pi_subs_def pi_asyncs_def pi_data_def)
qed

lemma msg_cb_inv:
  assumes calm: "sub_calm cbs" and inv: "pub_inv b X w" and c: "cdata w c \<noteq> NULL" and m: "msg_reply ro"
  shows "pub_inv b X (msg_cb cbs c ro w)"
proof -
  obtain s where s: "subs w (cdata w c) = Some s" using pub_inv_cdata [OF inv c] by blast
  show ?thesis
  proof (cases "reply_ok ro")
    case True
    then obtain r where r: "ro = Some r" by (auto simp: reply_ok_def split: option.splits)
    with m True have l: "3 \<le> length (rr_elements r)" by (simp add: msg_reply_def)
    then have "rr_elements r \<noteq> []" "\<not> length (rr_elements r) \<le> 2" by auto
    then show ?thesis
      using True r s inv sub_calm_inv [OF calm inv] hp_sub_all_inv [OF inv, of "cdata w c"]
      by (simp add: msg_cb_def Let_def)
  qed (use inv in \<open>simp add: msg_cb_def Let_def\<close>)
qed

lemma hp_sub_all_cb_inv:
  assumes calm: "sub_calm cbs" and inv: "pub_inv b {a} w" and a: "asyncs w a \<noteq> None"
    and np: "a \<notin> set (pend_asyncs (pending w))"
  shows "pub_inv b {} (hp_sub_all_cb cbs ro a w)"
proof -
  obtain x where x: "asyncs w a = Some x" using a by blast
  have "\<exists>u. (if as_s x = NULL then w else if \<not> (reply_ok ro \<and> rr_elements (the ro) \<noteq> []) then w
      else sub_deliver cbs a (sub_order (sub_history (rr_elements (the ro)))) w) = w\<lparr>pw_user := u\<rparr>"
  proof (cases "as_s x = NULL")
    case True
    then show ?thesis by (intro exI [of _ "pw_user w"]) simp
  next
    case False
    then have "subs w (as_s x) \<noteq> None" using pub_inv_asyncD [OF inv x] by auto
    from sub_deliver_calm [where a = a, OF calm x this]
    obtain u where u: "sub_deliver cbs a (sub_order (sub_history (rr_elements (the ro)))) w = w\<lparr>pw_user := u\<rparr>" by blast
    have "w = w\<lparr>pw_user := pw_user w\<rparr>" by simp
    with u False show ?thesis by (metis (full_types))
  qed
  then obtain u where "hp_sub_all_cb cbs ro a w = async_done a (w\<lparr>pw_user := u\<rparr>)"
    using x by (auto simp: hp_sub_all_cb_def Let_def)
  moreover have "pub_inv b {} (async_done a (w\<lparr>pw_user := u\<rparr>))"
    by (rule async_done_inv) (use inv a np in simp_all)
  ultimately show ?thesis by simp
qed

text \<open>A step between two worlds that leaves the block of the request and its subscription alone.\<close>

lemma hp_sub_dosub_frame:
  assumes "sub_calm cbs" and "is_async cb \<Longrightarrow> False" and "cdata w c \<noteq> NULL" and "pub_inv b X w"
    and "w' = snd (hp_sub_dosub cbs c topics w)"
  shows "asyncs w' = asyncs w \<and> pend_asyncs (pending w') = pend_asyncs (pending w)"
proof -
  obtain rc w1 where r: "redisAsyncCommand c CB_msg NULL (''subscribe'' # topics) w = (rc, w1)" by (rule prod.exhaust)
  note f = redisAsyncCommand_frame [OF r]
  have "subs w1 (cdata w c) \<noteq> None" using pub_inv_cdata [OF assms(4,3)] f by auto
  then obtain s where s: "subs w1 (cdata w c) = Some s" by blast
  have "\<exists>u. w' = w1\<lparr>pw_user := u\<rparr>"
  proof (cases "rc = 0 \<or> sub_cb s = NULL")
    case True
    then have "w' = w1" using assms(5) r s by (auto simp: hp_sub_dosub_def Let_def)
    then show ?thesis by (intro exI [of _ "pw_user w1"]) simp
  next
    case False
    with assms(1,5) r s show ?thesis by (simp add: hp_sub_dosub_def Let_def sub_calm_def)
  qed
  with f show ?thesis by (auto simp: is_async_def)
qed

lemma hp_sub_session_cb_inv:
  assumes calm: "sub_calm cbs" and inv: "pub_inv b {a} w" and a: "asyncs w a \<noteq> None"
    and np: "a \<notin> set (pend_asyncs (pending w))"
  shows "pub_inv b {} (hp_sub_session_cb cbs c ro a w)"
proof -
  obtain x where x: "asyncs w a = Some x" using a by blast
  note keep = async_done_inv [of b a]
  show ?thesis
  proof (cases "as_s x = NULL")
    case True
    with keep [OF inv a np] x show ?thesis by (simp add: hp_sub_session_cb_def)
  next
    case False
    then obtain s where s: "subs w (as_s x) = Some s" using pub_inv_asyncD [OF inv x] by auto
    have cd: "cdata w (sub_subc s) \<noteq> NULL" using inv s False by (auto simp: pub_inv_def pi_subs_def)
    let ?w1 = "cbs (sub_cb s) (as_s x) None ''HKEYS''
      (redis_failed ''hp_sub_session_cb'' ''HKEYS'' (cerr w c) (case ro of None \<Rightarrow> [] | Some r \<Rightarrow> rr_str r)) w"
    let ?w2 = "\<lambda>ts. snd (hp_sub_dosub cbs (sub_subc s) ts w)"
    obtain u where "?w1 = w\<lparr>pw_user := u\<rparr>" using calm unfolding sub_calm_def by blast
    with inv a np have 1: "pub_inv b {} (async_done a ?w1)" by (intro keep) simp_all
    have 2: "pub_inv b {} (async_done a (?w2 ts))" for ts
    proof (rule keep)
      note fr = hp_sub_dosub_frame [OF calm _ cd inv refl, of CB_none ts]
      show "pub_inv b {a} (?w2 ts)" by (rule redis_dosub_inv [OF calm inv cd])
      show "asyncs (?w2 ts) a \<noteq> None" "a \<notin> set (pend_asyncs (pending (?w2 ts)))"
        using fr a np by (simp_all add: is_async_def)
    qed
    from 1 2 keep [OF inv a np] x s False show ?thesis by (auto simp: hp_sub_session_cb_def Let_def)
  qed
qed

lemma hp_sub_inv:
  assumes calm: "sub_calm cbs" and inv: "pub_inv b X w"
  shows "pub_inv b X (snd (hp_sub cbs subco n topico w))"
proof (cases subco)
  case (Some subc)
  show ?thesis
  proof (cases "cdata w subc = NULL")
    case False
    obtain s where s: "subs w (cdata w subc) = Some s" using pub_inv_cdata [OF inv False] by blast
    show ?thesis
    proof (cases "topico \<noteq> None \<and> n > 0")
      case True
      let ?ts = "take (nat n) (the topico)"
      obtain rc w1 where r: "hp_sub_sup (sub_c s) (sub_shasup s) (sub_sid s) ?ts w = (rc, w1)" by (rule prod.exhaust)
      have "pub_inv b X w1" using pub_inv_command [OF inv, of CB_sup] r
        unfolding hp_sub_sup_def by (metis is_async_def redis_cb.distinct redis_cb.simps snd_conv)
      moreover have "cdata w1 subc \<noteq> NULL" using redisAsyncCommand_frame r False unfolding hp_sub_sup_def by metis
      ultimately have "pub_inv b X (snd (hp_sub_dosub cbs subc ?ts w1))" by (rule redis_dosub_inv [OF calm])
      with Some False s True r show ?thesis by (auto simp: hp_sub_def Let_def)
    next
      case nt: False
      obtain a w1 where n: "async_new (cdata w subc) w = (a, w1)" by (rule prod.exhaust)
      have "pub_inv b X (snd (redisAsyncCommand (sub_c s) CB_session a [''HKEYS'', sub_sid s] w1))"
        by (rule pub_inv_request [OF inv s _ n]) (simp add: is_async_def)
      with Some False s nt n show ?thesis by (auto simp: hp_sub_def)
    qed
  qed (use inv Some in \<open>simp add: hp_sub_def\<close>)
qed (use inv in \<open>simp add: hp_sub_def\<close>)

lemma hp_pub_inv:
  assumes inv: "pub_inv b X w"
  shows "pub_inv b X (snd (hp_pub sec usec co topico msgo len done w))"
proof (cases "co = None \<or> topico = None \<or> msgo = None")
  case False
  then obtain c t m where args: "co = Some c" "topico = Some t" "msgo = Some m" by auto
  have "pub_inv b X (snd (redisAsyncCommand c CB_none NULL argv w))" for argv
    by (rule pub_inv_command [OF inv]) (simp_all add: is_async_def)
  from pub_inv_command [OF this]
  have "pub_inv b X (snd (redisAsyncCommand c (if done \<noteq> NULL then CB_user done else CB_pub) p argv'
      (snd (redisAsyncCommand c CB_none NULL argv w))))" for argv p argv'
    by (simp add: is_async_def)
  with args show ?thesis by (simp add: hp_pub_def Let_def)
qed (use inv in \<open>auto simp: hp_pub_def split: option.splits\<close>)

lemma pub_reply_inv:
  assumes calm: "sub_calm cbs" and inv: "pub_inv b {} w" and k: "(c, cb, a) \<in> set (pending w)"
    and m: "cb = CB_msg \<longrightarrow> msg_reply ro"
  shows "pub_inv b {} (pub_reply cbs (c, cb, a) ro (w\<lparr>pending := remove1 (c, cb, a) (pending w)\<rparr>))"
proof -
  let ?w = "w\<lparr>pending := remove1 (c, cb, a) (pending w)\<rparr>"
  note r = pub_inv_reply_pending [OF inv k]
  have "cb = CB_msg \<longrightarrow> cdata w c \<noteq> NULL" using inv k by (force simp: pub_inv_def pi_pend_def)
  then show ?thesis
    using r m hp_sub_all_cb_inv [OF calm, of b a ?w ro] hp_sub_session_cb_inv [OF calm, of b a ?w c ro]
      msg_cb_inv [OF calm, of b "{}" ?w c ro]
    by (cases cb) (simp_all add: is_async_def)
qed

lemma pub_step_inv [hp_inv]:
  assumes calm: "sub_calm cbs" and step: "pub_step cbs w w'" and inv: "pub_inv b {} w"
  shows "pub_inv b {} w'"
  using step
proof (cases rule: pub_step.cases)
  case (pub_reply_step k ro)
  obtain c cb a where "k = (c, cb, a)" using prod_cases3 by blast
  with pub_reply_step pub_reply_inv [OF calm inv, of c cb a ro] show ?thesis by auto
next
  case (pub_unsubscribe_step subco)
  then show ?thesis using inv pub_inv_command [OF inv, of CB_none]
    by (cases subco) (simp_all add: hp_unsub_def is_async_def)
next
  case (pub_ping_step subco)
  then show ?thesis using inv pub_inv_command [OF inv, of CB_none]
    by (cases subco) (simp_all add: hp_sub_ping_def is_async_def)
next
  case (pub_disconnect_step c)
  obtain s where s: "subs w (cdata w c) = Some s" using pub_inv_cdata [OF inv pub_disconnect_step(2)] by blast
  have "\<exists>u. disconnectCallback cbs c w = w\<lparr>pw_user := u\<rparr>"
  proof (cases "sub_cb s = NULL")
    case True
    with s have "disconnectCallback cbs c w = w\<lparr>pw_user := pw_user w\<rparr>" by (simp add: disconnectCallback_def)
    then show ?thesis by blast
  next
    case False
    with s calm pub_disconnect_step(2) show ?thesis by (simp add: disconnectCallback_def sub_calm_def)
  qed
  then obtain u where u: "disconnectCallback cbs c w = w\<lparr>pw_user := u\<rparr>" by blast
  have "pub_inv b {} ((hp_subc_free (cdata (w\<lparr>pw_user := u\<rparr>) c) (w\<lparr>pw_user := u\<rparr>))\<lparr>cdata := (cdata (w\<lparr>pw_user := u\<rparr>))(c := NULL)\<rparr>)"
    by (rule hp_subc_free_inv) (use inv pub_disconnect_step in simp_all)
  with u pub_disconnect_step(1) show ?thesis by simp
next
  case (pub_setup_step co subco shasub shasup sid cb arg)
  show ?thesis unfolding pub_setup_step by (rule hp_subc_arg_inv [OF inv])
next
  case (pub_subscribe_step subco n topics)
  show ?thesis unfolding pub_subscribe_step by (rule hp_sub_inv [OF calm inv])
next
  case (pub_publish_step sec usec co topic msg len d)
  show ?thesis unfolding pub_publish_step by (rule hp_pub_inv [OF inv])
next
  case (pub_message_step c ro)
  show ?thesis unfolding pub_message_step(1) by (rule msg_cb_inv [OF calm inv pub_message_step(2,3)])
qed

subsection \<open>Properties\<close>

definition pub_start :: "int list \<Rightarrow> 'u \<Rightarrow> 'u pubw" where
  "pub_start rs u = \<lparr>subs = Map.empty, asyncs = Map.empty, cdata = (\<lambda>c. NULL), cdiscon = (\<lambda>c. False),
     cerr = (\<lambda>c. (0, [])), pending = [], cmds = [], rcs = rs, pnxt = 1, pw_fault = False, pw_user = u\<rparr>"

lemma pub_start_inv: "pub_inv (rs = []) {} (pub_start rs u)"
  by (simp add: pub_inv_defs pub_start_def)

lemma pub_reach_inv: "(pub_step cbs)\<^sup>*\<^sup>* w0 w \<Longrightarrow> sub_calm cbs \<Longrightarrow> pub_inv b {} w0 \<Longrightarrow> pub_inv b {} w"
  by (induction rule: rtranclp_induct) (auto intro: pub_step_inv)

text \<open>
  C5: In every order of set-up, subscriptions, publications, replies, messages and
  disconnections, with callbacks that do not themselves call the library, no callback ever
  uses a freed request or subscription, also for replies that arrive after the subscription
  is gone; no two outstanding commands share a request block; and as long as Redis accepts
  every command, exactly the blocks that still await a reply are allocated.
\<close>

theorem hp_pub_requests_safe:
  assumes "sub_calm cbs" and "(pub_step cbs)\<^sup>*\<^sup>* (pub_start rs u) w"
  shows "\<not> pw_fault w \<and> distinct (pend_asyncs (pending w)) \<and> set (pend_asyncs (pending w)) \<subseteq> dom (asyncs w) \<and>
    (rs = [] \<longrightarrow> dom (asyncs w) = set (pend_asyncs (pending w)))"
  using pub_reach_inv [OF assms(2,1) pub_start_inv]
  by (auto simp: pub_inv_def pi_data_def pi_pend_def pi_live_def)

text \<open>
  A message callback that ends its own connection while the history is delivered (the
  clean-up then clears \<open>as->s\<close>) makes the next turn of the delivery loop follow a NULL
  pointer.
\<close>

lemma hp_sub_deliver_after_free:
  assumes "pub_inv b X w" and "asyncs w a = Some y" and "subs w (as_s y) = Some s" and "sub_cb s \<noteq> NULL"
    and "\<And>t i m. cbs (sub_cb s) (as_s y) t i m w = hp_subc_free (as_s y) w" and "as_s y \<noteq> NULL"
  shows "pw_fault (sub_deliver cbs a (x1 # x2 # xs) w)"
proof -
  have sx: "\<forall>a \<in> set (async_list s). asyncs w a = Some \<lparr>as_s = as_s y\<rparr>" "subs w NULL = None"
    using assms(1,3) by (auto simp: pub_inv_def pi_subs_def) (metis gr0I less_numeral_extra(3) option.exhaust)
  then have "\<forall>a \<in> set (async_list s). asyncs w a \<noteq> None" by auto
  note fold = fold_async_forget [OF this]
  have "a \<in> set (async_list s)" using pub_inv_asyncD [OF assms(1,2)] assms(3,6) by auto
  then have "asyncs (hp_subc_free (as_s y) w) a = Some \<lparr>as_s = NULL\<rparr>" "subs (hp_subc_free (as_s y) w) NULL = None"
    using assms(3) fold sx(2) by (simp_all add: hp_subc_free_def Let_def)
  with assms(2-5) show ?thesis by simp
qed

text \<open>A callback that only records its calls.\<close>

definition sub_log :: "(string option \<times> string \<times> string) list sub_cbs" where
  "sub_log f p t i m w = w\<lparr>pw_user := pw_user w @ [(t, i, m)]\<rparr>"

lemma sub_deliver_log:
  assumes "asyncs w a = Some y" and "subs w (as_s y) = Some s" and "sub_cb s \<noteq> NULL"
  shows "sub_deliver sub_log a xs w = w\<lparr>pw_user := pw_user w @ map (\<lambda>x. (Some (snd (snd x)), fst x, fst (snd x))) xs\<rparr>"
  using assms by (induction xs arbitrary: w) (simp_all add: sub_log_def)

text \<open>
  A history as the server has it, topics with their entries of id and text, and the reply that carries it:
  every topic is followed by an array in which every text is followed by its id.
\<close>

type_synonym history = "(string \<times> (string \<times> string) list) list"

definition history_reply :: "history \<Rightarrow> redis_reply list" where
  "history_reply h =
     concat (map (\<lambda>(t, es). [RR_string t, RR_array (concat (map (\<lambda>(i, m). [RR_string m, RR_string i]) es))]) h)"

text \<open>The calls of the message callback a history asks for: topic, id and text.\<close>

definition history_calls :: "history \<Rightarrow> (string option \<times> string \<times> string) list" where
  "history_calls h = concat (map (\<lambda>(t, es). map (\<lambda>(i, m). (Some t, i, m)) es) h)"

lemma pairs_of_concat: "pairs_of (concat (map (\<lambda>x. [f x, g x]) xs)) = map (\<lambda>x. (f x, g x)) xs"
  by (induction xs) simp_all

lemma sub_history_reply:
  "map (\<lambda>x. (Some (snd (snd x)), fst x, fst (snd x))) (sub_history (history_reply h)) = history_calls h"
proof -
  have "pairs_of (history_reply h) =
      map (\<lambda>(t, es). (RR_string t, RR_array (concat (map (\<lambda>(i, m). [RR_string m, RR_string i]) es)))) h"
    using pairs_of_concat [of "\<lambda>x. RR_string (fst x)" "\<lambda>x. RR_array (concat (map (\<lambda>(i, m). [RR_string m, RR_string i]) (snd x)))" h]
    by (simp add: history_reply_def split_def)
  moreover have "pairs_of (concat (map (\<lambda>(i, m). [RR_string m, RR_string i]) es)) =
      map (\<lambda>(i, m). (RR_string m, RR_string i)) es" for es
    using pairs_of_concat [of "\<lambda>x. RR_string (snd x)" "\<lambda>x. RR_string (fst x)" es] by (simp add: split_def)
  ultimately show ?thesis
    by (simp add: sub_history_def history_calls_def rr_elements_def rr_str_def map_concat comp_def split_def)
qed

text \<open>
  C18: The reply to the history query is delivered completely: the message callback is called once for every
  entry of the history, with the topic, the id and the text it has in the reply, in the order of the ids.
\<close>

theorem hp_sub_history_order:
  assumes "asyncs w a = Some y" and "subs w (as_s y) = Some s" and "sub_cb s \<noteq> NULL" and "as_s y \<noteq> NULL"
    and "h \<noteq> []"
  shows "\<exists>cs. pw_user (hp_sub_all_cb sub_log (Some (RR_array (history_reply h))) a w) = pw_user w @ cs \<and>
    mset cs = mset (history_calls h) \<and> sorted (map (\<lambda>(t, i, m). map char_code i) cs)"
proof -
  let ?ms = "sub_order (sub_history (history_reply h))" and ?f = "\<lambda>x. (Some (snd (snd x)), fst x, fst (snd x))"
  have ne: "history_reply h \<noteq> []" using assms(5) by (cases h) (auto simp: history_reply_def)
  have "pw_user (async_done a w') = pw_user w'" for w' :: "(string option \<times> string \<times> string) list pubw"
    by (auto simp: async_done_def sub_upd_def Let_def split: option.splits)
  then have "pw_user (hp_sub_all_cb sub_log (Some (RR_array (history_reply h))) a w) = pw_user w @ map ?f ?ms"
    using assms ne by (simp add: hp_sub_all_cb_def reply_ok_def rr_elements_def Let_def sub_deliver_log [OF assms(1-3)])
  moreover have "mset (map ?f ?ms) = mset (history_calls h)"
    by (simp add: sub_order_def flip: sub_history_reply)
  moreover have "sorted (map (map char_code \<circ> fst) ?ms)" unfolding sub_order_def comp_def by (rule sorted_sort_key)
  then have "sorted (map (\<lambda>(t, i, m). map char_code i) (map ?f ?ms))" by (simp add: comp_def)
  ultimately show ?thesis by blast
qed

subsection \<open>The properties at a concrete subscription\<close>

definition pub_one :: "'u \<Rightarrow> 'u pubw" where
  "pub_one u = snd (hp_subc_arg (Some 1) (Some 2) (Some ''sha1'') (Some ''sha2'') (Some ''s1'') 9 (0, 0) (pub_start [] u))"

definition pub_two :: "'u sub_cbs \<Rightarrow> 'u \<Rightarrow> 'u pubw" where
  "pub_two cbs u = snd (hp_sub cbs (Some 2) 0 None (pub_one u))"

lemma pub_two_eval:
  "asyncs (pub_two cbs u) = [2 \<mapsto> \<lparr>as_s = 1\<rparr>]" "pending (pub_two cbs u) = [(1, CB_session, 2)]" "pw_user (pub_two cbs u) = u"
  "subs (pub_two cbs u) = [1 \<mapsto> \<lparr>sub_c = 1, sub_subc = 2, sub_shasub = ''sha1'', sub_shasup = ''sha2'', sub_sid = ''s1'',
     sub_cb = 9, sub_arg = 0, sub_argi = 0, async_list = [2]\<rparr>]"
  by (simp_all add: pub_two_def hp_sub_def pub_one_def hp_subc_arg_def pub_start_def sub_upd_def c_strncpy_def
      async_new_def Let_def redisAsyncCommand_def numeral_2_eq_2)

lemma pub_two_reach: "(pub_step cbs)\<^sup>*\<^sup>* (pub_start [] u) (pub_two cbs u)"
proof -
  have "pub_step cbs (pub_start [] u) (pub_one u)" unfolding pub_one_def by (rule pub_setup_step)
  moreover have "pub_step cbs (pub_one u) (pub_two cbs u)" unfolding pub_two_def by (rule pub_subscribe_step)
  ultimately show ?thesis by (meson r_into_rtranclp rtranclp.rtrancl_into_rtrancl)
qed

lemma sub_log_calm: "sub_calm sub_log"
  unfolding sub_calm_def sub_log_def by blast

theorem hp_pub_requests_safe_witness:
  "\<not> pw_fault (pub_two sub_log []) \<and> dom (asyncs (pub_two sub_log [])) = {2}"
proof -
  from hp_pub_requests_safe [OF sub_log_calm pub_two_reach, of "[]"]
  have "\<not> pw_fault (pub_two sub_log [])" by blast
  then show ?thesis by (simp add: pub_two_eval)
qed

theorem hp_sub_history_order_witness:
  "pw_user (hp_sub_all_cb sub_log (Some (RR_array [RR_string ''t'', RR_array
      [RR_string ''b'', RR_string ''2'', RR_string ''a'', RR_string ''1'']])) 2 (pub_two sub_log [])) =
    [(Some ''t'', ''1'', ''a''), (Some ''t'', ''2'', ''b'')]"
proof -
  let ?h = "[(''t'', [(''2'', ''b''), (''1'', ''a'')])]"
  have y: "asyncs (pub_two sub_log []) 2 = Some \<lparr>as_s = 1\<rparr>" by (simp add: pub_two_eval)
  obtain s where s: "subs (pub_two sub_log []) (as_s \<lparr>as_s = 1\<rparr>) = Some s" "sub_cb s \<noteq> NULL"
    by (simp add: pub_two_eval)
  have ne: "?h \<noteq> []" "as_s \<lparr>as_s = 1\<rparr> \<noteq> NULL" by simp_all
  from hp_sub_history_order [OF y s ne(2,1)] obtain cs where cs:
    "pw_user (hp_sub_all_cb sub_log (Some (RR_array (history_reply ?h))) 2 (pub_two sub_log [])) =
      pw_user (pub_two sub_log []) @ cs"
    "mset cs = mset (history_calls ?h)" "sorted (map (\<lambda>(t, i, m). map char_code i) cs)" by blast
  have m: "mset cs = {# (Some ''t'', ''2'', ''b''), (Some ''t'', ''1'', ''a'') #}"
    using cs(2) by (simp add: history_calls_def)
  then have "length cs = 2" by (metis size_mset size_add_mset size_empty One_nat_def Suc_1)
  then obtain c d where cd: "cs = [c, d]" by (auto simp: numeral_2_eq_2 length_Suc_conv)
  have "cs = [(Some ''t'', ''1'', ''a''), (Some ''t'', ''2'', ''b'')]"
    using m cs(3) unfolding cd
    by (auto simp: add_eq_conv_ex)
  with cs(1) show ?thesis by (simp add: history_reply_def pub_two_eval)
qed

lemma hp_sub_deliver_after_free_witness:
  "pw_fault (sub_deliver (\<lambda>f p t i m w. hp_subc_free p w) 2 [([], [], []), ([], [], [])] (pub_two (\<lambda>f p t i m w. w) ()))"
proof -
  let ?w = "pub_two (\<lambda>f p t i m w. w) ()"
  have "sub_calm (\<lambda>f p t i m (w :: unit pubw). w)" by (simp add: sub_calm_def)
  from pub_reach_inv [OF pub_two_reach this pub_start_inv] have inv: "pub_inv True {} ?w" by simp
  have y: "asyncs ?w 2 = Some \<lparr>as_s = 1\<rparr>" by (simp add: pub_two_eval)
  obtain s where s: "subs ?w (as_s \<lparr>as_s = 1\<rparr>) = Some s" "sub_cb s \<noteq> NULL" by (simp add: pub_two_eval)
  show ?thesis by (rule hp_sub_deliver_after_free [OF inv y s]) simp_all
qed

end
