(* ===== verification/Hp_Mqtt.thy ===== *)
theory Hp_Mqtt
  imports Hp_Str
begin

section \<open>hp\_mqtt: an MQTT client\<close>

text \<open>
  Models \<open>src/hp_mqtt.c\<close>. The Paho library is a log of the requests it was given and a
  script of its results (0, success, when the script is exhausted); it calls the functions
  \<open>hp_mqtt__on...\<close> back at any later time. The callbacks of the program act on the whole
  world, so they may subscribe or publish. The static \<open>opts\<close> holds its three character
  arrays as whole buffers. Messages on the console are left out.
\<close>

subsection \<open>State\<close>

abbreviation (input) XHMDM_CON_ING :: int where "XHMDM_CON_ING \<equiv> 1"
abbreviation (input) XHMDM_CON_OK :: int where "XHMDM_CON_OK \<equiv> 2"
abbreviation (input) XHMDM_SUB_ING :: int where "XHMDM_SUB_ING \<equiv> 4"
abbreviation (input) XHMDM_SUB_OK :: int where "XHMDM_SUB_OK \<equiv> 8"
abbreviation (input) XHMDM_DISCON_ING :: int where "XHMDM_DISCON_ING \<equiv> 16"
abbreviation (input) MQTTVERSION_5 :: int where "MQTTVERSION_5 \<equiv> 5"

record hp_mqtt =
  mq_state :: int
  mq_topics :: "string list"
  mq_qoses :: "int list"
  mq_id :: string
  mq_on_connect :: fnptr
  mq_on_message :: fnptr
  mq_on_disconnect :: fnptr
  mq_on_sub :: fnptr
  mq_on_arg :: ptr

record pubsub_opts =
  o_MQTTVersion :: int
  o_clientid :: "string option"
  o_username :: "char list"
  o_password :: "char list"
  o_connection :: "char list"
  o_keepalive :: int
  o_will :: "(string \<times> string \<times> int \<times> int) option"
  o_insecure :: bool

text \<open>What the library is asked to do.\<close>

datatype mq_request =
    Mq_create string string bool
  | Mq_callbacks
  | Mq_connected
  | Mq_connect bool int string string int "(string \<times> string \<times> int \<times> int) option" "bool option"
  | Mq_subscribe "string list" "int list"
  | Mq_send string string int
  | Mq_disconnect
  | Mq_destroy

record 'u mqw =
  mq_cli :: hp_mqtt
  mq_opts :: pubsub_opts
  mq_clean :: bool
  mq_reqs :: "mq_request list"
  mq_rcs :: "int list"
  mq_fault :: bool
  mq_user :: 'u

record 'u mq_cbs =
  cb_connect :: "fnptr \<Rightarrow> int \<Rightarrow> string \<Rightarrow> 'u mqw \<Rightarrow> 'u mqw"
  cb_message :: "fnptr \<Rightarrow> string \<Rightarrow> byte list \<Rightarrow> 'u mqw \<Rightarrow> 'u mqw"
  cb_disconnect :: "fnptr \<Rightarrow> 'u mqw \<Rightarrow> 'u mqw"
  cb_sub :: "fnptr \<Rightarrow> 'u mqw \<Rightarrow> 'u mqw"
  mq_strerror :: "int \<Rightarrow> string"

definition mq_request :: "mq_request \<Rightarrow> 'u mqw \<Rightarrow> int \<times> 'u mqw" where
  "mq_request r w =
     (case mq_rcs w of [] \<Rightarrow> (0, w\<lparr>mq_reqs := mq_reqs w @ [r]\<rparr>)
      | rc # rs \<Rightarrow> (rc, w\<lparr>mq_reqs := mq_reqs w @ [r], mq_rcs := rs\<rparr>))"

definition set_state :: "int \<Rightarrow> 'u mqw \<Rightarrow> 'u mqw" where
  "set_state st w = w\<lparr>mq_cli := (mq_cli w)\<lparr>mq_state := st\<rparr>\<rparr>"

text \<open>\<open>strncpy\<close> into an array of \<open>n\<close> bytes: filled up with zeros, not terminated when full.\<close>

definition strncpy_buf :: "nat \<Rightarrow> string \<Rightarrow> char list" where
  "strncpy_buf n src = take n (src @ replicate n NUL)"

subsection \<open>Set-up and connection\<close>

definition hp_mqtt_init ::
  "string option \<Rightarrow> fnptr \<Rightarrow> fnptr \<Rightarrow> fnptr \<Rightarrow> fnptr \<Rightarrow> string option \<Rightarrow> string option \<Rightarrow> string option \<Rightarrow> ptr \<Rightarrow> int \<Rightarrow>
   'u mqw \<Rightarrow> int \<times> 'u mqw" where
  "hp_mqtt_init clientid con msg dis sub addr user pwd arg flags w =
     (let named = (clientid \<noteq> None \<and> the clientid \<noteq> []);
          op = (mq_opts w)\<lparr>o_clientid := Some (if named then the clientid else [])\<rparr>;
          cli = \<lparr>mq_state = 0, mq_topics = [], mq_qoses = [], mq_id = (case clientid of None \<Rightarrow> [] | Some s \<Rightarrow> s),
                 mq_on_connect = con, mq_on_message = msg, mq_on_disconnect = dis, mq_on_sub = sub, mq_on_arg = arg\<rparr>;
          op = (case addr of None \<Rightarrow> op | Some s \<Rightarrow> op\<lparr>o_connection := strncpy_buf 256 s\<rparr>);
          op = (case user of None \<Rightarrow> op | Some s \<Rightarrow> op\<lparr>o_username := strncpy_buf 128 s\<rparr>);
          op = (case pwd of None \<Rightarrow> op | Some s \<Rightarrow> op\<lparr>o_password := strncpy_buf 128 s\<rparr>);
          w = w\<lparr>mq_opts := op, mq_clean := \<not> named, mq_cli := cli\<rparr>;
          (rc, w) = mq_request (Mq_create (c_str (o_connection op)) (the (o_clientid op)) (flags mod 2 = 1)) w
      in if rc \<noteq> 0 then (-1, w)
         else case mq_request Mq_callbacks w of (rc, w) \<Rightarrow> if rc \<noteq> 0 then (-2, w) else (0, w))"

text \<open>The TLS options are used for an address with one of two schemes; the flag is \<open>verify\<close>.\<close>

definition mq_ssl :: "pubsub_opts \<Rightarrow> bool option" where
  "mq_ssl op = (if take 6 (c_str (o_connection op)) = ''ssl://'' \<or> take 6 (c_str (o_connection op)) = ''wss://''
     then Some (\<not> o_insecure op) else None)"

definition hp_mqtt_connect :: "'u mqw \<Rightarrow> int \<times> 'u mqw" where
  "hp_mqtt_connect w =
     (let op = mq_opts w;
          w = (if o_MQTTVersion op = MQTTVERSION_5 then w\<lparr>mq_clean := False\<rparr> else w);
          (rc, w) = mq_request Mq_connected w
      in if rc \<noteq> 0 then (-2, w)
         else case mq_request (Mq_connect (mq_clean w) (o_keepalive op) (c_str (o_username op)) (c_str (o_password op))
                     (o_MQTTVersion op) (o_will op) (mq_ssl op)) w of
             (rc, w) \<Rightarrow> if rc \<noteq> 0 then (-3, w) else (0, set_state XHMDM_CON_ING w))"

subsection \<open>Subscribing\<close>

definition hp_mqtt_do_sub :: "'u mqw \<Rightarrow> int \<times> 'u mqw" where
  "hp_mqtt_do_sub w =
     (let cli = mq_cli w;
          (rc, w) = mq_request (Mq_subscribe (mq_topics cli) (take (length (mq_topics cli)) (mq_qoses cli))) w
      in if rc \<noteq> 0 then (-1, w)
         else (0, (set_state XHMDM_SUB_ING w)\<lparr>mq_fault := (mq_fault w \<or> mq_topics cli = [])\<rparr>))"

text \<open>0 when every name of the second list is in the first one of the same length.\<close>

definition cvector_cmp :: "string list \<Rightarrow> string list \<Rightarrow> int" where
  "cvector_cmp vec1 vec2 =
     (if length vec1 \<noteq> length vec2 then (if length vec1 < length vec2 then 1 else -1)
      else if \<forall>t \<in> set vec2. hp_lfind t vec1 hp_strcasecmp \<noteq> None then 0 else -1)"

text \<open>The first loop: it stops at a NULL topic and replaces a bad QoS, in the array of the caller.\<close>

fun fix_qos :: "string option list \<Rightarrow> int list \<Rightarrow> bool \<times> int list" where
  "fix_qos (None # ts) qs = (False, qs)"
| "fix_qos (Some t # ts) (q # qs) =
     (let (ok, qs) = fix_qos ts qs in (ok, (if 0 \<le> q \<and> q \<le> 2 then q else 2) # qs))"
| "fix_qos _ qs = (True, qs)"

definition hp_mqtt_sub :: "string option list option \<Rightarrow> int list option \<Rightarrow> 'u mqw \<Rightarrow> int \<times> int list option \<times> 'u mqw" where
  "hp_mqtt_sub topico qoso w =
     (case (topico, qoso) of
        (Some topic, Some qos) \<Rightarrow>
          (case fix_qos topic qos of (ok, qos) \<Rightarrow>
             if \<not> ok then (-2, Some qos, w)
             else
               let ts = map the topic; cli = mq_cli w in
               if cvector_cmp (mq_topics cli) ts = 0 then (0, Some qos, w)
               else
                 let cli = cli\<lparr>mq_topics := []\<rparr>;
                     cli = cli\<lparr>mq_topics := mq_topics cli @ ts, mq_qoses := mq_qoses cli @ take (length ts) qos\<rparr>
                 in case hp_mqtt_do_sub (w\<lparr>mq_cli := cli\<rparr>) of (rc, w) \<Rightarrow> (rc, Some qos, w))
      | _ \<Rightarrow> (-1, qoso, w))"

subsection \<open>Callbacks of the library\<close>

text \<open>The result \<open>response\<close> of a failed connection may be NULL: \<open>None\<close>.\<close>

definition mq_on_message_arrived :: "'u mq_cbs \<Rightarrow> char list \<Rightarrow> int \<Rightarrow> byte list \<Rightarrow> 'u mqw \<Rightarrow> int \<times> 'u mqw" where
  "mq_on_message_arrived cbs name len payload w =
     (let topic = take (nat len) name; f = mq_on_message (mq_cli w)
      in (1, if f \<noteq> NULL then cb_message cbs f topic payload w else w))"

definition hp_mqtt__onDisconnect :: "'u mq_cbs \<Rightarrow> 'u mqw \<Rightarrow> 'u mqw" where
  "hp_mqtt__onDisconnect cbs w =
     (let w = set_state 0 w; f = mq_on_disconnect (mq_cli w) in if f \<noteq> NULL then cb_disconnect cbs f w else w)"

definition hp_mqtt__onSubscribe :: "'u mq_cbs \<Rightarrow> 'u mqw \<Rightarrow> 'u mqw" where
  "hp_mqtt__onSubscribe cbs w =
     (let w = set_state XHMDM_SUB_OK w; f = mq_on_sub (mq_cli w) in if f \<noteq> NULL then cb_sub cbs f w else w)"

definition hp_mqtt__onSubscribeFailure :: "'u mqw \<Rightarrow> 'u mqw" where
  "hp_mqtt__onSubscribeFailure w =
     snd (snd (hp_mqtt_sub (Some (map Some (mq_topics (mq_cli w)))) (Some (mq_qoses (mq_cli w))) w))"

definition hp_mqtt__onConnectFailure :: "'u mq_cbs \<Rightarrow> int option \<Rightarrow> 'u mqw \<Rightarrow> 'u mqw" where
  "hp_mqtt__onConnectFailure cbs response w =
     (let f = mq_on_connect (mq_cli w)
      in if f \<noteq> NULL
         then (case response of None \<Rightarrow> w\<lparr>mq_fault := True\<rparr> | Some code \<Rightarrow> cb_connect cbs f code (mq_strerror cbs code) w)
         else w)"

definition hp_mqtt__onConnect :: "'u mq_cbs \<Rightarrow> 'u mqw \<Rightarrow> 'u mqw" where
  "hp_mqtt__onConnect cbs w =
     (let w = set_state XHMDM_CON_OK w; f = mq_on_connect (mq_cli w)
      in if f \<noteq> NULL then cb_connect cbs f 0 [] w else w)"

definition hp_mqtt__onConnected :: "'u mq_cbs \<Rightarrow> string option \<Rightarrow> 'u mqw \<Rightarrow> 'u mqw" where
  "hp_mqtt__onConnected cbs cause w =
     (if cause \<noteq> None \<and> strstr (the cause) ''onSuccess'' \<noteq> None then w
      else let f = mq_on_connect (mq_cli w)
           in if f \<noteq> NULL then cb_connect cbs f 0 (case cause of None \<Rightarrow> [] | Some c \<Rightarrow> c) w else w)"

subsection \<open>Publishing and closing\<close>

definition hp_mqtt_pub :: "string option \<Rightarrow> int \<Rightarrow> string option \<Rightarrow> int \<Rightarrow> 'u mqw \<Rightarrow> int \<times> 'u mqw" where
  "hp_mqtt_pub topico qos datao len w =
     (case (topico, datao) of
        (Some topic, Some data) \<Rightarrow>
          let len = (if len = 0 then int (length data) else len)
          in mq_request (Mq_send topic (take (nat len) data) qos) w
      | _ \<Rightarrow> (-1, w))"

definition hp_mqtt_disconnect :: "'u mqw \<Rightarrow> int \<times> 'u mqw" where
  "hp_mqtt_disconnect w =
     (case mq_request Mq_disconnect w of (rc, w) \<Rightarrow>
        if rc \<noteq> 0 then (0, set_state 0 w) else (0, set_state XHMDM_DISCON_ING w))"

definition hp_mqtt_uninit :: "'u mqw \<Rightarrow> 'u mqw" where
  "hp_mqtt_uninit w =
     (snd (mq_request Mq_destroy w))\<lparr>mq_cli := \<lparr>mq_state = 0, mq_topics = [], mq_qoses = [], mq_id = [],
        mq_on_connect = NULL, mq_on_message = NULL, mq_on_disconnect = NULL, mq_on_sub = NULL, mq_on_arg = NULL\<rparr>\<rparr>"

subsection \<open>What a subscription asks for\<close>

lemma fix_qos_some:
  "None \<notin> set ts \<Longrightarrow> length ts \<le> length qs \<Longrightarrow>
   fix_qos ts qs = (True, map (\<lambda>q. if 0 \<le> q \<and> q \<le> 2 then q else 2) (take (length ts) qs) @ drop (length ts) qs)"
  by (induction ts qs rule: fix_qos.induct) auto

lemma fix_qos_ok: "None \<notin> set ts \<Longrightarrow> fst (fix_qos ts qs)"
  by (induction ts qs rule: fix_qos.induct) (auto split: prod.splits)

lemma cvector_cmp_refl: "cvector_cmp ts ts = 0"
  by (auto simp: cvector_cmp_def hp_lfind_None_iff hp_strcasecmp_def)

lemma hp_mqtt_sub_request:
  assumes "mq_rcs w = []" and "length ts \<le> length qs" and "cvector_cmp (mq_topics (mq_cli w)) ts \<noteq> 0"
    and "hp_mqtt_sub (Some (map Some ts)) (Some qs) w = (rc, qo, w')"
  shows "rc = 0 \<and> mq_topics (mq_cli w') = ts \<and> mq_state (mq_cli w') = XHMDM_SUB_ING \<and>
    mq_qoses (mq_cli w') = mq_qoses (mq_cli w) @ map (\<lambda>q. if 0 \<le> q \<and> q \<le> 2 then q else 2) (take (length ts) qs) \<and>
    mq_reqs w' = mq_reqs w @ [Mq_subscribe ts (take (length ts) (mq_qoses (mq_cli w')))]"
proof -
  have "fix_qos (map Some ts) qs =
      (True, map (\<lambda>q. if 0 \<le> q \<and> q \<le> 2 then q else 2) (take (length ts) qs) @ drop (length ts) qs)"
    using fix_qos_some [of "map Some ts" qs] assms(2) by auto
  with assms show ?thesis
    by (auto simp: hp_mqtt_sub_def comp_def hp_mqtt_do_sub_def mq_request_def set_state_def Let_def min_absorb1)
qed

text \<open>
  C19: The first subscription of a client asks the broker for exactly the given topics, each with its
  quality of service, 2 for a level that is none of 0, 1 and 2. A later one for other topics asks for the
  new topics but with the levels of the first: \<open>qoses\<close> is only ever extended.
\<close>

theorem hp_mqtt_sub_qos:
  assumes "mq_rcs w = []" and "length ts = length qs"
    and "cvector_cmp (mq_topics (mq_cli w)) ts \<noteq> 0" and "hp_mqtt_sub (Some (map Some ts)) (Some qs) w = (rc, qo, w')"
  shows "\<exists>ls. rc = 0 \<and> mq_reqs w' = mq_reqs w @
      [Mq_subscribe ts (if mq_qoses (mq_cli w) = [] then ls
         else take (length ts) (mq_qoses (mq_cli w)) @ take (length ts - length (mq_qoses (mq_cli w))) ls)] \<and>
    list_all2 (\<lambda>q l. if q = 0 \<or> q = 1 \<or> q = 2 then l = q else l = 2) qs ls \<and>
    mq_qoses (mq_cli w') = mq_qoses (mq_cli w) @ ls"
proof -
  let ?ls = "map (\<lambda>q. if 0 \<le> q \<and> q \<le> 2 then q else 2) qs"
  have "list_all2 (\<lambda>q l. if q = 0 \<or> q = 1 \<or> q = 2 then l = q else l = 2) qs ?ls"
    by (auto simp: list_all2_conv_all_nth)
  with hp_mqtt_sub_request [OF assms(1) _ assms(3,4)] assms(2) show ?thesis
    by (intro exI [of _ ?ls]) simp
qed

text \<open>
  A subscription the broker refuses is never retried: the failure callback subscribes
  to the topics that are already recorded, which is taken for no change, so nothing is sent
  and the state stays as it is.
\<close>

lemma hp_mqtt_refused_not_retried:
  "hp_mqtt__onSubscribeFailure w = w"
proof -
  let ?ts = "map Some (mq_topics (mq_cli w))"
  obtain qs where q: "fix_qos ?ts (mq_qoses (mq_cli w)) = (True, qs)"
    using fix_qos_ok [of ?ts "mq_qoses (mq_cli w)"] by (cases "fix_qos ?ts (mq_qoses (mq_cli w))") auto
  then show ?thesis by (simp add: hp_mqtt__onSubscribeFailure_def hp_mqtt_sub_def comp_def cvector_cmp_refl Let_def)
qed

subsection \<open>The properties at a concrete client\<close>

definition mqw_example :: "unit mqw" where
  "mqw_example = \<lparr>mq_cli = \<lparr>mq_state = 2, mq_topics = [], mq_qoses = [], mq_id = [], mq_on_connect = 0, mq_on_message = 0,
       mq_on_disconnect = 0, mq_on_sub = 0, mq_on_arg = 0\<rparr>,
     mq_opts = \<lparr>o_MQTTVersion = 4, o_clientid = None, o_username = [], o_password = [], o_connection = [], o_keepalive = 10,
       o_will = None, o_insecure = False\<rparr>, mq_clean = True, mq_reqs = [], mq_rcs = [], mq_fault = False, mq_user = ()\<rparr>"

definition mqw_second :: "unit mqw" where
  "mqw_second = snd (snd (hp_mqtt_sub (Some (map Some [''a''])) (Some [0]) mqw_example))"

lemma mqw_second_eval:
  "mq_topics (mq_cli mqw_second) = [''a'']" "mq_qoses (mq_cli mqw_second) = [0]" "mq_rcs mqw_second = []"
  "mq_reqs mqw_second = [Mq_subscribe [''a''] [0]]"
  by (simp_all add: mqw_second_def mqw_example_def hp_mqtt_sub_def cvector_cmp_def hp_mqtt_do_sub_def mq_request_def
      set_state_def Let_def)

text \<open>Asking for another topic with an invalid level after one with level 0: the broker is asked for level 0, and level 2 is recorded.\<close>

theorem hp_mqtt_sub_qos_witness:
  "mq_reqs (snd (snd (hp_mqtt_sub (Some (map Some [''b''])) (Some [7]) mqw_second))) =
      [Mq_subscribe [''a''] [0], Mq_subscribe [''b''] [0]] \<and>
    mq_qoses (mq_cli (snd (snd (hp_mqtt_sub (Some (map Some [''b''])) (Some [7]) mqw_second)))) = [0, 2]"
proof -
  obtain rc qo w' where r: "hp_mqtt_sub (Some (map Some [''b''])) (Some [7]) mqw_second = (rc, qo, w')"
    using prod_cases3 by blast
  have "cvector_cmp (mq_topics (mq_cli mqw_second)) [''b''] \<noteq> 0"
    by (simp add: mqw_second_eval cvector_cmp_def hp_lfind_def hp_strcasecmp_def) code_simp
  from hp_mqtt_sub_qos [OF mqw_second_eval(3) _ this r] r show ?thesis
    by (auto simp: mqw_second_eval list_all2_Cons1)
qed

subsection \<open>Connection failures of MQTT 5\<close>

text \<open>The response is read without looking whether there is one: for the console, unless it is quiet, and for the callback.\<close>

definition hp_mqtt__onConnectFailure5 :: "'u mq_cbs \<Rightarrow> bool \<Rightarrow> int option \<Rightarrow> 'u mqw \<Rightarrow> 'u mqw" where
  "hp_mqtt__onConnectFailure5 cbs quiet response w =
     (let w = (if \<not> quiet \<and> response = None then w\<lparr>mq_fault := True\<rparr> else w);
          f = mq_on_connect (mq_cli w)
      in if f \<noteq> NULL
         then (case response of None \<Rightarrow> w\<lparr>mq_fault := True\<rparr> | Some code \<Rightarrow> cb_connect cbs f code (mq_strerror cbs code) w)
         else w)"

text \<open>With a response it does what the function of the older versions of the protocol does.\<close>

lemma hp_mqtt__onConnectFailure5_older:
  "hp_mqtt__onConnectFailure5 cbs quiet (Some code) w = hp_mqtt__onConnectFailure cbs (Some code) w"
  by (simp add: hp_mqtt__onConnectFailure5_def hp_mqtt__onConnectFailure_def Let_def)

end
