(* ===== verification/Hp_Url.thy ===== *)
theory Hp_Url
  imports Prelude
begin

section \<open>hp\_url: percent decoding and query lookup\<close>

text \<open>
  Models \<open>src/hp_url.c\<close>. Text is a list of bytes. The decoder walks the source with a
  pointer; the model's list is what lies between that pointer and the end. The query
  parser \<open>yuarel_parse_query\<close> is third-party code and a parameter.
\<close>

subsection \<open>The decoder\<close>

definition IS_UPPER_HEX :: "byte \<Rightarrow> bool" where
  "IS_UPPER_HEX ch \<longleftrightarrow> (48 \<le> ch \<and> ch \<le> 57) \<or> (65 \<le> ch \<and> ch \<le> 70)"

definition IS_HEX_CHAR :: "byte \<Rightarrow> bool" where
  "IS_HEX_CHAR ch \<longleftrightarrow> IS_UPPER_HEX ch \<or> (97 \<le> ch \<and> ch \<le> 102)"

definition HEX_VALUE :: "byte \<Rightarrow> int" where
  "HEX_VALUE ch =
     (if 48 \<le> ch \<and> ch \<le> 57 then uint ch - 48
      else if 97 \<le> ch \<and> ch \<le> 102 then uint ch - 97 + 10
      else uint ch - 65 + 10)"

function url_dec :: "byte list \<Rightarrow> byte list" where
  "url_dec [] = []"
| "url_dec (c # r) =
     (if c = 37 \<and> 2 \<le> length r then
        (if IS_HEX_CHAR (r ! 0) \<and> IS_HEX_CHAR (r ! 1)
         then word_of_int (or (push_bit 4 (HEX_VALUE (r ! 0))) (HEX_VALUE (r ! 1))) # url_dec (drop 2 r)
         else c # url_dec r)
      else if c = 43 then 32 # url_dec r
      else c # url_dec r)"
  by pat_completeness auto
termination
  by (relation "measure length") auto

text \<open>
  \<open>dest\<close> is the whole destination buffer; \<open>None\<close> is a write beyond its end. The result is
  the buffer and \<open>*dest_len\<close>.
\<close>

definition urldecode_ex :: "byte list \<Rightarrow> int \<Rightarrow> byte list \<Rightarrow> (byte list \<times> nat) option" where
  "urldecode_ex src src_len dest =
     (let out = url_dec (take (nat src_len) src)
      in if length out \<le> length dest then Some (out @ drop (length out) dest, length out) else None)"

definition hp_urldecode :: "byte list \<Rightarrow> int \<Rightarrow> byte list \<Rightarrow> (byte list \<times> nat) option" where
  "hp_urldecode src src_len dest =
     (case urldecode_ex src src_len dest of
        None \<Rightarrow> None
      | Some (dest, n) \<Rightarrow> if n < length dest then Some (dest[n := 0], n) else None)"

subsection \<open>Query lookup\<close>

text \<open>
  \<open>parse\<close> stands for \<open>yuarel_parse_query\<close>: it cuts the query at the separator into at most
  \<open>np\<close> key/value pairs, or fails with a negative number. The inner loop stores the value of
  every parameter whose key equals a requested key.
\<close>

type_synonym param = "string \<times> ptr"

definition query_store :: "param \<Rightarrow> param list \<times> nat \<Rightarrow> param list \<times> nat" where
  "query_store p qn =
     (map (\<lambda>q. if fst p = fst q then (fst q, snd p) else q) (fst qn),
      snd qn + length (filter (\<lambda>q. fst p = fst q) (fst qn)))"

definition hp_url_query ::
  "(string \<Rightarrow> char \<Rightarrow> nat \<Rightarrow> int \<times> param list) \<Rightarrow> string option \<Rightarrow> int \<Rightarrow> param list \<Rightarrow> char \<Rightarrow> int \<times> param list" where
  "hp_url_query parse query np q sep =
     (case query of None \<Rightarrow> (-1, q)
      | Some s \<Rightarrow>
        if \<not> (np > 0 \<and> q \<noteq> []) then (-1, q)
        else let (p, ps) = parse s (if sep = char_of (0::nat) then CHR ''&'' else sep) (nat np);
                 (q', n) = fold query_store (take (nat p) ps) (q, 0)
             in (int n, q'))"

subsection \<open>The reference encoder\<close>

text \<open>What a form encoder writes: unreserved characters, \<open>+\<close> for a space, \<open>%XX\<close> otherwise.\<close>

definition url_plain :: "byte \<Rightarrow> bool" where
  "url_plain c \<longleftrightarrow> (48 \<le> c \<and> c \<le> 57) \<or> (65 \<le> c \<and> c \<le> 90) \<or> (97 \<le> c \<and> c \<le> 122) \<or> c \<in> {45, 46, 95, 126}"

definition hex_digit :: "byte \<Rightarrow> byte" where
  "hex_digit n = (if n < 10 then 48 + n else 55 + n)"

definition url_enc1 :: "byte \<Rightarrow> byte list" where
  "url_enc1 c =
     (if url_plain c then [c] else if c = 32 then [43]
      else [37, hex_digit (drop_bit 4 c), hex_digit (and c 15)])"

definition url_enc :: "byte list \<Rightarrow> byte list" where
  "url_enc s = concat (map url_enc1 s)"

lemma byte_cases:
  assumes "\<And>k. k < 256 \<Longrightarrow> P (word_of_nat k :: byte)"
  shows "P c"
  using assms [of "unat c"] unsigned_less [of c] by simp

lemma byte_all: "(\<forall>k \<in> set [0..<256]. P (word_of_nat k :: byte)) \<Longrightarrow> P c"
  by (rule byte_cases) simp

lemma nibble_all:
  assumes "\<forall>k \<in> set [0..<16]. P (word_of_nat k :: byte)" and "n < 16"
  shows "P n"
proof -
  have "unat n < 16" using assms(2) by (simp add: word_less_nat_alt)
  then have "P (word_of_nat (unat n))" using assms(1) by (auto dest: bspec [of _ _ "unat n"])
  then show ?thesis by simp
qed

lemma hex_digit_nibble: "n < 16 \<Longrightarrow> HEX_VALUE (hex_digit n) = uint n \<and> IS_HEX_CHAR (hex_digit n)"
  by (rule nibble_all [where P = "\<lambda>n. HEX_VALUE (hex_digit n) = uint n \<and> IS_HEX_CHAR (hex_digit n)"]) (code_simp, assumption)

lemma nibbles_less: "drop_bit 4 c < 16 \<and> and c 15 < (16 :: byte)"
proof -
  have "unat c < 256" using unsigned_less [where ?'a = nat, of c] by simp
  then have "unat (drop_bit 4 c) < 16" by (simp add: drop_bit_eq_div unat_div)
  moreover have "and c 15 \<le> 15" by (rule word_and_le1)
  ultimately show ?thesis by (simp add: word_less_nat_alt word_le_nat_alt)
qed

lemma hex_digit_value:
  "word_of_int (or (push_bit 4 (HEX_VALUE (hex_digit (drop_bit 4 c)))) (HEX_VALUE (hex_digit (and c 15)))) = c \<and>
   IS_HEX_CHAR (hex_digit (drop_bit 4 c)) \<and> IS_HEX_CHAR (hex_digit (and c 15))"
proof -
  have v: "word_of_int (or (push_bit 4 (uint (drop_bit 4 c))) (uint (and c 15))) = c"
  proof -
    have m: "(15 :: byte) = mask 4" by (simp add: mask_eq_exp_minus_1)
    show ?thesis unfolding m by (rule bit_word_eqI) (auto simp: bit_simps)
  qed
  show ?thesis using v hex_digit_nibble nibbles_less [of c] by simp
qed

lemma url_plain_neq: "url_plain c \<Longrightarrow> c \<noteq> 37 \<and> c \<noteq> 43"
  by (auto simp: url_plain_def)

lemma url_dec_enc1: "url_dec (url_enc1 c @ r) = c # url_dec r"
proof (cases "url_plain c")
  case True
  with url_plain_neq [OF True] show ?thesis by (simp add: url_enc1_def)
next
  case False
  with hex_digit_value [of c] show ?thesis by (simp add: url_enc1_def)
qed

lemma length_url_dec: "length (url_dec s) \<le> length s"
  by (induction s rule: url_dec.induct) auto

lemma url_dec_enc: "url_dec (url_enc s) = s"
  by (induction s) (simp_all add: url_enc_def url_dec_enc1 [unfolded url_enc_def])

text \<open>One byte more than the source is always room enough.\<close>

lemma hp_urldecode_room:
  assumes "0 \<le> src_len" and "nat src_len < length dest"
  shows "\<exists>d n. hp_urldecode src src_len dest = Some (d, n) \<and> n \<le> nat src_len \<and> length d = length dest \<and>
    take n d = url_dec (take (nat src_len) src) \<and> d ! n = 0"
proof -
  let ?out = "url_dec (take (nat src_len) src)"
  have "length ?out \<le> length (take (nat src_len) src)" by (rule length_url_dec)
  then have n: "length ?out \<le> nat src_len" by simp
  with assms have "length ?out < length dest" by simp
  with n show ?thesis by (simp add: hp_urldecode_def urldecode_ex_def Let_def nth_append)
qed

text \<open>
  C36: Decoding what a form encoder writes gives the text back, followed by a zero byte, in
  any buffer one byte longer than the encoded text, and reports its length.
\<close>

theorem hp_urldecode_encode:
  assumes "length (url_enc s) < length dest"
  shows "\<exists>d. hp_urldecode (url_enc s) (int (length (url_enc s))) dest = Some (d, length s) \<and>
    take (length s) d = s \<and> d ! length s = 0"
proof -
  have "length (url_dec (url_enc s)) \<le> length (url_enc s)" by (rule length_url_dec)
  with assms have "length s < length dest" by (simp add: url_dec_enc)
  then show ?thesis by (simp add: hp_urldecode_def urldecode_ex_def Let_def url_dec_enc nth_append)
qed

theorem hp_urldecode_encode_witness:
  "url_enc [97, 32, 47, 37] = [97, 43, 37, 50, 70, 37, 50, 53] \<and>
   (\<exists>d. hp_urldecode [97, 43, 37, 50, 70, 37, 50, 53] 8 (replicate 9 7) = Some (d, 4) \<and> take 4 d = [97, 32, 47, 37])"
proof -
  have e: "url_enc [97, 32, 47, 37] = [97, 43, 37, 50, 70, 37, 50, 53]" by code_simp
  have l: "length [97, 32, 47, 37 :: byte] = 4" by simp
  have "length (url_enc [97, 32, 47, 37]) < length (replicate 9 (7 :: byte))" by (simp add: e)
  from hp_urldecode_encode [OF this] show ?thesis unfolding e l by auto
qed

lemma fold_query_count:
  "snd (fold query_store ps (q, n)) = n + length (concat (map (\<lambda>p. filter (\<lambda>x. fst p = fst x) q) ps))"
proof (induction ps arbitrary: q n)
  case (Cons p ps)
  have "length (filter (\<lambda>x. fst r = fst x) (map (\<lambda>x. if fst p = fst x then (fst x, snd p) else x) q)) =
      length (filter (\<lambda>x. fst r = fst x) q)" for r
    by (induction q) auto
  with Cons show ?case by (simp add: query_store_def length_concat comp_def)
qed simp

end
