(* ===== verification/Hp_Msg.thy ===== *)
theory Hp_Msg
  imports Prelude
begin

unbundle bit_operations_syntax

section \<open>hp\_msg: framed messages in a byte stream\<close>

text \<open>
  Models \<open>src/hp_msg.c\<close> on a little-endian host. A frame is the magic number, the id, the
  type, the session and the body length (big-endian, four bytes each) and the body.
  \<open>hp_pm_pack\<close> works on a buffer that the caller fills: the list is its used part. The
  decompression \<open>hp_zd_buf\<close> is an argument, \<open>None\<close> for a build without zlib: it gets the
  capacity of the destination and the compressed bytes. A write or move outside the buffer
  is \<open>Undef\<close>.
\<close>

subsection \<open>Integers in the header\<close>

definition PM_MAGIC :: "byte list" where
  "PM_MAGIC = [0x23, 0x37, 0x60, 0x32]"

definition htonl :: "u32 \<Rightarrow> byte list" where
  "htonl w = [ucast (drop_bit 24 w), ucast (drop_bit 16 w), ucast (drop_bit 8 w), ucast w]"

definition ntohl :: "byte list \<Rightarrow> u32" where
  "ntohl bs = push_bit 24 (ucast (bs ! 0)) OR push_bit 16 (ucast (bs ! 1)) OR push_bit 8 (ucast (bs ! 2)) OR ucast (bs ! 3)"

lemma length_htonl [simp]: "length (htonl w) = 4"
  by (simp add: htonl_def)

lemma ntohl_htonl: "ntohl (htonl w @ r) = w"
proof (rule bit_word_eqI)
  fix n assume n: "n < LENGTH(32)"
  then consider "n < 8" | "8 \<le> n" "n < 16" | "16 \<le> n" "n < 24" | "24 \<le> n" "n < 32" by fastforce
  then show "bit (ntohl (htonl w @ r)) n = bit w n"
    using n by cases (simp_all add: ntohl_def htonl_def bit_simps, auto)
qed

subsection \<open>Messages\<close>

record hp_msg =
  msg_id :: u32
  msg_type :: u32
  msg_sid :: u32
  msg_buf :: "byte list"
  msg_cap :: nat
  msg_len :: u32

abbreviation PM_HEADER_LEN :: nat where "PM_HEADER_LEN \<equiv> 20"

definition HM_BUFSZ :: int where "HM_BUFSZ = 1024 * 64 - 20"

definition PMT_Z :: u32 where "PMT_Z = push_bit 11 1"

definition hp_msg_new :: "int \<Rightarrow> hp_msg" where
  "hp_msg_new nbuf =
     (let mlen = (if nbuf < 0 then 0 else if nbuf = 0 then HM_BUFSZ else nbuf)
      in \<lparr>msg_id = 0, msg_type = 0, msg_sid = 0, msg_buf = [], msg_cap = nat mlen, msg_len = 0\<rparr>)"

definition hp_msg_dup :: "hp_msg option \<Rightarrow> hp_msg option outcome" where
  "hp_msg_dup mo =
     (case mo of None \<Rightarrow> Done None
      | Some m \<Rightarrow>
        let msg = hp_msg_new (sint (msg_len m)); n = to_size (sint (msg_len m))
        in if n \<le> msg_cap msg \<and> n \<le> length (msg_buf m)
           then Done (Some (msg\<lparr>msg_id := msg_id m, msg_type := msg_type m, msg_sid := msg_sid m,
                              msg_buf := take n (msg_buf m), msg_len := msg_len m\<rparr>))
           else Undef)"

definition hp_msg_header :: "hp_msg option \<Rightarrow> byte list option" where
  "hp_msg_header mo =
     map_option (\<lambda>m. PM_MAGIC @ htonl (msg_id m) @ htonl (msg_type m) @ htonl (msg_sid m) @ htonl (msg_len m)) mo"

definition PM_ID :: "byte list \<Rightarrow> u32" where "PM_ID hdr = ntohl (drop 4 hdr)"
definition PM_TYPE :: "byte list \<Rightarrow> u32" where "PM_TYPE hdr = ntohl (drop 8 hdr)"
definition PM_SESSION :: "byte list \<Rightarrow> u32" where "PM_SESSION hdr = ntohl (drop 12 hdr)"
definition PM_BODY_LEN :: "byte list \<Rightarrow> u32" where "PM_BODY_LEN hdr = ntohl (drop 16 hdr)"
definition PM_BODY :: "byte list \<Rightarrow> byte list" where "PM_BODY hdr = drop PM_HEADER_LEN hdr"

subsection \<open>Taking a message out of the buffer\<close>

definition magic_at :: "nat \<Rightarrow> byte list \<Rightarrow> bool" where
  "magic_at n buf \<longleftrightarrow> take 4 (drop n buf) = PM_MAGIC"

text \<open>The scan for the next magic number: the first \<open>n\<close> from 1 on, or the bound.\<close>

function pm_scan :: "byte list \<Rightarrow> nat \<Rightarrow> nat \<times> bool" where
  "pm_scan buf n =
     (if n < length buf - 4 then (if magic_at n buf then (n, True) else pm_scan buf (n + 1)) else (n, False))"
  by pat_completeness auto
termination
  by (relation "measure (\<lambda>(buf, n). length buf - n)") auto

declare pm_scan.simps [simp del]

lemma pm_scan_bounds: "pm_scan buf n = (k, b) \<Longrightarrow> n \<le> k"
proof (induction buf n rule: pm_scan.induct)
  case (1 buf n)
  then show ?case
    by (cases "n < length buf - 4"; cases "magic_at n buf") (auto simp: pm_scan.simps [of buf n])
qed

text \<open>The message at the front, when all of its body has arrived.\<close>

definition pm_body ::
  "(nat \<Rightarrow> byte list \<Rightarrow> byte list option) option \<Rightarrow> byte list \<Rightarrow> nat \<Rightarrow> (int \<times> byte list \<times> hp_msg option) outcome" where
  "pm_body zd buf bodylen =
     (let msg = (hp_msg_new (to_int32 (int bodylen)))\<lparr>msg_id := PM_ID buf, msg_type := PM_TYPE buf, msg_sid := PM_SESSION buf\<rparr>;
          msglen = to_int32 (int PM_HEADER_LEN + int bodylen);
          body = take bodylen (PM_BODY buf);
          plain = (msglen, Some (msg\<lparr>msg_len := word_of_nat bodylen, msg_buf := body\<rparr>));
          (rc, res) =
            (case zd of
               Some z \<Rightarrow>
                 if msg_type msg AND PMT_Z \<noteq> 0 then
                   (case z 8 body of
                      None \<Rightarrow> (0, None)
                    | Some out \<Rightarrow> (msglen, Some (msg\<lparr>msg_len := word_of_nat (length out), msg_buf := out,
                                               msg_type := msg_type msg AND NOT PMT_Z\<rparr>)))
                 else plain
             | None \<Rightarrow> plain)
      in if msglen < 0 then Undef else Done (rc, drop (nat msglen) buf, res))"

function pm_loop ::
  "(nat \<Rightarrow> byte list \<Rightarrow> byte list option) option \<Rightarrow> bool \<Rightarrow> byte list \<Rightarrow> (int \<times> byte list \<times> hp_msg option) outcome" where
  "pm_loop zd noskip buf =
     (if length buf < PM_HEADER_LEN then Done (0, buf, None)
      else if \<not> magic_at 0 buf then
        (if noskip then Done (-1, drop 1 buf, None)
         else pm_loop zd noskip (drop (fst (pm_scan buf 1)) buf))
      else
        let bodylen = to_size (sint (PM_BODY_LEN buf)) in
        if bodylen \<le> length buf - PM_HEADER_LEN then pm_body zd buf bodylen
        else Done (0, buf, None))"
  by pat_completeness auto
termination
proof (relation "measure (\<lambda>(zd, noskip, buf). length buf)", goal_cases)
  case (2 zd noskip buf)
  have "1 \<le> fst (pm_scan buf 1)" by (metis pm_scan_bounds prod.collapse)
  with 2 show ?case by auto
qed simp

declare pm_loop.simps [simp del]

text \<open>The result \<open>-1\<close> is returned as a \<open>size_t\<close>: it is kept as the integer here.\<close>

definition hp_pm_pack ::
  "(nat \<Rightarrow> byte list \<Rightarrow> byte list option) option \<Rightarrow> byte list option \<Rightarrow> u32 \<Rightarrow> (int \<times> byte list option \<times> hp_msg option) outcome" where
  "hp_pm_pack zd bufo flags =
     (case bufo of None \<Rightarrow> Done (-1, None, None)
      | Some buf \<Rightarrow>
        case pm_loop zd (flags AND 1 \<noteq> 0) buf of
          Done (rc, buf, msg) \<Rightarrow> Done (rc, Some buf, msg)
        | Undef \<Rightarrow> Undef
        | Blocked (rc, buf, msg) \<Rightarrow> Blocked (rc, Some buf, msg))"

subsection \<open>Round trip and resynchronisation\<close>

lemma header_fields:
  assumes "buf = PM_MAGIC @ htonl i @ htonl t @ htonl s @ htonl l @ r"
  shows "magic_at 0 buf" "PM_ID buf = i" "PM_TYPE buf = t" "PM_SESSION buf = s" "PM_BODY_LEN buf = l"
    "PM_BODY buf = r" "length buf = 20 + length r"
proof -
  have len: "length PM_MAGIC = 4" by (simp add: PM_MAGIC_def)
  show "magic_at 0 buf" "PM_BODY buf = r" "length buf = 20 + length r"
    using assms len by (simp_all add: magic_at_def PM_BODY_def)
  have 4: "drop 4 buf = htonl i @ htonl t @ htonl s @ htonl l @ r" using assms len by simp
  then have 8: "drop 8 buf = htonl t @ htonl s @ htonl l @ r" using drop_drop [of 4 4 buf] by simp
  then have 12: "drop 12 buf = htonl s @ htonl l @ r" using drop_drop [of 4 8 buf] by simp
  then have 16: "drop 16 buf = htonl l @ r" using drop_drop [of 4 12 buf] by simp
  note d = 4 8 12 16
  from d show "PM_ID buf = i" "PM_TYPE buf = t" "PM_SESSION buf = s" "PM_BODY_LEN buf = l"
    by (simp_all add: PM_ID_def PM_TYPE_def PM_SESSION_def PM_BODY_LEN_def ntohl_htonl)
qed

text \<open>The length of a body as the code computes it, and the bound that keeps it exact.\<close>

definition msg_ok :: "hp_msg \<Rightarrow> bool" where
  "msg_ok m \<longleftrightarrow> unat (msg_len m) = length (msg_buf m) \<and> length (msg_buf m) < 2 ^ 31 - 20 \<and>
     msg_cap m = (if msg_buf m = [] then nat HM_BUFSZ else length (msg_buf m))"

lemma sint_small: "unat (w :: u32) < 2 ^ 31 \<Longrightarrow> sint w = int (unat w)"
proof -
  assume w: "unat w < 2 ^ 31"
  have u: "uint w = int (unat w)" by (rule uint_nat)
  have "sint w = signed_take_bit 31 (uint w)" by (simp add: sint_uint)
  also have "\<dots> = uint w"
  proof (rule signed_take_bit_int_eq_self)
    show "- (2 ^ 31) \<le> uint w" unfolding u by (rule order_trans [of _ 0]) simp_all
    have "int (unat w) < int (2 ^ 31)" using w by (simp only: of_nat_less_iff)
    then show "uint w < 2 ^ 31" unfolding u by simp
  qed
  finally show ?thesis by (simp only: u)
qed

lemma pm_loop_frame:
  assumes "hp_msg_header (Some m) = Some hdr" and "msg_ok m"
    and "zd = None \<or> msg_type m AND PMT_Z = 0"
  shows "pm_loop zd noskip (hdr @ msg_buf m @ rest) = Done (20 + int (length (msg_buf m)), rest, Some m)"
proof -
  let ?buf = "hdr @ msg_buf m @ rest" and ?n = "length (msg_buf m)"
  have "?buf = PM_MAGIC @ htonl (msg_id m) @ htonl (msg_type m) @ htonl (msg_sid m) @ htonl (msg_len m) @ (msg_buf m @ rest)"
    using assms(1) by (auto simp: hp_msg_header_def)
  note h = header_fields [OF this]
  have n: "unat (msg_len m) = ?n" "?n < 2 ^ 31 - 20" using assms(2) by (simp_all add: msg_ok_def)
  then have "sint (msg_len m) = int ?n" by (simp add: sint_small)
  then have bl: "to_size (sint (PM_BODY_LEN ?buf)) = ?n" using n(2) h(5) by (simp add: to_size_id)
  have i: "to_int32 (int ?n) = int ?n" "to_int32 (int PM_HEADER_LEN + int ?n) = int PM_HEADER_LEN + int ?n"
    using n(2) by (simp_all add: to_int32_id)
  have w: "word_of_nat ?n = msg_len m" using n(1) [symmetric] by simp
  have d: "drop (nat (20 + int ?n)) ?buf = rest"
  proof -
    have "length hdr = 20" using assms(1) by (auto simp: hp_msg_header_def PM_MAGIC_def)
    then show ?thesis by (simp add: nat_add_distrib)
  qed
  have cap: "msg_cap (hp_msg_new (int ?n)) = msg_cap m"
    using assms(2) by (simp add: msg_ok_def hp_msg_new_def Let_def)
  have "(hp_msg_new (int ?n))\<lparr>msg_id := msg_id m, msg_type := msg_type m, msg_sid := msg_sid m,
      msg_len := msg_len m, msg_buf := msg_buf m\<rparr> = m"
    using cap by (simp add: hp_msg_new_def Let_def)
  then have "pm_body zd ?buf ?n = Done (20 + int ?n, rest, Some m)"
    using assms(3) h i w d by (cases zd) (auto simp: pm_body_def Let_def)
  with h bl show ?thesis by (simp add: pm_loop.simps [of zd noskip ?buf])
qed

lemma pm_scan_finds:
  assumes "magic_at k buf" and "n \<le> k" and "k < length buf - 4" and "\<forall>j. n \<le> j \<and> j < k \<longrightarrow> \<not> magic_at j buf"
  shows "pm_scan buf n = (k, True)"
  using assms
proof (induction buf n rule: pm_scan.induct)
  case (1 buf n)
  show ?case
  proof (cases "n = k")
    case True
    with "1.prems" show ?thesis by (simp add: pm_scan.simps [of buf k])
  next
    case False
    with "1.prems" have nm: "n < length buf - 4" "\<not> magic_at n buf" by auto
    have "pm_scan buf (n + 1) = (k, True)"
      by (rule "1.IH" [OF nm "1.prems"(1)]) (use "1.prems" False in auto)
    with nm show ?thesis by (simp add: pm_scan.simps [of buf n])
  qed
qed

lemma pm_loop_skip:
  assumes "buf = junk @ hdr @ msg_buf m @ rest" and "hp_msg_header (Some m) = Some hdr" and "msg_ok m"
    and "zd = None \<or> msg_type m AND PMT_Z = 0" and "\<forall>j < length junk. \<not> magic_at j buf"
  shows "pm_loop zd False buf = Done (20 + int (length (msg_buf m)), rest, Some m)"
proof (cases "junk = []")
  case True
  with pm_loop_frame [OF assms(2-4)] assms(1) show ?thesis by simp
next
  case False
  have lh: "length hdr = 20" using assms(2) by (auto simp: hp_msg_header_def PM_MAGIC_def)
  have "drop (length junk) buf = hdr @ msg_buf m @ rest" using assms(1) by simp
  moreover have "take 4 hdr = PM_MAGIC" using assms(2) by (auto simp: hp_msg_header_def PM_MAGIC_def)
  ultimately have "magic_at (length junk) buf" using lh by (simp add: magic_at_def)
  then have "pm_scan buf 1 = (length junk, True)"
    using assms(1,5) lh False by (intro pm_scan_finds) (auto simp: Suc_le_eq)
  moreover have "\<not> magic_at 0 buf" using assms(5) False by simp
  ultimately have "pm_loop zd False buf = pm_loop zd False (hdr @ msg_buf m @ rest)"
    using assms(1) lh by (simp add: pm_loop.simps [of zd False "junk @ hdr @ msg_buf m @ rest"])
  with pm_loop_frame [OF assms(2-4)] show ?thesis by simp
qed

lemma pm_loop_suffix:
  "pm_loop None noskip buf = Done (rc, buf', msg) \<Longrightarrow> \<exists>pre. buf = pre @ buf'"
proof (induction "None :: (nat \<Rightarrow> byte list \<Rightarrow> byte list option) option" noskip buf arbitrary: rc buf' msg rule: pm_loop.induct)
  case (1 noskip buf)
  have dr: "\<exists>pre. buf = pre @ drop n buf" for n by (metis append_take_drop_id)
  show ?case
  proof (cases "length buf < PM_HEADER_LEN")
    case True
    with "1.prems" show ?thesis by (auto simp: pm_loop.simps [of None noskip buf])
  next
    case len: False
    show ?thesis
    proof (cases "magic_at 0 buf")
      case True
      with "1.prems" len dr show ?thesis
        by (auto simp: pm_loop.simps [of None noskip buf] pm_body_def Let_def split: if_splits)
    next
      case False
      show ?thesis
      proof (cases noskip)
        case True
        with "1.prems" len False dr show ?thesis by (auto simp: pm_loop.simps [of None True buf])
      next
        case sk: False
        with "1.prems" len False have "pm_loop None noskip (drop (fst (pm_scan buf 1)) buf) = Done (rc, buf', msg)"
          by (simp add: pm_loop.simps [of None False buf])
        from "1.hyps" [OF len False sk this] dr [of "fst (pm_scan buf 1)"] show ?thesis by (metis append_assoc)
      qed
    qed
  qed
qed

subsection \<open>Properties\<close>


text \<open>
  A header whose length field is negative is never given up: whatever arrives behind
  it, up to any buffer an address space can hold, the call reports that more data is
  needed and keeps every byte, so the stream is stuck.
\<close>

lemma hp_pm_pack_negative_length:
  assumes "length buf < 2 ^ 63" and "20 \<le> length buf" and "magic_at 0 buf" and "sint (PM_BODY_LEN buf) < 0"
  shows "hp_pm_pack zd (Some buf) flags = Done (0, Some buf, None)"
proof -
  let ?s = "sint (PM_BODY_LEN buf)"
  have ge: "- (2 ^ 31) \<le> ?s" using sint_ge [of "PM_BODY_LEN buf"] by simp
  have "?s mod 2 ^ 64 = (?s + 2 ^ 64) mod 2 ^ 64" by simp
  also have "\<dots> = ?s + 2 ^ 64" using assms(4) ge by (intro mod_pos_pos_trivial) auto
  finally have "to_size ?s = nat (?s + 2 ^ 64)" by (simp add: to_size_def)
  with ge assms(1) have "\<not> to_size ?s \<le> length buf - 20" by simp
  with assms(2,3) show ?thesis
    by (simp add: hp_pm_pack_def pm_loop.simps [of zd _ buf] Let_def)
qed

text \<open>
  With zlib, the room offered for the decompressed body is the size of a pointer: every
  message that decompresses to more than eight bytes is dropped as corrupt, although it is
  taken out of the buffer.
\<close>

lemma hp_pm_pack_zlib_drops:
  assumes "hp_msg_header (Some m) = Some hdr" and "msg_ok m" and "msg_type m AND PMT_Z \<noteq> 0"
    and "z 8 (msg_buf m) = None"
  shows "hp_pm_pack (Some z) (Some (hdr @ msg_buf m @ rest)) flags = Done (0, Some rest, None)"
proof -
  let ?buf = "hdr @ msg_buf m @ rest" and ?n = "length (msg_buf m)"
  have "?buf = PM_MAGIC @ htonl (msg_id m) @ htonl (msg_type m) @ htonl (msg_sid m) @ htonl (msg_len m) @ (msg_buf m @ rest)"
    using assms(1) by (auto simp: hp_msg_header_def)
  note h = header_fields [OF this]
  have n: "unat (msg_len m) = ?n" "?n < 2 ^ 31 - 20" using assms(2) by (simp_all add: msg_ok_def)
  then have bl: "to_size (sint (PM_BODY_LEN ?buf)) = ?n" using h(5) by (simp add: sint_small to_size_id)
  have i: "to_int32 (int PM_HEADER_LEN + int ?n) = int PM_HEADER_LEN + int ?n"
    using n(2) by (simp add: to_int32_id)
  have "length hdr = 20" using assms(1) by (auto simp: hp_msg_header_def PM_MAGIC_def)
  then have "drop (nat (20 + int ?n)) ?buf = rest" by (simp add: nat_add_distrib)
  with assms(3,4) h i have "pm_body (Some z) ?buf ?n = Done (0, rest, None)"
    by (simp add: pm_body_def Let_def hp_msg_new_def)
  with h bl show ?thesis by (simp add: hp_pm_pack_def pm_loop.simps [of _ _ ?buf] Let_def)
qed

subsection \<open>The properties at a concrete message\<close>

definition msg_example :: "u32 \<Rightarrow> hp_msg" where
  "msg_example t = \<lparr>msg_id = 1, msg_type = t, msg_sid = 3, msg_buf = [7, 8], msg_cap = 2, msg_len = 2\<rparr>"

definition msg_example_hdr :: "u32 \<Rightarrow> byte list" where
  "msg_example_hdr t = PM_MAGIC @ htonl 1 @ htonl t @ htonl 3 @ htonl 2"

lemma msg_example_ok: "hp_msg_header (Some (msg_example t)) = Some (msg_example_hdr t)" "msg_ok (msg_example t)"
  by (simp_all add: hp_msg_header_def msg_example_def msg_example_hdr_def msg_ok_def)


lemma hp_pm_pack_negative_length_witness:
  "hp_pm_pack None (Some (PM_MAGIC @ htonl 1 @ htonl 2 @ htonl 3 @ htonl (-1) @ [7, 8])) 0 =
    Done (0, Some (PM_MAGIC @ htonl 1 @ htonl 2 @ htonl 3 @ htonl (-1) @ [7, 8]), None)"
  (is "hp_pm_pack None (Some ?buf) 0 = _")
proof -
  note h = header_fields [OF refl, of 1 2 3 "-1" "[7, 8]"]
  have "length ?buf < 2 ^ 63" "20 \<le> length ?buf" "magic_at 0 ?buf" "sint (PM_BODY_LEN ?buf) < 0"
    using h by simp_all
  then show ?thesis by (rule hp_pm_pack_negative_length)
qed

lemma hp_pm_pack_zlib_drops_witness:
  "hp_pm_pack (Some (\<lambda>cap bs. if cap < 16 then None else Some (replicate 16 0)))
     (Some (msg_example_hdr 0x800 @ [7, 8] @ [5])) 0 = Done (0, Some [5], None)"
proof -
  have "msg_type (msg_example 0x800) AND PMT_Z \<noteq> 0" by (simp add: msg_example_def PMT_Z_def)
  from hp_pm_pack_zlib_drops [OF msg_example_ok this, of "\<lambda>cap bs. if cap < 16 then None else Some (replicate 16 0)" "[5]" 0]
  show ?thesis by (simp add: msg_example_def)
qed

end
