(* ===== verification/Hp_Sig.thy ===== *)
theory Hp_Sig
  imports Prelude
begin

section \<open>hp\_sig: printing numbers without printf, and signal dispatch\<close>

text \<open>
  Models \<open>src/hp_sig.c\<close>: \<open>digits10\<close> and \<open>ll2string\<close> (the printing that is safe inside a
  signal handler), the handler with its log line, and the set-up of the handlers. A
  \<open>long long\<close> is an integer in the 64-bit range; the unsigned value the code works with
  is a natural number below \<open>2 ^ 64\<close>. The destination is the whole buffer; a write
  outside it is \<open>None\<close>.
\<close>

subsection \<open>Decimal digits\<close>

function digits10 :: "nat \<Rightarrow> nat" where
  "digits10 v =
     (if v < 10 then 1
      else if v < 100 then 2
      else if v < 1000 then 3
      else if v < 1000000000000 then
        (if v < 100000000 then
           (if v < 1000000 then
              (if v < 10000 then 4 else 5 + (if v \<ge> 100000 then 1 else 0))
            else 7 + (if v \<ge> 10000000 then 1 else 0))
         else if v < 10000000000 then 9 + (if v \<ge> 1000000000 then 1 else 0)
         else 11 + (if v \<ge> 100000000000 then 1 else 0))
      else 12 + digits10 (v div 1000000000000))"
  by pat_completeness auto
termination
  by (relation "measure id") auto

declare digits10.simps [simp del]

text \<open>The table of the digit pairs 00 to 99 that the code indexes with twice the pair's value.\<close>

definition digit_pairs :: string where
  "digit_pairs = concat (map (\<lambda>k. [digit_char (k div 10), digit_char (k mod 10)]) [0..<100])"

definition buf_set :: "nat \<Rightarrow> char \<Rightarrow> char list option \<Rightarrow> char list option" where
  "buf_set i c buf = Option.bind buf (\<lambda>b. if i < length b then Some (b[i := c]) else None)"

text \<open>
  The main loop: two digits per turn, from the right. \<open>next\<close> is unsigned, so it is only
  correct as long as it does not wrap: the subtraction is checked.
\<close>

function ll_loop :: "nat \<Rightarrow> nat \<Rightarrow> char list option \<Rightarrow> (nat \<times> nat \<times> char list option)" where
  "ll_loop val pos dst =
     (if val \<ge> 100 then
        let i = (val mod 100) * 2;
            dst = buf_set pos (digit_pairs ! (i + 1)) dst;
            dst = (if pos \<ge> 1 then buf_set (pos - 1) (digit_pairs ! i) dst else None)
        in if pos \<ge> 2 then ll_loop (val div 100) (pos - 2) dst else (0, 0, None)
      else (val, pos, dst))"
  by pat_completeness auto
termination
  by (relation "measure (\<lambda>(v, n, d). v)") auto

declare ll_loop.simps [simp del]

definition ll_last :: "nat \<Rightarrow> nat \<Rightarrow> char list option \<Rightarrow> char list option" where
  "ll_last val pos dst =
     (if val < 10 then buf_set pos (digit_char val) dst
      else let i = val * 2;
               dst = buf_set pos (digit_pairs ! (i + 1)) dst
           in if pos \<ge> 1 then buf_set (pos - 1) (digit_pairs ! i) dst else None)"

definition LLONG_MIN :: int where "LLONG_MIN = - (2 ^ 63)"

definition ll2string :: "char list \<Rightarrow> nat \<Rightarrow> int \<Rightarrow> (nat \<times> char list) option" where
  "ll2string dst dstlen svalue =
     (let val = (if svalue < 0 then (if svalue \<noteq> LLONG_MIN then nat (- svalue) else 2 ^ 63) else nat svalue);
          negative = (if svalue < 0 then 1 else 0);
          len = digits10 val + negative
      in if len \<ge> dstlen then Some (0, dst)
         else
           let d = buf_set len (char_of (0::nat)) (Some dst);
               (v, n, d) = ll_loop val (len - 1) d;
               d = ll_last v n d;
               d = (if negative = 1 then buf_set 0 (CHR ''-'') d else d)
           in map_option (\<lambda>d. (len, d)) d)"

subsection \<open>The number of digits\<close>

lemma nat_text_digits: "nat_text n \<noteq> []"
  by (subst nat_text.simps) auto

lemma length_nat_text_step: "10 \<le> n \<Longrightarrow> length (nat_text n) = Suc (length (nat_text (n div 10)))"
  by (subst nat_text.simps) auto

lemma length_nat_text_less: "n < 10 \<Longrightarrow> length (nat_text n) = 1"
  by (subst nat_text.simps) auto

lemma length_nat_text_range: "10 ^ k \<le> n \<Longrightarrow> n < 10 ^ Suc k \<Longrightarrow> length (nat_text n) = Suc k"
proof (induction k arbitrary: n)
  case 0
  then show ?case by (simp add: length_nat_text_less)
next
  case (Suc k)
  then have "10 \<le> n" by (metis le_trans one_le_numeral one_le_power mult_le_mono2 mult.right_neutral power_Suc)
  moreover have "10 ^ k \<le> n div 10" "n div 10 < 10 ^ Suc k" using Suc.prems by (auto simp: less_mult_imp_div_less)
  ultimately show ?case using Suc.IH [of "n div 10"] by (simp add: length_nat_text_step)
qed

lemma length_nat_text_skip: "n \<ge> 10 ^ k \<Longrightarrow> length (nat_text n) = k + length (nat_text (n div 10 ^ k))"
proof (induction k arbitrary: n)
  case (Suc k)
  then have "10 \<le> n" by (metis le_trans one_le_numeral one_le_power mult_le_mono2 mult.right_neutral power_Suc)
  moreover have "10 ^ k \<le> n div 10" using Suc.prems by auto
  ultimately show ?case using Suc.IH [of "n div 10"] by (simp add: length_nat_text_step div_mult2_eq mult.commute)
qed simp

lemma digits10_length: "digits10 v = length (nat_text v)"
proof (induction v rule: digits10.induct)
  case (1 v)
  show ?case
  proof (cases "v < 1000000000000")
    case True
    note d = digits10.simps [of v]
    show ?thesis
    proof (rule ccontr)
      assume n: "\<not> ?thesis"
      have "10 \<le> v" using n length_nat_text_less [of v] by (cases "v < 10") (simp_all add: d)
      then have "100 \<le> v" using n length_nat_text_range [of 1 v] by (cases "v < 100") (simp_all add: d)
      then have "1000 \<le> v" using n length_nat_text_range [of 2 v] by (cases "v < 1000") (simp_all add: d)
      then have "10000 \<le> v" using n length_nat_text_range [of 3 v] by (cases "v < 10000") (simp_all add: d)
      then have "100000 \<le> v" using n length_nat_text_range [of 4 v] by (cases "v < 100000") (simp_all add: d)
      then have "1000000 \<le> v" using n length_nat_text_range [of 5 v] by (cases "v < 1000000") (simp_all add: d)
      then have "10000000 \<le> v" using n length_nat_text_range [of 6 v] by (cases "v < 10000000") (simp_all add: d)
      then have "100000000 \<le> v" using n length_nat_text_range [of 7 v] by (cases "v < 100000000") (simp_all add: d)
      then have "1000000000 \<le> v" using n length_nat_text_range [of 8 v] by (cases "v < 1000000000") (simp_all add: d)
      then have "10000000000 \<le> v" using n length_nat_text_range [of 9 v] by (cases "v < 10000000000") (simp_all add: d)
      then have "100000000000 \<le> v" using n length_nat_text_range [of 10 v] by (cases "v < 100000000000") (simp_all add: d)
      then have "1000000000000 \<le> v" using n length_nat_text_range [of 11 v] by (cases "v < 1000000000000") (simp_all add: d)
      with True show False by simp
    qed
  next
    case False
    then have "digits10 v = 12 + length (nat_text (v div 1000000000000))"
      using 1 by (simp add: digits10.simps [of v])
    with length_nat_text_skip [of 12 v] False show ?thesis by simp
  qed
qed

subsection \<open>The text written\<close>

lemma nth_concat_pairs:
  "i < n \<Longrightarrow> concat (map (\<lambda>k. [f k, g k]) [0..<n]) ! (i * 2) = f i \<and>
    concat (map (\<lambda>k. [f k, g k]) [0..<n]) ! (i * 2 + 1) = g i"
proof (induction n)
  case (Suc n)
  have len: "length (concat (map (\<lambda>k. [f k, g k]) [0..<n])) = n * 2" by (induction n) auto
  with Suc show ?case by (cases "i = n") (auto simp: nth_append)
qed simp

lemma digit_pairs_nth:
  "i < 100 \<Longrightarrow> digit_pairs ! (i * 2) = digit_char (i div 10) \<and> digit_pairs ! (i * 2 + 1) = digit_char (i mod 10)"
  unfolding digit_pairs_def by (rule nth_concat_pairs)

lemma nat_text_pair:
  assumes "100 \<le> n"
  shows "nat_text n = nat_text (n div 100) @ [digit_char (n mod 100 div 10), digit_char (n mod 100 mod 10)]"
proof -
  have "n div 10 mod 10 = n mod 100 div 10" by (simp add: mod_mult2_eq [of n 10 10, simplified] div_mult2_eq)
  moreover have "n mod 10 = n mod 100 mod 10" by (simp add: mod_mod_cancel)
  moreover have "n div 10 div 10 = n div 100" by (simp add: div_mult2_eq [symmetric])
  moreover have "\<not> n div 10 < 10" using assms by auto
  ultimately show ?thesis
    using assms nat_text.simps [of n] nat_text.simps [of "n div 10"] by (simp add: not_less)
qed

lemma nat_text_two: "10 \<le> n \<Longrightarrow> n < 100 \<Longrightarrow> nat_text n = [digit_char (n div 10), digit_char (n mod 10)]"
  using nat_text.simps [of n] nat_text.simps [of "n div 10"] by auto

lemma update_two:
  assumes "1 \<le> n" and "n < length b"
  shows "b[n := y, n - 1 := x] = take (n - 1) b @ [x, y] @ drop (n + 1) b"
proof (rule nth_equalityI)
  fix j assume "j < length (b[n := y, n - 1 := x])"
  with assms show "b[n := y, n - 1 := x] ! j = (take (n - 1) b @ [x, y] @ drop (n + 1) b) ! j"
    by (cases "j < n - 1"; cases "j = n - 1"; cases "j = n") (auto simp: nth_append min_def)
qed (use assms in simp)

text \<open>Where \<open>next\<close> points to the last free place, loop and last step together write the number before it.\<close>

lemma ll_loop_text:
  assumes "length (nat_text val) \<le> pos + 1" and "pos < length b" and "ll_loop val pos dst = (v, n, d)"
    and "dst = Some b"
  shows "ll_last v n d =
    Some (take (pos + 1 - length (nat_text val)) b @ nat_text val @ drop (pos + 1) b)"
  using assms
proof (induction val pos dst arbitrary: b v n d rule: ll_loop.induct)
  case (1 val pos dst)
  show ?case
  proof (cases "val \<ge> 100")
    case True
    let ?i = "val mod 100"
    let ?b = "b[pos := digit_char (?i mod 10), pos - 1 := digit_char (?i div 10)]"
    let ?L = "length (nat_text (val div 100))"
    note tp = nat_text_pair [OF True]
    have L: "length (nat_text val) = ?L + 2" by (simp add: tp)
    have "1 \<le> ?L" using nat_text_digits [of "val div 100"] by (cases "nat_text (val div 100)") auto
    with L "1.prems"(1) have n2: "2 \<le> pos" by simp
    have dp: "digit_pairs ! (?i * 2 + 1) = digit_char (?i mod 10)" "digit_pairs ! (?i * 2) = digit_char (?i div 10)"
      using digit_pairs_nth [of ?i] by auto
    have set2: "(if 1 \<le> pos then buf_set (pos - 1) (digit_pairs ! (?i * 2)) (buf_set pos (digit_pairs ! (?i * 2 + 1)) dst) else None) = Some ?b"
      using n2 "1.prems"(2,4) unfolding dp by (simp add: buf_set_def)
    have rec: "ll_loop (val div 100) (pos - 2) (Some ?b) = (v, n, d)"
      using "1.prems"(3) True n2 set2 unfolding ll_loop.simps [of val pos] "1.prems"(4) by (simp add: Let_def)
    have fin: "ll_last v n d = Some (take (pos - 2 + 1 - ?L) ?b @ nat_text (val div 100) @ drop (pos - 2 + 1) ?b)"
    proof (rule "1.IH" [OF True refl refl refl n2 _ _ _ set2])
      show "?L \<le> pos - 2 + 1" using "1.prems"(1) L n2 by simp
      show "pos - 2 < length ?b" using "1.prems"(2) by simp
      show "ll_loop (val div 100) (pos - 2)
          (if 1 \<le> pos then buf_set (pos - 1) (digit_pairs ! (?i * 2)) (buf_set pos (digit_pairs ! (?i * 2 + 1)) dst) else None) = (v, n, d)"
        using rec set2 "1.prems"(4) by simp
    qed
    have "?b = take (pos - 1) b @ [digit_char (?i div 10), digit_char (?i mod 10)] @ drop (pos + 1) b"
      using n2 "1.prems"(2) by (intro update_two) auto
    moreover have e: "pos - 2 + 1 = pos - 1" "length (take (pos - 1) b) = pos - 1"
      using n2 "1.prems"(2) by simp_all
    ultimately have "drop (pos - 2 + 1) ?b = [digit_char (?i div 10), digit_char (?i mod 10)] @ drop (pos + 1) b"
      "take (pos - 2 + 1 - ?L) ?b = take (pos - 1 - ?L) (take (pos - 1) b)"
      by (simp_all only: e drop_append take_append) simp_all
    moreover have "take (pos - 1 - ?L) (take (pos - 1) b) = take (pos + 1 - length (nat_text val)) b"
      using L by (simp add: min_def)
    ultimately show ?thesis unfolding fin using tp by simp
  next
    case False
    then have vn: "v = val" "n = pos" "d = Some b" using "1.prems"(3,4) by (simp_all add: ll_loop.simps [of val pos])
    show ?thesis
    proof (cases "val < 10")
      case True
      then show ?thesis using "1.prems"(2) vn
        by (simp add: ll_last_def buf_set_def nat_text.simps [of val] upd_conv_take_nth_drop)
    next
      case ge: False
      with False have t: "nat_text val = [digit_char (val div 10), digit_char (val mod 10)]"
        by (intro nat_text_two) auto
      with "1.prems"(1) have "1 \<le> pos" by simp
      moreover have "digit_pairs ! (val * 2 + 1) = digit_char (val mod 10)" "digit_pairs ! (val * 2) = digit_char (val div 10)"
        using digit_pairs_nth [of val] False by auto
      ultimately show ?thesis
        using "1.prems"(2) vn ge t update_two [of pos b] by (simp add: ll_last_def buf_set_def Let_def)
    qed
  qed
qed

lemma digit_char_code: "d < 10 \<Longrightarrow> of_char (digit_char d) = (48 + d :: nat)"
  by (simp add: digit_char_def)

lemma nat_text_nonzero: "\<forall>c \<in> set (nat_text n). c \<noteq> char_of (0::nat)"
proof (induction n rule: nat_text.induct)
  case (1 n)
  have d: "digit_char k \<noteq> char_of (0::nat)" if "k < 10" for k
  proof
    assume "digit_char k = char_of (0::nat)"
    then have "of_char (digit_char k) = (0::nat)" by simp
    with digit_char_code [OF that] show False by simp
  qed
  show ?case
    using 1 d [of "n mod 10"] d [of n] by (subst nat_text.simps) auto
qed

lemma c_str_terminated: "\<forall>c \<in> set s. c \<noteq> char_of (0::nat) \<Longrightarrow> c_str (s @ char_of (0::nat) # r) = s"
  by (simp add: c_str_def takeWhile_append2)

text \<open>What the loop and its end leave in the buffer, with the sign put in front.\<close>

lemma ll_signed:
  assumes n: "n = length (nat_text v) + (if s then 1 else 0)" and "n < length dst"
    and lp: "ll_loop v (n - 1) (Some (dst[n := char_of (0::nat)])) = (w, m, d)"
  shows "(if s then buf_set 0 (CHR ''-'') (ll_last w m d) else ll_last w m d) =
    Some ((if s then CHR ''-'' # nat_text v else nat_text v) @ char_of (0::nat) # drop (Suc n) dst)"
proof -
  let ?b = "dst[n := char_of (0::nat)]" and ?L = "length (nat_text v)"
  have L1: "1 \<le> ?L" using nat_text_digits [of v] by (cases "nat_text v") auto
  have "?L \<le> n - 1 + 1" "n - 1 < length ?b" "n - 1 + 1 = n" using n L1 assms(2) by (auto split: if_splits)
  then have last: "ll_last w m d = Some (take (n - ?L) ?b @ nat_text v @ drop n ?b)"
    using ll_loop_text [OF _ _ lp refl] by simp
  have dr: "drop n ?b = char_of (0::nat) # drop (Suc n) dst"
    using assms(2) by (simp add: Cons_nth_drop_Suc [symmetric] drop_update_cancel)
  show ?thesis
  proof (cases s)
    case True
    then have "length (take (n - ?L) ?b) = 1" using n assms(2) by simp
    then obtain c where "take (n - ?L) ?b = [c]" by (metis length_0_conv length_Suc_conv One_nat_def)
    with True show ?thesis unfolding last dr by (simp add: buf_set_def)
  next
    case False
    with n show ?thesis unfolding last dr by simp
  qed
qed

text \<open>
  C39: For every \<open>long long\<close>, the smallest one included, \<open>ll2string\<close> into a buffer of at
  least \<open>dstlen\<close> bytes writes only inside it: it leaves the decimal text of the number as a
  C string and returns its length, or, exactly when text and terminator do not fit, returns
  0 and leaves the buffer alone.
\<close>

theorem ll2string_text:
  assumes "- (2 ^ 63) \<le> i" and "i < 2 ^ 63" and "dstlen \<le> length dst"
  shows "\<exists>d. ll2string dst dstlen i =
      Some (if length (int_text i) < dstlen then length (int_text i) else 0, d) \<and>
    (if length (int_text i) < dstlen then c_str d = int_text i \<and> length d = length dst else d = dst)"
proof -
  let ?v = "nat (if i < 0 then - i else i)" and ?neg = "if i < 0 then 1 else 0 :: nat"
  have v: "(if i < 0 then (if i \<noteq> LLONG_MIN then nat (- i) else 2 ^ 63) else nat i) = ?v"
    by (simp add: LLONG_MIN_def)
  have t: "int_text i = (if i < 0 then CHR ''-'' # nat_text ?v else nat_text ?v)" by (simp add: int_text_def)
  let ?L = "length (nat_text ?v)"
  have len: "digits10 ?v + ?neg = length (int_text i)" by (simp add: digits10_length t)
  show ?thesis
  proof (cases "length (int_text i) < dstlen")
    case False
    then have "ll2string dst dstlen i = Some (0, dst)"
      unfolding ll2string_def Let_def v len by simp
    with False show ?thesis by simp
  next
    case True
    let ?n = "length (int_text i)" and ?b = "dst[length (int_text i) := char_of (0::nat)]"
    have nL: "?n = ?L + (if i < 0 then 1 else 0)" using len by (simp add: digits10_length)
    obtain w m d where lp: "ll_loop ?v (?n - 1) (Some ?b) = (w, m, d)" using prod_cases3 by blast
    let ?d = "(if i < 0 then CHR ''-'' # nat_text ?v else nat_text ?v) @ char_of (0::nat) # drop (Suc ?n) dst"
    have sign: "(if ?neg = 1 then buf_set 0 (CHR ''-'') (ll_last w m d) else ll_last w m d) = Some ?d"
      using ll_signed [OF nL _ lp] True assms(3) by (cases "i < 0") simp_all
    have nz: "(0::nat) \<le> ?n - 1" by simp
    have "ll2string dst dstlen i = Some (?n, ?d)"
      using True assms(3) lp sign unfolding ll2string_def Let_def v len
      by (simp add: buf_set_def)
    moreover have "c_str ?d = int_text i"
      unfolding t by (rule c_str_terminated) (use nat_text_nonzero [of ?v] in \<open>auto simp: char_of_def\<close>)
    moreover have "length ?d = length dst" using True assms(3) t by simp
    ultimately show ?thesis using True by auto
  qed
qed

theorem ll2string_text_witness:
  "\<exists>d. ll2string (replicate 21 CHR ''x'') 21 (- (2 ^ 63)) = Some (20, d) \<and> c_str d = ''-9223372036854775808''"
proof -
  have t: "int_text (- (2 ^ 63)) = ''-9223372036854775808''" 
    by (simp add: int_text_def nat_text.simps digit_char_values)
  from ll2string_text [of "- (2 ^ 63)" 21 "replicate 21 CHR ''x''"] show ?thesis unfolding t by auto
qed

subsection \<open>Signal dispatch\<close>

datatype signum = SIGINT | SIGTERM | SIGCHLD | SIGUSR1 | SIGUSR2 | SIGHUP | SIGPIPE | OtherSig int

record hp_sig =
  on_chld :: fnptr
  on_exit :: fnptr
  on_usr1 :: fnptr
  on_usr2 :: fnptr
  sig_arg :: ptr

datatype sig_disp = Sig_default | Sig_ignore | Sig_shutdown_handler

text \<open>What a handler does to the outside: text on standard error, callbacks, the end of the process.\<close>

datatype sig_effect = Wrote string | Called fnptr ptr | Exited

definition sig_message :: "signum \<Rightarrow> string" where
  "sig_message sig =
     (case sig of
        SIGINT \<Rightarrow> ''Received SIGINT scheduling shutdown...''
      | SIGTERM \<Rightarrow> ''Received SIGTERM scheduling shutdown...''
      | SIGCHLD \<Rightarrow> ''Received SIGCHLD, call wait''
      | SIGUSR1 \<Rightarrow> ''Received SIGUSR1''
      | SIGUSR2 \<Rightarrow> ''Received SIGUSR2''
      | _ \<Rightarrow> ''Received shutdown signal, scheduling shutdown...'')"

text \<open>
  The log line; \<open>ok\<close> are the results of the \<open>write\<close> calls (False for -1, an exhausted
  list for success): the first failure ends it. \<open>now\<close> and \<open>pid\<close> are what the clock and
  \<open>getpid\<close> return.
\<close>

definition log_buf :: "int \<Rightarrow> string" where
  "log_buf i = (case ll2string (replicate 64 (char_of (0::nat))) 64 i of None \<Rightarrow> [] | Some (n, d) \<Rightarrow> c_str d)"

fun write_parts :: "bool list \<Rightarrow> string list \<Rightarrow> sig_effect list" where
  "write_parts oks [] = []"
| "write_parts (False # oks) (p # ps) = []"
| "write_parts (True # oks) (p # ps) = Wrote p # write_parts oks ps"
| "write_parts [] (p # ps) = Wrote p # write_parts [] ps"

definition serverLogFromHandler :: "bool list \<Rightarrow> int \<Rightarrow> int \<Rightarrow> string \<Rightarrow> sig_effect list" where
  "serverLogFromHandler oks now pid msg =
     write_parts oks [''['', log_buf now, '']/'', log_buf pid, '' serverLogFromHandler: '', msg, [char_of (10::nat)]]"

definition sigShutdownHandler :: "bool list \<Rightarrow> int \<Rightarrow> int \<Rightarrow> hp_sig \<Rightarrow> signum \<Rightarrow> sig_effect list" where
  "sigShutdownHandler oks now pid g sig =
     serverLogFromHandler oks now pid (sig_message sig) @
     (if sig = SIGUSR1 then (if on_usr1 g \<noteq> NULL then [Called (on_usr1 g) (sig_arg g)] else [])
      else if sig = SIGUSR2 then (if on_usr2 g \<noteq> NULL then [Called (on_usr2 g) (sig_arg g)] else [])
      else
        (if sig = SIGCHLD \<and> on_chld g \<noteq> NULL then [Called (on_chld g) (sig_arg g)] else []) @
        (if sig \<noteq> SIGCHLD
         then (if on_exit g \<noteq> NULL then [Called (on_exit g) (sig_arg g)] else [Exited]) else []))"

definition setupSignalHandlers :: "(signum \<Rightarrow> sig_disp) \<Rightarrow> signum \<Rightarrow> sig_disp" where
  "setupSignalHandlers h =
     h(SIGTERM := Sig_shutdown_handler, SIGINT := Sig_shutdown_handler, SIGCHLD := Sig_shutdown_handler,
       SIGUSR1 := Sig_shutdown_handler, SIGUSR2 := Sig_shutdown_handler)"

text \<open>The global pointer \<open>ghp_sig\<close> is the last component: \<open>None\<close> before the first call.\<close>

definition hp_sig_init ::
  "hp_sig option \<Rightarrow> fnptr \<Rightarrow> fnptr \<Rightarrow> fnptr \<Rightarrow> fnptr \<Rightarrow> ptr \<Rightarrow> (signum \<Rightarrow> sig_disp) \<Rightarrow> hp_sig option \<Rightarrow>
   int \<times> hp_sig option \<times> (signum \<Rightarrow> sig_disp) \<times> hp_sig option" where
  "hp_sig_init so chld ex usr1 usr2 arg h ghp =
     (case so of None \<Rightarrow> (-1, None, h, ghp)
      | Some _ \<Rightarrow>
        let h = setupSignalHandlers (h(SIGHUP := Sig_ignore, SIGPIPE := Sig_ignore));
            s = \<lparr>on_chld = chld, on_exit = ex, on_usr1 = usr1, on_usr2 = usr2, sig_arg = arg\<rparr>;
            h = (if on_chld s = NULL then h(SIGCHLD := Sig_ignore) else h)
        in (0, Some s, h, Some s))"

lemma log_buf_text: "- (2 ^ 63) \<le> i \<Longrightarrow> i < 2 ^ 63 \<Longrightarrow> length (int_text i) < 64 \<Longrightarrow> log_buf i = int_text i"
  using ll2string_text [of i 64 "replicate 64 (char_of (0::nat))"] by (auto simp: log_buf_def)

end
