(* ===== verification/Hp_Opt.thy ===== *)
theory Hp_Opt
  imports Prelude
begin

section \<open>hp\_opt: cutting a command line into arguments\<close>

text \<open>
  Models \<open>hp_opt_argv\<close> of \<open>src/hp_opt.c\<close>. The command line is a buffer that ends with a NUL;
  the code overwrites its blanks with NULs and stores the addresses of the words, here their
  offsets. The option parser itself is another project's header.
\<close>

abbreviation (input) NULc :: char where "NULc \<equiv> char_of (0 :: nat)"

function argv_loop :: "nat \<Rightarrow> nat \<Rightarrow> nat list \<Rightarrow> string \<Rightarrow> nat list \<times> string" where
  "argv_loop q p argv buf =
     (if length buf \<le> q then (argv, buf)
      else if buf ! q = CHR '' '' \<or> buf ! q = NULc then
        let argv = (if q - p > 0 then argv @ [p] else argv)
        in if buf ! q = NULc then (argv, buf)
           else argv_loop (q + 1) (q + 1) argv (buf[q := NULc])
      else argv_loop (q + 1) p argv buf)"
  by pat_completeness auto
termination
  by (relation "measure (\<lambda>(q, p, argv, buf). length buf - q)") auto

declare argv_loop.simps [simp del]

definition hp_opt_argv :: "string option \<Rightarrow> bool \<Rightarrow> int \<times> nat list \<times> string" where
  "hp_opt_argv cmdline have_argv =
     (case cmdline of
        None \<Rightarrow> (-1, [], [])
      | Some buf \<Rightarrow>
        if \<not> have_argv then (-1, [], buf)
        else case argv_loop 0 0 [] buf of (argv, buf) \<Rightarrow> (int (length argv), argv, buf))"

subsection \<open>The words of a line\<close>

fun blank_split :: "string \<Rightarrow> string list" where
  "blank_split [] = [[]]"
| "blank_split (c # cs) =
     (if c = CHR '' '' then [] # blank_split cs else (c # hd (blank_split cs)) # tl (blank_split cs))"

definition words :: "string \<Rightarrow> string list" where
  "words s = filter (\<lambda>w. w \<noteq> []) (blank_split s)"

lemma blank_split_not_Nil [simp]: "blank_split s \<noteq> []"
  by (cases s) simp_all

definition glue :: "string \<Rightarrow> string list \<Rightarrow> string list" where
  "glue t ws = filter (\<lambda>w. w \<noteq> []) ((t @ hd ws) # tl ws)"

lemma c_str_token: "NULc \<notin> set t \<Longrightarrow> c_str (t @ NULc # r) = t"
  unfolding c_str_def by (induction t) auto

lemma take_same_token:
  assumes "take n b = take n a" and "o1 \<le> n"
  shows "take (n - o1) (drop o1 b) = take (n - o1) (drop o1 a)"
  using assms by (metis drop_take)

lemma argv_loop_words:
  assumes "NULc \<notin> set pre2" and "NULc \<notin> set rest" and "p = length pre1"
  shows "\<exists>offs b. argv_loop (length pre1 + length pre2) p argv (pre1 @ pre2 @ rest @ [NULc]) = (argv @ offs, b) \<and>
    length b = length pre1 + length pre2 + length rest + 1 \<and>
    take (length pre1) b = pre1 \<and> map (\<lambda>k. c_str (drop k b)) offs = glue pre2 (blank_split rest)"
  using assms
proof (induction rest arbitrary: pre1 pre2 p argv)
  case Nil
  then show ?case
    by (subst argv_loop.simps) (auto simp: glue_def nth_append c_str_token)
next
  case (Cons c cs)
  let ?q = "length pre1 + length pre2" and ?buf = "pre1 @ pre2 @ (c # cs) @ [NULc]"
  have c: "?buf ! ?q = c" by (simp add: nth_append)
  have cn: "c \<noteq> NULc" using Cons.prems(2) by auto
  show ?case
  proof (cases "c = CHR '' ''")
    case False
    have step: "argv_loop ?q p argv ?buf = argv_loop (length pre1 + length (pre2 @ [c])) p argv (pre1 @ (pre2 @ [c]) @ cs @ [NULc])"
      by (subst argv_loop.simps) (use c cn False in \<open>simp add: nth_append\<close>)
    have prems: "NULc \<notin> set (pre2 @ [c])" "NULc \<notin> set cs" using Cons.prems cn by auto
    from Cons.IH [OF prems Cons.prems(3), of argv] obtain offs b where
      r: "argv_loop (length pre1 + length (pre2 @ [c])) p argv (pre1 @ (pre2 @ [c]) @ cs @ [NULc]) = (argv @ offs, b)"
      and l: "length b = length pre1 + length (pre2 @ [c]) + length cs + 1"
      and t: "take (length pre1) b = pre1"
      and g: "map (\<lambda>k. c_str (drop k b)) offs = glue (pre2 @ [c]) (blank_split cs)" by blast
    have "glue (pre2 @ [c]) (blank_split cs) = glue pre2 (blank_split (c # cs))" using False by (simp add: glue_def)
    with r l t g step show ?thesis by (intro exI [of _ offs] exI [of _ b]) simp
  next
    case True
    let ?argv = "if pre2 \<noteq> [] then argv @ [p] else argv"
    have up: "?buf[?q := NULc] = (pre1 @ pre2 @ [NULc]) @ [] @ cs @ [NULc]"
      using list_update_length [of "pre1 @ pre2" c "cs @ [NULc]" NULc] by simp
    have step: "argv_loop ?q p argv ?buf =
        argv_loop (length (pre1 @ pre2 @ [NULc]) + length ([] :: string)) (length (pre1 @ pre2 @ [NULc])) ?argv
          ((pre1 @ pre2 @ [NULc]) @ [] @ cs @ [NULc])"
      unfolding up [symmetric]
      by (subst argv_loop.simps) (use c cn True Cons.prems(3) in \<open>simp add: nth_append Let_def\<close>)
    have prems: "NULc \<notin> set ([] :: string)" "NULc \<notin> set cs" using Cons.prems by auto
    from Cons.IH [OF prems refl, of "pre1 @ pre2 @ [NULc]" ?argv] obtain offs b where
      r: "argv_loop (length (pre1 @ pre2 @ [NULc]) + length ([] :: string)) (length (pre1 @ pre2 @ [NULc])) ?argv
          ((pre1 @ pre2 @ [NULc]) @ [] @ cs @ [NULc]) = (?argv @ offs, b)"
      and l: "length b = length (pre1 @ pre2 @ [NULc]) + length ([] :: string) + length cs + 1"
      and t: "take (length (pre1 @ pre2 @ [NULc])) b = pre1 @ pre2 @ [NULc]"
      and g: "map (\<lambda>k. c_str (drop k b)) offs = glue [] (blank_split cs)" by blast
    have b: "b = (pre1 @ pre2 @ [NULc]) @ drop (length (pre1 @ pre2 @ [NULc])) b"
      using append_take_drop_id [of "length (pre1 @ pre2 @ [NULc])" b] unfolding t by (rule sym)
    then obtain r where b': "b = (pre1 @ pre2 @ [NULc]) @ r" by blast
    have tok: "c_str (drop p b) = pre2"
      unfolding b' using Cons.prems(1,3) by (simp add: c_str_token)
    have t1: "take (length pre1) b = pre1" unfolding b' by simp
    have gl: "glue [] (blank_split cs) = filter (\<lambda>w. w \<noteq> []) (blank_split cs)"
      by (cases "blank_split cs") (simp_all add: glue_def)
    have "map (\<lambda>k. c_str (drop k b)) ((if pre2 \<noteq> [] then [p] else []) @ offs) = glue pre2 (blank_split (c # cs))"
      using g tok gl True by (simp add: glue_def)
    moreover have "argv_loop ?q p argv ?buf = (argv @ ((if pre2 \<noteq> [] then [p] else []) @ offs), b)"
      using step r by simp
    moreover have "length b = length pre1 + length pre2 + length (c # cs) + 1" using l by simp
    ultimately show ?thesis using t1 by blast
  qed
qed

text \<open>
  C38: \<open>hp_opt_argv\<close> finds exactly the words of the line, in order: for a text without a NUL
  and its terminator, the addresses it stores point, in the buffer it leaves behind, at the
  maximal runs of non-blanks, and it returns their number.
\<close>

theorem hp_opt_argv_words:
  assumes "NULc \<notin> set s" and "hp_opt_argv (Some (s @ [NULc])) True = (argc, argv, buf)"
  shows "map (\<lambda>k. c_str (drop k buf)) argv = words s \<and> argc = int (length (words s)) \<and> length buf = length s + 1"
proof -
  have g: "glue [] (blank_split s) = words s"
    by (cases "blank_split s") (simp_all add: glue_def words_def)
  obtain offs b where "argv_loop 0 0 [] (s @ [NULc]) = (offs, b)" "length b = length s + 1"
    "map (\<lambda>k. c_str (drop k b)) offs = words s"
    using argv_loop_words [of "[]" s 0 "[]" "[]"] assms(1) g by auto
  moreover from this(3) have "length offs = length (words s)" by (metis length_map)
  ultimately show ?thesis using assms(2) by (auto simp: hp_opt_argv_def)
qed

theorem hp_opt_argv_words_witness:
  "(case hp_opt_argv (Some (''ls  -l x'' @ [NULc])) True of (argc, argv, buf) \<Rightarrow>
      argc = 3 \<and> map (\<lambda>k. c_str (drop k buf)) argv = [''ls'', ''-l'', ''x''])"
proof -
  obtain argc argv buf where r: "hp_opt_argv (Some (''ls  -l x'' @ [NULc])) True = (argc, argv, buf)"
    by (rule prod_cases3)
  have "words ''ls  -l x'' = [''ls'', ''-l'', ''x'']" by (simp add: words_def)
  with hp_opt_argv_words [OF _ r] show ?thesis unfolding r by (simp add: char_of_def)
qed

end
