(* ===== verification/Hp_Var.thy ===== *)
theory Hp_Var
  imports Prelude "HOL-Library.Char_ord"
begin

section \<open>hp\_var: variables in configuration values\<close>

text \<open>
  Models \<open>src/hp_var.c\<close>: \<open>$name\<close> is replaced by its value, \<open>$$\<close> stands for a dollar sign, an
  unknown name is kept as it is. Strings are lists of characters without their NUL;
  \<open>sds_room\<close> is the capacity that \<open>sdsMakeRoomFor\<close> gives an empty string.
\<close>

record hp_var_map =
  vm_var :: "string option"
  vm_val :: string

definition hp_var_map_find :: "string option \<Rightarrow> hp_var_map list \<Rightarrow> string option" where
  "hp_var_map_find varstr vmap =
     (case varstr of None \<Rightarrow> None
      | Some s \<Rightarrow> (case lfind_idx (\<lambda>m. vm_var m = Some s) vmap of None \<Rightarrow> None | Some i \<Rightarrow> Some (vm_val (vmap ! i))))"

definition var_char :: "char \<Rightarrow> bool" where
  "var_char c \<longleftrightarrow> (CHR ''0'' \<le> c \<and> c \<le> CHR ''9'') \<or> (CHR ''a'' \<le> c \<and> c \<le> CHR ''z'') \<or>
     (CHR ''A'' \<le> c \<and> c \<le> CHR ''Z'') \<or> c = CHR ''_''"

function var_expand :: "(string \<Rightarrow> string option) \<Rightarrow> string \<Rightarrow> string" where
  "var_expand fn [] = []"
| "var_expand fn (c # cs) =
     (if c = CHR ''$'' then
        (case cs of
           [] \<Rightarrow> [c]
         | d # ds \<Rightarrow>
           if d = CHR ''$'' then CHR ''$'' # var_expand fn ds
           else
             let varstr = takeWhile var_char cs
             in (case fn varstr of Some val \<Rightarrow> val | None \<Rightarrow> CHR ''$'' # varstr) @ var_expand fn (dropWhile var_char cs))
      else c # var_expand fn cs)"
  by pat_completeness auto
termination
  by (relation "measure (\<lambda>(fn, s). length s)") (auto simp: less_Suc_eq_le intro: le_SucI length_dropWhile_le)

text \<open>
  \<open>out\<close> is the caller's buffer; the results are its contents, and whether they end with a
  NUL.
\<close>

definition hp_var_do_replace :: "string option \<Rightarrow> string \<Rightarrow> (string \<Rightarrow> string option) \<Rightarrow> string \<times> bool" where
  "hp_var_do_replace str out fn =
     (case str of None \<Rightarrow> (out, False) | Some s \<Rightarrow> if s = [] then (out, False) else (var_expand fn s, True))"

definition hp_var_map_replace :: "string option \<Rightarrow> string \<Rightarrow> hp_var_map list \<Rightarrow> string \<times> bool" where
  "hp_var_map_replace str out vmap =
     (case str of None \<Rightarrow> (out, False)
      | Some s \<Rightarrow>
        if s = [] then (out, False)
        else if vmap = [] then (s, False)
        else hp_var_do_replace str out (\<lambda>key. hp_var_map_find (Some key) vmap))"

datatype var_result = V_null | V_sds string | V_overflow

definition hp_var_eval :: "(nat \<Rightarrow> nat) \<Rightarrow> string option \<Rightarrow> (string \<Rightarrow> string option) \<Rightarrow> var_result" where
  "hp_var_eval sds_room str fn =
     (case str of None \<Rightarrow> V_null
      | Some s \<Rightarrow>
        if s = [] then V_sds []
        else let out = fst (hp_var_do_replace (Some s) [] fn)
             in if sds_room (length s * 2) < length out then V_overflow else V_sds out)"

lemma var_expand_length:
  "(\<And>name v. fn name = Some v \<Longrightarrow> length v \<le> 2 * (length name + 1)) \<Longrightarrow>
   length (var_expand fn s) \<le> 2 * length s"
proof (induction fn s rule: var_expand.induct)
  case (2 fn c cs)
  show ?case
  proof (cases "c = CHR ''$''")
    case False
    with 2 show ?thesis by fastforce
  next
    case c: True
    show ?thesis
    proof (cases cs)
      case Nil
      with c show ?thesis by simp
    next
      case (Cons d ds)
      show ?thesis
      proof (cases "d = CHR ''$''")
        case True
        with 2 c Cons show ?thesis by fastforce
      next
        case False
        let ?v = "takeWhile var_char cs"
        let ?val = "case fn ?v of Some val \<Rightarrow> val | None \<Rightarrow> CHR ''$'' # ?v"
        have "length ?val \<le> 2 * (length ?v + 1)" using "2.prems" by (auto split: option.split)
        moreover have "length (var_expand fn (dropWhile var_char cs)) \<le> 2 * length (dropWhile var_char cs)"
          using 2 c Cons False by blast
        moreover have "length cs = length ?v + length (dropWhile var_char cs)"
          by (metis length_append takeWhile_dropWhile_id)
        moreover have "var_expand fn (c # cs) = ?val @ var_expand fn (dropWhile var_char cs)"
          unfolding Cons using c False by (simp add: Let_def split: option.split)
        ultimately show ?thesis by simp
      qed
    qed
  qed
qed simp

text \<open>
  \<open>hp_var_eval\<close> reserves two bytes for each byte of the text. That is enough when no value
  is longer than twice its name and dollar sign, and it is not enough otherwise: a text that
  is one such variable, in a string with exactly the room asked for, is written past the end.
\<close>

lemma hp_var_eval_room:
  assumes "\<And>n. n \<le> sds_room n"
  shows "((\<forall>name v. fn name = Some v \<longrightarrow> length v \<le> 2 * (length name + 1)) \<longrightarrow>
      s \<noteq> [] \<longrightarrow> hp_var_eval sds_room (Some s) fn = V_sds (var_expand fn s)) \<and>
    (fn name = Some v \<longrightarrow> name \<noteq> [] \<longrightarrow> list_all var_char name \<longrightarrow> sds_room (2 * (length name + 1)) < length v \<longrightarrow>
      hp_var_eval sds_room (Some (CHR ''$'' # name)) fn = V_overflow)"
proof (intro conjI impI)
  assume a: "\<forall>name v. fn name = Some v \<longrightarrow> length v \<le> 2 * (length name + 1)" "s \<noteq> []"
  have "length (var_expand fn s) \<le> sds_room (length s * 2)"
    using var_expand_length [of fn s] a(1) assms [of "length s * 2"] by fastforce
  with a(2) show "hp_var_eval sds_room (Some s) fn = V_sds (var_expand fn s)"
    by (simp add: hp_var_eval_def hp_var_do_replace_def)
next
  assume a: "fn name = Some v" "name \<noteq> []" "list_all var_char name" "sds_room (2 * (length name + 1)) < length v"
  have tw: "takeWhile var_char name = name" "dropWhile var_char name = []"
    using a(3) by (auto simp: list_all_iff)
  obtain d ds where n: "name = d # ds" using a(2) by (cases name) auto
  have "d \<noteq> CHR ''$''" using a(3) n by (auto simp: var_char_def less_eq_char_def)
  then have "var_expand fn (CHR ''$'' # name) = v"
    using tw a(1) unfolding n by (simp add: Let_def)
  then show "hp_var_eval sds_room (Some (CHR ''$'' # name)) fn = V_overflow"
    using a(4) by (simp add: hp_var_eval_def hp_var_do_replace_def mult.commute)
qed

lemma hp_var_eval_room_witness:
  "hp_var_eval (\<lambda>n. n) (Some ''$A'') (\<lambda>n. Some ''/usr/share'') = V_overflow"
  using hp_var_eval_room [of "\<lambda>n. n" "\<lambda>n. Some ''/usr/share''" "[]" "''A''" "''/usr/share''"]
  by (simp add: var_char_def less_eq_char_def)

end
