(* ===== verification/Hp_Timerfd.thy ===== *)
theory Hp_Timerfd
  imports Hp_Epoll
begin

section \<open>hp\_timerfd: timers in the event loop\<close>

text \<open>
  Models \<open>src/hp_timerfd.c\<close> on top of the event loop of \<open>Hp_Epoll\<close>. A timer is a
  record at an address \<open>ta\<close> of the client; \<open>None\<close> stands for a null pointer. The kernel's
  answers (a descriptor or -1, success of the clock and of arming) come from scripts, armed
  timers are kept by descriptor with their interval in seconds and nanoseconds.
\<close>

record hp_timerfd =
  tf_efds :: bool
  tf_fd :: sock
  tf_n :: nat
  tf_handle :: fnptr
  tf_arg :: ptr

record tw =
  tw_ep :: epw
  tw_create :: "int list"
  tw_clock :: "bool list"
  tw_settime :: "bool list"
  tw_armed :: "sock \<rightharpoonup> int \<times> int"
  tw_closed :: "sock list"

definition answer :: "'a \<Rightarrow> 'a list \<Rightarrow> 'a" where
  "answer d xs = (case xs of [] \<Rightarrow> d | x # _ \<Rightarrow> x)"

abbreviation (input) EPOLLET :: int where "EPOLLET \<equiv> 2147483648"
abbreviation (input) HANDLE_TFD :: fnptr where "HANDLE_TFD \<equiv> 77"

text \<open>
  The event handler: the descriptor delivers the count of expirations as eight bytes,
  anything else fails an assertion. The result is the timer and the handler's code.
\<close>

definition hp_timerfd_handle_tfd ::
  "(fnptr \<Rightarrow> hp_timerfd \<Rightarrow> 'u \<Rightarrow> int \<times> hp_timerfd \<times> 'u) \<Rightarrow> nat \<Rightarrow> hp_timerfd \<Rightarrow> 'u \<Rightarrow> (int \<times> hp_timerfd \<times> 'u) outcome" where
  "hp_timerfd_handle_tfd handle nread tf u =
     (if nread \<noteq> 8 then Undef else Done (handle (tf_handle tf) (tf\<lparr>tf_n := tf_n tf + 1\<rparr>) u))"

definition timer_interval :: "int \<Rightarrow> int \<times> int" where
  "timer_interval interval = (interval div 1000, (interval * 1000000) mod 2 ^ 64 mod 1000000000)"

definition hp_timerfd_reset :: "hp_timerfd option \<Rightarrow> int \<Rightarrow> tw \<Rightarrow> int \<times> tw" where
  "hp_timerfd_reset timerfd interval w =
     (case timerfd of None \<Rightarrow> (-1, w)
      | Some tf \<Rightarrow>
        let clock = answer True (tw_clock w);
            w = (if interval \<le> 0 then w else w\<lparr>tw_clock := tl (tw_clock w)\<rparr>)
        in if interval > 0 \<and> \<not> clock then (-1, w)
           else
             let ok = answer True (tw_settime w); w = w\<lparr>tw_settime := tl (tw_settime w)\<rparr>
             in if \<not> ok then (-1, w)
                else (0, w\<lparr>tw_armed := (tw_armed w)(tf_fd tf :=
                        (if interval \<le> 0 then None else Some (timer_interval interval)))\<rparr>))"

definition hp_timerfd_init ::
  "hp_timerfd option \<Rightarrow> ptr \<Rightarrow> bool \<Rightarrow> fnptr \<Rightarrow> int \<Rightarrow> ptr \<Rightarrow> tw \<Rightarrow> int \<times> hp_timerfd option \<times> tw" where
  "hp_timerfd_init timerfd ta efds handle interval arg w =
     (if \<not> (timerfd \<noteq> None \<and> efds) then (-1, timerfd, w)
      else
        let fd = answer (-1) (tw_create w); w = w\<lparr>tw_create := tl (tw_create w)\<rparr>
        in if fd = -1 then (-1, timerfd, w)
           else
             let tf = \<lparr>tf_efds = True, tf_fd = fd, tf_n = 0, tf_handle = handle, tf_arg = arg\<rparr>;
                 (rc, ep) = hp_epoll_add fd (EPOLLIN + EPOLLET) HANDLE_TFD NULL ta (tw_ep w);
                 w = w\<lparr>tw_ep := ep\<rparr>
             in if rc \<noteq> 0 then (-3, Some tf, w)
                else (case hp_timerfd_reset (Some tf) interval w of
                        (rc, w) \<Rightarrow> (if rc \<noteq> 0 then -1 else 0, Some tf, w)))"

definition hp_timerfd_init2 ::
  "hp_timerfd option \<Rightarrow> ptr \<Rightarrow> bool \<Rightarrow> sock \<Rightarrow> fnptr \<Rightarrow> int \<Rightarrow> ptr \<Rightarrow> tw \<Rightarrow> int \<times> hp_timerfd option \<times> tw" where
  "hp_timerfd_init2 timerfd ta efds fd handle interval arg w =
     (if timerfd = None then (-1, timerfd, w)
      else
        let tf = \<lparr>tf_efds = False, tf_fd = fd, tf_n = 0, tf_handle = handle, tf_arg = arg\<rparr>;
            (rc, ep) = (if efds then hp_epoll_add fd (EPOLLIN + EPOLLET) HANDLE_TFD NULL ta (tw_ep w) else (0, tw_ep w));
            w = w\<lparr>tw_ep := ep\<rparr>
        in if rc \<noteq> 0 then (-3, Some tf, w)
           else (case hp_timerfd_reset (Some tf) interval w of
                   (rc, w) \<Rightarrow> (if rc \<noteq> 0 then -1 else 0, Some tf, w)))"

text \<open>A timer that is not in the loop any more fails the assertion.\<close>

definition hp_timerfd_uninit :: "hp_timerfd option \<Rightarrow> tw \<Rightarrow> tw outcome" where
  "hp_timerfd_uninit timerfd w =
     (case timerfd of None \<Rightarrow> Done w
      | Some tf \<Rightarrow>
        if tf_efds tf then
          (case hp_epoll_rm (tf_fd tf) (tw_ep w) of
             (rc, ep) \<Rightarrow> if rc \<noteq> 0 then Undef else Done (w\<lparr>tw_ep := ep, tw_closed := tw_closed w @ [tf_fd tf]\<rparr>))
        else Done w)"

text \<open>The interval is represented without loss.\<close>

lemma timer_interval_exact:
  assumes "0 < i" and "i < 2 ^ 31"
  shows "(case timer_interval i of (sec, nsec) \<Rightarrow> sec * 1000000000 + nsec) = i * 1000000"
proof -
  have "i * 1000000 < 2 ^ 64" using assms by simp
  then have "(i * 1000000) mod 2 ^ 64 = i * 1000000" using assms(1) by simp
  moreover have "(i * 1000000) mod 1000000000 = (i mod 1000) * 1000000"
    using mod_mult_mult2 [of i 1000000 1000] by simp
  moreover have "i div 1000 * 1000000000 + i mod 1000 * 1000000 = i * 1000000" by presburger
  ultimately show ?thesis unfolding timer_interval_def by simp
qed

lemma hp_timerfd_reset_ep: "tw_ep (snd (hp_timerfd_reset tf i w)) = tw_ep w"
  by (simp add: hp_timerfd_reset_def Let_def split: option.split)

text \<open>
  C21: A timer made with \<open>hp_timerfd_init\<close> leaves nothing behind: after \<open>hp_timerfd_uninit\<close>
  the loop has the entries it had before and the descriptor is closed. One made with
  \<open>hp_timerfd_init2\<close> does not record its loop, so after its uninit the loop still has an entry
  whose argument is the address of the dead timer.
\<close>

theorem hp_timerfd_lifecycle:
  assumes "ep_inv (tw_ep w)" and "0 \<le> fd" and "fd \<notin> fst ` set (ep_entries (tw_ep w))"
    and "length (ep_entries (tw_ep w)) < ep_capacity (tw_ep w)"
    and "tw_create w = [fd]" and "tw_clock w = []" and "tw_settime w = []"
  shows "(case hp_timerfd_init (Some tf0) ta True h i arg w of (rc, tf, w1) \<Rightarrow>
      rc = 0 \<and> (\<exists>w2. hp_timerfd_uninit tf w1 = Done w2 \<and>
        ep_entries (tw_ep w2) = ep_entries (tw_ep w) \<and> tw_closed w2 = tw_closed w @ [fd])) \<and>
    (case hp_timerfd_init2 (Some tf0) ta True fd h i arg w of (rc, tf, w1) \<Rightarrow>
      rc = 0 \<and> (\<exists>w2. hp_timerfd_uninit tf w1 = Done w2 \<and>
        map_of (ep_entries (tw_ep w2)) fd = Some (EPOLLIN + EPOLLET, HANDLE_TFD, NULL, ta)))"
proof -
  let ?d = "(EPOLLIN + EPOLLET, HANDLE_TFD, NULL, ta)"
  obtain rc ep where a: "hp_epoll_add fd (EPOLLIN + EPOLLET) HANDLE_TFD NULL ta (tw_ep w) = (rc, ep)"
    by (cases "hp_epoll_add fd (EPOLLIN + EPOLLET) HANDLE_TFD NULL ta (tw_ep w)")
  have ad: "ep_add fd ?d (tw_ep w) = (rc, ep)" using a by (simp add: ep_add_def)
  have rc: "rc = 0" using epr.add_room [OF assms(1,2), of ?d] assms(4) ad by simp
  have m: "map_of (ep_entries ep) fd = Some ?d"
    using epr.lookup_add [OF assms(1,2), of ?d] ad rc by simp
  have r: "fst (hp_epoll_rm fd ep) = 0" "ep_entries (snd (hp_epoll_rm fd ep)) = ep_entries (tw_ep w)"
    using epr.add_then_rm [OF assms(1-4), of ?d] ad by simp_all
  show ?thesis
    using assms(2,5-7) a rc m r
    by (auto simp: hp_timerfd_init_def hp_timerfd_init2_def hp_timerfd_uninit_def hp_timerfd_reset_def
        answer_def Let_def split: prod.split)
qed

definition tw_example :: tw where
  "tw_example = \<lparr>tw_ep = epw_example, tw_create = [9], tw_clock = [], tw_settime = [], tw_armed = Map.empty, tw_closed = []\<rparr>"

theorem hp_timerfd_lifecycle_witness:
  "case hp_timerfd_init2 (Some \<lparr>tf_efds = False, tf_fd = 0, tf_n = 0, tf_handle = 0, tf_arg = 0\<rparr>)
      500 True 9 6 250 0 tw_example of (rc, tf, w1) \<Rightarrow>
      (\<exists>w2. hp_timerfd_uninit tf w1 = Done w2 \<and> map_of (ep_entries (tw_ep w2)) 9 = Some (2147483649, 77, 0, 500))"
  using hp_timerfd_lifecycle [of tw_example 9 "\<lparr>tf_efds = False, tf_fd = 0, tf_n = 0, tf_handle = 0, tf_arg = 0\<rparr>" 500 6 250 0]
    epw_example_ok
  by (simp add: tw_example_def split_beta)

end
