(* ===== verification/Hp_Expire.thy ===== *)
theory Hp_Expire
  imports Hp_Timerfd "HOL-Library.AList"
begin

section \<open>hp\_expire: objects that are released when unused\<close>

text \<open>
  Models \<open>src/hp_expire.c\<close>: a dictionary from names to objects with the time of their last use,
  and a timer that releases the ones not used for \<open>ms\<close> milliseconds. The dictionary comes from
  another project; it is the finite map its interface promises, here an association list with
  distinct names whose order plays no role. Times are milliseconds; the objects are addresses,
  and the calls of the client's release function are logged.
\<close>

record expire_s =
  xs_t :: int
  xs_p :: ptr

record hp_expire =
  ex_dic :: "(string \<times> expire_s) list"
  ex_ms :: int
  ex_free :: fnptr
  ex_tfd :: "hp_timerfd option"

abbreviation (input) DEF_FREE :: fnptr where "DEF_FREE \<equiv> 1"
abbreviation (input) HANDLE_TIMER :: fnptr where "HANDLE_TIMER \<equiv> 78"

definition is_due :: "int \<Rightarrow> int \<Rightarrow> expire_s \<Rightarrow> bool" where
  "is_due ms now x \<longleftrightarrow> xs_p x \<noteq> NULL \<and> now - xs_t x \<ge> ms"

text \<open>The results are the dictionary and the objects released.\<close>

definition handle_timer :: "int \<Rightarrow> hp_expire \<Rightarrow> hp_expire \<times> ptr list" where
  "handle_timer now c =
     (c\<lparr>ex_dic := map (\<lambda>(k, x). (k, if is_due (ex_ms c) now x then x\<lparr>xs_p := NULL\<rparr> else x)) (ex_dic c)\<rparr>,
      map (\<lambda>(k, x). xs_p x) (filter (\<lambda>(k, x). is_due (ex_ms c) now x) (ex_dic c)))"

definition zero_timer :: hp_timerfd where
  "zero_timer = \<lparr>tf_efds = False, tf_fd = 0, tf_n = 0, tf_handle = 0, tf_arg = 0\<rparr>"

definition expire_base :: "int \<Rightarrow> fnptr \<Rightarrow> hp_expire" where
  "expire_base timeout_ms free =
     \<lparr>ex_dic = [], ex_ms = timeout_ms, ex_free = (if free \<noteq> NULL then free else DEF_FREE), ex_tfd = Some zero_timer\<rparr>"

definition hp_expire_init ::
  "ptr \<Rightarrow> ptr \<Rightarrow> bool \<Rightarrow> int \<Rightarrow> fnptr \<Rightarrow> tw \<Rightarrow> int \<times> hp_expire option \<times> tw" where
  "hp_expire_init e ta efds timeout_ms free w =
     (if \<not> (e \<noteq> NULL \<and> (efds \<and> timeout_ms > 0 \<or> timeout_ms \<le> 0)) then (-1, None, w)
      else
        let x = expire_base timeout_ms free
        in if efds \<and> timeout_ms > 0
           then (case hp_timerfd_init (ex_tfd x) ta efds HANDLE_TIMER (timeout_ms div 2) e w of
                   (r, tf, w) \<Rightarrow> (r, Some (x\<lparr>ex_tfd := tf\<rparr>), w))
           else (0, Some x, w))"

definition hp_expire_init2 ::
  "ptr \<Rightarrow> ptr \<Rightarrow> bool \<Rightarrow> sock \<Rightarrow> int \<Rightarrow> fnptr \<Rightarrow> tw \<Rightarrow> int \<times> hp_expire option \<times> tw" where
  "hp_expire_init2 e ta efds tfd timeout_ms free w =
     (if e = NULL then (-1, None, w)
      else
        let x = expire_base timeout_ms free
        in if timeout_ms > 0
           then (case hp_timerfd_init2 (ex_tfd x) ta efds tfd HANDLE_TIMER (timeout_ms div 2) e w of
                   (r, tf, w) \<Rightarrow> (r, Some (x\<lparr>ex_tfd := tf\<rparr>), w))
           else (0, Some x, w))"

text \<open>
  \<open>fn\<close> is the client's function that makes an object for a name, if it gave one. A name that
  is not there gets an entry without an object first.
\<close>

definition hp_expire_get :: "string option \<Rightarrow> (string \<Rightarrow> ptr) option \<Rightarrow> int \<Rightarrow> hp_expire \<Rightarrow> ptr \<times> hp_expire" where
  "hp_expire_get i fn now e =
     (case i of None \<Rightarrow> (NULL, e)
      | Some name \<Rightarrow>
        let p = (case map_of (ex_dic e) name of Some x \<Rightarrow> xs_p x | None \<Rightarrow> NULL);
            p = (if p = NULL then (case fn of Some mk \<Rightarrow> mk name | None \<Rightarrow> NULL) else p)
        in (p, e\<lparr>ex_dic := AList.update name \<lparr>xs_t = now, xs_p = p\<rparr> (ex_dic e)\<rparr>))"

text \<open>The destructor of the entries is called for every one, also without an object.\<close>

definition hp_expire_uninit :: "hp_expire \<Rightarrow> tw \<Rightarrow> ptr list \<times> tw outcome" where
  "hp_expire_uninit e w =
     (map (\<lambda>(k, x). xs_p x) (ex_dic e), if ex_ms e > 0 then hp_timerfd_uninit (ex_tfd e) w else Done w)"

subsection \<open>Runs\<close>

datatype exp_op = E_get "string option" "(string \<Rightarrow> ptr) option" int | E_tick int

text \<open>The objects the client's function makes in one step.\<close>

definition makes :: "exp_op \<Rightarrow> hp_expire \<Rightarrow> ptr list" where
  "makes a e =
     (case a of
        E_get (Some name) (Some mk) now \<Rightarrow>
          (if (case map_of (ex_dic e) name of Some x \<Rightarrow> xs_p x | None \<Rightarrow> NULL) = NULL \<and> mk name \<noteq> NULL then [mk name] else [])
      | _ \<Rightarrow> [])"

definition exp_step :: "exp_op \<Rightarrow> hp_expire \<times> ptr list \<times> ptr list \<Rightarrow> hp_expire \<times> ptr list \<times> ptr list" where
  "exp_step a s =
     (case s of (e, made, rel) \<Rightarrow>
        case a of
          E_get i fn now \<Rightarrow> (snd (hp_expire_get i fn now e), made @ makes a e, rel)
        | E_tick now \<Rightarrow> (fst (handle_timer now e), made, rel @ snd (handle_timer now e)))"

definition held :: "hp_expire \<Rightarrow> ptr list" where
  "held e = filter (\<lambda>p. p \<noteq> NULL) (map (\<lambda>(k, x). xs_p x) (ex_dic e))"

lemma held_update:
  assumes "distinct (map fst al)"
  shows "mset (filter (\<lambda>p. p \<noteq> NULL) (map (\<lambda>(k, x). xs_p x) (AList.update name y al))) +
      mset (filter (\<lambda>p. p \<noteq> NULL) (case map_of al name of Some x \<Rightarrow> [xs_p x] | None \<Rightarrow> [])) =
    mset (filter (\<lambda>p. p \<noteq> NULL) (map (\<lambda>(k, x). xs_p x) al)) + mset (filter (\<lambda>p. p \<noteq> NULL) [xs_p y])"
  using assms
proof (induction al)
  case (Cons a al)
  then show ?case by (cases a) (auto split: option.splits)
qed simp

lemma held_tick:
  "mset (filter (\<lambda>p. p \<noteq> NULL) (map (\<lambda>(k, x). xs_p x) (map (\<lambda>(k, x). (k, if is_due ms now x then x\<lparr>xs_p := NULL\<rparr> else x)) al))) +
   mset (map (\<lambda>(k, x). xs_p x) (filter (\<lambda>(k, x). is_due ms now x) al)) =
   mset (filter (\<lambda>p. p \<noteq> NULL) (map (\<lambda>(k, x). xs_p x) al))"
  by (induction al) (auto simp: is_due_def)

lemma ex_dic_upd: "ex_dic (e\<lparr>ex_dic := d\<rparr>) = d"
  by simp

lemma exp_step_inv:
  assumes "exp_step a (e, made, rel) = (e', made', rel')" and "distinct (map fst (ex_dic e))"
    and "mset made = mset rel + mset (held e)"
  shows "distinct (map fst (ex_dic e')) \<and> mset made' = mset rel' + mset (held e') \<and> ex_ms e' = ex_ms e"
proof (cases a)
  case (E_tick now)
  have e': "e' = fst (handle_timer now e)" "made' = made" "rel' = rel @ snd (handle_timer now e)"
    using assms(1) by (simp_all add: E_tick exp_step_def)
  have "map fst (ex_dic e') = map fst (ex_dic e)"
    unfolding e' by (simp add: handle_timer_def comp_def case_prod_unfold)
  moreover have "mset (held e') + mset (snd (handle_timer now e)) = mset (held e)"
    unfolding e' held_def using held_tick [of "ex_ms e" now "ex_dic e"]
    by (simp only: handle_timer_def fst_conv snd_conv ex_dic_upd)
  moreover have "ex_ms e' = ex_ms e" unfolding e' by (simp add: handle_timer_def)
  ultimately show ?thesis
    using assms(2,3) e'(2,3) by (simp add: ac_simps)
next
  case (E_get i fn now)
  show ?thesis
  proof (cases i)
    case None
    then show ?thesis using assms by (auto simp: E_get exp_step_def hp_expire_get_def makes_def)
  next
    case (Some name)
    let ?p = "case map_of (ex_dic e) name of Some x \<Rightarrow> xs_p x | None \<Rightarrow> NULL"
    let ?q = "if ?p = NULL then (case fn of Some mk \<Rightarrow> mk name | None \<Rightarrow> NULL) else ?p"
    have e': "e' = e\<lparr>ex_dic := AList.update name \<lparr>xs_t = now, xs_p = ?q\<rparr> (ex_dic e)\<rparr>"
      and r: "rel' = rel" "made' = made @ makes a e"
      using assms(1) by (auto simp: E_get Some exp_step_def hp_expire_get_def Let_def)
    have "mset (held e') + mset (filter (\<lambda>p. p \<noteq> NULL) [?p]) = mset (held e) + mset (filter (\<lambda>p. p \<noteq> NULL) [?q])"
      using held_update [OF assms(2), of name "\<lparr>xs_t = now, xs_p = ?q\<rparr>"]
      by (cases "map_of (ex_dic e) name") (simp_all add: held_def e')
    moreover have "mset (filter (\<lambda>p. p \<noteq> NULL) [?q]) = mset (filter (\<lambda>p. p \<noteq> NULL) [?p]) + mset (makes a e)"
      by (cases fn) (auto simp: E_get Some makes_def)
    ultimately have "mset (held e') = mset (held e) + mset (makes a e)"
      by (metis (no_types, lifting) add.assoc add.commute add_right_cancel)
    then show ?thesis using assms(2,3) r by (simp add: e' distinct_update)
  qed
qed

lemma exp_run_inv:
  "fold exp_step ops (e, made, rel) = (e', made', rel') \<Longrightarrow> distinct (map fst (ex_dic e)) \<Longrightarrow>
   mset made = mset rel + mset (held e) \<Longrightarrow>
   distinct (map fst (ex_dic e')) \<and> mset made' = mset rel' + mset (held e') \<and> ex_ms e' = ex_ms e"
proof (induction ops arbitrary: e made rel)
  case (Cons a ops)
  obtain e1 m1 r1 where s: "exp_step a (e, made, rel) = (e1, m1, r1)" by (rule prod_cases3)
  from exp_step_inv [OF s Cons.prems(2,3)] Cons.IH [of e1 m1 r1] Cons.prems(1) s show ?case by simp
qed simp

text \<open>
  Read off the operations alone: when a name was last asked for. \<open>object_of\<close> is the object a name has.
\<close>

definition last_use :: "exp_op list \<Rightarrow> string \<Rightarrow> int option" where
  "last_use ops name =
     fold (\<lambda>a t. case a of E_get (Some n) _ now \<Rightarrow> if n = name then Some now else t | _ \<Rightarrow> t) ops None"

definition object_of :: "hp_expire \<Rightarrow> string \<Rightarrow> ptr" where
  "object_of e name = (case map_of (ex_dic e) name of Some x \<Rightarrow> xs_p x | None \<Rightarrow> NULL)"

lemma map_of_tick:
  "map_of (ex_dic (fst (handle_timer now e))) name =
    map_option (\<lambda>x. if is_due (ex_ms e) now x then x\<lparr>xs_p := NULL\<rparr> else x) (map_of (ex_dic e) name)"
proof -
  have "map_of (map (\<lambda>(k, x). (k, f x)) al) name = map_option f (map_of al name)" for f :: "expire_s \<Rightarrow> expire_s" and al
    by (induction al) auto
  then show ?thesis by (simp add: handle_timer_def)
qed

lemma last_use_times:
  assumes "fold exp_step ops (expire_base ms free, [], []) = (e, made, rel)"
  shows "map_option xs_t (map_of (ex_dic e) name) = last_use ops name"
  using assms
proof (induction ops arbitrary: e made rel rule: rev_induct)
  case Nil
  then show ?case by (auto simp: expire_base_def last_use_def)
next
  case (snoc a ops)
  obtain e0 m0 r0 where s: "fold exp_step ops (expire_base ms free, [], []) = (e0, m0, r0)" by (rule prod_cases3)
  have e: "exp_step a (e0, m0, r0) = (e, made, rel)" using snoc.prems s by simp
  note ih = snoc.IH [OF s]
  show ?case
  proof (cases a)
    case (E_tick now)
    then have "e = fst (handle_timer now e0)" using e by (simp add: exp_step_def)
    then show ?thesis using ih E_tick by (auto simp: map_of_tick last_use_def option.map_comp comp_def if_distrib cong: if_cong)
  next
    case (E_get i fn now)
    then have "e = snd (hp_expire_get i fn now e0)" using e by (simp add: exp_step_def)
    then show ?thesis using ih E_get
      by (cases i) (auto simp: hp_expire_get_def last_use_def Let_def update_conv')
  qed
qed

text \<open>What one turn of the timer releases and leaves, in terms of the last uses.\<close>

lemma handle_timer_idle:
  assumes "distinct (map fst (ex_dic e))" and "\<And>name. map_option xs_t (map_of (ex_dic e) name) = u name"
  shows "p \<in> set (snd (handle_timer now e)) \<longleftrightarrow>
      (\<exists>name t. p = object_of e name \<and> p \<noteq> NULL \<and> u name = Some t \<and> ex_ms e \<le> now - t)"
    and "object_of (fst (handle_timer now e)) name =
      (case u name of Some t \<Rightarrow> if ex_ms e \<le> now - t then NULL else object_of e name | None \<Rightarrow> NULL)"
proof -
  have "p \<in> set (snd (handle_timer now e)) \<longleftrightarrow>
      (\<exists>name x. map_of (ex_dic e) name = Some x \<and> is_due (ex_ms e) now x \<and> p = xs_p x)"
    using assms(1) by (force simp: handle_timer_def map_of_eq_Some_iff)
  also have "\<dots> \<longleftrightarrow> (\<exists>name t. p = object_of e name \<and> p \<noteq> NULL \<and> u name = Some t \<and> ex_ms e \<le> now - t)"
    unfolding assms(2) [symmetric] by (force simp: object_of_def is_due_def split: option.splits)
  finally show "p \<in> set (snd (handle_timer now e)) \<longleftrightarrow>
      (\<exists>name t. p = object_of e name \<and> p \<noteq> NULL \<and> u name = Some t \<and> ex_ms e \<le> now - t)" .
  show "object_of (fst (handle_timer now e)) name =
      (case u name of Some t \<Rightarrow> if ex_ms e \<le> now - t then NULL else object_of e name | None \<Rightarrow> NULL)"
    unfolding assms(2) [symmetric]
    by (auto simp: object_of_def map_of_tick is_due_def split: option.splits)
qed

text \<open>
  C20: Every object is released exactly once, and none that is in use. Whatever names are asked
  for and whenever the timer fires, the objects made are at all times those released and those
  the dictionary holds. When the timer fires it releases exactly the objects whose name was last asked
  for the timeout or longer ago, and leaves every other name its object; and shutting down releases
  what is left. (It also calls the release function with null for each name whose object has expired.)
\<close>

theorem hp_expire_releases_once:
  assumes "fold exp_step ops (expire_base ms free, [], []) = (e, made, rel)"
  shows "mset made = mset rel + mset (held e) \<and>
    mset made = mset rel + mset (filter (\<lambda>p. p \<noteq> NULL) (fst (hp_expire_uninit e w))) \<and>
    (\<forall>now p. p \<in> set (snd (handle_timer now e)) \<longleftrightarrow>
       (\<exists>name t. p = object_of e name \<and> p \<noteq> NULL \<and> last_use ops name = Some t \<and> ms \<le> now - t)) \<and>
    (\<forall>now name. object_of (fst (handle_timer now e)) name =
       (case last_use ops name of Some t \<Rightarrow> if ms \<le> now - t then NULL else object_of e name | None \<Rightarrow> NULL)) \<and>
    (distinct made \<longrightarrow> set (held e) \<inter> set rel = {})"
proof -
  have i: "distinct (map fst (ex_dic e))" "mset made = mset rel + mset (held e)" "ex_ms e = ms"
    using exp_run_inv [OF assms] by (simp_all add: expire_base_def held_def)
  note tick = handle_timer_idle [OF i(1) last_use_times [OF assms], unfolded i(3)]
  have "set (held e) \<inter> set rel = {}" if "distinct made"
  proof -
    have "distinct (rel @ held e)" using that i(2) mset_eq_imp_distinct_iff [of made "rel @ held e"] by simp
    then show ?thesis by auto
  qed
  moreover have "mset made = mset rel + mset (filter (\<lambda>p. p \<noteq> NULL) (fst (hp_expire_uninit e w)))"
    using i(2) by (simp add: hp_expire_uninit_def held_def)
  ultimately show ?thesis using i(2) tick by blast
qed

theorem hp_expire_releases_once_witness:
  "snd (handle_timer 120 (fst (fold exp_step [E_get (Some ''a'') (Some (\<lambda>_. 5)) 0, E_get (Some ''b'') (Some (\<lambda>_. 6)) 60]
      (expire_base 100 9, [], [])))) \<noteq> [] \<and>
   6 \<notin> set (snd (handle_timer 120 (fst (fold exp_step [E_get (Some ''a'') (Some (\<lambda>_. 5)) 0, E_get (Some ''b'') (Some (\<lambda>_. 6)) 60]
      (expire_base 100 9, [], [])))))"
proof -
  let ?ops = "[E_get (Some ''a'') (Some (\<lambda>_. 5)) 0, E_get (Some ''b'') (Some (\<lambda>_. 6)) 60]"
  let ?e = "expire_base 100 9\<lparr>ex_dic := [(''a'', \<lparr>xs_t = 0, xs_p = 5\<rparr>), (''b'', \<lparr>xs_t = 60, xs_p = 6\<rparr>)]\<rparr>"
  have r: "fold exp_step ?ops (expire_base 100 9, [], []) = (?e, [5, 6], [])"
    by (simp add: expire_base_def exp_step_def hp_expire_get_def makes_def Let_def)
  have u: "last_use ?ops ''a'' = Some 0" "object_of ?e ''a'' = 5" "last_use ?ops ''b'' = Some 60" "object_of ?e ''b'' = 6"
    by (simp_all add: last_use_def object_of_def)
  from hp_expire_releases_once [OF r, of undefined]
  have t: "\<And>p. p \<in> set (snd (handle_timer 120 ?e)) \<longleftrightarrow>
    (\<exists>name t. p = object_of ?e name \<and> p \<noteq> NULL \<and> last_use ?ops name = Some t \<and> 100 \<le> 120 - t)" by blast
  have "5 \<in> set (snd (handle_timer 120 ?e))"
    unfolding t by (intro exI [of _ "''a''"] exI [of _ 0]) (simp add: u)
  moreover have "6 \<notin> set (snd (handle_timer 120 ?e))"
    unfolding t by (auto simp: object_of_def last_use_def split: if_splits)
  ultimately show ?thesis unfolding r by auto
qed

text \<open>A timeout of one millisecond asks for a timer of zero, which is none.\<close>

lemma hp_expire_one_ms_never:
  assumes "tw_settime w = []"
  shows "tw_armed (snd (hp_timerfd_reset (Some tf) (1 div 2) w)) (tf_fd tf) = None"
  using assms by (simp add: hp_timerfd_reset_def answer_def Let_def)

end
