(* ===== verification/Hp_Ini.thy ===== *)
theory Hp_Ini
  imports Prelude "HOL-Library.Sublist"
begin

section \<open>hp\_ini: configuration files\<close>

text \<open>
  Models \<open>src/hp_ini.c\<close>: one function takes commands (\<open>#load\<close>, \<open>#set\<close>, \<open>#show\<close>, \<open>#unload\<close>) and
  lookups. The ini reader is another project: \<open>ini_file f\<close> is what reading the file \<open>f\<close> comes
  to, the line of its first error (or 0) and the settings it reports in order; \<open>user_cb\<close> is a
  parser of the client. The dictionary, of a third project, is a finite map. Strings are lists
  of characters without their NUL.
\<close>

record hp_ini =
  ini_dict :: "(string \<rightharpoonup> string) option"
  ini_parser :: fnptr
  ini_section :: string

type_synonym ini_entry = "string option \<times> string \<times> string"

abbreviation (input) DEF_PARSER :: fnptr where "DEF_PARSER \<equiv> 1"

definition dict_replace :: "string \<Rightarrow> string \<Rightarrow> hp_ini \<Rightarrow> hp_ini" where
  "dict_replace k v i = i\<lparr>ini_dict := map_option (\<lambda>d. d(k \<mapsto> v)) (ini_dict i)\<rparr>"

definition hp_config_ini_def_parser :: "ini_entry \<Rightarrow> hp_ini \<Rightarrow> hp_ini" where
  "hp_config_ini_def_parser ent i =
     (case ent of (sec, name, val) \<Rightarrow>
        let i = (case sec of
                   Some s \<Rightarrow> if ini_section i = [] then i\<lparr>ini_section := take 63 s\<rparr> else i
                 | None \<Rightarrow> i);
            k = (case sec of Some s \<Rightarrow> if s \<noteq> [] then s @ ''/'' @ name else name | None \<Rightarrow> name)
        in dict_replace k val i)"

definition hp_ini_exec ::
  "(string \<Rightarrow> int \<times> ini_entry list) \<Rightarrow> (fnptr \<Rightarrow> ini_entry \<Rightarrow> hp_ini \<Rightarrow> hp_ini) \<Rightarrow>
   hp_ini option \<Rightarrow> string option \<Rightarrow> (string option \<times> hp_ini option) outcome" where
  "hp_ini_exec ini_file user_cb ini ks =
     (case ini of None \<Rightarrow> Done (None, None)
      | Some i \<Rightarrow>
      case ks of None \<Rightarrow> Done (None, Some i)
      | Some k \<Rightarrow>
        let i = (if ini_parser i = NULL then i\<lparr>ini_parser := DEF_PARSER\<rparr> else i);
            i = (if ini_dict i = None then i\<lparr>ini_dict := Some Map.empty\<rparr> else i)
        in if k = ''#unload'' then Done (Some ''0'', Some (i\<lparr>ini_dict := None, ini_section := []\<rparr>))
           else if prefix ''#load'' k \<and> length k \<ge> 7 then
             (case ini_file (drop 6 k) of
                (line, ents) \<Rightarrow>
                  let cb = (if ini_parser i = DEF_PARSER then hp_config_ini_def_parser else user_cb (ini_parser i))
                  in Done (Some (if line \<noteq> 0 then ''-1'' else ''0''), Some (fold cb ents i)))
           else if prefix ''#set'' k \<and> length k \<ge> 8 then
             (if length k \<ge> 128 then Undef
              else if CHR '' '' \<notin> set (drop 5 k) then Done (Some ''-1'', Some i)
              else
                let name = takeWhile (\<lambda>c. c \<noteq> CHR '' '') (drop 5 k);
                    v = tl (dropWhile (\<lambda>c. c \<noteq> CHR '' '') (drop 5 k))
                in Done (Some ''0'', Some (dict_replace name v i)))
           else if k = ''#show'' then Done (Some ''0'', Some i)
           else
             let key = (if ini_section i \<noteq> [] \<and> CHR ''/'' \<notin> set k then ini_section i @ ''/'' @ k else k)
             in Done (Some (case the (ini_dict i) key of Some v \<Rightarrow> v | None \<Rightarrow> []), Some i))"

text \<open>What a lookup finds, and what a loaded file leaves.\<close>

definition ini_get :: "hp_ini \<Rightarrow> string \<Rightarrow> string" where
  "ini_get i k =
     (case ini_dict i of None \<Rightarrow> []
      | Some d \<Rightarrow> (case d (if ini_section i \<noteq> [] \<and> CHR ''/'' \<notin> set k then ini_section i @ ''/'' @ k else k) of
                     Some v \<Rightarrow> v | None \<Rightarrow> []))"

definition plain_key :: "string \<Rightarrow> bool" where
  "plain_key k \<longleftrightarrow> k \<noteq> [] \<and> hd k \<noteq> CHR ''#'' \<and> CHR '' '' \<notin> set k"

lemma hp_ini_exec_lookup:
  assumes "plain_key k"
  shows "\<exists>i'. hp_ini_exec ini_file user_cb (Some i) (Some k) = Done (Some (ini_get i k), Some i') \<and>
    ini_section i' = ini_section i"
proof -
  have "\<not> prefix ''#load'' k" "\<not> prefix ''#set'' k" "k \<noteq> ''#unload''" "k \<noteq> ''#show''"
    using assms by (cases k; auto simp: plain_key_def)+
  then show ?thesis
    by (auto simp: hp_ini_exec_def Let_def ini_get_def)
qed

lemma fold_def_parser_dict:
  "ini_dict i \<noteq> None \<Longrightarrow> ini_dict (fold hp_config_ini_def_parser ents i) \<noteq> None"
  by (induction ents arbitrary: i) (auto simp: hp_config_ini_def_parser_def dict_replace_def Let_def split: option.splits)

text \<open>
  C37: Setting a value and reading it back. \<open>#set\<close> stores the value under the name as given,
  but a lookup of a name without a slash goes to the default section, the first section a
  loaded file had. So the value comes back when the name has a slash or no section was loaded,
  and otherwise the lookup still gives what the section has for the name.
\<close>

theorem hp_ini_set_get:
  assumes "plain_key k" and "v \<noteq> []" and "length k + length v < 122"
  shows "\<exists>i'. hp_ini_exec ini_file user_cb (Some i) (Some (''#set '' @ k @ '' '' @ v)) = Done (Some ''0'', Some i') \<and>
    (\<exists>i''. hp_ini_exec ini_file user_cb (Some i') (Some k) =
       Done (Some (if ini_section i = [] \<or> CHR ''/'' \<in> set k then v else ini_get i k), Some i''))"
proof -
  let ?s = "''#set '' @ k @ '' '' @ v"
  let ?j = "if ini_dict i = None then i\<lparr>ini_parser := (if ini_parser i = NULL then DEF_PARSER else ini_parser i), ini_dict := Some Map.empty\<rparr>
    else i\<lparr>ini_parser := (if ini_parser i = NULL then DEF_PARSER else ini_parser i)\<rparr>"
  let ?i' = "dict_replace k v ?j"
  have d: "drop 5 ?s = k @ CHR '' '' # v" by simp
  have k: "\<forall>c \<in> set k. c \<noteq> CHR '' ''" using assms(1) by (auto simp: plain_key_def)
  have tw: "takeWhile (\<lambda>c. c \<noteq> CHR '' '') (k @ CHR '' '' # v) = k"
    "dropWhile (\<lambda>c. c \<noteq> CHR '' '') (k @ CHR '' '' # v) = CHR '' '' # v"
    using k by (simp_all add: takeWhile_append2 dropWhile_append2)
  have set: "hp_ini_exec ini_file user_cb (Some i) (Some ?s) = Done (Some ''0'', Some ?i')"
  proof -
    have "k \<noteq> []" using assms(1) by (simp add: plain_key_def)
    then have "1 \<le> length k" "1 \<le> length v" using assms(2) by (simp_all add: Suc_le_eq)
    then have l: "length ?s \<ge> 8" "\<not> length ?s \<ge> 128" using assms(3) by simp_all
    have p: "prefix ''#set'' ?s" "\<not> prefix ''#load'' ?s" "?s \<noteq> ''#unload''" "CHR '' '' \<in> set (drop 5 ?s)" by simp_all
    show ?thesis
      unfolding hp_ini_exec_def Let_def option.case using l p tw unfolding d by simp
  qed
  have get: "ini_get ?i' k = (if ini_section i = [] \<or> CHR ''/'' \<in> set k then v else ini_get i k)"
  proof -
    have "ini_section i @ ''/'' @ k \<noteq> k" by simp
    then show ?thesis by (auto simp: ini_get_def dict_replace_def)
  qed
  show ?thesis
    using set get hp_ini_exec_lookup [OF assms(1), of ini_file user_cb ?i'] by (intro exI [of _ ?i']) auto
qed

theorem hp_ini_set_get_witness:
  "\<exists>i'. hp_ini_exec (\<lambda>f. (0, [])) (\<lambda>f e i. i) (Some \<lparr>ini_dict = Some [''net/port'' \<mapsto> ''80''], ini_parser = 1, ini_section = ''net''\<rparr>)
      (Some (''#set '' @ ''port'' @ '' '' @ ''81'')) = Done (Some ''0'', Some i') \<and>
    (\<exists>i''. hp_ini_exec (\<lambda>f. (0, [])) (\<lambda>f e i. i) (Some i') (Some ''port'') = Done (Some ''80'', Some i''))"
  using hp_ini_set_get [of "''port''" "''81''" "\<lambda>f. (0, [])" "\<lambda>f e i. i"
      "\<lparr>ini_dict = Some [''net/port'' \<mapsto> ''80''], ini_parser = 1, ini_section = ''net''\<rparr>"]
  by (simp add: plain_key_def ini_get_def)

end
