(* ===== verification/Hp_Cache.thy ===== *)
theory Hp_Cache
  imports Hp_Str
begin

section \<open>hp\_cache: a cache of file contents\<close>

text \<open>
  Models \<open>src/hp_cache.c\<close>: a table of ten slots, each with a name and a pointer to an entry.
  The file system answers with the size and time of a path (\<open>fstat\<close>) and with its bytes, if it
  can be opened (\<open>fopen\<close>). A slot's name is an array of 64 bytes that \<open>strncpy\<close> leaves without
  a terminator when the name is as long; comparing such a name, using a freed entry or writing
  outside a buffer is undefined.
\<close>

abbreviation (input) ENTRY_MAX :: nat where "ENTRY_MAX \<equiv> 10"

record hp_cache_entry =
  ce_buf :: string
  ce_cap :: nat
  ce_size :: nat
  ce_chksum :: int

record htab_entry =
  ht_key :: string
  ht_data :: ptr

record cachew =
  cw_htab :: "htab_entry list"
  cw_heap :: "ptr \<rightharpoonup> hp_cache_entry"
  cw_nxt :: ptr

definition hp_cache_entry_alloc :: "nat \<Rightarrow> cachew \<Rightarrow> ptr \<times> cachew" where
  "hp_cache_entry_alloc bufsize w =
     (cw_nxt w, w\<lparr>cw_nxt := cw_nxt w + 1,
        cw_heap := (cw_heap w)(cw_nxt w \<mapsto> \<lparr>ce_buf = [], ce_cap = bufsize, ce_size = 0, ce_chksum = 0\<rparr>)\<rparr>)"

definition hp_cache_entry_free :: "ptr \<Rightarrow> cachew \<Rightarrow> cachew" where
  "hp_cache_entry_free p w = w\<lparr>cw_heap := (cw_heap w)(p := None)\<rparr>"

text \<open>The scan of the table: the first free slot before the match, and the match.\<close>

datatype scan_res = Scan_bad | Scan "nat option" "nat option"

fun cache_scan :: "string \<Rightarrow> nat \<Rightarrow> nat option \<Rightarrow> htab_entry list \<Rightarrow> scan_res" where
  "cache_scan key i new [] = Scan new None"
| "cache_scan key i new (h # hs) =
     (if ht_key h = [] then cache_scan key (i + 1) (if new = None then Some i else new) hs
      else if length (ht_key h) \<ge> 64 then Scan_bad
      else if hp_strcasecmp key (ht_key h) = 0 then Scan new (Some i)
      else cache_scan key (i + 1) new hs)"

text \<open>Reading the file into the entry, and storing the entry.\<close>

definition cache_fill ::
  "(string \<Rightarrow> string option) \<Rightarrow> string \<Rightarrow> string \<Rightarrow> nat \<Rightarrow> int \<Rightarrow> nat option \<Rightarrow> nat option \<Rightarrow> ptr \<Rightarrow> cachew \<Rightarrow>
   (int \<times> cachew) outcome" where
  "cache_fill fopen key path fsize mtime old new entp w =
     (case cw_heap w entp of None \<Rightarrow> Undef
      | Some x \<Rightarrow>
        case fopen path of None \<Rightarrow> Done (-5, hp_cache_entry_free entp w)
        | Some f \<Rightarrow>
          if ce_cap x = 0 then Undef
          else
            let got = take fsize f;
                w = w\<lparr>cw_heap := (cw_heap w)(entp \<mapsto> x\<lparr>ce_buf := got, ce_size := fsize, ce_chksum := mtime\<rparr>)\<rparr>
            in if length got \<noteq> fsize then Done (-6, hp_cache_entry_free entp w)
               else case old of
                 Some i \<Rightarrow> Done (0, w\<lparr>cw_htab := (cw_htab w)[i := (cw_htab w ! i)\<lparr>ht_data := entp\<rparr>]\<rparr>)
               | None \<Rightarrow>
                 case new of
                   Some i \<Rightarrow> Done (0, w\<lparr>cw_htab := (cw_htab w)[i := \<lparr>ht_key = take 64 key, ht_data = entp\<rparr>]\<rparr>)
                 | None \<Rightarrow> Done (-8, hp_cache_entry_free entp w))"

text \<open>
  \<open>hp_cache_get\<close>: the result, the entry it hands out (NULL if it set none) and the new state.
  The path is cut at 2047 characters.
\<close>

definition hp_cache_get ::
  "(string \<Rightarrow> (nat \<times> int) option) \<Rightarrow> (string \<Rightarrow> string option) \<Rightarrow> string option \<Rightarrow> string option \<Rightarrow> cachew \<Rightarrow>
   (int \<times> ptr \<times> cachew) outcome" where
  "hp_cache_get fstat fopen key dir w =
     (case (key, dir) of
        (Some key, Some dir) \<Rightarrow>
          if key = [] then Done (-3, NULL, w)
          else
            let path = take 2047 (dir @ key)
            in (case fstat path of None \<Rightarrow> Done (1, NULL, w)
                | Some (fsize, mtime) \<Rightarrow>
                  case cache_scan key 0 None (cw_htab w) of
                    Scan_bad \<Rightarrow> Undef
                  | Scan new None \<Rightarrow>
                      (case hp_cache_entry_alloc fsize w of
                         (entp, w) \<Rightarrow>
                           (case cache_fill fopen key path fsize mtime None new entp w of
                              Done (rc, w) \<Rightarrow> Done (rc, entp, w) | _ \<Rightarrow> Undef))
                  | Scan new (Some i) \<Rightarrow>
                      let entp = ht_data (cw_htab w ! i)
                      in (case cw_heap w entp of None \<Rightarrow> Undef
                          | Some x \<Rightarrow>
                            if mtime = ce_chksum x then Done (0, entp, w)
                            else
                              let w = (if fsize \<noteq> ce_size x
                                       then w\<lparr>cw_heap := (cw_heap w)(entp \<mapsto> x\<lparr>ce_cap := fsize, ce_buf := take fsize (ce_buf x)\<rparr>)\<rparr>
                                       else w)
                              in (case cache_fill fopen key path fsize mtime (Some i) new entp w of
                                    Done (rc, w) \<Rightarrow> Done (rc, entp, w) | _ \<Rightarrow> Undef)))
      | _ \<Rightarrow> Done (-3, NULL, w))"

subsection \<open>When the cache is sound\<close>

definition cache_ok :: "cachew \<Rightarrow> bool" where
  "cache_ok w \<longleftrightarrow>
     list_all (\<lambda>h. ht_key h \<noteq> [] \<longrightarrow> length (ht_key h) < 64 \<and> (\<exists>x. cw_heap w (ht_data h) = Some x \<and> ce_cap x = ce_size x \<and> 0 < ce_size x)) (cw_htab w) \<and>
     (\<forall>p. cw_nxt w \<le> p \<longrightarrow> cw_heap w p = None)"

text \<open>The slot of a name.\<close>

definition slot_of :: "string \<Rightarrow> cachew \<Rightarrow> nat option" where
  "slot_of key w = lfind_idx (\<lambda>h. ht_key h \<noteq> [] \<and> hp_strcasecmp key (ht_key h) = 0) (cw_htab w)"

lemma cache_scan_slot:
  "list_all (\<lambda>h. ht_key h \<noteq> [] \<longrightarrow> length (ht_key h) < 64) hs \<Longrightarrow>
   \<exists>n. cache_scan key i new hs =
     Scan n (map_option (\<lambda>j. i + j) (lfind_idx (\<lambda>h. ht_key h \<noteq> [] \<and> hp_strcasecmp key (ht_key h) = 0) hs)) \<and>
     (n = new \<or> (\<exists>j. n = Some (i + j) \<and> j < length hs \<and> ht_key (hs ! j) = []))"
proof (induction key i new hs rule: cache_scan.induct)
  case (2 key i new h hs)
  show ?case
  proof (cases "ht_key h = []")
    case True
    from 2 True obtain n where
      n: "cache_scan key (i + 1) (if new = None then Some i else new) hs =
        Scan n (map_option (\<lambda>j. i + 1 + j) (lfind_idx (\<lambda>h. ht_key h \<noteq> [] \<and> hp_strcasecmp key (ht_key h) = 0) hs))"
      and c: "n = (if new = None then Some i else new) \<or> (\<exists>j. n = Some (i + 1 + j) \<and> j < length hs \<and> ht_key (hs ! j) = [])"
      by auto
    have "n = new \<or> (\<exists>j. n = Some (i + j) \<and> j < length (h # hs) \<and> ht_key ((h # hs) ! j) = [])"
      using c True
      by (auto split: if_splits intro: exI [of _ 0])
    then show ?thesis using n True by (auto simp: option.map_comp comp_def)
  next
    case False
    show ?thesis
    proof (cases "hp_strcasecmp key (ht_key h) = 0")
      case True
      with False "2.prems" show ?thesis by simp
    next
      case no: False
      with False 2 obtain n where
        n: "cache_scan key (i + 1) new hs =
          Scan n (map_option (\<lambda>j. i + 1 + j) (lfind_idx (\<lambda>h. ht_key h \<noteq> [] \<and> hp_strcasecmp key (ht_key h) = 0) hs))"
        and c: "n = new \<or> (\<exists>j. n = Some (i + 1 + j) \<and> j < length hs \<and> ht_key (hs ! j) = [])"
        by auto
      have "n = new \<or> (\<exists>j. n = Some (i + j) \<and> j < length (h # hs) \<and> ht_key ((h # hs) ! j) = [])"
        using c by (metis Suc_eq_plus1 Suc_less_eq add_Suc add_Suc_right length_Cons nth_Cons_Suc)
      then show ?thesis using n no False "2.prems" by (auto simp: option.map_comp comp_def)
    qed
  qed
qed simp

definition slot_ok :: "cachew \<Rightarrow> htab_entry \<Rightarrow> bool" where
  "slot_ok w h \<longleftrightarrow> length (ht_key h) < 64 \<and> (\<exists>x. cw_heap w (ht_data h) = Some x \<and> ce_cap x = ce_size x \<and> 0 < ce_size x)"

lemma cache_ok_slots:
  "cache_ok w \<longleftrightarrow> (\<forall>h \<in> set (cw_htab w). ht_key h \<noteq> [] \<longrightarrow> slot_ok w h) \<and> (\<forall>p. cw_nxt w \<le> p \<longrightarrow> cw_heap w p = None)"
  by (simp add: cache_ok_def slot_ok_def list_all_iff)

lemma set_update_cases: "h \<in> set (xs[i := y]) \<Longrightarrow> h = y \<or> h \<in> set xs"
  using set_update_subset_insert [of xs i y] by auto

text \<open>What filling an entry comes to, for a file that is not empty.\<close>

lemma cache_fill_result:
  assumes "cw_heap w entp = Some x" and "0 < ce_cap x"
  shows "cache_fill fopen key path fsize mtime old new entp w =
    (case fopen path of None \<Rightarrow> Done (-5, hp_cache_entry_free entp w)
     | Some f \<Rightarrow>
       let w1 = w\<lparr>cw_heap := (cw_heap w)(entp \<mapsto> x\<lparr>ce_buf := take fsize f, ce_size := fsize, ce_chksum := mtime\<rparr>)\<rparr>
       in if length f < fsize then Done (-6, hp_cache_entry_free entp w1)
          else case old of
            Some i \<Rightarrow> Done (0, w1\<lparr>cw_htab := (cw_htab w)[i := (cw_htab w ! i)\<lparr>ht_data := entp\<rparr>]\<rparr>)
          | None \<Rightarrow> (case new of
              Some i \<Rightarrow> Done (0, w1\<lparr>cw_htab := (cw_htab w)[i := \<lparr>ht_key = take 64 key, ht_data = entp\<rparr>]\<rparr>)
            | None \<Rightarrow> Done (-8, hp_cache_entry_free entp w1)))"
  using assms
  by (cases "fopen path") (auto simp: cache_fill_def Let_def min_def split: option.split)

lemma lfind_slot:
  assumes "slot_of key w = Some i"
  shows "i < length (cw_htab w) \<and> ht_key (cw_htab w ! i) \<noteq> [] \<and> hp_strcasecmp key (ht_key (cw_htab w ! i)) = 0"
  using lfind_idx_SomeD [OF assms [unfolded slot_of_def]] by auto

text \<open>Soundness is kept by dropping a fresh entry, by storing one, and by a refresh in place.\<close>

lemma cache_ok_free_fresh:
  assumes "cache_ok w" and "cw_htab v = cw_htab w" and "cw_nxt v = cw_nxt w + 1"
    and "\<And>q. q \<noteq> cw_nxt w \<Longrightarrow> cw_heap v q = cw_heap w q"
  shows "cache_ok (hp_cache_entry_free (cw_nxt w) v)"
proof -
  have fresh: "\<And>p. cw_nxt w \<le> p \<Longrightarrow> cw_heap w p = None" using assms(1) by (auto simp: cache_ok_slots)
  have "slot_ok (hp_cache_entry_free (cw_nxt w) v) h" if h: "h \<in> set (cw_htab w)" "ht_key h \<noteq> []" for h
  proof -
    have so: "slot_ok w h" using assms(1) h by (auto simp: cache_ok_slots)
    then have "ht_data h \<noteq> cw_nxt w" using fresh [of "cw_nxt w"] by (auto simp: slot_ok_def)
    with so assms(4) show ?thesis by (simp add: slot_ok_def hp_cache_entry_free_def)
  qed
  then show ?thesis
    using assms(2,3,4) fresh by (auto simp: cache_ok_slots hp_cache_entry_free_def)
qed

lemma cache_ok_store_new:
  assumes "cache_ok w" and "length key < 64" and "ce_cap x = ce_size x" and "0 < ce_size x"
  shows "cache_ok (w\<lparr>cw_nxt := cw_nxt w + 1, cw_heap := (cw_heap w)(cw_nxt w \<mapsto> x),
    cw_htab := (cw_htab w)[i := \<lparr>ht_key = take 64 key, ht_data = cw_nxt w\<rparr>]\<rparr>)" (is "cache_ok ?w")
proof -
  have fresh: "cw_heap w (cw_nxt w) = None" using assms(1) by (simp add: cache_ok_slots)
  have "slot_ok ?w h" if "h = \<lparr>ht_key = take 64 key, ht_data = cw_nxt w\<rparr> \<or> slot_ok w h" for h
    using that assms(2-4) fresh by (auto simp: slot_ok_def)
  moreover have "h = \<lparr>ht_key = take 64 key, ht_data = cw_nxt w\<rparr> \<or> slot_ok w h"
    if "h \<in> set (cw_htab ?w)" "ht_key h \<noteq> []" for h
    using set_update_cases [of h "cw_htab w" i] that assms(1) by (auto simp: cache_ok_slots)
  ultimately show ?thesis using assms(1) by (simp add: cache_ok_slots)
qed

lemma cache_ok_refresh:
  assumes "cache_ok w" and "cw_htab v = cw_htab w" and "cw_nxt v = cw_nxt w" and "p < cw_nxt w"
    and "\<And>q. q \<noteq> p \<Longrightarrow> cw_heap v q = cw_heap w q" and "cw_heap v p = Some x"
    and "ce_cap x = ce_size x" and "0 < ce_size x"
  shows "cache_ok v"
proof -
  have "slot_ok v h" if "slot_ok w h" for h
    using that assms(5-8) by (cases "ht_data h = p") (auto simp: slot_ok_def)
  with assms show ?thesis by (auto simp: cache_ok_slots)
qed

lemma cache_scan_ok:
  assumes "cache_ok w"
  shows "\<exists>new. cache_scan key 0 None (cw_htab w) = Scan new (slot_of key w)"
  using cache_scan_slot [of "cw_htab w" key 0 None] assms
  by (auto simp: cache_ok_def list_all_iff slot_of_def option.map_ident)

text \<open>A call for a name that is not in the table.\<close>

lemma cache_get_new:
  assumes "cache_ok w" and "key \<noteq> []" and "length key < 64"
    and "fstat (take 2047 (dir @ key)) = Some (fsize, mtime)" and "0 < fsize" and "slot_of key w = None"
  shows "\<exists>rc p w'. hp_cache_get fstat fopen (Some key) (Some dir) w = Done (rc, p, w') \<and> cache_ok w' \<and>
    (rc = 0 \<longrightarrow> (\<exists>x. cw_heap w' p = Some x \<and> ce_chksum x = mtime \<and>
       map_option (take fsize) (fopen (take 2047 (dir @ key))) = Some (ce_buf x)))"
proof -
  let ?path = "take 2047 (dir @ key)"
  let ?p = "cw_nxt w" and ?e = "\<lparr>ce_buf = [], ce_cap = fsize, ce_size = 0, ce_chksum = 0\<rparr>"
  let ?w1 = "w\<lparr>cw_nxt := ?p + 1, cw_heap := (cw_heap w)(?p \<mapsto> ?e)\<rparr>"
  let ?x = "\<lambda>f. ?e\<lparr>ce_buf := take fsize f, ce_size := fsize, ce_chksum := mtime\<rparr>"
  let ?w2 = "\<lambda>f. ?w1\<lparr>cw_heap := (cw_heap ?w1)(?p \<mapsto> ?x f)\<rparr>"
  obtain new where scan: "cache_scan key 0 None (cw_htab w) = Scan new (slot_of key w)"
    using cache_scan_ok [OF assms(1)] by blast
  have g: "hp_cache_get fstat fopen (Some key) (Some dir) w =
      (case cache_fill fopen key ?path fsize mtime None new ?p ?w1 of Done (rc, w) \<Rightarrow> Done (rc, ?p, w) | _ \<Rightarrow> Undef)"
    using assms(2,4) scan assms(6) by (simp add: hp_cache_get_def hp_cache_entry_alloc_def)
  have e: "cw_heap ?w1 ?p = Some ?e" "0 < ce_cap ?e" using assms(5) by simp_all
  have gone: "cache_ok (hp_cache_entry_free ?p ?w1)" "\<And>f. cache_ok (hp_cache_entry_free ?p (?w2 f))"
    by (rule cache_ok_free_fresh [OF assms(1)]; simp)+
  note fill = g [unfolded cache_fill_result [OF e]]
  consider "fopen ?path = None" | f where "fopen ?path = Some f" "length f < fsize"
    | f where "fopen ?path = Some f" "\<not> length f < fsize" "new = None"
    | f i where "fopen ?path = Some f" "\<not> length f < fsize" "new = Some i"
    by (cases "fopen ?path"; cases new) auto
  then show ?thesis
  proof cases
    case (4 f i)
    have "cache_ok (?w2 f\<lparr>cw_htab := (cw_htab w)[i := \<lparr>ht_key = take 64 key, ht_data = ?p\<rparr>]\<rparr>)"
      using cache_ok_store_new [OF assms(1,3), of "?x f" i] assms(5) by simp
    then show ?thesis using fill 4 by simp
  next
    case 1
    then show ?thesis using fill gone(1) by simp
  next
    case (2 f)
    then show ?thesis using fill gone(2) [of f] by simp
  next
    case (3 f)
    then show ?thesis using fill gone(2) [of f] by simp
  qed
qed

text \<open>A call for a name in the table.\<close>

lemma cache_get_known:
  assumes "cache_ok w" and "key \<noteq> []"
    and "fstat (take 2047 (dir @ key)) = Some (fsize, mtime)" and "0 < fsize" and "slot_of key w = Some i"
  shows "\<exists>rc w'. hp_cache_get fstat fopen (Some key) (Some dir) w = Done (rc, ht_data (cw_htab w ! i), w') \<and>
    (rc = 0 \<longrightarrow> cache_ok w' \<and> (\<exists>x. cw_heap w' (ht_data (cw_htab w ! i)) = Some x \<and> ce_chksum x = mtime \<and>
       (ce_chksum (the (cw_heap w (ht_data (cw_htab w ! i)))) \<noteq> mtime \<longrightarrow>
          map_option (take fsize) (fopen (take 2047 (dir @ key))) = Some (ce_buf x)))) \<and>
    (rc \<noteq> 0 \<longrightarrow> cw_htab w' = cw_htab w \<and> cw_heap w' (ht_data (cw_htab w ! i)) = None)"
proof -
  let ?path = "take 2047 (dir @ key)" and ?p = "ht_data (cw_htab w ! i)"
  obtain new where scan: "cache_scan key 0 None (cw_htab w) = Scan new (slot_of key w)"
    using cache_scan_ok [OF assms(1)] by blast
  from lfind_slot [OF assms(5)] assms(1) obtain x
    where x: "cw_heap w ?p = Some x" "ce_cap x = ce_size x" "0 < ce_size x"
    by (force simp: cache_ok_slots slot_ok_def)
  have px: "?p < cw_nxt w" by (rule ccontr) (use assms(1) x(1) in \<open>simp add: cache_ok_slots\<close>)
  show ?thesis
  proof (cases "mtime = ce_chksum x")
    case True
    then have "hp_cache_get fstat fopen (Some key) (Some dir) w = Done (0, ?p, w)"
      using assms(2,3,5) scan x by (simp add: hp_cache_get_def Let_def)
    then show ?thesis using assms(1) x True by simp
  next
    case False
    define y where "y = (if fsize \<noteq> ce_size x then x\<lparr>ce_cap := fsize, ce_buf := take fsize (ce_buf x)\<rparr> else x)"
    define w1 where "w1 = (if fsize \<noteq> ce_size x then w\<lparr>cw_heap := (cw_heap w)(?p \<mapsto> y)\<rparr> else w)"
    have w1: "cw_heap w1 ?p = Some y" "cw_htab w1 = cw_htab w" "cw_nxt w1 = cw_nxt w"
      "\<And>q. q \<noteq> ?p \<Longrightarrow> cw_heap w1 q = cw_heap w q" and y: "0 < ce_cap y" "ce_cap y = fsize"
      using x assms(4) by (auto simp: w1_def y_def)
    have g: "hp_cache_get fstat fopen (Some key) (Some dir) w =
        (case cache_fill fopen key ?path fsize mtime (Some i) new ?p w1 of Done (rc, w) \<Rightarrow> Done (rc, ?p, w) | _ \<Rightarrow> Undef)"
      using assms(2,3,5) scan x(1) False by (simp add: hp_cache_get_def w1_def y_def Let_def)
    note fill = g [unfolded cache_fill_result [OF w1(1) y(1)]]
    consider "fopen ?path = None" | f where "fopen ?path = Some f" "length f < fsize"
      | f where "fopen ?path = Some f" "\<not> length f < fsize" by (cases "fopen ?path") auto
    then show ?thesis
    proof cases
      case (3 f)
      let ?x = "y\<lparr>ce_buf := take fsize f, ce_size := fsize, ce_chksum := mtime\<rparr>"
      have "cache_ok (w1\<lparr>cw_heap := (cw_heap w1)(?p \<mapsto> ?x), cw_htab := (cw_htab w1)[i := (cw_htab w1 ! i)\<lparr>ht_data := ?p\<rparr>]\<rparr>)"
        using w1 y assms(4) px by (intro cache_ok_refresh [OF assms(1), of _ ?p ?x]) simp_all
      then show ?thesis using fill 3 by simp
    qed (use fill w1(2) in \<open>auto simp: hp_cache_entry_free_def\<close>)
  qed
qed

lemma cache_get_dangling:
  assumes "cache_ok w" and "key \<noteq> []" and "slot_of key w = Some i" and "fstat2 (take 2047 (dir @ key)) \<noteq> None"
    and "cw_htab v = cw_htab w" and "cw_heap v (ht_data (cw_htab w ! i)) = None"
  shows "hp_cache_get fstat2 fopen2 (Some key) (Some dir) v = Undef"
  using cache_scan_ok [OF assms(1), of key] assms(2-6) by (auto simp: hp_cache_get_def Let_def)

text \<open>
  C22: While every refresh works, the cache is sound: a call for a file that is not empty
  succeeds with an entry that has the file's time, and, when the name is new or the time has
  changed, its bytes; or it fails for a new name and leaves the table sound. But when reading
  fails for a name in the table, its entry is freed and stays in the table, and whatever the
  next call for that name finds on disk, it uses the freed entry.
\<close>

theorem hp_cache_get_sound:
  assumes "cache_ok w" and "key \<noteq> []" and "length key < 64"
    and "fstat (take 2047 (dir @ key)) = Some (fsize, mtime)" and "0 < fsize"
  shows "\<exists>rc p w'. hp_cache_get fstat fopen (Some key) (Some dir) w = Done (rc, p, w') \<and>
    (rc = 0 \<longrightarrow> cache_ok w' \<and> (\<exists>x. cw_heap w' p = Some x \<and> ce_chksum x = mtime \<and>
       (cw_heap w p = None \<or> ce_chksum (the (cw_heap w p)) \<noteq> mtime \<longrightarrow>
          map_option (take fsize) (fopen (take 2047 (dir @ key))) = Some (ce_buf x)))) \<and>
    (rc \<noteq> 0 \<longrightarrow> slot_of key w = None \<longrightarrow> cache_ok w') \<and>
    (rc \<noteq> 0 \<longrightarrow> slot_of key w \<noteq> None \<longrightarrow> fstat2 (take 2047 (dir @ key)) \<noteq> None \<longrightarrow>
       hp_cache_get fstat2 fopen2 (Some key) (Some dir) w' = Undef)"
proof (cases "slot_of key w")
  case None
  from cache_get_new [where fstat = fstat and dir = dir, OF assms None, of fopen] show ?thesis using None by auto
next
  case (Some i)
  from lfind_slot [OF Some] assms(1) obtain x where x: "cw_heap w (ht_data (cw_htab w ! i)) = Some x"
    by (force simp: cache_ok_slots slot_ok_def)
  from cache_get_known [where fstat = fstat and dir = dir, OF assms(1,2,4,5) Some, of fopen] obtain rc w' where
    r: "hp_cache_get fstat fopen (Some key) (Some dir) w = Done (rc, ht_data (cw_htab w ! i), w')"
    and ok: "rc = 0 \<longrightarrow> cache_ok w' \<and> (\<exists>x. cw_heap w' (ht_data (cw_htab w ! i)) = Some x \<and> ce_chksum x = mtime \<and>
       (ce_chksum (the (cw_heap w (ht_data (cw_htab w ! i)))) \<noteq> mtime \<longrightarrow>
          map_option (take fsize) (fopen (take 2047 (dir @ key))) = Some (ce_buf x)))"
    and bad: "rc \<noteq> 0 \<longrightarrow> cw_htab w' = cw_htab w \<and> cw_heap w' (ht_data (cw_htab w ! i)) = None" by blast
  show ?thesis
    using r ok bad Some x cache_get_dangling [OF assms(1,2) Some, of fstat2 dir w' fopen2]
    by (intro exI [of _ rc] exI [of _ "ht_data (cw_htab w ! i)"] exI [of _ w']) auto
qed

definition cachew_old :: cachew where
  "cachew_old = \<lparr>cw_htab = \<lparr>ht_key = ''a'', ht_data = 1\<rparr> # replicate 9 \<lparr>ht_key = [], ht_data = 0\<rparr>,
     cw_heap = [1 \<mapsto> \<lparr>ce_buf = ''xy'', ce_cap = 2, ce_size = 2, ce_chksum = 5\<rparr>], cw_nxt = 2\<rparr>"

theorem hp_cache_get_sound_witness:
  "\<exists>rc p w'. hp_cache_get (\<lambda>f. Some (3, 6)) (\<lambda>f. None) (Some ''a'') (Some ''/d/'') cachew_old = Done (rc, p, w') \<and> rc = -5 \<and>
    hp_cache_get (\<lambda>f. Some (3, 6)) (\<lambda>f. Some ''abc'') (Some ''a'') (Some ''/d/'') w' = Undef"
proof -
  have r: "\<exists>p w'. hp_cache_get (\<lambda>f. Some (3, 6)) (\<lambda>f. None) (Some ''a'') (Some ''/d/'') cachew_old = Done (-5, p, w')"
    by (simp add: hp_cache_get_def cachew_old_def hp_strcasecmp_def cache_fill_def Let_def)
  have "cache_ok cachew_old" "slot_of ''a'' cachew_old = Some 0"
    by (simp_all add: cache_ok_def cachew_old_def slot_of_def hp_strcasecmp_def list_all_iff)
  then show ?thesis
    using r hp_cache_get_sound [of cachew_old "''a''" "\<lambda>f. Some (3, 6)" "''/d/''" 3 6 "\<lambda>f. None"
        "\<lambda>f. Some (3, 6)" "\<lambda>f. Some ''abc''"] by auto
qed

end
