(* ===== verification/Hp_Http.thy ===== *)
theory Hp_Http
  imports Hp_Iot Hp_Url
begin

section \<open>hp\_http: an HTTP server on the I/O objects\<close>

text \<open>
  Models \<open>src/hp_http.c\<close> as the callbacks of a program that uses \<open>hp_io_t\<close>: the world is the one
  of \<open>Hp_Iot\<close>, whose client part holds the requests (by the address of their connection) and
  the list of them. The HTTP parser is another project: \<open>px_exec\<close> runs it on some bytes, with
  the callbacks it calls in order, and returns its new state, the count of bytes it took and
  whether the connection is upgraded; \<open>px_url\<close> splits a URL.
\<close>

subsection \<open>State\<close>

datatype http_ev = On_url "byte list" | On_message_complete

record http_fields =
  rf_flags :: int
  rf_url :: "byte list"
  rf_path :: "byte list"
  rf_query :: "byte list"

record url_parts =
  uf_path :: "(nat \<times> nat) option"
  uf_query :: "(nat \<times> nat) option"

record 'p http_px =
  px_init :: 'p
  px_exec :: "(http_ev \<Rightarrow> http_fields \<Rightarrow> int \<times> http_fields) \<Rightarrow> 'p \<Rightarrow> byte list \<Rightarrow> http_fields \<Rightarrow> ('p \<times> nat \<times> bool) \<times> http_fields"
  px_url :: "byte list \<Rightarrow> url_parts option"

record 'p hp_httpreq =
  rq_fields :: http_fields
  rq_parser :: 'p

record hp_httpresp =
  rs_flags :: int
  rs_type :: int
  rs_status :: int
  rs_html :: "(ptr \<times> nat) option"

record ('p, 'v) httpw =
  hx_reqs :: "ptr \<rightharpoonup> 'p hp_httpreq"
  hx_list :: "ptr list"
  hx_cb :: fnptr
  hx_nxt :: ptr
  hx_v :: 'v

type_synonym ('p, 'v) hw = "('p, 'v) httpw iow"

definition on_hx :: "(('p, 'v) httpw \<Rightarrow> ('p, 'v) httpw) \<Rightarrow> ('p, 'v) hw \<Rightarrow> ('p, 'v) hw" where
  "on_hx f = on_ior (\<lambda>r. r\<lparr>ior_user := f (ior_user r)\<rparr>)"

definition hx :: "('p, 'v) hw \<Rightarrow> ('p, 'v) httpw" where
  "hx w = ior_user (snd w)"

subsection \<open>Parsing a request\<close>

definition request_url_cb :: "byte list \<Rightarrow> http_fields \<Rightarrow> int \<times> http_fields" where
  "request_url_cb buf f = (0, f\<lparr>rf_url := rf_url f @ buf\<rparr>)"

definition on_message_complete :: "(byte list \<Rightarrow> url_parts option) \<Rightarrow> http_fields \<Rightarrow> int \<times> http_fields" where
  "on_message_complete parse_url f =
     (let url = rf_url f in
      case parse_url url of None \<Rightarrow> (-1, f)
      | Some u \<Rightarrow>
        let f = f\<lparr>rf_flags := 1\<rparr>
        in (0, case uf_path u of None \<Rightarrow> f
               | Some (off, len) \<Rightarrow>
                 let f = (if len > 0 then f\<lparr>rf_path := rf_path f @ take len (drop off url)\<rparr> else f)
                 in case uf_query u of None \<Rightarrow> f
                    | Some (off, len) \<Rightarrow>
                      if len > 0 then
                        (case hp_urldecode (drop off url) (int len) (replicate (len * 2) 0) of
                           None \<Rightarrow> f
                         | Some (queryd, qdlen) \<Rightarrow> f\<lparr>rf_query := rf_query f @ take qdlen queryd\<rparr>)
                      else f))"

definition ghpsettings :: "(byte list \<Rightarrow> url_parts option) \<Rightarrow> http_ev \<Rightarrow> http_fields \<Rightarrow> int \<times> http_fields" where
  "ghpsettings parse_url ev f =
     (case ev of On_url buf \<Rightarrow> request_url_cb buf f | On_message_complete \<Rightarrow> on_message_complete parse_url f)"

definition hp_httpreq_init :: "'p http_px \<Rightarrow> 'p hp_httpreq" where
  "hp_httpreq_init px = \<lparr>rq_fields = \<lparr>rf_flags = 0, rf_url = [], rf_path = [], rf_query = []\<rparr>, rq_parser = px_init px\<rparr>"

definition hp_httpreq_parse :: "'p http_px \<Rightarrow> 'p hp_httpreq \<Rightarrow> byte list \<Rightarrow> int \<times> 'p hp_httpreq" where
  "hp_httpreq_parse px req buf =
     (case px_exec px (ghpsettings (px_url px)) (rq_parser req) buf (rq_fields req) of
        ((p, nparsed, upgrade), f) \<Rightarrow>
          (if \<not> upgrade \<and> nparsed \<noteq> length buf then -1 else int nparsed, req\<lparr>rq_fields := f, rq_parser := p\<rparr>))"

text \<open>A request that is not complete returns 0 and leaves the buffer as it is.\<close>

definition hp_httpreq_on_parse :: "'p http_px \<Rightarrow> ptr \<Rightarrow> byte list \<Rightarrow> ('p, 'v) hw \<Rightarrow> int \<times> byte list \<times> ptr \<times> ptr \<times> ('p, 'v) hw" where
  "hp_httpreq_on_parse px io buf w =
     (case hx_reqs (hx w) io of None \<Rightarrow> (0, buf, NULL, NULL, io_faulty F_freed w)
      | Some req \<Rightarrow>
        case hp_httpreq_parse px req buf of
          (n, req) \<Rightarrow>
            let w = on_hx (\<lambda>h. h\<lparr>hx_reqs := (hx_reqs h)(io \<mapsto> req)\<rparr>) w
            in if n \<le> 0 then (-1, buf, NULL, NULL, w)
               else if rf_flags (rq_fields req) = 1 then (n, drop (nat n) buf, NULL, NULL, w)
               else (0, buf, NULL, NULL, w))"

subsection \<open>Responding\<close>

definition http_status_code_reason_cstr :: "int \<Rightarrow> string" where
  "http_status_code_reason_cstr code =
     (if code = 200 then ''OK'' else if code = 404 then ''Not Found''
      else if code = 500 then ''Internal Server Error'' else ''Unknown'')"

definition http_content_type_cstr :: "int \<Rightarrow> string" where
  "http_content_type_cstr t =
     (if t = 1 then ''text/html'' else if t = 2 then ''text/json'' else if t = 3 then ''image/x-icon''
      else if t = 4 then ''application/octet-stream'' else ''unknown/unknown'')"

definition CRLF :: string where "CRLF = [char_of (13 :: nat), char_of (10 :: nat)]"

definition ascii :: "string \<Rightarrow> byte list" where
  "ascii s = map (\<lambda>c. of_nat (of_char c)) s"

definition http_header :: "hp_httpresp \<Rightarrow> nat \<Rightarrow> string" where
  "http_header resp n =
     ''HTTP/1.1 '' @ nat_text (nat (rs_status resp mod 2 ^ 32)) @ '' '' @ http_status_code_reason_cstr (rs_status resp) @ '' '' @ CRLF @
     ''Content-Type:'' @ http_content_type_cstr (rs_type resp) @ '';charset=utf-8'' @ CRLF @
     ''Access-Control-Allow-Origin:*'' @ CRLF @
     ''Access-Control-Allow-Methods:*'' @ CRLF @
     ''Access-Control-Allow-Credentials:true'' @ CRLF @
     ''Access-Control-Allow-Headers:x-requested-with,content-type'' @ CRLF @
     ''Content-Length:'' @ nat_text (n mod 2 ^ 32) @ CRLF @ CRLF"

text \<open>A new string of bytes in the memory the writer sees.\<close>

definition k_store :: "byte list \<Rightarrow> kio \<Rightarrow> ptr \<times> kio" where
  "k_store bs k =
     (brk k, k\<lparr>brk := brk k + length bs + 1,
        mem := (\<lambda>a. if brk k \<le> a \<and> a < brk k + length bs then bs ! (a - brk k) else mem k a)\<rparr>)"

abbreviation (input) SDSFREE :: hp_free_t where "SDSFREE \<equiv> UserFree 90"

text \<open>\<open>lit\<close> is the address of the literal that ends a response.\<close>

definition http_response :: "ptr \<Rightarrow> ptr \<Rightarrow> hp_httpresp \<Rightarrow> ('p, 'v) hw \<Rightarrow> int \<times> ('p, 'v) hw" where
  "http_response lit io resp w =
     (case rs_html resp of None \<Rightarrow> (-1, io_faulty F_freed w)
      | Some (html, n) \<Rightarrow>
        let hdr = ascii (http_header resp n);
            (buf, k) = k_store hdr (ior_kio (snd w));
            w = on_ior (\<lambda>r. r\<lparr>ior_kio := k\<rparr>) w
        in case hp_io_write io buf (length hdr) SDSFREE NULL w of
          (rc, w) \<Rightarrow>
            if rc \<noteq> 0 then (-1, w)
            else case hp_io_write io html n (if rs_flags resp = 1 then SDSFREE else NoFree) NULL w of
              (rc, w) \<Rightarrow>
                if rc \<noteq> 0 then (-1, w)
                else case hp_io_write io lit 4 NoFree NULL w of
                  (rc, w) \<Rightarrow> if rc \<noteq> 0 then (-1, w) else (rc, w))"

definition hp_httpreq_on_dispatch ::
  "(fnptr \<Rightarrow> ptr \<Rightarrow> hp_httpresp \<Rightarrow> ('p, 'v) hw \<Rightarrow> int \<times> hp_httpresp \<times> ('p, 'v) hw) \<Rightarrow> ptr \<Rightarrow> ptr \<Rightarrow> ('p, 'v) hw \<Rightarrow> int \<times> ('p, 'v) hw" where
  "hp_httpreq_on_dispatch u_request lit io w =
     (if hx_reqs (hx w) io = None then (0, io_faulty F_freed w)
      else if hx_cb (hx w) = NULL then (-4, w)
      else case u_request (hx_cb (hx w)) io \<lparr>rs_flags = 0, rs_type = 1, rs_status = 200, rs_html = None\<rparr> w of
        (r, resp, w) \<Rightarrow> if r \<noteq> 0 then (-3, w) else http_response lit io resp w)"

subsection \<open>Connections\<close>

abbreviation (input) HTTP_NEW :: fnptr where "HTTP_NEW \<equiv> 11"
abbreviation (input) HTTP_PARSE :: fnptr where "HTTP_PARSE \<equiv> 12"
abbreviation (input) HTTP_DISPATCH :: fnptr where "HTTP_DISPATCH \<equiv> 13"
abbreviation (input) HTTP_LOOP :: fnptr where "HTTP_LOOP \<equiv> 14"
abbreviation (input) HTTP_DELETE :: fnptr where "HTTP_DELETE \<equiv> 15"

definition s_httphdl :: hp_iohdl where
  "s_httphdl = \<lparr>h_on_new = HTTP_NEW, h_on_parse = HTTP_PARSE, h_on_dispatch = HTTP_DISPATCH,
     h_on_loop = HTTP_LOOP, h_on_delete = HTTP_DELETE\<rparr>"

text \<open>\<open>zero_io\<close> is the object \<open>calloc\<close> gives.\<close>

definition hp_httpreq_on_new :: "'p http_px \<Rightarrow> hp_io_t \<Rightarrow> ptr \<Rightarrow> sock \<Rightarrow> ('p, 'v) hw \<Rightarrow> ptr \<times> ('p, 'v) hw" where
  "hp_httpreq_on_new px zero_io cio fd w =
     (case io_of w cio of None \<Rightarrow> (NULL, io_faulty F_freed w)
      | Some c \<Rightarrow>
        let req = hx_nxt (hx w);
            w = on_hx (\<lambda>h. h\<lparr>hx_nxt := req + 1, hx_reqs := (hx_reqs h)(req \<mapsto> hp_httpreq_init px)\<rparr>) (io_put req zero_io w)
        in case hp_io_add req fd ((io_hdl c)\<lparr>h_on_new := NULL\<rparr>) w of
          (rc, w) \<Rightarrow>
            if rc \<noteq> 0 then
              (NULL, on_ior (\<lambda>r. r\<lparr>ior_ios := (ior_ios r)(req := None)\<rparr>)
                       (on_hx (\<lambda>h. h\<lparr>hx_reqs := (hx_reqs h)(req := None)\<rparr>) w))
            else (req, on_hx (\<lambda>h. h\<lparr>hx_list := hx_list h @ [req]\<rparr>) w))"

definition hp_httpreq_on_loop :: "ptr \<Rightarrow> ('p, 'v) hw \<Rightarrow> int \<times> ('p, 'v) hw" where
  "hp_httpreq_on_loop io w = (0, w)"

definition hp_httpreq_on_delete :: "ptr \<Rightarrow> ('p, 'v) hw \<Rightarrow> ('p, 'v) hw" where
  "hp_httpreq_on_delete io w =
     (if hx_reqs (hx w) io = None \<or> io \<notin> set (hx_list (hx w)) then io_faulty F_freed w
      else on_ior (\<lambda>r. r\<lparr>ior_ios := (ior_ios r)(io := None)\<rparr>)
             (on_hx (\<lambda>h. h\<lparr>hx_list := remove1 io (hx_list h), hx_reqs := (hx_reqs h)(io := None)\<rparr>) w))"

definition hp_http_cbs ::
  "'p http_px \<Rightarrow> hp_io_t \<Rightarrow> (fnptr \<Rightarrow> ptr \<Rightarrow> hp_httpresp \<Rightarrow> ('p, 'v) hw \<Rightarrow> int \<times> hp_httpresp \<times> ('p, 'v) hw) \<Rightarrow> ptr \<Rightarrow> (int \<Rightarrow> string) \<Rightarrow> ('p, 'v) httpw io_cbs" where
  "hp_http_cbs px zero_io u_request lit strerr =
     \<lparr>u_new = (\<lambda>f io fd w. hp_httpreq_on_new px zero_io io fd w),
      u_parse = (\<lambda>f io buf w. hp_httpreq_on_parse px io buf w),
      u_dispatch = (\<lambda>f io hdr body w. hp_httpreq_on_dispatch u_request lit io w),
      u_loop = (\<lambda>f io w. hp_httpreq_on_loop io w),
      u_delete = (\<lambda>f io err errstr w. hp_httpreq_on_delete io w),
      u_strerr = strerr\<rparr>"

definition hp_http_init :: "ptr \<Rightarrow> sock \<Rightarrow> fnptr \<Rightarrow> ('p, 'v) hw \<Rightarrow> int \<times> ('p, 'v) hw" where
  "hp_http_init listenio listenfd on_request_cb w =
     (let w = on_hx (\<lambda>h. h\<lparr>hx_cb := on_request_cb, hx_list := []\<rparr>) w
      in case hp_io_add listenio listenfd s_httphdl w of
        (rc, w) \<Rightarrow>
          if rc \<noteq> 0 then (-4, w)
          else (rc, on_ior (\<lambda>r. r\<lparr>ior_ios := (ior_ios r)(listenio := map_option (\<lambda>x. x\<lparr>io_user := listenio\<rparr>) (ior_ios r listenio))\<rparr>) w))"

definition hp_http_count :: "('p, 'v) hw \<Rightarrow> nat" where
  "hp_http_count w = length (hx_list (hx w))"

definition hp_http_uninit :: "('p, 'v) hw \<Rightarrow> ('p, 'v) hw" where
  "hp_http_uninit = on_hx (\<lambda>h. h\<lparr>hx_list := []\<rparr>)"

subsection \<open>What a response queues\<close>

lemma wr_below_io_kio [simp]: "wr_below (io_kio fd w) wr = wr_below (ior_kio (snd w)) wr"
  by (simp add: wr_below_def io_kio_def)

lemma io_kio_mem [simp]: "mem (io_kio fd w) = mem (ior_kio (snd w))" "brk (io_kio fd w) = brk (ior_kio (snd w))"
  by (simp_all add: io_kio_def)

lemma hp_io_write_result:
  assumes "io_of w io = Some x" and "wr_ok (io_wr x)" and "wr_below (ior_kio (snd w)) (io_wr x)"
    and "base \<noteq> NULL" and "base + len \<le> brk (ior_kio (snd w))" and "f \<noteq> CopyFree"
  shows "\<exists>x' w'. hp_io_write io base len f NULL w = (0, w') \<and> io_of w' io = Some x' \<and> wr_ok (io_wr x') \<and>
    wr_below (ior_kio (snd w')) (io_wr x') \<and>
    mem (ior_kio (snd w')) = mem (ior_kio (snd w)) \<and> brk (ior_kio (snd w')) = brk (ior_kio (snd w)) \<and>
    wr_queue (mem (ior_kio (snd w'))) (io_wr x') =
      wr_queue (mem (ior_kio (snd w))) (io_wr x) @ iov_bytes (mem (ior_kio (snd w))) \<lparr>iov_base = base, iov_len = len\<rparr>"
proof -
  obtain wr' k' where r: "hp_wr_add (Some (io_wr x)) base len f NULL (io_kio (io_fd x) w) = (0, Some wr', k')"
    and q: "wr_ok wr'" "wr_below k' wr'"
      "wr_queue (mem k') wr' = wr_queue (mem (ior_kio (snd w))) (io_wr x) @
         iov_bytes (mem (ior_kio (snd w))) \<lparr>iov_base = base, iov_len = len\<rparr>"
    using hp_wr_add_result [of "io_wr x" "io_kio (io_fd x) w" base len f NULL] assms by auto
  have k: "mem k' = mem (ior_kio (snd w))" "brk k' = brk (ior_kio (snd w))"
    using r assms(4,6) by (auto simp: hp_wr_add_def Let_def)
  have "hp_io_write io base len f NULL w = (0, io_put io (x\<lparr>io_wr := wr'\<rparr>) (io_kio_put (io_fd x) k' w))"
    using assms(1) r by (simp add: hp_io_write_def)
  then show ?thesis using q k by simp
qed

lemma k_store_facts:
  assumes "k_store bs k = (q, k')"
  shows "q = brk k \<and> brk k' = brk k + length bs + 1 \<and> iov_bytes (mem k') \<lparr>iov_base = q, iov_len = length bs\<rparr> = bs \<and>
    (\<forall>base len. base + len \<le> brk k \<longrightarrow> iov_bytes (mem k') \<lparr>iov_base = base, iov_len = len\<rparr> =
       iov_bytes (mem k) \<lparr>iov_base = base, iov_len = len\<rparr>) \<and>
    (\<forall>wr. wr_below k wr \<longrightarrow> wr_below k' wr \<and> wr_queue (mem k') wr = wr_queue (mem k) wr)"
proof -
  have k: "q = brk k" "brk k' = brk k + length bs + 1"
    "mem k' = (\<lambda>a. if brk k \<le> a \<and> a < brk k + length bs then bs ! (a - brk k) else mem k a)"
    using assms by (auto simp: k_store_def)
  have "wr_below k' wr \<and> wr_queue (mem k') wr = wr_queue (mem k) wr" if "wr_below k wr" for wr
    using that wr_queue_below [OF that, of "mem k'"] k by (auto simp: wr_below_def list_all_iff)
  moreover have "iov_bytes (mem k') \<lparr>iov_base = q, iov_len = length bs\<rparr> = bs"
    using k by (intro nth_equalityI) (simp_all add: iov_bytes_def)
  ultimately show ?thesis using k by (auto simp: iov_bytes_def)
qed

text \<open>
  How a client reads a response, on its own: a line ends at CR LF; the first line is the status line, the
  fields are the lines up to the first empty one, and the rest is the body. A field is looked up by its
  name and a colon, and a number is a text of digits.
\<close>

fun read_line :: "byte list \<Rightarrow> (byte list \<times> byte list) option" where
  "read_line (c # d # cs) =
     (if c = 13 \<and> d = 10 then Some ([], cs) else map_option (\<lambda>(l, r). (c # l, r)) (read_line (d # cs)))"
| "read_line _ = None"

lemma read_line_shorter: "read_line bs = Some (l, r) \<Longrightarrow> length r < length bs"
  by (induction bs arbitrary: l rule: read_line.induct) (fastforce split: if_splits)+

function read_fields :: "byte list \<Rightarrow> (byte list list \<times> byte list) option" where
  "read_fields bs =
     (case read_line bs of None \<Rightarrow> None
      | Some (l, r) \<Rightarrow> if l = [] then Some ([], r) else map_option (\<lambda>(ls, b). (l # ls, b)) (read_fields r))"
  by pat_completeness auto
termination
  by (relation "measure length") (auto dest: read_line_shorter)

declare read_fields.simps [simp del]

definition read_response :: "byte list \<Rightarrow> (byte list \<times> byte list list \<times> byte list) option" where
  "read_response bs =
     (case read_line bs of None \<Rightarrow> None
      | Some (status, r) \<Rightarrow> map_option (\<lambda>(ls, b). (status, ls, b)) (read_fields r))"

fun field_of :: "byte list \<Rightarrow> byte list list \<Rightarrow> byte list option" where
  "field_of name [] = None"
| "field_of name (l # ls) =
     (if take (length name + 1) l = name @ [58] then Some (drop (length name + 1) l) else field_of name ls)"

definition read_num :: "byte list \<Rightarrow> nat option" where
  "read_num bs =
     (if bs \<noteq> [] \<and> list_all (\<lambda>b. 48 \<le> b \<and> b \<le> 57) bs then Some (foldl (\<lambda>v b. 10 * v + (unat b - 48)) 0 bs) else None)"

text \<open>The reason phrases and media types of the statuses and types the server knows.\<close>

definition std_reason :: "int \<Rightarrow> string" where
  "std_reason code =
     (case map_of [(200, ''OK''), (404, ''Not Found''), (500, ''Internal Server Error'')] code of
        Some t \<Rightarrow> t | None \<Rightarrow> ''Unknown'')"

definition std_type :: "int \<Rightarrow> string" where
  "std_type t =
     (case map_of [(1, ''text/html''), (2, ''text/json''), (3, ''image/x-icon''), (4, ''application/octet-stream'')] t of
        Some t \<Rightarrow> t | None \<Rightarrow> ''unknown/unknown'')"

lemma ascii_append [simp]: "ascii (xs @ ys) = ascii xs @ ascii ys"
  by (simp add: ascii_def)

lemma ascii_CRLF [simp]: "ascii CRLF = [13, 10]"
  by (simp add: ascii_def CRLF_def)

lemma read_line_append: "13 \<notin> set l \<Longrightarrow> read_line (l @ 13 # 10 # r) = Some (l, r)"
proof (induction l)
  case (Cons c l)
  then show ?case by (cases "l @ 13 # 10 # r") auto
qed simp

lemma read_fields_append:
  "13 \<notin> set l \<Longrightarrow> l \<noteq> [] \<Longrightarrow>
   read_fields (l @ 13 # 10 # r) = map_option (\<lambda>(ls, b). (l # ls, b)) (read_fields r)"
  by (subst read_fields.simps) (simp add: read_line_append)

lemma read_fields_end: "read_fields (13 # 10 # r) = Some ([], r)"
  by (subst read_fields.simps) simp

lemma read_num_digits: "read_num (ascii (nat_text n)) = Some n"
proof -
  have "foldl (\<lambda>v b. 10 * v + (unat b - 48)) 0 (ascii (nat_text n)) = n \<and> ascii (nat_text n) \<noteq> [] \<and>
    list_all (\<lambda>b. 48 \<le> b \<and> b \<le> (57 :: byte)) (ascii (nat_text n))"
  proof (induction n rule: nat_text.induct)
    case (1 n)
    have d: "unat (of_nat (of_char (digit_char m)) :: byte) = 48 + m" "48 \<le> (of_nat (of_char (digit_char m)) :: byte)"
      "(of_nat (of_char (digit_char m)) :: byte) \<le> 57" if "m < 10" for m
    proof -
      have "m = 0 \<or> m = 1 \<or> m = 2 \<or> m = 3 \<or> m = 4 \<or> m = 5 \<or> m = 6 \<or> m = 7 \<or> m = 8 \<or> m = 9" using that by arith
      then show "unat (of_nat (of_char (digit_char m)) :: byte) = 48 + m" "48 \<le> (of_nat (of_char (digit_char m)) :: byte)"
        "(of_nat (of_char (digit_char m)) :: byte) \<le> 57"
        by (elim disjE; simp add: digit_char_def)+
    qed
    show ?case
    proof (cases "n < 10")
      case True
      then show ?thesis using d [of n] by (simp add: nat_text.simps [of n] ascii_def)
    next
      case False
      with "1.IH" d [of "n mod 10"] show ?thesis
        by (subst (1 2 3) nat_text.simps) (auto simp: ascii_def)
    qed
  qed
  then show ?thesis by (simp add: read_num_def)
qed

lemma ascii_digits: "13 \<notin> set (ascii (nat_text n))"
  using read_num_digits [of n] by (auto simp: read_num_def list_all_iff split: if_splits)

lemma http_reasons: "http_status_code_reason_cstr c = std_reason c" "http_content_type_cstr t = std_type t"
  by (simp_all add: http_status_code_reason_cstr_def std_reason_def http_content_type_cstr_def std_type_def)

lemma ascii_reason: "13 \<notin> set (ascii (std_reason c))" "13 \<notin> set (ascii (std_type t))"
  by (auto simp: std_reason_def std_type_def ascii_def)

text \<open>The header the server writes, followed by any bytes, as a client reads it.\<close>

lemma http_header_read:
  assumes "n < 2 ^ 32"
  shows "\<exists>code fields.
    read_response (ascii (http_header resp n) @ rest) =
      Some (ascii ''HTTP/1.1 '' @ code @ ascii ('' '' @ std_reason (rs_status resp) @ '' ''), fields, rest) \<and>
    read_num code = Some (nat (rs_status resp mod 2 ^ 32)) \<and> length fields = 6 \<and>
    Option.bind (field_of (ascii ''Content-Length'') fields) read_num = Some n \<and>
    field_of (ascii ''Content-Type'') fields = Some (ascii (std_type (rs_type resp) @ '';charset=utf-8''))"
proof -
  let ?code = "ascii (nat_text (nat (rs_status resp mod 2 ^ 32)))"
  let ?status = "ascii ''HTTP/1.1 '' @ ?code @ ascii ('' '' @ std_reason (rs_status resp) @ '' '')"
  let ?fs = "[ascii ''Content-Type:'' @ ascii (std_type (rs_type resp)) @ ascii '';charset=utf-8'',
    ascii ''Access-Control-Allow-Origin:*'', ascii ''Access-Control-Allow-Methods:*'',
    ascii ''Access-Control-Allow-Credentials:true'', ascii ''Access-Control-Allow-Headers:x-requested-with,content-type'',
    ascii ''Content-Length:'' @ ascii (nat_text n)]"
  have hdr: "ascii (http_header resp n) @ rest =
      ?status @ 13 # 10 # concat (map (\<lambda>l. l @ [13, 10]) ?fs) @ 13 # 10 # rest"
    unfolding http_header_def http_reasons ascii_append ascii_CRLF using assms by simp
  have cr: "13 \<notin> set ?status" "\<forall>l \<in> set ?fs. 13 \<notin> set l \<and> l \<noteq> []"
    using ascii_digits ascii_reason by (auto simp: ascii_def)
  have fields: "\<forall>l \<in> set ls. 13 \<notin> set l \<and> l \<noteq> [] \<Longrightarrow>
      read_fields (concat (map (\<lambda>l. l @ [13, 10]) ls) @ 13 # 10 # rest) = Some (ls, rest)" for ls
    by (induction ls) (simp_all add: read_fields_end read_fields_append)
  have "read_response (ascii (http_header resp n) @ rest) = Some (?status, ?fs, rest)"
    unfolding hdr read_response_def read_line_append [OF cr(1)] option.case prod.case fields [OF cr(2)] by simp
  moreover have "field_of (ascii ''Content-Type'') ?fs = Some (ascii (std_type (rs_type resp) @ '';charset=utf-8''))"
    "field_of (ascii ''Content-Length'') ?fs = Some (ascii (nat_text n))"
    unfolding ascii_append by (simp_all add: ascii_def)
  ultimately show ?thesis
    by (intro exI [of _ ?code] exI [of _ ?fs]) (simp add: read_num_digits)
qed

lemma http_response_bytes:
  assumes "io_of w io = Some x" and "wr_ok (io_wr x)" and "wr_below (ior_kio (snd w)) (io_wr x)"
    and "rs_html resp = Some (html, n)" and "html \<noteq> NULL" and "html + n \<le> brk (ior_kio (snd w))"
    and "lit \<noteq> NULL" and "lit + 4 \<le> brk (ior_kio (snd w))"
    and "iov_bytes (mem (ior_kio (snd w))) \<lparr>iov_base = lit, iov_len = 4\<rparr> = [13, 10, 13, 10]"
  shows "\<exists>x' w'. http_response lit io resp w = (0, w') \<and> io_of w' io = Some x' \<and>
    wr_queue (mem (ior_kio (snd w'))) (io_wr x') =
      wr_queue (mem (ior_kio (snd w))) (io_wr x) @ ascii (http_header resp n) @
      iov_bytes (mem (ior_kio (snd w))) \<lparr>iov_base = html, iov_len = n\<rparr> @ [13, 10, 13, 10]"
proof -
  let ?m = "mem (ior_kio (snd w))" and ?hdr = "ascii (http_header resp n)"
  obtain q k where st: "k_store ?hdr (ior_kio (snd w)) = (q, k)" by (cases "k_store ?hdr (ior_kio (snd w))")
  note f = k_store_facts [OF st]
  let ?w1 = "on_ior (\<lambda>r. r\<lparr>ior_kio := k\<rparr>) w"
  have o1: "io_of ?w1 io = Some x" "ior_kio (snd ?w1) = k"
    using assms(1) by (simp_all add: on_ior_def io_of_def)
  have q0: "q \<noteq> NULL" using f assms(5,6) by auto
  obtain x2 w2 where r2: "hp_io_write io q (length ?hdr) SDSFREE NULL ?w1 = (0, w2)" "io_of w2 io = Some x2" "wr_ok (io_wr x2)"
    "wr_below (ior_kio (snd w2)) (io_wr x2)" "mem (ior_kio (snd w2)) = mem k" "brk (ior_kio (snd w2)) = brk k"
    "wr_queue (mem k) (io_wr x2) = wr_queue ?m (io_wr x) @ ?hdr"
    using hp_io_write_result [OF o1(1) assms(2), of q "length ?hdr" SDSFREE] f assms(3) q0 o1(2) by auto
  define fr where "fr = (if rs_flags resp = 1 then SDSFREE else NoFree)"
  have fr: "fr \<noteq> CopyFree" by (simp add: fr_def)
  obtain x3 w3 where r3: "hp_io_write io html n fr NULL w2 = (0, w3)"
    "io_of w3 io = Some x3" "wr_ok (io_wr x3)"
    "wr_below (ior_kio (snd w3)) (io_wr x3)" "mem (ior_kio (snd w3)) = mem k" "brk (ior_kio (snd w3)) = brk k"
    "wr_queue (mem k) (io_wr x3) = wr_queue (mem k) (io_wr x2) @ iov_bytes ?m \<lparr>iov_base = html, iov_len = n\<rparr>"
    using hp_io_write_result [OF r2(2-4) assms(5) _ fr, of n] f assms(6) r2(5,6)
    by auto
  obtain x4 w4 where r4: "hp_io_write io lit 4 NoFree NULL w3 = (0, w4)" "io_of w4 io = Some x4" "mem (ior_kio (snd w4)) = mem k"
    "wr_queue (mem k) (io_wr x4) = wr_queue (mem k) (io_wr x3) @ [13, 10, 13, 10]"
    using hp_io_write_result [OF r3(2-4) assms(7), of 4 NoFree] f assms(8,9) r3(5,6) by auto
  have "http_response lit io resp w = (0, w4)"
    using assms(4) st r2(1) r3(1) r4(1) by (simp add: http_response_def Let_def fr_def)
  then show ?thesis using r2(7) r3(7) r4(2-4) by auto
qed

text \<open>
  C17: A response is queued whole and in order behind what the connection has still to send. A client that
  reads the queued bytes finds a status line with the status and its reason, six fields, of which
  \<open>Content-Length\<close> is the length of the body in decimal and \<open>Content-Type\<close> the type, an empty line, then the body,
  then the four bytes of two more empty lines, which the length does not count.
\<close>

theorem hp_http_response_queued:
  assumes "io_of w io = Some x" and "wr_ok (io_wr x)" and "wr_below (ior_kio (snd w)) (io_wr x)"
    and "rs_html resp = Some (html, n)" and "html \<noteq> NULL" and "html + n \<le> brk (ior_kio (snd w))"
    and "lit \<noteq> NULL" and "lit + 4 \<le> brk (ior_kio (snd w))"
    and "iov_bytes (mem (ior_kio (snd w))) \<lparr>iov_base = lit, iov_len = 4\<rparr> = [13, 10, 13, 10]"
    and "n < 2 ^ 32" and "0 \<le> rs_status resp" and "rs_status resp < 2 ^ 31"
  shows "\<exists>x' w' bs code fields. http_response lit io resp w = (0, w') \<and> io_of w' io = Some x' \<and>
    wr_queue (mem (ior_kio (snd w'))) (io_wr x') = wr_queue (mem (ior_kio (snd w))) (io_wr x) @ bs \<and>
    read_response bs =
      Some (ascii ''HTTP/1.1 '' @ code @ ascii ('' '' @ std_reason (rs_status resp) @ '' ''), fields,
            iov_bytes (mem (ior_kio (snd w))) \<lparr>iov_base = html, iov_len = n\<rparr> @ [13, 10, 13, 10]) \<and>
    read_num code = Some (nat (rs_status resp)) \<and> length fields = 6 \<and>
    Option.bind (field_of (ascii ''Content-Length'') fields) read_num = Some n \<and>
    field_of (ascii ''Content-Type'') fields = Some (ascii (std_type (rs_type resp) @ '';charset=utf-8''))"
proof -
  let ?rest = "iov_bytes (mem (ior_kio (snd w))) \<lparr>iov_base = html, iov_len = n\<rparr> @ [13, 10, 13, 10]"
  obtain x' w' where q: "http_response lit io resp w = (0, w')" "io_of w' io = Some x'"
    "wr_queue (mem (ior_kio (snd w'))) (io_wr x') =
      wr_queue (mem (ior_kio (snd w))) (io_wr x) @ ascii (http_header resp n) @ ?rest"
    using http_response_bytes [OF assms(1-9)] by blast
  obtain code fields where h: "read_response (ascii (http_header resp n) @ ?rest) =
      Some (ascii ''HTTP/1.1 '' @ code @ ascii ('' '' @ std_reason (rs_status resp) @ '' ''), fields, ?rest)"
    "read_num code = Some (nat (rs_status resp mod 2 ^ 32))" "length fields = 6"
    "Option.bind (field_of (ascii ''Content-Length'') fields) read_num = Some n"
    "field_of (ascii ''Content-Type'') fields = Some (ascii (std_type (rs_type resp) @ '';charset=utf-8''))"
    using http_header_read [OF assms(10)] by blast
  have "rs_status resp mod 2 ^ 32 = rs_status resp" using assms(11,12) by simp
  with h(2) have "read_num code = Some (nat (rs_status resp))" by simp
  with q h(1,3-5) show ?thesis by blast
qed

subsection \<open>A request that comes in two parts\<close>

text \<open>
  A request that does not come in one read is parsed wrongly. When the first part is not a
  whole request, the handler leaves it in the connection's buffer although the parser has
  taken it; the next read offers the buffer with the second part appended, and the parser,
  in the state after the first part, is given the first part again. If it then finds an
  error, the connection is refused.
\<close>

lemma hp_http_split_request_reparsed:
  assumes "io_of w io = Some x" and "h_on_parse (io_hdl x) \<noteq> NULL" and "hx_reqs (hx w) io = Some req"
    and "b1 \<noteq> []" and "px_exec px (ghpsettings (px_url px)) (rq_parser req) b1 (rq_fields req) = ((p1, length b1, False), f1)"
    and "rf_flags f1 \<noteq> 1"
    and "px_exec px (ghpsettings (px_url px)) p1 (b1 @ b2) f1 = ((p2, n, False), f2)" and "n < length (b1 @ b2)"
  shows "\<exists>w1. hp_io_t_on_data (hp_http_cbs px z u lit se) (Suc m) io b1 w = (0, b1, w1) \<and>
    hx_reqs (hx w1) io = Some \<lparr>rq_fields = f1, rq_parser = p1\<rparr> \<and>
    (\<exists>w2. hp_io_t_on_data (hp_http_cbs px z u lit se) (Suc m) io (b1 @ b2) w1 = (-1, [], w2) \<and>
      hx_reqs (hx w2) io = Some \<lparr>rq_fields = f2, rq_parser = p2\<rparr>)"
proof -
  let ?w1 = "on_hx (\<lambda>h. h\<lparr>hx_reqs := (hx_reqs h)(io \<mapsto> \<lparr>rq_fields = f1, rq_parser = p1\<rparr>)\<rparr>) w"
  let ?w2 = "on_hx (\<lambda>h. h\<lparr>hx_reqs := (hx_reqs h)(io \<mapsto> \<lparr>rq_fields = f2, rq_parser = p2\<rparr>)\<rparr>) ?w1"
  have io1: "io_of ?w1 io = Some x" using assms(1) by (simp add: on_hx_def on_ior_def io_of_def)
  have rq: "hx_reqs (hx ?w1) io = Some \<lparr>rq_fields = f1, rq_parser = p1\<rparr>"
    "hx_reqs (hx ?w2) io = Some \<lparr>rq_fields = f2, rq_parser = p2\<rparr>"
    by (simp_all add: on_hx_def on_ior_def hx_def)
  have p: "hp_httpreq_parse px req b1 = (int (length b1), \<lparr>rq_fields = f1, rq_parser = p1\<rparr>)"
    using assms(5) by (cases req) (simp add: hp_httpreq_parse_def)
  have q: "hp_httpreq_parse px \<lparr>rq_fields = f1, rq_parser = p1\<rparr> (b1 @ b2) = (-1, \<lparr>rq_fields = f2, rq_parser = p2\<rparr>)"
    using assms(7,8) by (simp add: hp_httpreq_parse_def)
  have l: "\<not> int (length b1) \<le> 0" using assms(4) by simp
  have "hp_httpreq_on_parse px io b1 w = (0, b1, NULL, NULL, ?w1)"
    using assms(3,6) p l by (simp add: hp_httpreq_on_parse_def Let_def)
  then have r1: "hp_io_t_on_data (hp_http_cbs px z u lit se) (Suc m) io b1 w = (0, b1, ?w1)"
    using assms(1,2,4) by (simp add: hp_io_t_on_data_def hp_http_cbs_def)
  have "hp_httpreq_on_parse px io (b1 @ b2) ?w1 = (-1, b1 @ b2, NULL, NULL, ?w2)"
    using rq(1) q by (simp add: hp_httpreq_on_parse_def Let_def)
  then have "hp_io_t_on_data (hp_http_cbs px z u lit se) (Suc m) io (b1 @ b2) ?w1 = (-1, [], ?w2)"
    using io1 assms(2,4) by (simp add: hp_io_t_on_data_def hp_http_cbs_def)
  with r1 rq show ?thesis by blast
qed

subsection \<open>The list of connections\<close>

definition http_inv :: "('p, 'v) hw \<Rightarrow> bool" where
  "http_inv w \<longleftrightarrow> distinct (hx_list (hx w)) \<and> set (hx_list (hx w)) = dom (hx_reqs (hx w)) \<and> 0 < hx_nxt (hx w) \<and>
     (\<forall>p \<in> set (hx_list (hx w)). io_of w p \<noteq> None \<and> p < hx_nxt (hx w))"

lemma io_of_epoll [simp]: "io_of (e, snd w) p = io_of w p"
  by (simp add: io_of_def)

lemma hp_io_add_frame:
  assumes "io_of w io \<noteq> None"
  shows "ior_user (snd (snd (hp_io_add io fd hdl w))) = ior_user (snd w) \<and>
    ior_fault (snd (snd (hp_io_add io fd hdl w))) = ior_fault (snd w) \<and>
    (\<forall>p. io_of (snd (hp_io_add io fd hdl w)) p = None \<longleftrightarrow> io_of w p = None)"
proof -
  have frame: "ior_user (snd (io_put io x (e, snd w))) = ior_user (snd w) \<and>
      ior_fault (snd (io_put io x (e, snd w))) = ior_fault (snd w) \<and>
      (\<forall>p. io_of (io_put io x (e, snd w)) p = None \<longleftrightarrow> io_of w p = None)" for x e
    using assms by (auto simp: io_of_def io_put_def on_ior_def)
  show ?thesis
    using assms by (auto simp: hp_io_add_def Let_def frame split: option.splits prod.splits)
qed

text \<open>
  Accepting a connection: what \<open>hp_http_inv\<close> says of the record and the object that are made
  before the connection is registered.
\<close>

lemma http_inv_append:
  assumes "http_inv w" and "hx_list (hx w1) = hx_list (hx w) @ [hx_nxt (hx w)]"
    and "hx_reqs (hx w1) = (hx_reqs (hx w))(hx_nxt (hx w) \<mapsto> q)" and "hx_nxt (hx w1) = hx_nxt (hx w) + 1"
    and "\<And>p. io_of w1 p = None \<longleftrightarrow> p \<noteq> hx_nxt (hx w) \<and> io_of w p = None"
  shows "http_inv w1"
proof -
  have old: "io_of w p \<noteq> None \<and> p < hx_nxt (hx w)" if "p \<in> set (hx_list (hx w))" for p
    using assms(1) that unfolding http_inv_def by blast
  have "io_of w1 p \<noteq> None \<and> p < hx_nxt (hx w1)" if "p \<in> set (hx_list (hx w)) \<or> p = hx_nxt (hx w)" for p
    using that old [of p] assms(4) assms(5) [of p] by (elim disjE) simp_all
  then have "\<forall>p \<in> set (hx_list (hx w1)). io_of w1 p \<noteq> None \<and> p < hx_nxt (hx w1)" using assms(2) by auto
  moreover have "hx_nxt (hx w) \<notin> set (hx_list (hx w))" using old by blast
  ultimately show ?thesis using assms(1) unfolding http_inv_def by (simp add: assms(2,3,4))
qed

lemma http_inv_same:
  assumes "http_inv w" and "hx_list (hx w1) = hx_list (hx w)" and "hx_reqs (hx w1) = hx_reqs (hx w)"
    and "hx_nxt (hx w1) = hx_nxt (hx w) + 1"
    and "\<And>p. p \<noteq> hx_nxt (hx w) \<Longrightarrow> io_of w1 p = None \<longleftrightarrow> io_of w p = None"
  shows "http_inv w1"
proof -
  have old: "io_of w p \<noteq> None \<and> p < hx_nxt (hx w)" if "p \<in> set (hx_list (hx w))" for p
    using assms(1) that unfolding http_inv_def by blast
  have "io_of w1 p \<noteq> None \<and> p < hx_nxt (hx w1)" if "p \<in> set (hx_list (hx w))" for p
    using old [OF that] assms(4) assms(5) [of p] by simp
  then show ?thesis using assms(1) unfolding http_inv_def assms(2,3) by (auto simp: assms(4))
qed

lemma http_on_new_inv:
  assumes "http_inv w" and "io_of w cio = Some c" and "hp_httpreq_on_new px z cio fd w = (nio, w1)"
  shows "http_inv w1 \<and> ior_fault (snd w1) = ior_fault (snd w) \<and>
    hx_list (hx w1) = hx_list (hx w) @ (if nio = NULL then [] else [nio])"
proof -
  let ?r = "hx_nxt (hx w)"
  let ?w0 = "on_hx (\<lambda>h. h\<lparr>hx_nxt := ?r + 1, hx_reqs := (hx_reqs h)(?r \<mapsto> hp_httpreq_init px)\<rparr>) (io_put ?r z w)"
  obtain rc w2 where a: "hp_io_add ?r fd ((io_hdl c)\<lparr>h_on_new := NULL\<rparr>) ?w0 = (rc, w2)"
    by (cases "hp_io_add ?r fd ((io_hdl c)\<lparr>h_on_new := NULL\<rparr>) ?w0")
  have "io_of ?w0 ?r \<noteq> None" by (simp add: on_hx_def on_ior_def io_of_def io_put_def)
  from hp_io_add_frame [OF this, of fd "(io_hdl c)\<lparr>h_on_new := NULL\<rparr>"] a
  have f: "hx w2 = hx ?w0" "ior_fault (snd w2) = ior_fault (snd w)" "\<And>p. io_of w2 p = None \<longleftrightarrow> p \<noteq> ?r \<and> io_of w p = None"
    by (auto simp: hx_def on_hx_def on_ior_def io_of_def io_put_def)
  have h: "hx_reqs (hx ?w0) = (hx_reqs (hx w))(?r \<mapsto> hp_httpreq_init px)" "hx_list (hx ?w0) = hx_list (hx w)"
    "hx_nxt (hx ?w0) = ?r + 1" by (simp_all add: hx_def on_hx_def on_ior_def io_put_def)
  have fresh: "hx_reqs (hx w) ?r = None" "?r \<noteq> NULL" using assms(1) by (auto simp: http_inv_def domIff)
  have new: "(nio, w1) =
      (if rc \<noteq> 0 then
         (NULL, on_ior (\<lambda>r. r\<lparr>ior_ios := (ior_ios r)(?r := None)\<rparr>) (on_hx (\<lambda>h. h\<lparr>hx_reqs := (hx_reqs h)(?r := None)\<rparr>) w2))
       else (?r, on_hx (\<lambda>h. h\<lparr>hx_list := hx_list h @ [?r]\<rparr>) w2))"
    using assms(2,3) a by (simp add: hp_httpreq_on_new_def Let_def)
  show ?thesis
  proof (cases "rc = 0")
    case True
    then have w1: "w1 = on_hx (\<lambda>h. h\<lparr>hx_list := hx_list h @ [?r]\<rparr>) w2" and n: "nio = ?r" using new by simp_all
    have v: "hx_list (hx w1) = hx_list (hx w) @ [?r]" "hx_reqs (hx w1) = (hx_reqs (hx w))(?r \<mapsto> hp_httpreq_init px)"
      "hx_nxt (hx w1) = ?r + 1" "ior_fault (snd w1) = ior_fault (snd w)" "\<And>p. io_of w1 p = io_of w2 p"
      using f(1,2) h by (simp_all add: w1 hx_def on_hx_def on_ior_def io_of_def)
    have "http_inv w1" by (rule http_inv_append [OF assms(1) v(1-3)]) (simp add: v(5) f(3))
    then show ?thesis using v(1,4) n fresh(2) by simp
  next
    case False
    then have w1: "w1 = on_ior (\<lambda>r. r\<lparr>ior_ios := (ior_ios r)(?r := None)\<rparr>) (on_hx (\<lambda>h. h\<lparr>hx_reqs := (hx_reqs h)(?r := None)\<rparr>) w2)"
      and n: "nio = NULL" using new by simp_all
    have v: "hx_list (hx w1) = hx_list (hx w)" "hx_reqs (hx w1) = hx_reqs (hx w)"
      "hx_nxt (hx w1) = ?r + 1" "ior_fault (snd w1) = ior_fault (snd w)" "\<And>p. p \<noteq> ?r \<Longrightarrow> io_of w1 p = io_of w2 p"
      using f(1,2) h fresh by (simp_all add: w1 hx_def on_hx_def on_ior_def io_of_def fun_upd_idem)
    have "http_inv w1" by (rule http_inv_same [OF assms(1) v(1-3)]) (simp add: v(5) f(3))
    then show ?thesis using v(1,4) n by simp
  qed
qed

lemma http_on_delete_inv:
  assumes "http_inv w" and "io \<in> set (hx_list (hx w))"
  shows "http_inv (hp_httpreq_on_delete io w) \<and> ior_fault (snd (hp_httpreq_on_delete io w)) = ior_fault (snd w) \<and>
    hx_list (hx (hp_httpreq_on_delete io w)) = remove1 io (hx_list (hx w)) \<and>
    io_of (hp_httpreq_on_delete io w) io = None"
proof -
  let ?w2 = "on_ior (\<lambda>r. r\<lparr>ior_ios := (ior_ios r)(io := None)\<rparr>)
    (on_hx (\<lambda>h. h\<lparr>hx_list := remove1 io (hx_list h), hx_reqs := (hx_reqs h)(io := None)\<rparr>) w)"
  have d: "hp_httpreq_on_delete io w = ?w2"
    using assms by (auto simp: hp_httpreq_on_delete_def http_inv_def)
  have w2: "hx_list (hx ?w2) = remove1 io (hx_list (hx w))" "hx_reqs (hx ?w2) = (hx_reqs (hx w))(io := None)"
    "hx_nxt (hx ?w2) = hx_nxt (hx w)" "ior_fault (snd ?w2) = ior_fault (snd w)" "\<And>p. io_of ?w2 p = (if p = io then None else io_of w p)"
    by (simp_all add: hx_def on_hx_def on_ior_def io_of_def)
  have "http_inv ?w2"
    using assms(1) unfolding http_inv_def w2(1-3) by (auto simp: w2(5) set_remove1_eq)
  then show ?thesis unfolding d using w2 by simp
qed

text \<open>
  Registration: the event table watches the connection's descriptor as a connection and calls back with
  its object; \<open>conn_interest\<close> is what accepting on the socket object \<open>c\<close> registers.
\<close>

definition http_registered :: "ptr set \<Rightarrow> ('p, 'v) hw \<Rightarrow> bool" where
  "http_registered P w \<longleftrightarrow>
     (\<forall>p \<in> P. \<exists>x. io_of w p = Some x \<and> (io_fd x, io_interest (io_hdl x) p) \<in> set (ep_entries (fst w)))"

definition conn_interest :: "hp_io_t \<Rightarrow> ptr \<Rightarrow> ep_desc" where
  "conn_interest c p = (EPOLLIN + EPOLLOUT + EPOLLET, FN_IO_CB, io_loop_fn (io_hdl c), p)"

lemma http_on_new_registers:
  assumes "http_inv w" and "io_of w cio = Some c" and "h_on_parse (io_hdl c) \<noteq> NULL" and "ep_inv (fst w)"
    and "0 \<le> fd" and "fd \<notin> fst ` set (ep_entries (fst w))" and "hp_httpreq_on_new px z cio fd w = (nio, w1)"
  shows "ep_inv (fst w1) \<and>
    (if length (ep_entries (fst w)) < ep_capacity (fst w) then
       nio = hx_nxt (hx w) \<and>
       ep_entries (fst w1) = ep_entries (fst w) @ [(fd, conn_interest c nio)] \<and>
       hx_reqs (hx w1) = (hx_reqs (hx w))(nio \<mapsto> hp_httpreq_init px) \<and>
       (\<exists>y. io_of w1 nio = Some y \<and> io_fd y = fd \<and> io_hdl y = (io_hdl c)\<lparr>h_on_new := NULL\<rparr>) \<and>
       (\<forall>p. p \<noteq> nio \<longrightarrow> io_of w1 p = io_of w p)
     else
       nio = NULL \<and> ep_entries (fst w1) = ep_entries (fst w) \<and> hx_reqs (hx w1) = hx_reqs (hx w) \<and>
       io_of w1 (hx_nxt (hx w)) = None \<and> (\<forall>p. p \<noteq> hx_nxt (hx w) \<longrightarrow> io_of w1 p = io_of w p))"
proof -
  let ?r = "hx_nxt (hx w)" and ?h = "(io_hdl c)\<lparr>h_on_new := NULL\<rparr>"
  let ?w0 = "on_hx (\<lambda>h. h\<lparr>hx_nxt := ?r + 1, hx_reqs := (hx_reqs h)(?r \<mapsto> hp_httpreq_init px)\<rparr>) (io_put ?r z w)"
  let ?d = "conn_interest c ?r"
  have r: "?r \<noteq> NULL" "hx_reqs (hx w) ?r = None" using assms(1) by (auto simp: http_inv_def domIff)
  have w0: "fst ?w0 = fst w" "io_of ?w0 p = (if p = ?r then Some z else io_of w p)"
    "hx_reqs (hx ?w0) = (hx_reqs (hx w))(?r \<mapsto> hp_httpreq_init px)" for p
    by (simp_all add: on_hx_def on_ior_def io_of_def hx_def io_put_def)
  have d: "io_interest ?h ?r = ?d" by (simp add: io_interest_def conn_interest_def io_loop_fn_def)
  have "epo (fst ?w0) \<noteq> None" using assms(4) w0(1) by (auto elim: ep_invE)
  from hp_io_add_epoll [OF this r(1), of ?h fd z] obtain y where
    y: "hp_io_add ?r fd ?h ?w0 = (fst (ep_add fd ?d (fst w)), io_put ?r y (snd (ep_add fd ?d (fst w)), snd ?w0))"
      "io_fd y = fd" "io_hdl y = ?h"
    using assms(3,5) w0(1,2) d by auto
  let ?e = "snd (ep_add fd ?d (fst w))"
  define w2 where "w2 = io_put ?r y (snd (ep_add fd ?d (fst w)), snd ?w0)"
  have w2: "fst w2 = ?e" "io_of w2 p = (if p = ?r then Some y else io_of w p)"
    "hx_reqs (hx w2) = (hx_reqs (hx w))(?r \<mapsto> hp_httpreq_init px)" for p
    using w0(2,3) by (simp_all add: w2_def hx_def)
  have inv: "ep_inv ?e" using epr.add_inv [OF assms(4,5)] by simp
  obtain rc w3 where a: "hp_io_add ?r fd ?h ?w0 = (rc, w3)" by (rule prod.exhaust)
  have new3: "(nio, w1) =
      (if rc \<noteq> 0 then
         (NULL, on_ior (\<lambda>r. r\<lparr>ior_ios := (ior_ios r)(?r := None)\<rparr>) (on_hx (\<lambda>h. h\<lparr>hx_reqs := (hx_reqs h)(?r := None)\<rparr>) w3))
       else (?r, on_hx (\<lambda>h. h\<lparr>hx_list := hx_list h @ [?r]\<rparr>) w3))"
    using assms(2,7) a by (simp add: hp_httpreq_on_new_def Let_def)
  have "rc = fst (ep_add fd ?d (fst w))" "w3 = w2" using trans [OF a [symmetric] y(1)] by (simp_all add: w2_def)
  note new = new3 [unfolded this]
  show ?thesis
  proof (cases "length (ep_entries (fst w)) < ep_capacity (fst w)")
    case True
    then have a: "fst (ep_add fd ?d (fst w)) = 0" "ep_entries ?e = ep_entries (fst w) @ [(fd, ?d)]"
      using epr.add_room [OF assms(4,5), of ?d] assms(6) by (simp_all add: reg_put_def)
    have n: "nio = ?r" "w1 = on_hx (\<lambda>h. h\<lparr>hx_list := hx_list h @ [?r]\<rparr>) w2" using new a(1) by simp_all
    have v: "fst w1 = fst w2" "io_of w1 p = io_of w2 p" "hx_reqs (hx w1) = hx_reqs (hx w2)" for p
      by (simp_all add: n(2) on_hx_def on_ior_def io_of_def hx_def io_put_def)
    show ?thesis using True inv a(2) n(1) v w2 y(2,3) by simp
  next
    case False
    then have a: "fst (ep_add fd ?d (fst w)) = -2" "ep_entries ?e = ep_entries (fst w)"
      using epr.add_full [OF assms(4,5,6), of ?d] by simp_all
    have n: "nio = NULL" "w1 = on_ior (\<lambda>r. r\<lparr>ior_ios := (ior_ios r)(?r := None)\<rparr>)
        (on_hx (\<lambda>h. h\<lparr>hx_reqs := (hx_reqs h)(?r := None)\<rparr>) w2)" using new a(1) by simp_all
    have v: "fst w1 = fst w2" "io_of w1 p = (if p = ?r then None else io_of w2 p)"
      "hx_reqs (hx w1) = (hx_reqs (hx w2))(?r := None)" for p
      by (simp_all add: n(2) on_hx_def on_ior_def io_of_def hx_def io_put_def)
    show ?thesis using False inv a(2) n(1) v w2 r(2) by (simp add: fun_upd_idem)
  qed
qed

lemma http_registered_mono:
  "http_registered P w \<Longrightarrow> (\<And>p. p \<in> Q \<Longrightarrow> p \<in> P \<and> io_of w1 p = io_of w p) \<Longrightarrow>
   set (ep_entries (fst w)) \<subseteq> set (ep_entries (fst w1)) \<Longrightarrow> http_registered Q w1"
  unfolding http_registered_def by (metis subsetD)

lemma http_on_new_registered:
  assumes "http_inv w" and "io_of w cio = Some c" and "h_on_parse (io_hdl c) \<noteq> NULL" and "ep_inv (fst w)"
    and "0 \<le> fd" and "fd \<notin> fst ` set (ep_entries (fst w))" and "hp_httpreq_on_new px z cio fd w = (nio, w1)"
    and "http_registered (set (hx_list (hx w))) w"
  shows "http_registered (set (hx_list (hx w1))) w1"
proof -
  note reg = http_on_new_registers [OF assms(1-7)]
  have l: "hx_list (hx w1) = hx_list (hx w) @ (if nio = NULL then [] else [nio])"
    using http_on_new_inv [OF assms(1,2,7)] by simp
  have old: "p \<noteq> hx_nxt (hx w)" if "p \<in> set (hx_list (hx w))" for p
    using assms(1) that by (auto simp: http_inv_def)
  have same: "p \<noteq> hx_nxt (hx w) \<Longrightarrow> io_of w1 p = io_of w p" for p using reg by (auto split: if_splits)
  have "http_registered (set (hx_list (hx w))) w1"
    by (rule http_registered_mono [OF assms(8)]) (use old same reg in \<open>auto split: if_splits\<close>)
  moreover have "http_registered {nio} w1" if "nio \<noteq> NULL"
    using reg that
    by (auto simp: http_registered_def conn_interest_def io_interest_def io_loop_fn_def split: if_splits)
  ultimately show ?thesis using l by (auto simp: http_registered_def)
qed

lemma http_on_delete_registered:
  assumes "http_registered (set (hx_list (hx w)) - {io}) w" and "http_inv w" and "io \<in> set (hx_list (hx w))"
  shows "http_registered (set (hx_list (hx (hp_httpreq_on_delete io w)))) (hp_httpreq_on_delete io w)"
proof (rule http_registered_mono [OF assms(1)])
  have d: "hp_httpreq_on_delete io w = on_ior (\<lambda>r. r\<lparr>ior_ios := (ior_ios r)(io := None)\<rparr>)
    (on_hx (\<lambda>h. h\<lparr>hx_list := remove1 io (hx_list h), hx_reqs := (hx_reqs h)(io := None)\<rparr>) w)"
    using assms by (auto simp: hp_httpreq_on_delete_def http_inv_def)
  show "set (ep_entries (fst w)) \<subseteq> set (ep_entries (fst (hp_httpreq_on_delete io w)))"
    by (simp add: d on_hx_def on_ior_def)
  fix p assume "p \<in> set (hx_list (hx (hp_httpreq_on_delete io w)))"
  then have "p \<in> set (hx_list (hx w)) - {io}"
    using assms(2,3) http_on_delete_inv [OF assms(2,3)] by (simp add: http_inv_def set_remove1_eq)
  then show "p \<in> set (hx_list (hx w)) - {io} \<and> io_of (hp_httpreq_on_delete io w) p = io_of w p"
    by (simp add: d on_hx_def on_ior_def io_of_def)
qed


subsection \<open>The properties at a concrete server\<close>

definition http_conn :: hp_io_t where
  "http_conn = (conn_example 0)\<lparr>io_hdl := s_httphdl\<lparr>h_on_new := 0\<rparr>\<rparr>"

text \<open>
  A parser whose requests are the two bytes 71 and 10: it reports the end of the message at
  the second, and takes nothing of what is neither.
\<close>

definition two_px :: "byte list http_px" where
  "two_px = \<lparr>px_init = [],
     px_exec = (\<lambda>cb p bs f. let s = p @ bs in
       if s = [71, 10] then ((s, length bs, False), snd (cb On_message_complete f))
       else if s = [71] then ((s, length bs, False), f) else ((s, 0, False), f)),
     px_url = (\<lambda>u. Some \<lparr>uf_path = None, uf_query = None\<rparr>)\<rparr>"

definition http_w :: "(byte list, unit) hw" where
  "http_w = (epw_example, \<lparr>ior_ios = [40 \<mapsto> http_conn, 30 \<mapsto> http_conn],
     ior_kio = (kio_example [])\<lparr>mem := (\<lambda>a. if a = 20 \<or> a = 22 then 13 else if a = 21 \<or> a = 23 then 10 else of_nat a)\<rparr>,
     ior_wscript = (\<lambda>s. []), ior_sent = (\<lambda>s. []), ior_rio = (\<lambda>s. \<lparr>rscript = [], r_errno = 0, r_sizes = []\<rparr>),
     ior_accept = (\<lambda>s. []), ior_closed = [], ior_fault = None,
     ior_user = \<lparr>hx_reqs = [40 \<mapsto> hp_httpreq_init two_px], hx_list = [40], hx_cb = 9, hx_nxt = 41, hx_v = ()\<rparr>\<rparr>)"

lemma http_w_facts:
  "io_of http_w 40 = Some http_conn" "io_of http_w 30 = Some http_conn" "io_wr http_conn = wr_example"
  "hx_reqs (hx http_w) 40 = Some (hp_httpreq_init two_px)" "hx_list (hx http_w) = [40]"
  "brk (ior_kio (snd http_w)) = 300" "h_on_parse (io_hdl http_conn) = 12" "ior_fault (snd http_w) = None"
  by (simp_all add: http_w_def io_of_def http_conn_def conn_example_def hx_def kio_example_def s_httphdl_def)

lemma http_w_writer: "wr_ok wr_example" "wr_below (ior_kio (snd http_w)) wr_example"
  "iov_bytes (mem (ior_kio (snd http_w))) \<lparr>iov_base = 20, iov_len = 4\<rparr> = [13, 10, 13, 10]"
  "iov_bytes (mem (ior_kio (snd http_w))) \<lparr>iov_base = 10, iov_len = 2\<rparr> = [10, 11]"
  "wr_queue (mem (ior_kio (snd http_w))) wr_example = [100, 101, 200]"
  by (simp_all add: http_w_def wr_example_simps)

theorem hp_http_response_queued_witness:
  "\<exists>x' w' bs code fields. http_response 20 40 \<lparr>rs_flags = 0, rs_type = 2, rs_status = 404, rs_html = Some (10, 2)\<rparr> http_w = (0, w') \<and>
    io_of w' 40 = Some x' \<and> wr_queue (mem (ior_kio (snd w'))) (io_wr x') = [100, 101, 200] @ bs \<and>
    read_response bs =
      Some (ascii ''HTTP/1.1 '' @ code @ ascii ('' '' @ std_reason 404 @ '' ''), fields, [10, 11, 13, 10, 13, 10]) \<and>
    read_num code = Some 404 \<and> Option.bind (field_of (ascii ''Content-Length'') fields) read_num = Some 2"
  using hp_http_response_queued [of http_w 40 http_conn "\<lparr>rs_flags = 0, rs_type = 2, rs_status = 404, rs_html = Some (10, 2)\<rparr>" 10 2 20]
  by (fastforce simp: http_w_facts http_w_writer)

lemma hp_http_split_request_reparsed_witness:
  "\<exists>w1 w2. hp_io_t_on_data (hp_http_cbs two_px http_conn (\<lambda>f io r w. (0, r, w)) 20 (\<lambda>e. [])) 3 40 [71] http_w = (0, [71], w1) \<and>
    hp_io_t_on_data (hp_http_cbs two_px http_conn (\<lambda>f io r w. (0, r, w)) 20 (\<lambda>e. [])) 3 40 [71, 10] w1 = (-1, [], w2)"
proof -
  let ?f = "rq_fields (hp_httpreq_init two_px)"
  have "px_exec two_px (ghpsettings (px_url two_px)) (rq_parser (hp_httpreq_init two_px)) [71] ?f = (([71], length [71 :: byte], False), ?f)"
    "px_exec two_px (ghpsettings (px_url two_px)) [71] ([71] @ [10]) ?f = (([71, 71, 10], 0, False), ?f)" "rf_flags ?f \<noteq> 1"
    by (simp_all add: two_px_def hp_httpreq_init_def)
  from hp_http_split_request_reparsed [OF http_w_facts(1) _ http_w_facts(4) _ this(1,3,2), of http_conn "\<lambda>f io r w. (0, r, w)" 20 "\<lambda>e. []" 2]
  show ?thesis by (auto simp: http_w_facts)
qed


end
