(* ===== verification/Hp_Net.thy ===== *)
theory Hp_Net
  imports Hp_Rd Hp_Wr Hp_Str
begin

section \<open>hp\_net: sockets and whole reads and writes\<close>

text \<open>
  Models \<open>src/hp_net.c\<close>. The first part are the reads and writes that go on until a number of
  bytes is complete: the descriptor is the one of \<open>Hp_Rd\<close> (answers of \<open>read\<close>) or \<open>Hp_Wr\<close> (answers of
  \<open>write\<close>), the memory the bytes go to is explicit. They call again when the answer is \<open>EINTR\<close> or
  \<open>EAGAIN\<close>; when the script ends they would do so for ever, and the result is \<open>Blocked\<close>. The second
  part sets sockets up: each system call answers with a result and an \<open>errno\<close> from a script,
  and the descriptors that are open are part of the state. The third part compares addresses.
\<close>

subsection \<open>Reading into memory\<close>

record netio =
  ni_rio :: rio
  ni_mem :: "ptr \<Rightarrow> byte"

definition store_bytes :: "ptr list \<Rightarrow> byte list \<Rightarrow> (ptr \<Rightarrow> byte) \<Rightarrow> ptr \<Rightarrow> byte" where
  "store_bytes as bs m = fold (\<lambda>(a, b) m. m(a := b)) (zip as bs) m"

definition readv :: "iovec list \<Rightarrow> netio \<Rightarrow> int \<times> netio" where
  "readv vs k =
     (case read_fd (iovec_total_bytes vs) (ni_rio k) of ((r, bs, t), rk) \<Rightarrow>
        (r, k\<lparr>ni_rio := rk, ni_mem := store_bytes (vec_addrs vs) bs (ni_mem k)\<rparr>))"

text \<open>The text of \<open>before_readv\<close> is the one of \<open>before_writev\<close>.\<close>

definition before_readv :: "iovec list \<Rightarrow> nat \<Rightarrow> nat \<Rightarrow> iovec list \<times> nat" where
  "before_readv vs nread n = before_writev_loop vs nread 0 n n"

definition again :: "int \<Rightarrow> bool" where
  "again e \<longleftrightarrow> e = EINTR \<or> e = EAGAIN"

lemma read_fd_shrinks:
  "read_fd n k = ((r, bs, t), k') \<Longrightarrow> 0 < r \<or> r < 0 \<and> rscript k \<noteq> [] \<Longrightarrow> rscript_size k' < rscript_size k"
  by (auto simp: read_fd_def rscript_size_def Let_def split: list.splits rcall.splits if_splits prod.splits)

lemma readv_shrinks:
  "readv vs k = (r, k') \<Longrightarrow> 0 < r \<or> r < 0 \<and> rscript (ni_rio k) \<noteq> [] \<Longrightarrow>
   rscript_size (ni_rio k') < rscript_size (ni_rio k)"
  by (auto simp: readv_def split: prod.splits dest!: read_fd_shrinks)

function do_readv_loop ::
  "iovec list \<Rightarrow> nat \<Rightarrow> nat \<Rightarrow> nat \<Rightarrow> netio \<Rightarrow> (int \<times> iovec list \<times> netio) outcome" where
  "do_readv_loop vs n nread bytes k =
     (let (r, k') = readv (drop n vs) k in
      if r < 0 then
        (if again (r_errno (ni_rio k'))
         then if rscript (ni_rio k) = [] then Blocked (int nread, vs, k') else do_readv_loop vs n nread bytes k'
         else Done (-1, vs, k'))
      else if r = 0 then Done (int nread, vs, k')
      else let nread = nread + nat r in
        if nread = bytes then Done (int nread, vs, k')
        else let (vs, n) = before_readv vs (nat r) n in do_readv_loop vs n nread bytes k')"
  by pat_completeness auto
termination
  by (relation "measure (\<lambda>(vs, n, nread, bytes, k). rscript_size (ni_rio k))")
    (auto dest!: readv_shrinks [OF sym])

declare do_readv_loop.simps [simp del]

definition do_readv :: "iovec list option \<Rightarrow> nat \<Rightarrow> netio \<Rightarrow> (int \<times> iovec list \<times> netio) outcome" where
  "do_readv vso bytes k =
     (case vso of None \<Rightarrow> Done (-1, [], k) | Some vs \<Rightarrow> do_readv_loop vs 0 0 bytes k)"

text \<open>\<open>readv_a\<close> returns at once when the descriptor would block; its results are the bytes, \<open>*err\<close> and \<open>*n\<close>.\<close>

function readv_a_loop ::
  "iovec list \<Rightarrow> nat \<Rightarrow> nat \<Rightarrow> nat \<Rightarrow> netio \<Rightarrow> nat \<times> int \<times> nat \<times> iovec list \<times> netio" where
  "readv_a_loop vs n nread bytes k =
     (let (r, k') = readv (drop n vs) k in
      if r < 0 then (nread, if again (r_errno (ni_rio k')) then EAGAIN else r_errno (ni_rio k'), n, vs, k')
      else if r = 0 then (nread, -1, n, vs, k')
      else let nread = nread + nat r in
        if nread = bytes then (nread, 0, length vs, vs, k')
        else let (vs, n) = before_readv vs (nat r) n in readv_a_loop vs n nread bytes k')"
  by pat_completeness auto
termination
  by (relation "measure (\<lambda>(vs, n, nread, bytes, k). rscript_size (ni_rio k))")
    (auto dest!: readv_shrinks [OF sym])

declare readv_a_loop.simps [simp del]

definition readv_a ::
  "iovec list option \<Rightarrow> nat \<Rightarrow> netio \<Rightarrow> (nat \<times> (int \<times> nat) option \<times> iovec list \<times> netio)" where
  "readv_a vso bytes k =
     (case vso of None \<Rightarrow> (0, None, [], k)
      | Some vs \<Rightarrow> case readv_a_loop vs 0 0 bytes k of (r, err, n, vs, k) \<Rightarrow> (r, Some (err, n), vs, k))"

text \<open>\<open>read\<close> of \<open>len\<close> bytes to \<open>p\<close>.\<close>

definition read_at :: "ptr \<Rightarrow> nat \<Rightarrow> netio \<Rightarrow> int \<times> netio" where
  "read_at p len k =
     (case read_fd len (ni_rio k) of ((r, bs, t), rk) \<Rightarrow>
        (r, k\<lparr>ni_rio := rk, ni_mem := store_bytes [p ..< p + len] bs (ni_mem k)\<rparr>))"

lemma read_at_shrinks:
  "read_at p len k = (r, k') \<Longrightarrow> 0 < r \<or> r < 0 \<and> rscript (ni_rio k) \<noteq> [] \<Longrightarrow>
   rscript_size (ni_rio k') < rscript_size (ni_rio k)"
  by (auto simp: read_at_def split: prod.splits dest!: read_fd_shrinks)

function read_a_loop :: "ptr \<Rightarrow> nat \<Rightarrow> nat \<Rightarrow> nat \<Rightarrow> netio \<Rightarrow> nat \<times> int \<times> netio" where
  "read_a_loop buf len bytes nread k =
     (let (r, k') = read_at (buf + nread) (len - nread) k in
      if r < 0 then (nread, if again (r_errno (ni_rio k')) then EAGAIN else r_errno (ni_rio k'), k')
      else if r = 0 then (nread, -1, k')
      else let nread = nread + nat r in
        if nread = bytes then (nread, 0, k') else read_a_loop buf len bytes nread k')"
  by pat_completeness auto
termination
  by (relation "measure (\<lambda>(buf, len, bytes, nread, k). rscript_size (ni_rio k))")
    (auto dest!: read_at_shrinks [OF sym])

declare read_a_loop.simps [simp del]

definition read_a :: "sock \<Rightarrow> ptr \<Rightarrow> nat \<Rightarrow> nat \<Rightarrow> netio \<Rightarrow> nat \<times> int option \<times> netio" where
  "read_a fd buf len bytes k =
     (if \<not> (0 \<le> fd \<and> buf \<noteq> NULL \<and> 0 < len) then (0, None, k)
      else case read_a_loop buf len bytes 0 k of (n, err, k) \<Rightarrow> (n, Some err, k))"

function readn_loop :: "ptr \<Rightarrow> nat \<Rightarrow> netio \<Rightarrow> (int \<times> nat \<times> netio) outcome" where
  "readn_loop p nleft k =
     (if 0 < nleft then
        (let (r, k') = read_at p nleft k in
         if r < 0 then
           (if again (r_errno (ni_rio k'))
            then if rscript (ni_rio k) = [] then Blocked (-1, nleft, k') else readn_loop p nleft k'
            else Done (-1, nleft, k'))
         else if r = 0 then Done (0, nleft, k')
         else readn_loop (p + nat r) (nleft - nat r) k')
      else Done (0, 0, k))"
  by pat_completeness auto
termination
  by (relation "measure (\<lambda>(p, nleft, k). rscript_size (ni_rio k))")
    (auto dest!: read_at_shrinks [OF sym])

declare readn_loop.simps [simp del]

definition readn :: "ptr \<Rightarrow> nat \<Rightarrow> netio \<Rightarrow> (int \<times> netio) outcome" where
  "readn p n k =
     (case readn_loop p n k of
        Done (rc, nleft, k) \<Rightarrow> Done (if rc < 0 then -1 else int (n - nleft), k)
      | Blocked (rc, nleft, k) \<Rightarrow> Blocked (int (n - nleft), k)
      | Undef \<Rightarrow> Undef)"

subsection \<open>Writing from memory\<close>

lemma writev_shrinks:
  "writev vs k = (w, k') \<Longrightarrow> 0 < w \<or> script k \<noteq> [] \<Longrightarrow> length (script k') < length (script k)"
  by (auto simp: writev_def Let_def split: list.splits wcall.splits)

text \<open>\<open>write(fd, ptr, nleft)\<close> is the gather write of one entry.\<close>

function writen_loop :: "ptr \<Rightarrow> nat \<Rightarrow> kio \<Rightarrow> (int \<times> kio) outcome" where
  "writen_loop p nleft k =
     (if 0 < nleft then
        (let (w, k') = writev [\<lparr>iov_base = p, iov_len = nleft\<rparr>] k in
         if w \<le> 0 then
           (if w < 0 \<and> again (k_errno k')
            then if script k = [] then Blocked (-1, k') else writen_loop p nleft k'
            else Done (-1, k'))
         else writen_loop (p + nat w) (nleft - nat w) k')
      else Done (0, k))"
  by pat_completeness auto
termination
  by (relation "measure (\<lambda>(p, nleft, k). length (script k))") (auto dest!: writev_shrinks [OF sym])

declare writen_loop.simps [simp del]

definition writen :: "ptr \<Rightarrow> nat \<Rightarrow> kio \<Rightarrow> (int \<times> kio) outcome" where
  "writen p n k =
     (case writen_loop p n k of Done (rc, k) \<Rightarrow> Done (if rc < 0 then -1 else int n, k) | r \<Rightarrow> r)"

subsection \<open>What the reads and writes come to\<close>

lemma store_bytes_Nil [simp]: "store_bytes as [] m = m"
  by (simp add: store_bytes_def)

lemma store_bytes_append:
  assumes "length bs \<le> length as"
  shows "store_bytes as (bs @ cs) m = store_bytes (drop (length bs) as) cs (store_bytes as bs m)"
proof -
  have "zip as bs = zip (take (length bs) as) bs"
    using assms by (intro nth_equalityI) auto
  then show ?thesis by (simp add: store_bytes_def zip_append2)
qed

text \<open>The end of the file was read on the way from \<open>k\<close> to \<open>k'\<close>.\<close>

definition saw_eof :: "rio \<Rightarrow> rio \<Rightarrow> bool" where
  "saw_eof k k' \<longleftrightarrow> (\<exists>pre c t. rscript k = pre @ (c, t) # rscript k' \<and> (c = R_eof \<or> c = R_data []))"

lemma read_fd_eof: "read_fd n k = ((0, bs, t), k') \<Longrightarrow> 0 < n \<Longrightarrow> saw_eof k k'"
  by (auto simp: read_fd_def saw_eof_def Let_def min_def split: list.splits rcall.splits if_splits)

lemma saw_eof_step:
  assumes "read_fd n k = ((r, bs, t), k1)" and "saw_eof k1 k2"
  shows "saw_eof k k2"
proof -
  from assms(2) obtain pre c t1 where e: "rscript k1 = pre @ (c, t1) # rscript k2" "c = R_eof \<or> c = R_data []"
    by (auto simp: saw_eof_def)
  from assms(1) consider "rscript k1 = rscript k" | x where "rscript k = x # rscript k1"
    | ds x r where "rscript k = x # r" "rscript k1 = (R_data ds, t) # r" "ds \<noteq> []"
    by (auto simp: read_fd_def Let_def split: list.splits rcall.splits if_splits)
  then show ?thesis
  proof cases
    case 1
    with assms(2) show ?thesis by (simp add: saw_eof_def)
  next
    case (2 x)
    with e show ?thesis unfolding saw_eof_def by (intro exI [of _ "x # pre"]) auto
  next
    case (3 ds x r)
    then obtain pre' where "pre = (R_data ds, t) # pre'" using e by (cases pre) auto
    with 3 e show ?thesis unfolding saw_eof_def by (intro exI [of _ "x # pre'"]) auto
  qed
qed

text \<open>
  What a read of \<open>as\<close> promises, when \<open>d\<close> bytes are already there: the bytes that come next are at
  the next addresses, and fewer than all only after an error or the end of the file.
\<close>

definition read_got :: "ptr list \<Rightarrow> netio \<Rightarrow> nat \<Rightarrow> netio \<Rightarrow> bool" where
  "read_got as k g k' \<longleftrightarrow> g \<le> length as \<and>
     (\<exists>bs. length bs = g \<and> rstream (ni_rio k) = bs @ rstream (ni_rio k') \<and> ni_mem k' = store_bytes as bs (ni_mem k))"

definition read_post :: "ptr list \<Rightarrow> nat \<Rightarrow> netio \<Rightarrow> (int \<times> netio) outcome \<Rightarrow> bool" where
  "read_post as d k res = (case res of
     Done (rc, k') \<Rightarrow> \<exists>g. read_got as k g k' \<and>
       (rc = -1 \<or> rc = int (d + g) \<and> (g = length as \<or> saw_eof (ni_rio k) (ni_rio k')))
   | Blocked (rc, k') \<Rightarrow> \<exists>g. read_got as k g k' \<and> rc = int (d + g) \<and> rscript (ni_rio k') = []
   | Undef \<Rightarrow> False)"

definition no_vec :: "(int \<times> iovec list \<times> netio) outcome \<Rightarrow> (int \<times> netio) outcome" where
  "no_vec res = (case res of Done (rc, vs, k) \<Rightarrow> Done (rc, k) | Blocked (rc, vs, k) \<Rightarrow> Blocked (rc, k) | Undef \<Rightarrow> Undef)"

lemma readv_facts:
  assumes "readv vs k = (r, k')"
  shows "read_got (vec_addrs vs) k (nat r) k'"
    and "saw_eof (ni_rio k') k2 \<Longrightarrow> saw_eof (ni_rio k) k2"
    and "r = 0 \<Longrightarrow> vec_addrs vs = [] \<or> saw_eof (ni_rio k) (ni_rio k')"
    and "r < 0 \<Longrightarrow> rscript (ni_rio k) = [] \<Longrightarrow> rscript (ni_rio k') = []"
proof -
  have l: "iovec_total_bytes vs = length (vec_addrs vs)"
    using iovec_total_bytes_length [of vs m for m] by (simp add: vec_bytes_addrs)
  obtain bs t rk where f: "read_fd (length (vec_addrs vs)) (ni_rio k) = ((r, bs, t), rk)"
    and k': "k' = k\<lparr>ni_rio := rk, ni_mem := store_bytes (vec_addrs vs) bs (ni_mem k)\<rparr>"
    using assms by (auto simp: readv_def l split: prod.splits)
  note s = read_fd_stream [OF f]
  have "length bs = nat r" using s(3,4) by (cases "0 < r") auto
  with s(1,2) show "read_got (vec_addrs vs) k (nat r) k'" by (auto simp: read_got_def k')
  show "saw_eof (ni_rio k') k2 \<Longrightarrow> saw_eof (ni_rio k) k2" using saw_eof_step [OF f] by (simp add: k')
  show "r = 0 \<Longrightarrow> vec_addrs vs = [] \<or> saw_eof (ni_rio k) (ni_rio k')"
    using f read_fd_eof [of _ "ni_rio k" bs t rk] by (auto simp: k')
  show "r < 0 \<Longrightarrow> rscript (ni_rio k) = [] \<Longrightarrow> rscript (ni_rio k') = []"
    using f by (auto simp: read_fd_def k' Let_def)
qed

lemma read_got_trans:
  assumes "read_got as k g k1" and "read_got (drop g as) k1 h k2"
  shows "read_got as k (g + h) k2"
  using assms by (fastforce simp: read_got_def store_bytes_append)

lemma read_post_trans:
  assumes "read_got as k g k1" and "read_post (drop g as) (d + g) k1 res"
    and "\<And>k2. saw_eof (ni_rio k1) k2 \<Longrightarrow> saw_eof (ni_rio k) k2"
  shows "read_post as d k res"
proof (cases res)
  case (Done x)
  obtain rc k2 where x: "x = (rc, k2)" by (cases x)
  from assms(2) obtain h where h: "read_got (drop g as) k1 h k2"
    "rc = -1 \<or> rc = int (d + g + h) \<and> (h = length (drop g as) \<or> saw_eof (ni_rio k1) (ni_rio k2))"
    by (auto simp: read_post_def Done x)
  from read_got_trans [OF assms(1) h(1)] h(2) assms(3) show ?thesis
    using assms(1) by (auto simp: read_post_def Done x read_got_def intro!: exI [of _ "g + h"])
next
  case (Blocked x)
  obtain rc k2 where x: "x = (rc, k2)" by (cases x)
  from assms(2) obtain h where h: "read_got (drop g as) k1 h k2" "rc = int (d + g + h)" "rscript (ni_rio k2) = []"
    by (auto simp: read_post_def Blocked x)
  from read_got_trans [OF assms(1) h(1)] h(2,3) show ?thesis
    by (auto simp: read_post_def Blocked x intro!: exI [of _ "g + h"])
qed (use assms(2) in \<open>simp add: read_post_def\<close>)

lemma read_got_0 [simp]: "read_got as k 0 k' \<longleftrightarrow> rstream (ni_rio k) = rstream (ni_rio k') \<and> ni_mem k' = ni_mem k"
  by (auto simp: read_got_def)

lemma no_vec_simps [simp]:
  "no_vec (Done (rc, vs, k)) = Done (rc, k)" "no_vec (Blocked (rc, vs, k)) = Blocked (rc, k)" "no_vec Undef = Undef"
  by (simp_all add: no_vec_def)

lemma do_readv_loop_post:
  assumes "bytes = nread + length (vec_addrs (drop n vs))" and "n \<le> length vs"
  shows "read_post (vec_addrs (drop n vs)) nread k (no_vec (do_readv_loop vs n nread bytes k))"
  using assms
proof (induction vs n nread bytes k rule: do_readv_loop.induct)
  case (1 vs n nread bytes k)
  let ?as = "vec_addrs (drop n vs)"
  obtain r k1 where rk: "readv (drop n vs) k = (r, k1)" by fastforce
  note unf = do_readv_loop.simps [of vs n nread bytes k] and f = readv_facts [OF rk]
  consider "r < 0" "again (r_errno (ni_rio k1))" "rscript (ni_rio k) \<noteq> []"
    | "r < 0" "\<not> (again (r_errno (ni_rio k1)) \<and> rscript (ni_rio k) \<noteq> [])" | "r = 0" | "0 < r" by linarith
  then show ?case
  proof cases
    case 1
    then have "do_readv_loop vs n nread bytes k = do_readv_loop vs n nread bytes k1" using rk by (simp add: unf)
    then show ?thesis
      using read_post_trans [OF f(1), of nread] f(2) 1 "1.IH"(1) [OF rk [symmetric] refl 1 "1.prems"] by simp
  next
    case 2
    then show ?thesis using rk f(1,4) by (auto simp: unf read_post_def intro!: exI [of _ 0])
  next
    case 3
    then show ?thesis using rk f(1,3) by (auto simp: unf read_post_def intro!: exI [of _ 0])
  next
    case 4
    note pos = "4"
    show ?thesis
    proof (cases "nread + nat r = bytes")
      case True
      then have "do_readv_loop vs n nread bytes k = Done (int bytes, vs, k1)" using rk pos by (simp add: unf)
      then show ?thesis using f(1) "1.prems"(1) True by (auto simp: read_post_def)
    next
      case ne: False
      obtain v2 n2 where b: "before_readv vs (nat r) n = (v2, n2)" by fastforce
      have "nat r < length ?as" using f(1) "1.prems"(1) ne by (auto simp: read_got_def)
      then have a: "n2 < length v2" "vec_addrs (drop n2 v2) = drop (nat r) ?as"
        using before_writev_addrs [of vs "nat r" n v2 n2] b by (auto simp: before_readv_def before_writev_def)
      have "read_post (drop (nat r) ?as) (nread + nat r) k1 (no_vec (do_readv_loop v2 n2 (nread + nat r) bytes k1))"
        using "1.IH"(2) [OF rk [symmetric] refl _ _ refl ne b [symmetric] refl] pos a "1.prems"(1) \<open>nat r < length ?as\<close>
        by simp
      from read_post_trans [OF f(1) this f(2)] show ?thesis using rk pos ne b by (simp add: unf)
    qed
  qed
qed

text \<open>Reading \<open>n\<close> bytes is the gathered read of one entry.\<close>

lemma vec_addrs_one [simp]: "vec_addrs [\<lparr>iov_base = p, iov_len = l\<rparr>] = [p ..< p + l]"
  by (simp add: iov_addrs_def)

lemma readv_one: "readv [\<lparr>iov_base = p, iov_len = l\<rparr>] k = read_at p l k"
  by (simp add: readv_def read_at_def iovec_total_bytes_def iov_addrs_def)

lemma before_readv_one:
  "r < l \<Longrightarrow> before_readv [\<lparr>iov_base = p, iov_len = l\<rparr>] r 0 = ([\<lparr>iov_base = p + r, iov_len = l - r\<rparr>], 0)"
  by (simp add: before_readv_def before_writev_loop.simps)

definition readn_of :: "nat \<Rightarrow> (int \<times> nat \<times> netio) outcome \<Rightarrow> (int \<times> netio) outcome" where
  "readn_of n res = (case res of
        Done (rc, nleft, k) \<Rightarrow> Done (if rc < 0 then -1 else int (n - nleft), k)
      | Blocked (rc, nleft, k) \<Rightarrow> Blocked (int (n - nleft), k)
      | Undef \<Rightarrow> Undef)"

lemma readn_loop_vec:
  assumes "0 < l"
  shows "no_vec (do_readv_loop [\<lparr>iov_base = p, iov_len = l\<rparr>] 0 d (d + l) k) = readn_of (d + l) (readn_loop p l k)"
  using assms
proof (induction p l k arbitrary: d rule: readn_loop.induct)
  case (1 p l k)
  obtain r k1 where rk: "read_at p l k = (r, k1)" by fastforce
  note unf = do_readv_loop.simps [of "[\<lparr>iov_base = p, iov_len = l\<rparr>]" 0 d "d + l" k] readn_loop.simps [of p l k]
  note f = readv_facts(1) [of "[\<lparr>iov_base = p, iov_len = l\<rparr>]" k r k1, unfolded readv_one, OF rk]
  show ?case
  proof (cases "0 < r")
    case False
    then show ?thesis
      using "1.IH"(1) [OF "1.prems" rk [symmetric] refl, of d] "1.prems" rk by (auto simp: unf readv_one readn_of_def)
  next
    case True
    have le: "nat r \<le> l" using f by (simp add: read_got_def)
    show ?thesis
    proof (cases "nat r = l")
      case all: True
      then show ?thesis using True "1.prems" rk by (simp add: unf readv_one readn_of_def readn_loop.simps [of _ 0])
    next
      case lt: False
      then have "nat r < l" using le by simp
      then show ?thesis
        using "1.IH"(2) [OF "1.prems" rk [symmetric] refl, of "d + nat r"] True "1.prems" rk le before_readv_one [of "nat r" l p]
        by (simp add: unf readv_one)
    qed
  qed
qed

lemma readn_eq: "readn p n k = readn_of n (readn_loop p n k)"
  by (simp add: readn_def readn_of_def)

text \<open>
  C9: A read of a whole vector puts the next bytes of the stream, in order, at the addresses the
  vector covers, whatever sizes the answers of the kernel have; it returns how many there are,
  and fewer than all of them only at the end of the file; otherwise it returns -1, or keeps calling
  while the descriptor has nothing. Reading a block with \<open>readn\<close> is the same as reading a vector of one entry.
\<close>

theorem hp_net_reads_whole:
  "read_post (vec_addrs vs) 0 k (no_vec (do_readv (Some vs) (iovec_total_bytes vs) k)) \<and>
   (0 < n \<longrightarrow> no_vec (do_readv (Some [\<lparr>iov_base = p, iov_len = n\<rparr>]) n k) = readn p n k)"
proof
  have "iovec_total_bytes vs = length (vec_addrs vs)"
    using iovec_total_bytes_length [of vs m for m] by (simp add: vec_bytes_addrs)
  then show "read_post (vec_addrs vs) 0 k (no_vec (do_readv (Some vs) (iovec_total_bytes vs) k))"
    using do_readv_loop_post [of "iovec_total_bytes vs" 0 0 vs k] by (simp add: do_readv_def)
  show "0 < n \<longrightarrow> no_vec (do_readv (Some [\<lparr>iov_base = p, iov_len = n\<rparr>]) n k) = readn p n k"
    using readn_loop_vec [of n p 0 k] by (simp add: do_readv_def readn_eq)
qed

definition netio_example :: netio where
  "netio_example = \<lparr>ni_rio = \<lparr>rscript = [(R_data [1, 2, 3], 0), (R_err EINTR, 0), (R_data [4, 5], 0)], r_errno = 0, r_sizes = []\<rparr>,
     ni_mem = (\<lambda>_. 0)\<rparr>"

theorem hp_net_reads_whole_witness:
  "no_vec (do_readv (Some [\<lparr>iov_base = 10, iov_len = 4\<rparr>]) 4 netio_example) = readn 10 4 netio_example"
  using hp_net_reads_whole [of "[]" netio_example 4 10] by simp

lemma writev_one:
  assumes "writev [\<lparr>iov_base = p, iov_len = l\<rparr>] k = (w, k1)"
  shows "nat w \<le> l \<and> sent k1 = sent k @ take (nat w) (map (mem k) [p ..< p + l]) \<and> mem k1 = mem k \<and>
    (w < 0 \<longrightarrow> script k = [] \<longrightarrow> script k1 = [])"
  using assms
  by (auto simp: writev_def Let_def vec_bytes_addrs iov_addrs_def min_def split: list.splits wcall.splits)

text \<open>
  What \<open>writen\<close> promises, in terms of the answers \<open>cs\<close> the kernel gave to its calls: the bytes they
  accepted; that they amount to the whole block, no call being made after that; and that the last of them
  is the first one that cannot be retried (an error other than an interrupt or \<open>EAGAIN\<close>, or a write of
  nothing) and came before the whole block was sent.
\<close>

definition answers_taken :: "wcall list \<Rightarrow> nat" where
  "answers_taken cs = sum_list (map (\<lambda>c. case c of W_ok n \<Rightarrow> n | W_err _ \<Rightarrow> 0) cs)"

definition block_sent :: "nat \<Rightarrow> wcall list \<Rightarrow> bool" where
  "block_sent n cs \<longleftrightarrow> n \<le> answers_taken cs \<and> no_hard_error cs \<and> (cs \<noteq> [] \<longrightarrow> answers_taken (butlast cs) < n)"

definition block_stopped :: "nat \<Rightarrow> wcall list \<Rightarrow> bool" where
  "block_stopped n cs \<longleftrightarrow>
     cs \<noteq> [] \<and> no_hard_error (butlast cs) \<and> \<not> no_hard_error [last cs] \<and> answers_taken cs < n"

definition block_waits :: "nat \<Rightarrow> wcall list \<Rightarrow> bool" where
  "block_waits n cs \<longleftrightarrow> no_hard_error cs \<and> answers_taken cs < n"

lemma no_hard_error_Cons: "no_hard_error (c # cs) \<longleftrightarrow> no_hard_error [c] \<and> no_hard_error cs"
  by (simp add: no_hard_error_def)

lemma answers_taken_simps [simp]:
  "answers_taken [] = 0" "answers_taken (W_ok n # cs) = n + answers_taken cs"
  "answers_taken (W_err e # cs) = answers_taken cs"
  by (simp_all add: answers_taken_def)

lemma answers_taken_Cons: "answers_taken (c # cs) = answers_taken [c] + answers_taken cs"
  by (simp add: answers_taken_def)

lemma block_Cons:
  assumes "no_hard_error [c]" and "t = min (answers_taken [c]) l" and "0 < l"
  shows "block_sent (l - t) cs \<Longrightarrow> block_sent l (c # cs)"
    and "block_stopped (l - t) cs \<Longrightarrow> block_stopped l (c # cs)"
    and "block_waits (l - t) cs \<Longrightarrow> block_waits l (c # cs)"
proof -
  note simps = no_hard_error_Cons [of c cs] no_hard_error_Cons [of c "butlast cs"]
    answers_taken_Cons [of c cs] answers_taken_Cons [of c "butlast cs"]
  show "block_sent (l - t) cs \<Longrightarrow> block_sent l (c # cs)"
    using assms by (cases "cs = []") (auto simp: block_sent_def simps min_def split: if_splits)
  show "block_stopped (l - t) cs \<Longrightarrow> block_stopped l (c # cs)"
    using assms by (auto simp: block_stopped_def simps min_def split: if_splits)
  show "block_waits (l - t) cs \<Longrightarrow> block_waits l (c # cs)"
    using assms by (auto simp: block_waits_def simps min_def split: if_splits)
qed

text \<open>One call of \<open>write\<close> uses one answer; what it sends and returns follows from it.\<close>

lemma writev_answer:
  assumes "writev [\<lparr>iov_base = p, iov_len = l\<rparr>] k = (w, k1)" and "0 < l" and "script k = c # cs"
  shows "script k1 = cs \<and> mem k1 = mem k \<and> nat w = min (answers_taken [c]) l \<and>
    sent k1 = sent k @ take (nat w) (map (mem k) [p ..< p + l]) \<and>
    no_hard_error [c] = (0 < w \<or> w < 0 \<and> again (k_errno k1))"
  using assms
  by (cases c) (auto simp: writev_def Let_def vec_bytes_addrs iov_addrs_def min_def no_hard_error_def again_def)

definition writen_post :: "ptr \<Rightarrow> nat \<Rightarrow> kio \<Rightarrow> (int \<times> kio) outcome \<Rightarrow> bool" where
  "writen_post p l k res =
    (\<exists>used k'. script k = used @ script k' \<and>
      sent k' = sent k @ take (answers_taken used) (map (mem k) [p ..< p + l]) \<and>
      (res = Done (0, k') \<and> block_sent l used \<or> res = Done (-1, k') \<and> block_stopped l used \<or>
       res = Blocked (-1, k') \<and> block_waits l used \<and> script k' = []))"

lemma writen_post_step:
  assumes "writen_post (p + nat w) (l - nat w) k1 res" and "0 < l" and "script k = c # script k1"
    and "mem k1 = mem k" and "nat w = min (answers_taken [c]) l" and "no_hard_error [c]"
    and "sent k1 = sent k @ take (nat w) (map (mem k) [p ..< p + l])"
  shows "writen_post p l k res"
proof -
  from assms(1) obtain used k' where u: "script k1 = used @ script k'"
    "sent k' = sent k1 @ take (answers_taken used) (map (mem k1) [p + nat w ..< p + nat w + (l - nat w)])"
    "res = Done (0, k') \<and> block_sent (l - nat w) used \<or> res = Done (-1, k') \<and> block_stopped (l - nat w) used \<or>
     res = Blocked (-1, k') \<and> block_waits (l - nat w) used \<and> script k' = []"
    unfolding writen_post_def by blast
  let ?B = "map (mem k) [p ..< p + l]"
  have "sent k' = sent k @ take (nat w + answers_taken used) ?B"
    using u(2) assms(4,5,7) by (simp add: take_add drop_map drop_upt)
  moreover have "take (nat w + answers_taken used) ?B = take (answers_taken (c # used)) ?B"
    using assms(5) by (cases "answers_taken [c] \<le> l") (simp_all add: answers_taken_Cons [of c used] min_def)
  ultimately have "sent k' = sent k @ take (answers_taken (c # used)) ?B" by simp
  moreover have "script k = (c # used) @ script k'" using assms(3) u(1) by simp
  moreover note block_Cons [OF assms(6,5,2), of used]
  ultimately show ?thesis using u(3) unfolding writen_post_def by blast
qed

lemma writen_loop_post: "writen_post p l k (writen_loop p l k)"
proof (induction p l k rule: writen_loop.induct)
  case (1 p l k)
  obtain w k1 where wk: "writev [\<lparr>iov_base = p, iov_len = l\<rparr>] k = (w, k1)" by fastforce
  note unf = writen_loop.simps [of p l k]
  show ?case
  proof (cases "l = 0")
    case True
    then show ?thesis
      unfolding writen_post_def
      by (intro exI [of _ "[]"] exI [of _ k]) (simp add: writen_loop.simps [of p 0] block_sent_def no_hard_error_def)
  next
    case False
    then have l: "0 < l" by simp
    show ?thesis
    proof (cases "script k")
      case Nil
      then have "w = -1" "k1 = k\<lparr>k_errno := EAGAIN\<rparr>" using wk by (simp_all add: writev_def)
      then show ?thesis
        using l wk Nil by (simp add: unf writen_post_def again_def block_waits_def no_hard_error_def)
    next
      case (Cons c cs)
      note a = writev_answer [OF wk l Cons]
      consider "0 < w" | "w \<le> 0" "w < 0 \<and> again (k_errno k1)" | "w \<le> 0" "\<not> (w < 0 \<and> again (k_errno k1))"
        by fastforce
      then show ?thesis
      proof cases
        case 1
        then have "writen_loop p l k = writen_loop (p + nat w) (l - nat w) k1" using l wk by (simp add: unf)
        with writen_post_step [of p w l k1 _ k c] "1.IH"(2) [OF l wk [symmetric] refl] 1 a l Cons
        show ?thesis by simp
      next
        case 2
        then have "writen_loop p l k = writen_loop p l k1" using l wk Cons by (simp add: unf)
        moreover have "script k \<noteq> []" using Cons by simp
        ultimately show ?thesis
          using writen_post_step [of p 0 l k1 "writen_loop p l k1" k c] "1.IH"(1) [OF l wk [symmetric] refl 2] 2 a l Cons
          by simp
      next
        case 3
        then have "writen_loop p l k = Done (-1, k1)" using l wk by (auto simp: unf)
        moreover have "answers_taken [c] = 0" "\<not> no_hard_error [c]" "script k1 = cs" "sent k1 = sent k"
          using a 3 l by (auto simp: min_def split: if_splits)
        ultimately show ?thesis
          using l Cons unfolding writen_post_def
          by (intro exI [of _ "[c]"] exI [of _ k1]) (simp add: block_stopped_def no_hard_error_def)
      qed
    qed
  qed
qed

text \<open>
  C23: \<open>writen\<close> sends the bytes of the block in order, as many as the answers of the kernel to its calls
  add up to. It returns the length of the block when they amount to all of it, and stops calling then; it
  returns -1 exactly when one of the answers before that cannot be retried, and an interrupt or \<open>EAGAIN\<close> is
  retried; otherwise it is still calling. There is no short count.
\<close>

theorem hp_net_writes_whole:
  "\<exists>used k'. script k = used @ script k' \<and>
    sent k' = sent k @ take (answers_taken used) (map (mem k) [p ..< p + n]) \<and>
    (writen p n k = Done (int n, k') \<and> block_sent n used \<or>
     writen p n k = Done (-1, k') \<and> block_stopped n used \<or>
     writen p n k = Blocked (-1, k') \<and> block_waits n used \<and> script k' = [])"
proof -
  obtain used k' where u: "script k = used @ script k'"
    "sent k' = sent k @ take (answers_taken used) (map (mem k) [p ..< p + n])"
    "writen_loop p n k = Done (0, k') \<and> block_sent n used \<or>
     writen_loop p n k = Done (-1, k') \<and> block_stopped n used \<or>
     writen_loop p n k = Blocked (-1, k') \<and> block_waits n used \<and> script k' = []"
    using writen_loop_post [of p n k] unfolding writen_post_def by blast
  then show ?thesis
    by (intro exI [of _ used] exI [of _ k']) (auto simp: writen_def)
qed

subsection \<open>Reading on Windows\<close>

text \<open>
  \<open>recv\<close> in place of \<open>read\<close>; \<open>r_errno\<close> stands for \<open>WSAGetLastError\<close>. The end of the stream is not an error here,
  and a wrong argument returns the largest number.
\<close>

function read_a_msc_loop :: "ptr \<Rightarrow> nat \<Rightarrow> nat \<Rightarrow> nat \<Rightarrow> netio \<Rightarrow> nat \<times> int \<times> netio" where
  "read_a_msc_loop buf len bytes nread k =
     (let (r, k') = read_at (buf + nread) (len - nread) k in
      if r < 0 then (nread, if r_errno (ni_rio k') = 10035 then EAGAIN else r_errno (ni_rio k'), k')
      else if r = 0 then (nread, 0, k')
      else let nread = nread + nat r in
        if 0 < bytes \<and> nread = bytes then (nread, 0, k') else read_a_msc_loop buf len bytes nread k')"
  by pat_completeness auto
termination
  by (relation "measure (\<lambda>(buf, len, bytes, nread, k). rscript_size (ni_rio k))")
    (auto dest!: read_at_shrinks [OF sym])

declare read_a_msc_loop.simps [simp del]

definition read_a_msc :: "ptr \<Rightarrow> nat \<Rightarrow> nat \<Rightarrow> netio \<Rightarrow> nat \<times> int option \<times> netio" where
  "read_a_msc buf len bytes k =
     (if buf = NULL then (2 ^ 64 - 1, None, k)
      else case read_a_msc_loop buf len bytes 0 k of (n, err, k) \<Rightarrow> (n, Some err, k))"

text \<open>
  It stores the same bytes as the function for Linux and returns their number; the two differ in the error:
  at the end of the stream it is -1 there and 0 here.
\<close>

lemma read_a_msc_loop_same:
  "case (read_a_msc_loop buf len bytes nread k, read_a_loop buf len bytes nread k) of
     ((n, e, k'), (m, e', l)) \<Rightarrow> n = m \<and> k' = l"
proof (induction buf len bytes nread k rule: read_a_loop.induct)
  case (1 buf len bytes nread k)
  obtain r k' where rk: "read_at (buf + nread) (len - nread) k = (r, k')" by fastforce
  note unf = read_a_msc_loop.simps [of buf len bytes nread k] read_a_loop.simps [of buf len bytes nread k]
  show ?case
  proof (cases "r \<le> 0 \<or> nread + nat r = bytes")
    case True
    then show ?thesis by (auto simp: unf rk Let_def)
  next
    case False
    then show ?thesis using "1.IH" [OF rk [symmetric] refl] by (simp add: unf rk Let_def)
  qed
qed

end
