(* ===== verification/Hp_Sock.thy ===== *)
theory Hp_Sock
  imports Hp_Wr Hp_Str
begin

section \<open>hp\_net: setting sockets up, and addresses\<close>

text \<open>
  Models the part of \<open>src/hp_net.c\<close> that makes sockets, for a Linux system. The world is the list of the
  open descriptors, the log of the system calls and a script of their answers, a result and the \<open>errno\<close>
  it sets when it is negative; a script that has ended answers that the call failed. \<open>socket\<close> and
  \<open>socketpair\<close> open what they answer, \<open>close\<close> closes (its result is not read). \<open>inet_pton\<close> and
  \<open>inet_ntop\<close> are parameters. \<open>src/hp_net.c\<close> is compiled without \<open>_MSC_VER\<close>, \<open>_OSX\<close> and \<open>__CYGWIN__\<close>,
  but for the section on Windows, which is the branch under \<open>_MSC_VER\<close>.
\<close>

subsection \<open>System calls\<close>

abbreviation (input) EINPROGRESS :: int where "EINPROGRESS \<equiv> 115"
abbreviation (input) SOL_SOCKET :: int where "SOL_SOCKET \<equiv> 1"
abbreviation (input) SOL_IP :: int where "SOL_IP \<equiv> 0"
abbreviation (input) IPPROTO_TCP :: int where "IPPROTO_TCP \<equiv> 6"
abbreviation (input) SO_REUSEADDR :: int where "SO_REUSEADDR \<equiv> 2"
abbreviation (input) SO_SNDBUF :: int where "SO_SNDBUF \<equiv> 7"
abbreviation (input) SO_RCVBUF :: int where "SO_RCVBUF \<equiv> 8"
abbreviation (input) SO_KEEPALIVE :: int where "SO_KEEPALIVE \<equiv> 9"
abbreviation (input) TCP_KEEPIDLE :: int where "TCP_KEEPIDLE \<equiv> 4"
abbreviation (input) TCP_KEEPINTVL :: int where "TCP_KEEPINTVL \<equiv> 5"
abbreviation (input) TCP_KEEPCNT :: int where "TCP_KEEPCNT \<equiv> 6"
abbreviation (input) IP_TRANSPARENT :: int where "IP_TRANSPARENT \<equiv> 19"
abbreviation (input) IP_RECVORIGDSTADDR :: int where "IP_RECVORIGDSTADDR \<equiv> 20"
abbreviation (input) LISTENQ :: nat where "LISTENQ \<equiv> 512"

type_synonym in_addr = u32

datatype sysop =
    Op_socket bool
  | Op_socketpair
  | Op_setsockopt sock int int int
  | Op_getsockopt sock int int
  | Op_nonblock sock
  | Op_bind sock in_addr nat
  | Op_listen sock nat
  | Op_connect sock in_addr nat
  | Op_send sock in_addr nat "byte list"
  | Op_recvmsg sock int nat
  | Op_close sock

record sockw =
  so_open :: "sock list"
  so_log :: "sysop list"
  so_script :: "(int \<times> int) list"
  so_errno :: int

text \<open>\<open>Op_socket\<close> says whether it is a stream; \<open>Op_nonblock\<close> is \<open>fcntl(O_NONBLOCK)\<close> or \<open>ioctl(FIONBIO)\<close>.\<close>

definition syscall :: "sysop \<Rightarrow> sockw \<Rightarrow> int \<times> sockw" where
  "syscall op w = (let w = w\<lparr>so_log := so_log w @ [op]\<rparr> in
     case so_script w of
       [] \<Rightarrow> (-1, w\<lparr>so_errno := EIO\<rparr>)
     | (r, e) # s \<Rightarrow> (r, w\<lparr>so_script := s, so_errno := if r < 0 then e else so_errno w\<rparr>))"

definition sys_socket :: "bool \<Rightarrow> sockw \<Rightarrow> sock \<times> sockw" where
  "sys_socket stream w =
     (case syscall (Op_socket stream) w of (fd, w) \<Rightarrow>
        (fd, if fd < 0 then w else w\<lparr>so_open := fd # so_open w\<rparr>))"

definition sys_close :: "sock \<Rightarrow> sockw \<Rightarrow> sockw" where
  "sys_close fd w = w\<lparr>so_open := remove1 fd (so_open w), so_log := so_log w @ [Op_close fd]\<rparr>"

text \<open>Closing the descriptor and returning -1, which every failure but one of the set-up code does.\<close>

definition sock_fail :: "sock \<Rightarrow> sockw \<Rightarrow> sock \<times> sockw" where
  "sock_fail fd w = (-1, sys_close fd w)"

definition htons :: "int \<Rightarrow> nat" where
  "htons port = nat (port mod 2 ^ 16)"

subsection \<open>Options\<close>

definition hp_tcp_set_alive :: "sock \<Rightarrow> int \<Rightarrow> sockw \<Rightarrow> int \<times> sockw" where
  "hp_tcp_set_alive fd interval w =
     (case syscall (Op_setsockopt fd SOL_SOCKET SO_KEEPALIVE 1) w of (r, w) \<Rightarrow>
      if r = -1 then (-1, w)
      else case syscall (Op_setsockopt fd IPPROTO_TCP TCP_KEEPIDLE interval) w of (r, w) \<Rightarrow>
      if r < 0 then (-1, w)
      else
        let val = (if interval < 0 then - (- interval div 3) else interval div 3);
            val = (if val = 0 then 1 else val)
        in case syscall (Op_setsockopt fd IPPROTO_TCP TCP_KEEPINTVL val) w of (r, w) \<Rightarrow>
      if r < 0 then (-1, w)
      else case syscall (Op_setsockopt fd IPPROTO_TCP TCP_KEEPCNT 3) w of (r, w) \<Rightarrow>
      if r < 0 then (-1, w) else (0, w))"

definition hp_tcp_nodelay :: "sock \<Rightarrow> sockw \<Rightarrow> int \<times> sockw" where
  "hp_tcp_nodelay fd w = syscall (Op_nonblock fd) w"

definition fd_set_recvbuf :: "sock \<Rightarrow> int \<Rightarrow> sockw \<Rightarrow> int \<times> sockw" where
  "fd_set_recvbuf fd newsz w =
     (if \<not> 0 < fd then (-1, w)
      else if \<not> 0 < newsz then (0, w)
      else case syscall (Op_getsockopt fd SOL_SOCKET SO_RCVBUF) w of (err, w) \<Rightarrow>
      if err \<noteq> 0 then (-1, w)
      else case syscall (Op_setsockopt fd SOL_SOCKET SO_RCVBUF newsz) w of (err, w) \<Rightarrow>
      if err \<noteq> 0 then (-1, w) else (0, w))"

definition fd_set_sendbuf :: "sock \<Rightarrow> int \<Rightarrow> sockw \<Rightarrow> int \<times> sockw" where
  "fd_set_sendbuf fd newsz w =
     (if \<not> 0 < fd then (-1, w)
      else if \<not> 0 < newsz then (0, w)
      else case syscall (Op_getsockopt fd SOL_SOCKET SO_SNDBUF) w of (err, w) \<Rightarrow>
      if err \<noteq> 0 then (-1, w)
      else case syscall (Op_setsockopt fd SOL_SOCKET SO_SNDBUF newsz) w of (err, w) \<Rightarrow>
      if err \<noteq> 0 then (-1, w) else (0, w))"

subsection \<open>Servers and clients\<close>

definition hp_tcp_listen :: "int \<Rightarrow> sockw \<Rightarrow> sock \<times> sockw" where
  "hp_tcp_listen port w =
     (case sys_socket True w of (fd, w) \<Rightarrow>
      if fd < 0 then (-1, w)
      else case syscall (Op_setsockopt fd SOL_SOCKET SO_REUSEADDR 1) w of (r, w) \<Rightarrow>
      if r = -1 then sock_fail fd w
      else case syscall (Op_nonblock fd) w of (r, w) \<Rightarrow>
      if r < 0 then sock_fail fd w
      else case syscall (Op_bind fd 0 (htons port)) w of (r, w) \<Rightarrow>
      if r < 0 then sock_fail fd w
      else case syscall (Op_listen fd LISTENQ) w of (r, w) \<Rightarrow>
      if r < 0 then sock_fail fd w else (fd, w))"

definition hp_net_udp_bind :: "string option \<Rightarrow> int \<Rightarrow> sockw \<Rightarrow> sock \<times> sockw" where
  "hp_net_udp_bind ip port w =
     (case sys_socket False w of (fd, w) \<Rightarrow>
      if fd < 0 then (-1, w)
      else case syscall (Op_setsockopt fd SOL_SOCKET SO_REUSEADDR 1) w of (r, w) \<Rightarrow>
      if r = -1 then sock_fail fd w
      else case syscall (Op_setsockopt fd SOL_IP IP_TRANSPARENT 1) w of (r, w) \<Rightarrow>
      if r = -1 then sock_fail fd w
      else case syscall (Op_setsockopt fd SOL_IP IP_RECVORIGDSTADDR 1) w of (r, w) \<Rightarrow>
      if r = -1 then sock_fail fd w
      else case syscall (Op_nonblock fd) w of (r, w) \<Rightarrow>
      if r < 0 then sock_fail fd w
      else case syscall (Op_bind fd 0 (htons port)) w of (r, w) \<Rightarrow>
      if r < 0 then sock_fail fd w else (fd, w))"

text \<open>\<open>socketpair\<close> writes the two descriptors into the caller's array when it succeeds.\<close>

definition hp_net_socketpair :: "sock \<times> sock \<Rightarrow> sockw \<Rightarrow> int \<times> sockw" where
  "hp_net_socketpair mwfd w =
     (case syscall Op_socketpair w of (r, w) \<Rightarrow>
      if r < 0 then (-1, w)
      else
        let w = w\<lparr>so_open := fst mwfd # snd mwfd # so_open w\<rparr>
        in case syscall (Op_nonblock (fst mwfd)) w of (r, w) \<Rightarrow>
      if r < 0 then (-1, w)
      else case syscall (Op_nonblock (snd mwfd)) w of (r, w) \<Rightarrow>
      if r < 0 then (-1, w) else (0, w))"

text \<open>The common end of the two ways to connect: non-blocking, then \<open>connect\<close>.\<close>

definition connect_fd :: "sock \<Rightarrow> in_addr \<Rightarrow> nat \<Rightarrow> sockw \<Rightarrow> sock \<times> sockw" where
  "connect_fd fd addr port w =
     (case syscall (Op_nonblock fd) w of (r, w) \<Rightarrow>
      if r < 0 then sock_fail fd w
      else case syscall (Op_connect fd addr port) w of (r, w) \<Rightarrow>
      if r < 0 \<and> so_errno w \<noteq> EINPROGRESS then sock_fail fd w else (fd, w))"

definition hp_tcp_connect_addr :: "in_addr \<Rightarrow> nat \<Rightarrow> sockw \<Rightarrow> sock \<times> sockw" where
  "hp_tcp_connect_addr addr port w =
     (case sys_socket True w of (fd, w) \<Rightarrow> if fd < 0 then (-1, w) else connect_fd fd addr port w)"

definition hp_tcp_connect2 :: "(string \<Rightarrow> in_addr option) \<Rightarrow> string \<Rightarrow> int \<Rightarrow> sockw \<Rightarrow> sock \<times> sockw" where
  "hp_tcp_connect2 pton ip port w =
     (case sys_socket True w of (fd, w) \<Rightarrow>
      if fd < 0 then (-1, w)
      else case pton ip of None \<Rightarrow> sock_fail fd w | Some addr \<Rightarrow> connect_fd fd addr (htons port) w)"

text \<open>
  \<open>atoi\<close> skips blanks, then reads a sign and digits; \<open>atoi_rest\<close> is what it stops at.
\<close>

definition is_space :: "char \<Rightarrow> bool" where
  "is_space c \<longleftrightarrow> c = CHR '' '' \<or> (9 \<le> (of_char c :: nat) \<and> (of_char c :: nat) \<le> 13)"

definition atoi_rest :: "string \<Rightarrow> string" where
  "atoi_rest s =
     (let s = dropWhile is_space s
      in dropWhile is_digit (if s \<noteq> [] \<and> (hd s = CHR ''-'' \<or> hd s = CHR ''+'') then tl s else s))"

text \<open>
  The address is copied into 128 bytes with \<open>strncpy\<close>: as long as that it has no terminator, and
  the search for the colon leaves the buffer unless there is one inside, and so does \<open>atoi\<close>
  unless something behind the colon stops it.
\<close>

definition hp_tcp_connect :: "(string \<Rightarrow> in_addr option) \<Rightarrow> string \<Rightarrow> sockw \<Rightarrow> (sock \<times> sockw) outcome" where
  "hp_tcp_connect pton addr w =
     (let buf = take 128 addr; ip = takeWhile (\<lambda>c. c \<noteq> CHR '':'') buf; rest = dropWhile (\<lambda>c. c \<noteq> CHR '':'') buf
      in if rest = [] then (if 128 \<le> length addr then Undef else Done (hp_tcp_connect2 pton ip 0 w))
         else if 128 \<le> length addr \<and> atoi_rest (tl rest) = [] then Undef
         else Done (hp_tcp_connect2 pton ip (c_atoi (dropWhile is_space (tl rest))) w))"

subsection \<open>Datagrams\<close>

text \<open>
  \<open>inet_pton\<close> leaves the zero address in place when it cannot read the text. A send hands all the bytes of
  the vector to one call and returns its result; what it prints is left out.
\<close>

definition hp_net_sendto ::
  "(string \<Rightarrow> in_addr option) \<Rightarrow> sock \<Rightarrow> string option \<Rightarrow> int \<Rightarrow> byte list option \<Rightarrow> sockw \<Rightarrow> int \<times> sockw" where
  "hp_net_sendto pton fd ip port buf w =
     (case (ip, buf) of
        (Some ip, Some buf) \<Rightarrow>
          syscall (Op_send fd (case pton ip of None \<Rightarrow> 0 | Some a \<Rightarrow> a) (htons port) buf) w
      | _ \<Rightarrow> (-1, w))"

definition hp_net_sendmsg2 ::
  "(string \<Rightarrow> in_addr option) \<Rightarrow> (ptr \<Rightarrow> byte) \<Rightarrow> sock \<Rightarrow> string option \<Rightarrow> int \<Rightarrow> iovec list option \<Rightarrow> sockw \<Rightarrow> int \<times> sockw" where
  "hp_net_sendmsg2 pton m fd ip port iov w =
     (case (ip, iov) of
        (Some ip, Some vs) \<Rightarrow>
          syscall (Op_send fd (case pton ip of None \<Rightarrow> 0 | Some a \<Rightarrow> a) (htons port) (vec_bytes m vs)) w
      | _ \<Rightarrow> (-1, w))"

definition hp_net_sendmsg ::
  "(ptr \<Rightarrow> byte) \<Rightarrow> sock \<Rightarrow> (in_addr \<times> nat) option \<Rightarrow> iovec list option \<Rightarrow> sockw \<Rightarrow> int \<times> sockw" where
  "hp_net_sendmsg m fd addr iov w =
     (case (addr, iov) of
        (Some (a, port), Some vs) \<Rightarrow> syscall (Op_send fd a port (vec_bytes m vs)) w
      | _ \<Rightarrow> (-1, w))"

text \<open>
  What \<open>recvmsg\<close> stores besides its result: the sender, the flags, the length of the control data and
  its records (level, type, address). The original destination is zeroed, then set by every
  record that holds it; \<open>None\<close> for it stands for the NULL pointer.
\<close>

record recvd =
  rv_bytes :: "byte list"
  rv_from :: "in_addr \<times> nat"
  rv_fromlen :: nat
  rv_ctrunc :: bool
  rv_flags :: int
  rv_controllen :: nat
  rv_cmsgs :: "(int \<times> int \<times> (in_addr \<times> nat)) list"

definition hp_net_recvmsg ::
  "sock \<Rightarrow> nat \<Rightarrow> int \<Rightarrow> nat \<Rightarrow> (in_addr \<times> nat) option \<Rightarrow> recvd \<Rightarrow> sockw \<Rightarrow>
   int \<times> (byte list \<times> int \<times> (in_addr \<times> nat) \<times> nat \<times> (in_addr \<times> nat) option) option \<times> sockw" where
  "hp_net_recvmsg fd nbytes flags salen origindst d w =
     (case syscall (Op_recvmsg fd flags nbytes) w of (n, w) \<Rightarrow>
      if n < 0 then (n, None, w)
      else
        let orig = map_option (\<lambda>_. (0, 0)) origindst;
            orig = (if rv_controllen d < 16 \<or> rv_ctrunc d \<or> orig = None then orig
                    else fold (\<lambda>(level, type, a) o'. if level = SOL_IP \<and> type = IP_RECVORIGDSTADDR then Some a else o') (rv_cmsgs d) orig)
        in (n, Some (take nbytes (rv_bytes d), rv_flags d, rv_from d, rv_fromlen d, orig), w))"

subsection \<open>What is left open\<close>

lemma syscall_frame:
  "syscall op w = (r, w') \<Longrightarrow> so_open w' = so_open w \<and> so_log w' = so_log w @ [op]"
  by (auto simp: syscall_def Let_def split: list.splits prod.splits)

lemma sys_socket_frame:
  "sys_socket st w = (fd, w') \<Longrightarrow>
   so_open w' = (if fd < 0 then so_open w else fd # so_open w) \<and> so_log w' = so_log w @ [Op_socket st]"
  by (auto simp: sys_socket_def split: prod.splits dest!: syscall_frame)

lemma sock_fail_simps [simp]:
  "fst (sock_fail fd w) = -1" "so_open (snd (sock_fail fd w)) = remove1 fd (so_open w)"
  by (simp_all add: sock_fail_def sys_close_def)

text \<open>
  The promise of a maker of sockets, read off the system's answers alone: \<open>calls_made\<close> are the calls of a
  list up to and including the first one that fails, \<open>calls_succeed\<close> that none does. A \<open>connect\<close> that is in
  progress has not failed.
\<close>

definition next_answer :: "(int \<times> int) list \<Rightarrow> int \<times> int" where
  "next_answer as = (case as of [] \<Rightarrow> (-1, EIO) | a # _ \<Rightarrow> a)"

definition call_fails :: "sysop \<Rightarrow> int \<times> int \<Rightarrow> bool" where
  "call_fails op a =
     (case op of
        Op_setsockopt _ _ _ _ \<Rightarrow> fst a = -1
      | Op_connect _ _ _ \<Rightarrow> fst a < 0 \<and> snd a \<noteq> EINPROGRESS
      | _ \<Rightarrow> fst a < 0)"

fun calls_made :: "sysop list \<Rightarrow> (int \<times> int) list \<Rightarrow> sysop list" where
  "calls_made [] as = []"
| "calls_made (op # ops) as = op # (if call_fails op (next_answer as) then [] else calls_made ops (tl as))"

fun calls_succeed :: "sysop list \<Rightarrow> (int \<times> int) list \<Rightarrow> bool" where
  "calls_succeed [] as = True"
| "calls_succeed (op # ops) as = (\<not> call_fails op (next_answer as) \<and> calls_succeed ops (tl as))"

text \<open>
  Either there is no socket and -1 is returned; or all the calls were made on it and succeeded, and it is
  returned and is the one new open descriptor; or one of them failed, no other was made after it but the
  \<open>close\<close>, and -1 is returned with no new descriptor open.
\<close>

definition makes_socket :: "bool \<Rightarrow> (sock \<Rightarrow> sysop list) \<Rightarrow> sockw \<Rightarrow> sock \<times> sockw \<Rightarrow> bool" where
  "makes_socket stream calls w res \<longleftrightarrow>
     (let fd = fst (next_answer (so_script w)); as = tl (so_script w); w' = snd res in
      if fd < 0 then
        fst res = -1 \<and> so_open w' = so_open w \<and> so_log w' = so_log w @ [Op_socket stream]
      else if calls_succeed (calls fd) as then
        fst res = fd \<and> so_open w' = fd # so_open w \<and> so_log w' = so_log w @ Op_socket stream # calls fd
      else
        fst res = -1 \<and> so_open w' = so_open w \<and>
        so_log w' = so_log w @ Op_socket stream # calls_made (calls fd) as @ [Op_close fd])"

lemma syscall_next:
  "syscall op w =
    (let a = next_answer (so_script w) in
     (fst a, w\<lparr>so_log := so_log w @ [op], so_script := tl (so_script w),
               so_errno := if fst a < 0 then snd a else so_errno w\<rparr>))"
  by (simp add: syscall_def next_answer_def Let_def split: list.split prod.split)

lemmas maker_simps = makes_socket_def syscall_next sys_socket_def sock_fail_def sys_close_def
  call_fails_def Let_def

lemma hp_tcp_listen_makes:
  "makes_socket True (\<lambda>fd. [Op_setsockopt fd SOL_SOCKET SO_REUSEADDR 1, Op_nonblock fd, Op_bind fd 0 (htons port),
     Op_listen fd LISTENQ]) w (hp_tcp_listen port w)"
  by (simp add: hp_tcp_listen_def maker_simps)

lemma hp_net_udp_bind_makes:
  "makes_socket False (\<lambda>fd. [Op_setsockopt fd SOL_SOCKET SO_REUSEADDR 1, Op_setsockopt fd SOL_IP IP_TRANSPARENT 1,
     Op_setsockopt fd SOL_IP IP_RECVORIGDSTADDR 1, Op_nonblock fd, Op_bind fd 0 (htons port)]) w (hp_net_udp_bind ip port w)"
  by (simp add: hp_net_udp_bind_def maker_simps)

lemma hp_tcp_connect_addr_makes:
  "makes_socket True (\<lambda>fd. [Op_nonblock fd, Op_connect fd a port]) w (hp_tcp_connect_addr a port w)"
  by (simp add: hp_tcp_connect_addr_def connect_fd_def maker_simps)

lemma hp_tcp_connect2_makes:
  "pton ip = Some a \<Longrightarrow>
   makes_socket True (\<lambda>fd. [Op_nonblock fd, Op_connect fd a (htons port)]) w (hp_tcp_connect2 pton ip port w)"
  by (simp add: hp_tcp_connect2_def connect_fd_def maker_simps)

text \<open>An address that cannot be read: a socket that was made is closed again, and no other call is made.\<close>

lemma hp_tcp_connect2_no_addr:
  "pton ip = None \<Longrightarrow>
   fst (hp_tcp_connect2 pton ip port w) = -1 \<and> so_open (snd (hp_tcp_connect2 pton ip port w)) = so_open w \<and>
   so_log (snd (hp_tcp_connect2 pton ip port w)) = so_log w @ Op_socket True #
     (if fst (next_answer (so_script w)) < 0 then [] else [Op_close (fst (next_answer (so_script w)))])"
  by (simp add: hp_tcp_connect2_def maker_simps)

lemma hp_net_socketpair_makes:
  "fst (hp_net_socketpair (a0, a1) w) =
      (if calls_succeed [Op_socketpair, Op_nonblock a0, Op_nonblock a1] (so_script w) then 0 else -1) \<and>
   so_open (snd (hp_net_socketpair (a0, a1) w)) =
      (if fst (next_answer (so_script w)) < 0 then so_open w else a0 # a1 # so_open w) \<and>
   so_log (snd (hp_net_socketpair (a0, a1) w)) =
      so_log w @ calls_made [Op_socketpair, Op_nonblock a0, Op_nonblock a1] (so_script w)"
  by (simp add: hp_net_socketpair_def maker_simps)

text \<open>
  C34: Every way to make a socket but one returns it only when every call that sets it up succeeded, made
  in order (the options, non-blocking, then bound and listening, or connecting), and then it is the one new
  open descriptor. When any of the calls fails, or the address cannot be read, no further call is made, the
  socket is closed and -1 is returned. The exception is \<open>hp_net_socketpair\<close>: it returns 0 when the pair was
  made and both ends are non-blocking and -1 otherwise, but when the pair was made both ends stay open also then.
\<close>

theorem hp_net_no_leak:
  "makes_socket True (\<lambda>fd. [Op_setsockopt fd SOL_SOCKET SO_REUSEADDR 1, Op_nonblock fd, Op_bind fd 0 (htons port),
     Op_listen fd LISTENQ]) w (hp_tcp_listen port w) \<and>
   makes_socket False (\<lambda>fd. [Op_setsockopt fd SOL_SOCKET SO_REUSEADDR 1, Op_setsockopt fd SOL_IP IP_TRANSPARENT 1,
     Op_setsockopt fd SOL_IP IP_RECVORIGDSTADDR 1, Op_nonblock fd, Op_bind fd 0 (htons port)]) w (hp_net_udp_bind ipo port w) \<and>
   makes_socket True (\<lambda>fd. [Op_nonblock fd, Op_connect fd a (htons port)]) w (hp_tcp_connect_addr a (htons port) w) \<and>
   (case pton ip of
      Some b \<Rightarrow> makes_socket True (\<lambda>fd. [Op_nonblock fd, Op_connect fd b (htons port)]) w (hp_tcp_connect2 pton ip port w)
    | None \<Rightarrow> fst (hp_tcp_connect2 pton ip port w) = -1 \<and> so_open (snd (hp_tcp_connect2 pton ip port w)) = so_open w) \<and>
   (case hp_net_socketpair (a0, a1) w of (rc, w') \<Rightarrow>
      rc = (if calls_succeed [Op_socketpair, Op_nonblock a0, Op_nonblock a1] (so_script w) then 0 else -1) \<and>
      so_open w' = (if fst (next_answer (so_script w)) < 0 then so_open w else a0 # a1 # so_open w) \<and>
      so_log w' = so_log w @ calls_made [Op_socketpair, Op_nonblock a0, Op_nonblock a1] (so_script w))"
  by (intro conjI hp_tcp_listen_makes hp_net_udp_bind_makes hp_tcp_connect_addr_makes)
    (simp_all add: hp_tcp_connect2_makes hp_tcp_connect2_no_addr hp_net_socketpair_makes
       case_prod_beta split: option.split)

subsection \<open>Addresses\<close>

text \<open>
  The network mask of the comparison is the text \<open>255.255.255.0\<close>, read with \<open>inet_pton\<close> as the
  addresses are; a mask that is not negative is not implemented and compares as different.
\<close>

abbreviation (input) netmask :: string where "netmask \<equiv> ''255.255.255.0''"

definition netutil_same_subnet :: "(string \<Rightarrow> in_addr option) \<Rightarrow> int \<Rightarrow> string option \<Rightarrow> string option \<Rightarrow> bool" where
  "netutil_same_subnet pton msk ip1 ip2 =
     (case (ip1, ip2) of
        (Some ip1, Some ip2) \<Rightarrow>
          if msk < 0 then
            (case (pton ip1, pton ip2, pton netmask) of
               (Some a1, Some a2, Some m) \<Rightarrow> and a1 m = and a2 m
             | _ \<Rightarrow> False)
          else False
      | _ \<Rightarrow> False)"

definition netutil_same_subnet3 :: "(string \<Rightarrow> in_addr option) \<Rightarrow> int \<Rightarrow> in_addr \<Rightarrow> string option \<Rightarrow> bool" where
  "netutil_same_subnet3 pton msk ip1 ip2 =
     (case ip2 of None \<Rightarrow> False
      | Some ip2 \<Rightarrow>
        if ip1 = 0 then False
        else if msk < 0 then
          (case (pton ip2, pton netmask) of (Some a2, Some m) \<Rightarrow> and ip1 m = and a2 m | _ \<Rightarrow> False)
        else False)"

definition netutil_same_subnet2 :: "(string \<Rightarrow> in_addr option) \<Rightarrow> int \<Rightarrow> string \<Rightarrow> in_addr \<Rightarrow> bool" where
  "netutil_same_subnet2 pton msk ip1 ip2 =
     (if msk < 0 then
        (case (pton ip1, pton netmask) of (Some a1, Some m) \<Rightarrow> and a1 m = and ip2 m | _ \<Rightarrow> False)
      else False)"

text \<open>
  The list of addresses is copied into 512 bytes that are not initialised, 510 at most, and a
  colon is put behind it; without a terminator in the copy the place for it is not known.
\<close>

function subnet_loop :: "(string \<Rightarrow> in_addr option) \<Rightarrow> int \<Rightarrow> string \<Rightarrow> in_addr \<Rightarrow> bool" where
  "subnet_loop pton msk p ip =
     (let seg = takeWhile (\<lambda>c. c \<noteq> CHR '':'') p; q = dropWhile (\<lambda>c. c \<noteq> CHR '':'') p
      in if q = [] then False
         else if seg = [] then subnet_loop pton msk (tl q) ip
         else if netutil_same_subnet2 pton msk seg ip then True
         else subnet_loop pton msk (tl q) ip)"
  by pat_completeness auto
termination
  by (relation "measure (\<lambda>(pton, msk, p, ip). length p)") (auto intro: length_dropWhile_sep)

declare subnet_loop.simps [simp del]

definition netutil_in_same_subnet :: "(string \<Rightarrow> in_addr option) \<Rightarrow> int \<Rightarrow> string option \<Rightarrow> in_addr \<Rightarrow> bool outcome" where
  "netutil_in_same_subnet pton msk ips ip =
     (case ips of None \<Rightarrow> Done False
      | Some s \<Rightarrow>
        if s = [] then Done False
        else if 510 \<le> length s then Undef
        else Done (subnet_loop pton msk (s @ '':'') ip))"

text \<open>The texts of an address: \<open>snprintf\<close> cuts at the length of the buffer.\<close>

definition hp_addr4name :: "(in_addr \<Rightarrow> string) \<Rightarrow> (in_addr \<times> nat) option \<Rightarrow> string option \<Rightarrow> int \<Rightarrow> string option" where
  "hp_addr4name ntop addr sep len =
     (case (addr, sep) of
        (Some (a, port), Some sep) \<Rightarrow>
          if 0 < len then Some (take (nat len - 1) (ntop a @ sep @ nat_text port)) else None
      | _ \<Rightarrow> None)"

text \<open>\<open>inet_ntop\<close> writes nothing when the text and its terminator do not fit.\<close>

definition hp_net_get_ipport2 :: "(in_addr \<Rightarrow> string) \<Rightarrow> in_addr \<times> nat \<Rightarrow> nat \<Rightarrow> string \<times> int" where
  "hp_net_get_ipport2 ntop addr iplen =
     (if length (ntop (fst addr)) < iplen then ntop (fst addr) else [], int (snd addr))"

text \<open>The search is a search among the pieces of the list.\<close>

lemma takeWhile_sep: "c \<notin> set xs \<Longrightarrow> takeWhile (\<lambda>x. x \<noteq> c) (xs @ c # ys) = xs"
  and dropWhile_sep_tl: "c \<notin> set xs \<Longrightarrow> dropWhile (\<lambda>x. x \<noteq> c) (xs @ c # ys) = c # ys"
  by (induction xs) auto

lemma subnet_loop_piece:
  "CHR '':'' \<notin> set xs \<Longrightarrow> subnet_loop pton msk (xs @ CHR '':'' # ys) ip \<longleftrightarrow>
     xs \<noteq> [] \<and> netutil_same_subnet2 pton msk xs ip \<or> subnet_loop pton msk ys ip"
  by (subst subnet_loop.simps) (simp add: takeWhile_sep dropWhile_sep_tl Let_def)

text \<open>
  An address is in the subnet of one in a list exactly when it is in the subnet of one of the
  pieces between the colons; empty pieces do not count. The list is at most 509 characters long.
\<close>

lemma hp_net_in_same_subnet:
  assumes "length s < 510"
  shows "netutil_in_same_subnet pton msk (Some s) ip =
    Done (\<exists>seg \<in> set (split_on CHR '':'' s). seg \<noteq> [] \<and> netutil_same_subnet2 pton msk seg ip)"
proof -
  have nil: "subnet_loop pton msk [] ip = False" by (simp add: subnet_loop.simps)
  have "subnet_loop pton msk (s @ '':'') ip \<longleftrightarrow>
      (\<exists>seg \<in> set (split_on CHR '':'' s). seg \<noteq> [] \<and> netutil_same_subnet2 pton msk seg ip)" for s
  proof (induction s rule: split_on_induct [where c = "CHR '':''"])
    case (plain xs)
    then show ?case using subnet_loop_piece [of xs pton msk "[]" ip] by (simp add: split_on_plain nil)
  next
    case (sep xs ys)
    then show ?case using subnet_loop_piece [of xs pton msk "ys @ '':''" ip] by (simp add: split_on_sep)
  qed
  then show ?thesis using assms by (auto simp: netutil_in_same_subnet_def nil)
qed

lemma hp_net_in_same_subnet_witness:
  "\<exists>b. netutil_in_same_subnet (\<lambda>s. Some 1) (-1) (Some ''1.1.1.1:2.2.2.2'') 1 = Done b"
  by (rule exI, rule hp_net_in_same_subnet) simp

subsection \<open>The address of a socket, and of a host\<close>

text \<open>
  \<open>getsockname\<close> is a parameter: what it leaves in a zeroed address, for the length it is given. The length is not
  initialised here; it is the second argument. \<open>get_ipport\<close> writes the buffer only when the text fits.
\<close>

definition hp_get_ipport_cstr :: "(in_addr \<Rightarrow> string) \<Rightarrow> (sock \<Rightarrow> nat \<Rightarrow> in_addr \<times> nat) \<Rightarrow> nat \<Rightarrow> sock \<Rightarrow> string" where
  "hp_get_ipport_cstr ntop getsockname slen fd =
     (case getsockname fd slen of (a, port) \<Rightarrow> take 63 (ntop a @ '':'' @ nat_text port))"

definition get_ipport :: "(in_addr \<Rightarrow> string) \<Rightarrow> (sock \<Rightarrow> nat \<Rightarrow> in_addr \<times> nat) \<Rightarrow> nat \<Rightarrow> sock \<Rightarrow> string \<Rightarrow> nat \<Rightarrow> string \<times> int" where
  "get_ipport ntop getsockname slen fd ip len =
     (case getsockname fd slen of (a, port) \<Rightarrow> (if length (ntop a) < len then ntop a else ip, int port))"

text \<open>The buffer of \<open>maxlen\<close> bytes is filled with \<open>strncpy\<close>. \<open>inet_aton\<close>, \<open>gethostbyname\<close> and \<open>inet_ntoa\<close> are parameters.\<close>

definition get_ip_from_host ::
  "(string \<Rightarrow> in_addr option) \<Rightarrow> (string \<Rightarrow> in_addr option) \<Rightarrow> (in_addr \<Rightarrow> string) \<Rightarrow> char list \<Rightarrow> string \<Rightarrow> nat \<Rightarrow> int \<times> char list" where
  "get_ip_from_host aton byname ntoa ipbuf host maxlen =
     (case (case aton host of None \<Rightarrow> byname host | Some a \<Rightarrow> Some a) of
        None \<Rightarrow> (-1, ipbuf)
      | Some a \<Rightarrow> (0, take maxlen (ntoa a @ replicate maxlen (CHR 0x00)) @ drop maxlen ipbuf))"

text \<open>A text as long as the buffer is left without a terminator.\<close>

lemma get_ip_from_host_unterminated:
  assumes "aton host = Some a" and "length (ntoa a) = maxlen" and "CHR 0x00 \<notin> set (ntoa a)" and "length ipbuf = maxlen"
  shows "get_ip_from_host aton byname ntoa ipbuf host maxlen = (0, ntoa a) \<and> CHR 0x00 \<notin> set (ntoa a)"
  using assms by (simp add: get_ip_from_host_def)

subsection \<open>Connecting on Windows\<close>

text \<open>
  There \<open>socket\<close> must not fail: the assertion stops the program. A failure of the other calls returns 0, not -1, and
  the socket stays open. The address is not initialised: when its text cannot be read it has no value.
\<close>

abbreviation (input) WSAEWOULDBLOCK :: int where "WSAEWOULDBLOCK \<equiv> 10035"

definition connect_msc :: "sock \<Rightarrow> in_addr \<Rightarrow> nat \<Rightarrow> sockw \<Rightarrow> sock \<times> sockw" where
  "connect_msc fd addr port w =
     (case syscall (Op_nonblock fd) w of (r, w) \<Rightarrow>
      if r = -1 then (0, w)
      else case syscall (Op_connect fd addr port) w of (r, w) \<Rightarrow>
      if r = -1 \<and> so_errno w \<noteq> WSAEWOULDBLOCK then (0, w) else (fd, w))"

definition hp_tcp_connect_addr_msc :: "in_addr \<Rightarrow> nat \<Rightarrow> sockw \<Rightarrow> (sock \<times> sockw) outcome" where
  "hp_tcp_connect_addr_msc addr port w =
     (case sys_socket True w of (fd, w) \<Rightarrow> if fd = -1 then Undef else Done (connect_msc fd addr port w))"

definition hp_tcp_connect2_msc :: "(string \<Rightarrow> in_addr option) \<Rightarrow> string \<Rightarrow> int \<Rightarrow> sockw \<Rightarrow> (sock \<times> sockw) outcome" where
  "hp_tcp_connect2_msc pton ip port w =
     (case sys_socket True w of (fd, w) \<Rightarrow>
      if fd = -1 then Undef
      else case syscall (Op_nonblock fd) w of (r, w) \<Rightarrow>
      if r = -1 then Done (0, w)
      else case pton ip of None \<Rightarrow> Undef
      | Some addr \<Rightarrow>
        case syscall (Op_connect fd addr (htons port)) w of (r, w) \<Rightarrow>
        if r = -1 \<and> so_errno w \<noteq> WSAEWOULDBLOCK then Done (0, w) else Done (fd, w))"

lemma hp_tcp_connect2_msc_addr:
  "pton ip = Some addr \<Longrightarrow> hp_tcp_connect2_msc pton ip port w = hp_tcp_connect_addr_msc addr (htons port) w"
  by (simp add: hp_tcp_connect2_msc_def hp_tcp_connect_addr_msc_def connect_msc_def split: prod.split)

text \<open>Whatever the system answers, the socket that was made stays open, also when the result is not the socket.\<close>

lemma syscall_open: "so_open (snd (syscall op w)) = so_open w"
  by (simp add: syscall_def Let_def split: list.splits prod.splits)

lemma connect_msc_leaks: "so_open (snd (connect_msc fd addr port w)) = so_open w"
proof -
  obtain r w1 where s1: "syscall (Op_nonblock fd) w = (r, w1)" by fastforce
  obtain r2 w2 where s2: "syscall (Op_connect fd addr port) w1 = (r2, w2)" by fastforce
  have "so_open w1 = so_open w" "so_open w2 = so_open w1" using syscall_open s1 s2 by (metis snd_conv)+
  then show ?thesis by (simp add: connect_msc_def s1 s2)
qed

end
