(* ===== verification/Hp_Cjson.thy ===== *)
theory Hp_Cjson
  imports Hp_Str
begin

section \<open>hp\_cjson: paths into JSON documents\<close>

text \<open>
  Models \<open>src/hp_cjson.c\<close>. The cJSON library is a parameter: a record of what its functions and
  fields answer, over a type \<open>'j\<close> of documents. A NULL document has no members and no size. A path
  is cut at the slashes, each piece at the bars; a piece that ends in an index in brackets is
  recognised as the POSIX expressions of the code do. \<open>Undef\<close> stands for a write or read outside
  a buffer and for an overflow of \<open>int\<close>.
\<close>

subsection \<open>The library\<close>

record 'j cjson_lib =
  cj_item :: "'j \<Rightarrow> string \<Rightarrow> 'j option"
  cj_size :: "'j \<Rightarrow> int"
  cj_elem :: "'j \<Rightarrow> int \<Rightarrow> 'j option"
  cj_children :: "'j \<Rightarrow> 'j list"
  cj_valuestring :: "'j \<Rightarrow> string option"
  cj_valueint :: "'j \<Rightarrow> int"
  cj_is_array :: "'j \<Rightarrow> bool"
  cj_is_object :: "'j \<Rightarrow> bool"
  cj_is_string :: "'j \<Rightarrow> bool"
  cj_print :: "bool \<Rightarrow> 'j \<Rightarrow> string"
  cj_create_string :: "string \<Rightarrow> 'j"
  cj_replace :: "'j \<Rightarrow> string \<Rightarrow> 'j \<Rightarrow> 'j"
  cj_array :: "'j list \<Rightarrow> 'j"
  cj_duplicate :: "'j \<Rightarrow> 'j"

definition cJSON_GetObjectItem :: "'j cjson_lib \<Rightarrow> 'j option \<Rightarrow> string \<Rightarrow> 'j option" where
  "cJSON_GetObjectItem L j k = Option.bind j (\<lambda>j. cj_item L j k)"

definition cJSON_GetArraySize :: "'j cjson_lib \<Rightarrow> 'j option \<Rightarrow> int" where
  "cJSON_GetArraySize L j = (case j of None \<Rightarrow> 0 | Some j \<Rightarrow> cj_size L j)"

definition cJSON_GetArrayItem :: "'j cjson_lib \<Rightarrow> 'j option \<Rightarrow> int \<Rightarrow> 'j option" where
  "cJSON_GetArrayItem L j i = Option.bind j (\<lambda>j. cj_elem L j i)"

subsection \<open>The two regular expressions\<close>

text \<open>
  \<open>\[([+-]?[0-9]+)\]$\<close> and \<open>\[([0-9]+),([0-9]+)\]$\<close>: the text before the match and the groups.
  The text is read backwards: a bracket, the digits, what stands before them.
\<close>

definition index_suffix :: "string \<Rightarrow> (string \<times> string) option" where
  "index_suffix s =
     (case rev s of
        [] \<Rightarrow> None
      | c # r \<Rightarrow>
        let ds = takeWhile is_digit r; r = dropWhile is_digit r
        in if c \<noteq> CHR '']'' \<or> ds = [] then None
           else case r of
             [] \<Rightarrow> None
           | d # q \<Rightarrow>
             if d = CHR ''['' then Some (rev q, rev ds)
             else if d = CHR ''+'' \<or> d = CHR ''-'' then
               (case q of [] \<Rightarrow> None
                | e # q \<Rightarrow> if e = CHR ''['' then Some (rev q, d # rev ds) else None)
             else None)"

definition range_suffix :: "string \<Rightarrow> (string \<times> string \<times> string) option" where
  "range_suffix s =
     (case rev s of
        [] \<Rightarrow> None
      | c # r \<Rightarrow>
        let es = takeWhile is_digit r; r = dropWhile is_digit r
        in if c \<noteq> CHR '']'' \<or> es = [] then None
           else case r of
             [] \<Rightarrow> None
           | d # r \<Rightarrow>
             let bs = takeWhile is_digit r; r = dropWhile is_digit r
             in if d \<noteq> CHR '','' \<or> bs = [] then None
                else case r of
                  [] \<Rightarrow> None
                | e # q \<Rightarrow> if e = CHR ''['' then Some (rev q, rev bs, rev es) else None)"

subsection \<open>Paths\<close>

text \<open>
  One alternative of a piece. \<open>Alt_skip\<close> is the \<open>continue\<close> that leaves NULL in the loop's
  variable and passes over the reset behind it.
\<close>

datatype 'j alt = Alt_skip | Alt_res "'j option" | Alt_undef

definition clamp_index :: "int \<Rightarrow> int \<Rightarrow> int" where
  "clamp_index n b = (let b = (if b < 0 then 0 else b) in if n - 1 < b then n - 1 else b)"

definition cjson_alt :: "'j cjson_lib \<Rightarrow> 'j option \<Rightarrow> string \<Rightarrow> 'j alt" where
  "cjson_alt L j a =
     (if CHR '']'' \<in> set a then
        (case index_suffix a of
           None \<Rightarrow> Alt_res (cJSON_GetObjectItem L j a)
         | Some (pre, idx) \<Rightarrow>
             let j' = (if pre \<noteq> [] then cJSON_GetObjectItem L j pre else j)
             in if pre \<noteq> [] \<and> j' = None then Alt_skip
                else case myatoi (Some idx) (length idx) of
                  None \<Rightarrow> Alt_undef
                | Some b \<Rightarrow> Alt_res (cJSON_GetArrayItem L j' (clamp_index (cJSON_GetArraySize L j') b)))
      else Alt_res (cJSON_GetObjectItem L j a))"

text \<open>The loop over the alternatives: \<open>tmp\<close> is where the piece started, \<open>cur\<close> the loop's variable.\<close>

fun cjson_alts :: "'j cjson_lib \<Rightarrow> 'j option \<Rightarrow> 'j option \<Rightarrow> string list \<Rightarrow> 'j option outcome" where
  "cjson_alts L tmp cur [] = Done cur"
| "cjson_alts L tmp cur (a # as) =
     (if a = [] then cjson_alts L tmp cur as
      else case cjson_alt L cur a of
        Alt_undef \<Rightarrow> Undef
      | Alt_skip \<Rightarrow> cjson_alts L tmp None as
      | Alt_res (Some j) \<Rightarrow> Done (Some j)
      | Alt_res None \<Rightarrow> cjson_alts L tmp (if as \<noteq> [] then tmp else None) as)"

fun cjson_segs :: "'j cjson_lib \<Rightarrow> 'j \<Rightarrow> string list \<Rightarrow> 'j option outcome" where
  "cjson_segs L j [] = Done (Some j)"
| "cjson_segs L j (s # ss) =
     (if s = [] then cjson_segs L j ss
      else case cjson_alts L (Some j) (Some j) (split_on CHR ''|'' s) of
        Done (Some j) \<Rightarrow> cjson_segs L j ss
      | r \<Rightarrow> r)"

text \<open>\<open>cjson_\<close> in the source.\<close>

definition cjson_path :: "'j cjson_lib \<Rightarrow> 'j option \<Rightarrow> string option \<Rightarrow> 'j option outcome" where
  "cjson_path L j key =
     (case (j, key) of (Some j, Some key) \<Rightarrow> cjson_segs L j (split_on CHR ''/'' key) | _ \<Rightarrow> Done None)"

text \<open>\<open>cjson_exists\<close>: every path of the list leads somewhere; bars and indices mean nothing here.\<close>

fun exists_segs :: "'j cjson_lib \<Rightarrow> 'j \<Rightarrow> string list \<Rightarrow> bool" where
  "exists_segs L j [] = True"
| "exists_segs L j (s # ss) =
     (if s = [] then exists_segs L j ss
      else case cJSON_GetObjectItem L (Some j) s of None \<Rightarrow> False | Some j \<Rightarrow> exists_segs L j ss)"

fun exists_loop :: "'j cjson_lib \<Rightarrow> 'j \<Rightarrow> int \<Rightarrow> string list \<Rightarrow> int" where
  "exists_loop L j rc [] = rc"
| "exists_loop L j rc (v # vs) =
     exists_loop L j (if exists_segs L j (split_on CHR ''/'' v) then rc else 0) vs"

definition cjson_exists :: "'j cjson_lib \<Rightarrow> 'j option \<Rightarrow> string list \<Rightarrow> int" where
  "cjson_exists L j vs = (case j of None \<Rightarrow> 0 | Some j \<Rightarrow> exists_loop L j 1 vs)"

subsection \<open>Values\<close>

definition cjson_ival :: "'j cjson_lib \<Rightarrow> 'j option \<Rightarrow> string option \<Rightarrow> int \<Rightarrow> int outcome" where
  "cjson_ival L j key def =
     (if j = None \<or> key = None then Done 0
      else case cjson_path L j key of
        Done (Some v) \<Rightarrow> Done (cj_valueint L v) | Done None \<Rightarrow> Done def | _ \<Rightarrow> Undef)"

text \<open>The \<open>double\<close> of a document is read by \<open>dbl\<close>.\<close>

definition cjson_dval :: "'j cjson_lib \<Rightarrow> ('j \<Rightarrow> 'd) \<Rightarrow> 'd \<Rightarrow> 'j option \<Rightarrow> string option \<Rightarrow> 'd \<Rightarrow> 'd outcome" where
  "cjson_dval L dbl zero j key def =
     (if j = None \<or> key = None then Done zero
      else case cjson_path L j key of
        Done (Some v) \<Rightarrow> Done (dbl v) | Done None \<Rightarrow> Done def | _ \<Rightarrow> Undef)"

definition cjson_is :: "'j cjson_lib \<Rightarrow> 'j option \<Rightarrow> string option \<Rightarrow> ('j \<Rightarrow> int) option \<Rightarrow> int outcome" where
  "cjson_is L j key fn =
     (case (j, key, fn) of
        (Some _, Some _, Some f) \<Rightarrow>
          (case cjson_path L j key of Done (Some v) \<Rightarrow> Done (f v) | Done None \<Rightarrow> Done 0 | _ \<Rightarrow> Undef)
      | _ \<Rightarrow> Done 0)"

text \<open>
  What \<open>cjson_sval\<close> returns: NULL, a text of the document, the printed document, or the default,
  which is a buffer of the caller (\<open>None\<close>: NULL) that a range of characters is copied into.
\<close>

datatype sval = S_null | S_doc string | S_print string | S_def

definition cjson_sval ::
  "'j cjson_lib \<Rightarrow> 'j option \<Rightarrow> string option \<Rightarrow> char list option \<Rightarrow> (sval \<times> char list option) outcome" where
  "cjson_sval L j key def =
     (case (j, key) of
        (Some _, Some k) \<Rightarrow>
          (case range_suffix k of
             Some (pre, b, e) \<Rightarrow>
               (case cjson_path L j (Some pre) of
                  Done None \<Rightarrow> Done (S_def, def)
                | Done (Some v) \<Rightarrow>
                    (case cj_valuestring L v of
                       None \<Rightarrow> Done (S_def, def)
                     | Some s \<Rightarrow>
                       (case (myatoi (Some b) (length b), myatoi (Some e) (length e)) of
                          (Some b, Some e) \<Rightarrow>
                            let n = int (length s); b = (if b < 0 then 0 else b)
                            in if n - 1 < b then Done (S_def, def)
                               else
                                 let e = (if e < 0 then 0 else e); e = (if n - 1 < e then n - 1 else e)
                                 in if e < b then Done (S_def, def)
                                    else (case Option.bind def (buf_put 0 (take (nat (e + 1 - b)) (drop (nat b) s) @ [CHR 0x00])) of
                                            None \<Rightarrow> Undef | Some d \<Rightarrow> Done (S_def, Some d))
                        | _ \<Rightarrow> Undef))
                | _ \<Rightarrow> Undef)
           | None \<Rightarrow>
               (case cjson_path L j (Some k) of
                  Done None \<Rightarrow> Done (S_def, def)
                | Done (Some v) \<Rightarrow>
                    if cj_is_object L v \<or> cj_is_array L v then Done (S_print (cj_print L False v), def)
                    else Done (case cj_valuestring L v of Some s \<Rightarrow> S_doc s | None \<Rightarrow> S_def, def)
                | _ \<Rightarrow> Undef))
      | _ \<Rightarrow> Done (S_null, def))"

definition cjson_fmt :: "'j cjson_lib \<Rightarrow> (string \<Rightarrow> string) \<Rightarrow> (int \<Rightarrow> string) \<Rightarrow> 'j option \<Rightarrow> string \<Rightarrow> string" where
  "cjson_fmt L fmts fmti j key =
     (case cJSON_GetObjectItem L j key of
        None \<Rightarrow> []
      | Some v \<Rightarrow>
        if cj_is_string L v then (case cj_valuestring L v of Some s \<Rightarrow> if s = [] then [] else fmts s | None \<Rightarrow> [])
        else fmti (cj_valueint L v))"

subsection \<open>Columns, lists and checked fields\<close>

text \<open>The column \<open>p\<close> of the rows from number \<open>i\<close> on, each reached by the path \<open>[i]/p\<close> from the array.\<close>

fun col_loop :: "'j cjson_lib \<Rightarrow> 'j \<Rightarrow> string \<Rightarrow> nat \<Rightarrow> 'j list \<Rightarrow> 'j list option outcome" where
  "col_loop L arr p i [] = Done (Some [])"
| "col_loop L arr p i (r # rs) =
     (case cjson_path L (Some arr) (Some (''['' @ nat_text i @ '']/'' @ p)) of
        Done None \<Rightarrow> Done None
      | Done (Some c) \<Rightarrow>
          (case col_loop L arr p (Suc i) rs of
             Done (Some cs) \<Rightarrow> Done (Some (cj_duplicate L c # cs)) | x \<Rightarrow> x)
      | _ \<Rightarrow> Undef)"

definition cjson_col :: "'j cjson_lib \<Rightarrow> 'j option \<Rightarrow> string option \<Rightarrow> 'j option outcome" where
  "cjson_col L j key =
     (case (j, key) of
        (Some _, Some key) \<Rightarrow>
          let rp = takeWhile (\<lambda>c. c \<noteq> CHR ''/'') (rev key)
          in (case (if CHR ''/'' \<in> set key
                    then cjson_path L j (Some (take (length key - length rp - 1) key)) else Done j) of
                Done None \<Rightarrow> Done None
              | Done (Some arr) \<Rightarrow>
                  (case col_loop L arr (rev rp) 0 (cj_children L arr) of
                     Done cs \<Rightarrow> Done (map_option (cj_array L) cs) | _ \<Rightarrow> Undef)
              | _ \<Rightarrow> Undef)
      | _ \<Rightarrow> Done None)"

text \<open>Every bracket becomes a parenthesis, those inside the texts too.\<close>

definition paren_char :: "char \<Rightarrow> char" where
  "paren_char c = (if c = CHR ''['' then CHR ''('' else if c = CHR '']'' then CHR '')'' else c)"

definition quote_char :: char where
  "quote_char = CHR 0x22"

definition sq :: char where
  "sq = CHR 0x27"

definition cjson_in :: "'j cjson_lib \<Rightarrow> 'j option \<Rightarrow> string" where
  "cjson_in L arr =
     (let empty = CHR ''('' # sq # sq # '')''
      in case arr of None \<Rightarrow> empty
         | Some a \<Rightarrow>
           if cj_is_array L a
           then (if cj_size L a > 0 then map paren_char (cj_print L False a) else empty)
           else (case cj_valuestring L a of
                   Some s \<Rightarrow> CHR ''('' # quote_char # s @ quote_char # '')'' | None \<Rightarrow> empty))"

text \<open>An argument that is not a string has no text, and printing NULL is undefined.\<close>

fun cmdline_loop :: "'j cjson_lib \<Rightarrow> string \<Rightarrow> 'j list \<Rightarrow> string outcome" where
  "cmdline_loop L s [] = Done s"
| "cmdline_loop L s (a # as) =
     (case cj_valuestring L a of None \<Rightarrow> Undef | Some v \<Rightarrow> cmdline_loop L (s @ '' '' @ v) as)"

definition cjson_cmdline :: "'j cjson_lib \<Rightarrow> string \<Rightarrow> 'j option \<Rightarrow> string outcome" where
  "cjson_cmdline L cmd args =
     (case args of None \<Rightarrow> Done cmd
      | Some a \<Rightarrow> if \<not> cj_is_array L a then Done cmd else cmdline_loop L cmd (cj_children L a))"

definition sds_trim :: "string \<Rightarrow> string" where
  "sds_trim s = rev (dropWhile (\<lambda>c. c = CHR '' '') (rev (dropWhile (\<lambda>c. c = CHR '' '') s)))"

definition check_string :: "'j cjson_lib \<Rightarrow> 'j option \<Rightarrow> nat \<Rightarrow> nat \<Rightarrow> 'j option" where
  "check_string L v min_len max_len =
     (case Option.bind v (cj_valuestring L) of
        None \<Rightarrow> None
      | Some s \<Rightarrow>
        let s = sds_trim s
        in if \<not> (min_len \<le> length s \<and> length s \<le> max_len) then None else Some (cj_create_string L s))"

definition check_phone :: "'j cjson_lib \<Rightarrow> 'j option \<Rightarrow> 'j option" where "check_phone L v = check_string L v 11 11"
definition check_meid :: "'j cjson_lib \<Rightarrow> 'j option \<Rightarrow> 'j option" where "check_meid L v = check_string L v 1 15"
definition check_iccid :: "'j cjson_lib \<Rightarrow> 'j option \<Rightarrow> 'j option" where "check_iccid L v = check_string L v 1 20"
definition check_imei :: "'j cjson_lib \<Rightarrow> 'j option \<Rightarrow> 'j option" where "check_imei L v = check_string L v 1 17"
definition check_imsi :: "'j cjson_lib \<Rightarrow> 'j option \<Rightarrow> 'j option" where "check_imsi L v = check_string L v 1 15"

text \<open>The result and the document, in which a value that passes the check replaces the member.\<close>

definition cjson_check :: "'j cjson_lib \<Rightarrow> 'j \<Rightarrow> string \<Rightarrow> ('j option \<Rightarrow> 'j option) \<Rightarrow> (int \<times> 'j) outcome" where
  "cjson_check L j key fn =
     (case cjson_path L (Some j) (Some key) of
        Done v \<Rightarrow> (case fn v of Some v \<Rightarrow> Done (1, cj_replace L j key v) | None \<Rightarrow> Done (0, j))
      | _ \<Rightarrow> Undef)"

subsection \<open>The static results\<close>

text \<open>
  \<open>cjson_print\<close> and \<open>cjson_cstr\<close> each keep the text they returned last in a static pointer and free it on
  the next call. The state holds the two pointers, the texts that are allocated and whether one
  was freed that was not.
\<close>

record cjst =
  cs_ret :: ptr
  cs_s :: ptr
  cs_live :: "ptr \<rightharpoonup> string"
  cs_nxt :: ptr
  cs_fault :: bool

definition cs_free :: "ptr \<Rightarrow> cjst \<Rightarrow> cjst" where
  "cs_free p st = st\<lparr>cs_live := (cs_live st)(p := None), cs_fault := (cs_fault st \<or> cs_live st p = None)\<rparr>"

definition cjson_print :: "string \<Rightarrow> cjst \<Rightarrow> ptr \<times> cjst" where
  "cjson_print txt st =
     (let st = (if cs_ret st \<noteq> NULL then cs_free (cs_ret st) st else st); p = cs_nxt st
      in (p, st\<lparr>cs_ret := p, cs_nxt := p + 1, cs_live := (cs_live st)(p \<mapsto> txt)\<rparr>))"

definition cjson_cstr :: "string \<Rightarrow> cjst \<Rightarrow> ptr \<times> cjst" where
  "cjson_cstr txt st =
     (let st = (if cs_s st \<noteq> NULL then cs_free (cs_s st) st else st)
      in case cjson_print txt st of (p, st) \<Rightarrow> (p, st\<lparr>cs_s := p\<rparr>))"

subsection \<open>What a path means\<close>

text \<open>
  The reading of a path: the members in turn, each piece the first of its alternatives that
  exists, an index counted from 0 and moved into the range of the array.
\<close>

definition alt_value :: "'j cjson_lib \<Rightarrow> 'j \<Rightarrow> string \<Rightarrow> 'j option" where
  "alt_value L j a =
     (case index_suffix a of
        None \<Rightarrow> cj_item L j a
      | Some (pre, idx) \<Rightarrow>
        Option.bind (if pre = [] then Some j else cj_item L j pre)
          (\<lambda>v. cj_elem L v (clamp_index (cj_size L v) (the (myatoi (Some idx) (length idx))))))"

fun first_alt :: "'j cjson_lib \<Rightarrow> 'j \<Rightarrow> string list \<Rightarrow> 'j option" where
  "first_alt L j [] = None"
| "first_alt L j (a # as) = (case alt_value L j a of Some v \<Rightarrow> Some v | None \<Rightarrow> first_alt L j as)"

fun path_value :: "'j cjson_lib \<Rightarrow> 'j \<Rightarrow> string list \<Rightarrow> 'j option" where
  "path_value L j [] = Some j"
| "path_value L j (s # ss) =
     (if s = [] then path_value L j ss
      else Option.bind (first_alt L j (split_on CHR ''|'' s)) (\<lambda>j. path_value L j ss))"

text \<open>
  The pieces the code reads this way: no alternative is empty, the indices are numbers of type \<open>int\<close>,
  and only the last alternative is a member with an index.
\<close>

definition alt_ok :: "string \<Rightarrow> bool" where
  "alt_ok a \<longleftrightarrow> a \<noteq> [] \<and> (case index_suffix a of None \<Rightarrow> True | Some (pre, idx) \<Rightarrow> myatoi (Some idx) (length idx) \<noteq> None)"

definition alt_named :: "string \<Rightarrow> bool" where
  "alt_named a \<longleftrightarrow> (case index_suffix a of None \<Rightarrow> False | Some (pre, idx) \<Rightarrow> pre \<noteq> [])"

definition seg_ok :: "string \<Rightarrow> bool" where
  "seg_ok s \<longleftrightarrow> list_all alt_ok (split_on CHR ''|'' s) \<and> list_all (\<lambda>a. \<not> alt_named a) (butlast (split_on CHR ''|'' s))"

lemma index_suffix_bracket: "index_suffix a = Some r \<Longrightarrow> CHR '']'' \<in> set a"
  by (cases "rev a") (auto simp: index_suffix_def Let_def split: if_splits)

lemma cjson_alt_value:
  assumes "alt_ok a"
  shows "cjson_alt L (Some j) a =
    (if alt_named a \<and> cj_item L j (fst (the (index_suffix a))) = None then Alt_skip else Alt_res (alt_value L j a))"
proof (cases "index_suffix a")
  case None
  then show ?thesis
    by (simp add: cjson_alt_def alt_value_def alt_named_def cJSON_GetObjectItem_def)
next
  case (Some r)
  obtain pre idx where r: "r = (pre, idx)" by (cases r)
  obtain b where b: "myatoi (Some idx) (length idx) = Some b" using assms Some r by (auto simp: alt_ok_def)
  show ?thesis
    using index_suffix_bracket [OF Some] Some r b
    by (cases "cj_item L j pre") (simp_all add: cjson_alt_def alt_value_def alt_named_def Let_def cJSON_GetObjectItem_def
        cJSON_GetArrayItem_def cJSON_GetArraySize_def)
qed

lemma alt_value_skipped:
  "alt_named a \<Longrightarrow> cj_item L j (fst (the (index_suffix a))) = None \<Longrightarrow> alt_value L j a = None"
  by (auto simp: alt_named_def alt_value_def split: option.splits)

lemma cjson_alts_first:
  assumes "list_all alt_ok as" and "list_all (\<lambda>a. \<not> alt_named a) (butlast as)" and "as \<noteq> []"
  shows "cjson_alts L (Some j) (Some j) as = Done (first_alt L j as)"
  using assms
proof (induction as)
  case (Cons a as)
  have ok: "a \<noteq> []" "alt_ok a" using Cons.prems(1) by (auto simp: alt_ok_def)
  note v = cjson_alt_value [OF ok(2), of L j]
  show ?case
  proof (cases "as = []")
    case True
    then show ?thesis
      using ok v alt_value_skipped [of a L j] by (auto split: option.split)
  next
    case False
    then have "\<not> alt_named a" "list_all alt_ok as" "list_all (\<lambda>a. \<not> alt_named a) (butlast as)"
      using Cons.prems by auto
    then show ?thesis using Cons.IH False ok v by (simp split: option.split)
  qed
qed simp

lemma cjson_segs_value:
  "list_all (\<lambda>s. s \<noteq> [] \<longrightarrow> seg_ok s) ss \<Longrightarrow> cjson_segs L j ss = Done (path_value L j ss)"
proof (induction L j ss rule: cjson_segs.induct)
  case (2 L j s ss)
  show ?case
  proof (cases "s = []")
    case False
    then have "cjson_alts L (Some j) (Some j) (split_on CHR ''|'' s) = Done (first_alt L j (split_on CHR ''|'' s))"
      using 2(3) by (intro cjson_alts_first) (auto simp: seg_ok_def)
    then show ?thesis using False 2 by (cases "first_alt L j (split_on CHR ''|'' s)") simp_all
  qed (use 2 in simp)
qed simp

text \<open>
  Paths as their writer means them, apart from their text: a list of pieces, each a list of alternatives, a
  member or an element of the value or of a member. The text puts an index in brackets, bars between the
  alternatives and slashes between the pieces; an empty piece says nothing.
\<close>

datatype path_alt = Member string | Elem string int

fun sep_text :: "char \<Rightarrow> string list \<Rightarrow> string" where
  "sep_text c [] = []"
| "sep_text c [s] = s"
| "sep_text c (s # ss) = s @ c # sep_text c ss"

fun alt_text :: "path_alt \<Rightarrow> string" where
  "alt_text (Member k) = k"
| "alt_text (Elem k i) = k @ ''['' @ int_text i @ '']''"

definition path_text :: "path_alt list list \<Rightarrow> string" where
  "path_text p = sep_text CHR ''/'' (map (\<lambda>as. sep_text CHR ''|'' (map alt_text as)) p)"

text \<open>
  What it means: an index below the array is its first element, one behind it the last, and an empty
  array has none; the first alternative that exists is taken, and a piece without one leads nowhere.
\<close>

fun alt_eval :: "'j cjson_lib \<Rightarrow> 'j \<Rightarrow> path_alt \<Rightarrow> 'j option" where
  "alt_eval L j (Member k) = cj_item L j k"
| "alt_eval L j (Elem k i) =
     (case (if k = [] then Some j else cj_item L j k) of
        None \<Rightarrow> None
      | Some v \<Rightarrow> if 0 < cj_size L v then cj_elem L v (max 0 (min i (cj_size L v - 1))) else None)"

fun path_eval :: "'j cjson_lib \<Rightarrow> 'j \<Rightarrow> path_alt list list \<Rightarrow> 'j option" where
  "path_eval L j [] = Some j"
| "path_eval L j (as # p) =
     (if as = [] then path_eval L j p
      else case filter (\<lambda>v. v \<noteq> None) (map (alt_eval L j) as) of
        Some v # _ \<Rightarrow> path_eval L v p
      | _ \<Rightarrow> None)"

text \<open>
  Names that can be told from indices, bars and slashes, and indices of type \<open>int\<close>; and a member with an index
  only as the last alternative of its piece, because it hides those behind it (\<open>cjson_path_missing_index\<close>).
\<close>

fun alt_wf :: "path_alt \<Rightarrow> bool" where
  "alt_wf (Member k) \<longleftrightarrow> k \<noteq> [] \<and> CHR ''/'' \<notin> set k \<and> CHR ''|'' \<notin> set k \<and> last k \<noteq> CHR '']''"
| "alt_wf (Elem k i) \<longleftrightarrow> CHR ''/'' \<notin> set k \<and> CHR ''|'' \<notin> set k \<and> \<bar>i\<bar> < 2 ^ 31"

definition path_wf :: "path_alt list list \<Rightarrow> bool" where
  "path_wf p \<longleftrightarrow> list_all (\<lambda>as. list_all alt_wf as \<and> list_all (\<lambda>a. \<forall>k i. a = Elem k i \<longrightarrow> k = []) (butlast as)) p"

lemma nat_text_plain: "\<not> is_digit c \<Longrightarrow> c \<notin> set (nat_text i)"
  using nat_text_props [of i] by auto

lemma split_sep_text: "\<forall>s \<in> set ss. c \<notin> set s \<Longrightarrow> ss \<noteq> [] \<Longrightarrow> split_on c (sep_text c ss) = ss"
  by (induction c ss rule: sep_text.induct) (simp_all add: split_on_plain split_on_sep)

lemma sep_text_notin: "\<forall>s \<in> set ss. d \<notin> set s \<Longrightarrow> d \<noteq> c \<Longrightarrow> d \<notin> set (sep_text c ss)"
  by (induction c ss rule: sep_text.induct) auto

lemma index_suffix_elem: "index_suffix (k @ ''['' @ int_text i @ '']'') = Some (k, int_text i)"
proof -
  have suffix: "index_suffix (k @ ''['' @ s @ nat_text n @ '']'') = Some (k, s @ nat_text n)" if "s = [] \<or> s = ''-''" for s n
  proof -
    have d: "\<forall>c \<in> set (rev (nat_text n)). is_digit c" and ne: "nat_text n \<noteq> []" using nat_text_props [of n] by auto
    have nb: "\<not> is_digit (CHR ''[''  )" "\<not> is_digit (CHR ''-'')" by (simp_all add: is_digit_def)
    have "takeWhile is_digit (rev (nat_text n) @ c # r) = rev (nat_text n)"
      "dropWhile is_digit (rev (nat_text n) @ c # r) = c # r" if "\<not> is_digit c" for c r
      by (subst takeWhile_append2 dropWhile_append2; use d that in simp)+
    with ne nb that show ?thesis by (auto simp: index_suffix_def Let_def)
  qed
  show ?thesis
    using suffix [of "[]" "nat i"] suffix [of "''-''" "nat (- i)"] by (simp add: int_text_def)
qed

lemma index_suffix_last: "last k \<noteq> CHR '']'' \<Longrightarrow> k \<noteq> [] \<Longrightarrow> index_suffix k = None"
  by (cases k rule: rev_cases) (simp_all add: index_suffix_def Let_def)

lemma alt_text_read:
  assumes "alt_wf a" and "\<And>j i. i < 0 \<Longrightarrow> cj_elem L j i = None"
  shows "alt_ok (alt_text a)" and "alt_named (alt_text a) \<longleftrightarrow> (\<exists>k i. a = Elem k i \<and> k \<noteq> [])"
    and "alt_value L j (alt_text a) = alt_eval L j a"
proof -
  show "alt_ok (alt_text a)" "alt_named (alt_text a) \<longleftrightarrow> (\<exists>k i. a = Elem k i \<and> k \<noteq> [])"
    using assms(1) index_suffix_last myatoi_int_text [of _ "[]"]
    by (cases a; simp add: alt_ok_def alt_named_def index_suffix_elem [simplified])+
  show "alt_value L j (alt_text a) = alt_eval L j a"
  proof (cases a)
    case (Member k)
    then show ?thesis using assms(1) index_suffix_last [of k] by (simp add: alt_value_def)
  next
    case (Elem k i)
    have "myatoi (Some (int_text i)) (length (int_text i)) = Some i"
      using assms(1) Elem myatoi_int_text [of i "[]"] by simp
    moreover have "cj_elem L v (clamp_index (cj_size L v) i) =
        (if 0 < cj_size L v then cj_elem L v (max 0 (min i (cj_size L v - 1))) else None)" for v
    proof (cases "0 < cj_size L v")
      case True
      then have "clamp_index (cj_size L v) i = max 0 (min i (cj_size L v - 1))" by (simp add: clamp_index_def Let_def)
      with True show ?thesis by simp
    next
      case False
      then have "clamp_index (cj_size L v) i < 0" by (simp add: clamp_index_def Let_def)
      with False assms(2) show ?thesis by simp
    qed
    ultimately show ?thesis
      unfolding Elem alt_text.simps alt_value_def index_suffix_elem
      by (simp split: option.split)
  qed
qed

lemma alt_text_plain: "alt_wf a \<Longrightarrow> c = CHR ''/'' \<or> c = CHR ''|'' \<Longrightarrow> c \<notin> set (alt_text a)"
  using nat_text_plain [of c] by (cases a) (auto simp: int_text_def is_digit_def)

lemma alt_text_nonempty: "alt_wf a \<Longrightarrow> alt_text a \<noteq> []"
  by (cases a) simp_all

lemma first_alt_filter:
  "first_alt L j as =
    (case filter (\<lambda>v. v \<noteq> None) (map (alt_value L j) as) of [] \<Rightarrow> None | v # _ \<Rightarrow> v)"
  by (induction as) (auto split: option.split)

lemma piece_read:
  assumes "list_all alt_wf as" and "list_all (\<lambda>a. \<forall>k i. a = Elem k i \<longrightarrow> k = []) (butlast as)" and "as \<noteq> []"
    and "\<And>j i. i < 0 \<Longrightarrow> cj_elem L j i = None"
  shows "sep_text CHR ''|'' (map alt_text as) \<noteq> []" and "seg_ok (sep_text CHR ''|'' (map alt_text as))"
    and "first_alt L j (split_on CHR ''|'' (sep_text CHR ''|'' (map alt_text as))) =
      (case filter (\<lambda>v. v \<noteq> None) (map (alt_eval L j) as) of [] \<Rightarrow> None | v # _ \<Rightarrow> v)"
proof -
  have wf: "alt_wf a" if "a \<in> set as" for a using assms(1) that by (simp add: list_all_iff)
  note read = alt_text_read [OF wf assms(4)]
  have sp: "split_on CHR ''|'' (sep_text CHR ''|'' (map alt_text as)) = map alt_text as"
    using alt_text_plain [OF wf] assms(3) by (intro split_sep_text) auto
  show "sep_text CHR ''|'' (map alt_text as) \<noteq> []"
  proof
    assume "sep_text CHR ''|'' (map alt_text as) = []"
    with sp have "map alt_text as = [[]]" by simp
    then obtain a where "as = [a]" "alt_text a = []" by auto
    then show False using alt_text_nonempty wf by simp
  qed
  have "\<not> alt_named (alt_text a)" if "a \<in> set (butlast as)" for a
    using assms(2) that read(2) [OF in_set_butlastD [OF that]] by (auto simp: list_all_iff)
  then show "seg_ok (sep_text CHR ''|'' (map alt_text as))"
    unfolding seg_ok_def sp using read(1) by (auto simp: list_all_iff map_butlast [symmetric])
  have "map (alt_value L j) (map alt_text as) = map (alt_eval L j) as" using read(3) by simp
  then show "first_alt L j (split_on CHR ''|'' (sep_text CHR ''|'' (map alt_text as))) =
      (case filter (\<lambda>v. v \<noteq> None) (map (alt_eval L j) as) of [] \<Rightarrow> None | v # _ \<Rightarrow> v)"
    unfolding sp first_alt_filter by (simp only:)
qed

lemma path_value_eval:
  assumes "path_wf p" and "\<And>j i. i < 0 \<Longrightarrow> cj_elem L j i = None"
  shows "list_all (\<lambda>s. s \<noteq> [] \<longrightarrow> seg_ok s) (map (\<lambda>as. sep_text CHR ''|'' (map alt_text as)) p) \<and>
    path_value L j (map (\<lambda>as. sep_text CHR ''|'' (map alt_text as)) p) = path_eval L j p"
  using assms(1)
proof (induction p arbitrary: j)
  case (Cons as p)
  then have wf: "list_all alt_wf as" "list_all (\<lambda>a. \<forall>k i. a = Elem k i \<longrightarrow> k = []) (butlast as)" "path_wf p"
    by (simp_all add: path_wf_def)
  show ?case
  proof (cases "as = []")
    case True
    with Cons.IH [OF wf(3)] show ?thesis by simp
  next
    case False
    note r = piece_read [OF wf(1,2) False assms(2)]
    let ?F = "filter (\<lambda>v. v \<noteq> None) (map (alt_eval L j) as)"
    let ?s = "sep_text CHR ''|'' (map alt_text as)"
    have "path_value L j (map (\<lambda>as. sep_text CHR ''|'' (map alt_text as)) (as # p)) =
        Option.bind (case ?F of [] \<Rightarrow> None | v # _ \<Rightarrow> v) (\<lambda>j. path_eval L j p)"
      using r(1,3) Cons.IH [OF wf(3)] by simp
    also have "\<dots> = path_eval L j (as # p)"
    proof (cases ?F)
      case Nil
      then show ?thesis using False by (simp only: path_eval.simps list.case if_False Option.bind.simps)
    next
      case (Cons v vs)
      then have "v \<noteq> None" by (metis (mono_tags, lifting) filter_eq_Cons_iff)
      then obtain x where "v = Some x" by blast
      then show ?thesis using False Cons
        by (simp only: path_eval.simps list.case option.case if_False Option.bind.simps)
    qed
    finally show ?thesis using r(1,2) Cons.IH [OF wf(3)] by simp
  qed
qed simp

text \<open>
  C24: The text of a path leads to the value the path means: the members and elements in turn, at each
  piece the first alternative that exists, an index out of range the nearest element, and nowhere when a piece
  has no alternative that exists. This holds for a library that has no element with a negative index (as cJSON
  documents), and for paths whose names do not end in a bracket or contain a bar or slash, whose indices are of
  type \<open>int\<close>, and that have a member with an index only as the last alternative of its piece (\<open>path_wf\<close>).
\<close>

theorem cjson_path_reads:
  assumes "\<forall>j i. i < 0 \<longrightarrow> cj_elem L j i = None" and "path_wf p"
  shows "cjson_path L (Some j) (Some (path_text p)) = Done (path_eval L j p)"
proof (cases "p = []")
  case True
  then show ?thesis by (simp add: cjson_path_def path_text_def)
next
  case False
  have "CHR ''/'' \<notin> set (sep_text CHR ''|'' (map alt_text as))" if "as \<in> set p" for as
    using assms(2) that alt_text_plain by (intro sep_text_notin) (auto simp: path_wf_def list_all_iff)
  then have "split_on CHR ''/'' (path_text p) = map (\<lambda>as. sep_text CHR ''|'' (map alt_text as)) p"
    unfolding path_text_def using False by (intro split_sep_text) auto
  moreover have "list_all (\<lambda>s. s \<noteq> [] \<longrightarrow> seg_ok s) (map (\<lambda>as. sep_text CHR ''|'' (map alt_text as)) p) \<and>
      path_value L j (map (\<lambda>as. sep_text CHR ''|'' (map alt_text as)) p) = path_eval L j p"
    using assms(1) by (intro path_value_eval [OF assms(2)]) simp
  ultimately show ?thesis by (simp add: cjson_path_def cjson_segs_value)
qed

text \<open>
  A member with an index that is missing hides the alternatives behind it, plain members as they may be.
\<close>

lemma cjson_path_missing_index:
  assumes "index_suffix a = Some (pre, idx)" and "pre \<noteq> []" and "cj_item L j pre = None"
    and "CHR ''|'' \<notin> set a \<union> set b" and "CHR ''/'' \<notin> set a \<union> set b" and "CHR '']'' \<notin> set b"
  shows "cjson_path L (Some j) (Some (a @ CHR ''|'' # b)) = Done None"
proof -
  have "split_on CHR ''/'' (a @ CHR ''|'' # b) = [a @ CHR ''|'' # b]"
    using assms(5) by (intro split_on_plain) auto
  moreover have "split_on CHR ''|'' (a @ CHR ''|'' # b) = [a, b]"
    using assms(4) by (simp add: split_on_sep split_on_plain)
  moreover have "a \<noteq> []" using index_suffix_bracket [OF assms(1)] by auto
  moreover have "cjson_alt L (Some j) a = Alt_skip"
    using index_suffix_bracket [OF assms(1)] assms(1-3) by (simp add: cjson_alt_def cJSON_GetObjectItem_def)
  ultimately show ?thesis
    using assms(6) by (simp add: cjson_path_def cjson_alt_def cJSON_GetObjectItem_def)
qed

subsection \<open>Existence and columns\<close>

lemma first_alt_plain:
  "CHR ''|'' \<notin> set s \<Longrightarrow> CHR '']'' \<notin> set s \<Longrightarrow> first_alt L j (split_on CHR ''|'' s) = cj_item L j s"
  using index_suffix_bracket [of s] by (cases "index_suffix s") (auto simp: split_on_plain alt_value_def split: option.split)

lemma seg_ok_plain: "s \<noteq> [] \<Longrightarrow> CHR ''|'' \<notin> set s \<Longrightarrow> CHR '']'' \<notin> set s \<Longrightarrow> seg_ok s"
  using index_suffix_bracket [of s] by (cases "index_suffix s") (auto simp: seg_ok_def split_on_plain alt_ok_def)

lemma exists_segs_value:
  "list_all (\<lambda>s. CHR ''|'' \<notin> set s \<and> CHR '']'' \<notin> set s) ss \<Longrightarrow> exists_segs L j ss \<longleftrightarrow> path_value L j ss \<noteq> None"
  by (induction L j ss rule: exists_segs.induct)
    (auto simp: first_alt_plain cJSON_GetObjectItem_def split: option.split)

lemma split_on_subset: "seg \<in> set (split_on c xs) \<Longrightarrow> set seg \<subseteq> set xs"
proof (induction xs arbitrary: seg)
  case (Cons x xs)
  then show ?case by (cases "split_on c xs") (fastforce split: if_splits)+
qed simp

lemma exists_loop_all: "exists_loop L j rc vs = (if \<forall>v \<in> set vs. exists_segs L j (split_on CHR ''/'' v) then rc else 0)"
  by (induction L j rc vs rule: exists_loop.induct) auto

text \<open>
  \<open>cjson_exists\<close> says 1 exactly when \<open>cjson_path\<close> finds a value for each of the paths, for paths
  without bars and indices.
\<close>

lemma cjson_exists_iff:
  assumes "\<forall>v \<in> set vs. CHR ''|'' \<notin> set v \<and> CHR '']'' \<notin> set v"
  shows "cjson_exists L (Some j) vs =
    (if \<forall>v \<in> set vs. \<exists>x. cjson_path L (Some j) (Some v) = Done (Some x) then 1 else 0)"
proof -
  have "exists_segs L j (split_on CHR ''/'' v) \<longleftrightarrow> (\<exists>x. cjson_path L (Some j) (Some v) = Done (Some x))"
    if "v \<in> set vs" for v
  proof -
    have p: "list_all (\<lambda>s. CHR ''|'' \<notin> set s \<and> CHR '']'' \<notin> set s) (split_on CHR ''/'' v)"
      using assms that split_on_subset [of _ "CHR ''/''" v] unfolding list_all_iff by blast
    then have "list_all (\<lambda>s. s \<noteq> [] \<longrightarrow> seg_ok s) (split_on CHR ''/'' v)"
      by (auto simp: list_all_iff intro: seg_ok_plain)
    from cjson_segs_value [OF this, of L j] exists_segs_value [OF p, of L j] show ?thesis
      by (simp add: cjson_path_def)
  qed
  then show ?thesis by (simp add: cjson_exists_def exists_loop_all cong: ball_cong)
qed

lemma index_suffix_nat: "index_suffix (''['' @ nat_text i @ '']'') = Some ([], nat_text i)"
  using index_suffix_elem [of "[]" "int i"] by (simp add: int_text_def)

lemma alt_value_index:
  assumes "int i < cj_size L j" and "cj_elem L j (int i) = Some r" and "int i < 2 ^ 31"
  shows "alt_ok (''['' @ nat_text i @ '']'')" and "alt_value L j (''['' @ nat_text i @ '']'') = Some r"
proof -
  have "myatoi (Some (nat_text i)) (length (nat_text i)) = Some (int i)"
    using myatoi_int_text [of "int i" "[]"] assms(3) by (simp add: int_text_def)
  then show "alt_ok (''['' @ nat_text i @ '']'')" "alt_value L j (''['' @ nat_text i @ '']'') = Some r"
    using assms(1,2) index_suffix_nat [of i] by (simp_all add: alt_ok_def alt_value_def clamp_index_def Let_def)
qed

lemma cjson_path_row:
  assumes "int i < cj_size L arr" and "cj_elem L arr (int i) = Some r" and "int i < 2 ^ 31"
    and "p \<noteq> []" and "CHR ''/'' \<notin> set p" and "seg_ok p"
  shows "cjson_path L (Some arr) (Some (''['' @ nat_text i @ '']/'' @ p)) = Done (first_alt L r (split_on CHR ''|'' p))"
proof -
  let ?s = "''['' @ nat_text i @ '']''"
  note v = alt_value_index [OF assms(1-3)]
  have nd: "CHR ''/'' \<notin> set ?s" "CHR ''|'' \<notin> set ?s"
    using nat_text_plain [of _ i] by (auto simp: is_digit_def)
  have s: "split_on CHR ''/'' (''['' @ nat_text i @ '']/'' @ p) = [?s, p]"
    using split_on_sep [OF nd(1), of p] assms(5) by (simp add: split_on_plain)
  have b: "split_on CHR ''|'' ?s = [?s]" using nd(2) by (rule split_on_plain)
  have "seg_ok ?s" unfolding seg_ok_def b using v(1) by simp
  then have "list_all (\<lambda>s. s \<noteq> [] \<longrightarrow> seg_ok s) [?s, p]" using assms(6) by simp
  from cjson_segs_value [OF this, of L arr] s v(2) assms(4) show ?thesis
    by (simp add: cjson_path_def b del: append.simps)
qed

lemma col_loop_rows:
  assumes "\<And>k. k < length rs \<Longrightarrow> cj_elem L arr (int (i + k)) = Some (rs ! k)" and "cj_size L arr = int (i + length rs)"
    and "cj_size L arr < 2 ^ 31" and "p \<noteq> []" and "CHR ''/'' \<notin> set p" and "seg_ok p"
  shows "col_loop L arr p i rs =
    Done (those (map (\<lambda>r. map_option (cj_duplicate L) (first_alt L r (split_on CHR ''|'' p))) rs))"
  using assms
proof (induction rs arbitrary: i)
  case (Cons r rs)
  have "cj_elem L arr (int i) = Some r" using Cons.prems(1) [of 0] by simp
  then have p: "cjson_path L (Some arr) (Some (''['' @ nat_text i @ '']/'' @ p)) = Done (first_alt L r (split_on CHR ''|'' p))"
    using Cons.prems(2-) by (intro cjson_path_row) auto
  have "col_loop L arr p (Suc i) rs =
      Done (those (map (\<lambda>r. map_option (cj_duplicate L) (first_alt L r (split_on CHR ''|'' p))) rs))"
    using Cons.prems(1) [of "Suc k" for k] Cons.prems(2-) by (intro Cons.IH) auto
  with p show ?case by (simp split: option.split)
qed simp

text \<open>
  A column of an array is the array of the values the column's path has in the rows, in order; there
  is none as soon as one row has no such value.
\<close>

lemma cjson_col_rows:
  assumes "\<forall>i < length (cj_children L arr). cj_elem L arr (int i) = Some (cj_children L arr ! i)"
    and "cj_size L arr = int (length (cj_children L arr))" and "length (cj_children L arr) < 2 ^ 31"
    and "p \<noteq> []" and "CHR ''/'' \<notin> set p" and "seg_ok p"
  shows "cjson_col L (Some arr) (Some p) =
    Done (map_option (cj_array L)
      (those (map (\<lambda>r. map_option (cj_duplicate L) (first_alt L r (split_on CHR ''|'' p))) (cj_children L arr))))"
proof -
  have "takeWhile (\<lambda>c. c \<noteq> CHR ''/'') (rev p) = rev p" using assms(5) by (auto simp: takeWhile_eq_all_conv)
  moreover have "col_loop L arr p 0 (cj_children L arr) =
      Done (those (map (\<lambda>r. map_option (cj_duplicate L) (first_alt L r (split_on CHR ''|'' p))) (cj_children L arr)))"
    using assms by (intro col_loop_rows) auto
  ultimately show ?thesis using assms(5) by (simp add: cjson_col_def Let_def del: takeWhile_eq_all_conv)
qed

text \<open>
  The second call of \<open>cjson_cstr\<close> frees the text of the first twice: once as its own last
  result, once as the last result of \<open>cjson_print\<close>, whatever is printed.
\<close>

lemma cjson_cstr_double_free:
  "(case cjson_cstr t1 \<lparr>cs_ret = NULL, cs_s = NULL, cs_live = Map.empty, cs_nxt = 1, cs_fault = False\<rparr> of
      (p, st) \<Rightarrow> \<not> cs_fault st \<and> cs_live st p = Some t1 \<and> cs_fault (snd (cjson_cstr t2 st)))"
  by (simp add: cjson_cstr_def cjson_print_def cs_free_def)

subsection \<open>The properties on a concrete document\<close>

datatype json = JBool bool | JNum int | JStr string | JArr "json list" | JObj "(string \<times> json) list"

primrec json_kids :: "json \<Rightarrow> json list" where
  "json_kids (JBool b) = []"
| "json_kids (JNum n) = []"
| "json_kids (JStr s) = []"
| "json_kids (JArr js) = js"
| "json_kids (JObj kvs) = map snd kvs"

text \<open>A library over such documents that does what cJSON documents, texts without characters to escape.\<close>

fun comma :: "string list \<Rightarrow> string" where
  "comma [] = []"
| "comma [s] = s"
| "comma (s # ss) = s @ '','' @ comma ss"

fun json_text :: "json \<Rightarrow> string" where
  "json_text (JBool b) = (if b then ''true'' else ''false'')"
| "json_text (JNum n) = int_text n"
| "json_text (JStr s) = quote_char # s @ [quote_char]"
| "json_text (JArr js) = ''['' @ comma (map json_text js) @ '']''"
| "json_text (JObj kvs) = ''{'' @ comma (map (\<lambda>(k, v). quote_char # k @ quote_char # '':'' @ json_text v) kvs) @ ''}''"

definition json_replace :: "json \<Rightarrow> string \<Rightarrow> json \<Rightarrow> json" where
  "json_replace j k v =
     (case j of JObj kvs \<Rightarrow> JObj (map (\<lambda>(k', v'). (k', if hp_strcasecmp k k' = 0 then v else v')) kvs) | _ \<Rightarrow> j)"

definition std_cjson :: "json cjson_lib" where
  "std_cjson = \<lparr>
     cj_item = (\<lambda>j k. case j of JObj kvs \<Rightarrow> map_option snd (find (\<lambda>(k', v). hp_strcasecmp k k' = 0) kvs) | _ \<Rightarrow> None),
     cj_size = (\<lambda>j. int (length (json_kids j))),
     cj_elem = (\<lambda>j i. if 0 \<le> i \<and> i < int (length (json_kids j)) then Some (json_kids j ! nat i) else None),
     cj_children = json_kids,
     cj_valuestring = (\<lambda>j. case j of JStr s \<Rightarrow> Some s | _ \<Rightarrow> None),
     cj_valueint = (\<lambda>j. case j of JNum n \<Rightarrow> n | JBool b \<Rightarrow> of_bool b | _ \<Rightarrow> 0),
     cj_is_array = (\<lambda>j. case j of JArr _ \<Rightarrow> True | _ \<Rightarrow> False),
     cj_is_object = (\<lambda>j. case j of JObj _ \<Rightarrow> True | _ \<Rightarrow> False),
     cj_is_string = (\<lambda>j. case j of JStr _ \<Rightarrow> True | _ \<Rightarrow> False),
     cj_print = (\<lambda>_. json_text), cj_create_string = JStr, cj_replace = json_replace, cj_array = JArr, cj_duplicate = (\<lambda>j. j)\<rparr>"

definition json_example :: json where
  "json_example = JObj [(''rows'', JArr [JObj [(''b'', JNum 1)], JObj [(''a'', JNum 2)]])]"

theorem cjson_path_reads_witness:
  "cjson_path std_cjson (Some json_example) (Some ''rows[7]/a|b'') = Done (Some (JNum 2))"
proof -
  let ?p = "[[Elem ''rows'' 7], [Member ''a'', Member ''b'']]"
  have neg: "\<forall>j i. i < 0 \<longrightarrow> cj_elem std_cjson j i = None" by (simp add: std_cjson_def)
  have "path_wf ?p" by (simp add: path_wf_def)
  from cjson_path_reads [OF neg this, of json_example]
  have "cjson_path std_cjson (Some json_example) (Some (path_text ?p)) = Done (path_eval std_cjson json_example ?p)" .
  moreover have "path_text ?p = ''rows[7]/a|b''" by code_simp
  moreover have "path_eval std_cjson json_example ?p = Some (JNum 2)" by code_simp
  ultimately show ?thesis by (simp only:)
qed

lemma cjson_exists_iff_witness:
  "cjson_exists std_cjson (Some json_example) [''rows''] =
    (if \<forall>v \<in> set [''rows'']. \<exists>x. cjson_path std_cjson (Some json_example) (Some v) = Done (Some x) then 1 else 0)"
  by (rule cjson_exists_iff) simp

lemma cjson_col_rows_witness:
  "\<exists>j. cjson_col std_cjson (Some (JArr [JObj [(''b'', JNum 1)], JObj [(''a'', JNum 2)]])) (Some ''a|b'') = Done j \<and>
    j = Some (JArr [JNum 1, JNum 2])"
proof -
  have "seg_ok ''a|b''" by code_simp
  then show ?thesis
    by (subst cjson_col_rows) (auto simp: std_cjson_def less_Suc_eq alt_value_def index_suffix_def hp_strcasecmp_def c_not_def lower_char_def)
qed

subsection \<open>Parsing\<close>

text \<open>
  The text is what \<open>printf\<close> makes of the arguments; the parser is a parameter. \<open>cjson_parselen\<close> passes it
  through \<open>%.*s\<close>: a negative length is no limit.
\<close>

definition cjson_parse :: "(string \<Rightarrow> 'j option) \<Rightarrow> string \<Rightarrow> 'j option" where
  "cjson_parse parse s = parse s"

definition cjson_parselen :: "(string \<Rightarrow> 'j option) \<Rightarrow> string \<Rightarrow> int \<Rightarrow> 'j option" where
  "cjson_parselen parse str len = cjson_parse parse (if len < 0 then str else take (nat len) str)"

end
