(* ===== verification/Hp_Mysql.thy ===== *)
theory Hp_Mysql
  imports Hp_Str
begin

section \<open>hp\_mysql: queries and transactions\<close>

text \<open>
  Models \<open>src/hp_mysql.c\<close>. The MySQL client library is a log of the calls it was given, each with its error
  number (0 when it succeeded), and two scripts: what it answers to queries, a result set (or none) with the
  number of affected rows, or an error number with its text; and before which of the calls to the server the
  connection turns out to be lost. A script of answers that has ended answers that the server has gone. The formatting of an error (\<open>sdscatprintf\<close> with the text in the error
  buffer as the format) is a parameter whose \<open>None\<close> is undefined behaviour; \<open>Undef\<close> stands for it, for
  a write outside a buffer and for the use of a NULL result.
\<close>

subsection \<open>The library\<close>

abbreviation (input) CR_COMMANDS_OUT_OF_SYNC :: int where "CR_COMMANDS_OUT_OF_SYNC \<equiv> 2014"
abbreviation (input) CR_SERVER_GONE :: int where "CR_SERVER_GONE \<equiv> 2006"
abbreviation (input) CR_SERVER_LOST :: int where "CR_SERVER_LOST \<equiv> 2013"
abbreviation (input) CR_UNKNOWN_ERROR :: int where "CR_UNKNOWN_ERROR \<equiv> 2000"
abbreviation (input) ER_LOCK_DEADLOCK :: int where "ER_LOCK_DEADLOCK \<equiv> 1213"

datatype mycall =
    M_autocommit bool
  | M_query string
  | M_rollback
  | M_commit
  | M_close
  | M_connect
  | M_reconnect
  | M_sync

record myres =
  mr_fields :: "(string \<times> bool) list"
  mr_rows :: "string option list list"

datatype myans = Q_ok "myres option" nat | Q_err int string

text \<open>
  \<open>my_cb\<close>: a function to connect again is set. \<open>my_reconnect\<close>: the option \<open>MYSQL_OPT_RECONNECT\<close> is set, so that the
  library connects again by itself when a call finds the connection lost, and says nothing (\<open>M_reconnect\<close> in
  the log); without it the call fails. Whatever \<open>mysql_autocommit\<close> returns when it is turned off,
  the value it is set back to is not zero.
\<close>

record myw =
  my_log :: "(mycall \<times> int) list"
  my_script :: "myans list"
  my_lost :: "bool list"
  my_reconnect :: bool
  my_cb :: bool

definition my_do :: "(mycall \<times> int) list \<Rightarrow> myw \<Rightarrow> myw" where
  "my_do cs w = w\<lparr>my_log := my_log w @ cs\<rparr>"

text \<open>What happens before a call is sent to the server; the result says whether it can be sent.\<close>

definition my_send :: "myw \<Rightarrow> bool \<times> myw" where
  "my_send w =
     (let lost = (my_lost w \<noteq> [] \<and> hd (my_lost w)); w = w\<lparr>my_lost := tl (my_lost w)\<rparr>
      in if \<not> lost then (True, w)
         else if my_reconnect w then (True, my_do [(M_reconnect, 0)] w)
         else (False, w))"

text \<open>\<open>mysql_autocommit\<close>, \<open>mysql_rollback\<close> and \<open>mysql_commit\<close>, whose results the code does not look at.\<close>

definition my_ctl :: "mycall \<Rightarrow> myw \<Rightarrow> myw" where
  "my_ctl c w = (case my_send w of (up, w) \<Rightarrow> my_do [(c, if up then 0 else CR_SERVER_LOST)] w)"

definition ans_errno :: "myans \<Rightarrow> int" where
  "ans_errno a = (case a of Q_ok _ _ \<Rightarrow> 0 | Q_err e _ \<Rightarrow> if e = 0 then CR_UNKNOWN_ERROR else e)"

definition mysql_query :: "string \<Rightarrow> myw \<Rightarrow> myans \<times> myw" where
  "mysql_query sql w =
     (case my_send w of (up, w) \<Rightarrow>
      let (a, s) = (if \<not> up then (Q_err CR_SERVER_LOST [], my_script w)
                    else case my_script w of [] \<Rightarrow> (Q_err CR_SERVER_GONE [], []) | a # s \<Rightarrow> (a, s))
      in (a, my_do [(M_query sql, ans_errno a)] (w\<lparr>my_script := s\<rparr>)))"

subsection \<open>Connecting\<close>

text \<open>
  The address \<open>user@host:port:db\<close> is read with \<open>sscanf\<close> into arrays of 64 bytes without a limit. The
  result of \<open>sscanf\<close> is not looked at; parts that are missing stay empty, the port keeps its value.
\<close>

record myaddr =
  ma_user :: string
  ma_ip :: string
  ma_port :: int
  ma_db :: string

definition scan_addr :: "int \<Rightarrow> string \<Rightarrow> myaddr outcome" where
  "scan_addr port a =
     (let u = takeWhile (\<lambda>c. c \<noteq> CHR ''@'') a; r = drop (length u) a
      in if 64 \<le> length u then Undef
         else if u = [] \<or> r = [] then Done \<lparr>ma_user = u, ma_ip = [], ma_port = port, ma_db = []\<rparr>
         else
           let h = takeWhile (\<lambda>c. c \<noteq> CHR '':'') (tl r); r = drop (length h) (tl r)
           in if 64 \<le> length h then Undef
              else if h = [] \<or> r = [] then Done \<lparr>ma_user = u, ma_ip = h, ma_port = port, ma_db = []\<rparr>
              else
                let p = takeWhile is_digit (tl r); r = drop (length p) (tl r)
                in if p = [] then Done \<lparr>ma_user = u, ma_ip = h, ma_port = port, ma_db = []\<rparr>
                   else
                     let port = c_atoi p
                     in if r = [] \<or> hd r \<noteq> CHR '':'' then Done \<lparr>ma_user = u, ma_ip = h, ma_port = port, ma_db = []\<rparr>
                        else
                          let d = takeWhile (\<lambda>c. \<not> c_isspace c) (dropWhile c_isspace (tl r))
                          in if 64 \<le> length d then Undef
                             else Done \<lparr>ma_user = u, ma_ip = h, ma_port = port, ma_db = d\<rparr>)"

text \<open>
  \<open>conn\<close> says whether \<open>mysql_real_connect\<close> succeeds for an address. The option to connect again is set on the
  handle before that.
\<close>

definition hp_mysql_connect_addr ::
  "(myaddr \<Rightarrow> bool) \<Rightarrow> int \<Rightarrow> string option \<Rightarrow> string option \<Rightarrow> myw \<Rightarrow> (int \<times> myw) outcome" where
  "hp_mysql_connect_addr conn port addr initsql w =
     (let w = w\<lparr>my_cb := True\<rparr> in
      case scan_addr port (case addr of None \<Rightarrow> [] | Some a \<Rightarrow> a) of
        Done a \<Rightarrow>
          (let w = my_do [(M_connect, 0)] (w\<lparr>my_reconnect := True\<rparr>)
           in if \<not> conn a then Done (-1, w)
              else case initsql of None \<Rightarrow> Done (0, w)
              | Some q \<Rightarrow> (case mysql_query q w of (Q_ok _ _, w) \<Rightarrow> Done (0, w) | (Q_err _ _, w) \<Rightarrow> Done (1, w)))
      | _ \<Rightarrow> Undef)"

definition hp_mysql_connect :: "bool option \<Rightarrow> string option \<Rightarrow> myw \<Rightarrow> int \<times> myw" where
  "hp_mysql_connect fn initsql w =
     (case fn of None \<Rightarrow> (-1, w)
      | Some ok \<Rightarrow>
        let w = my_do [(M_connect, 0)] (w\<lparr>my_cb := True\<rparr>)
        in if \<not> ok then (-2, w)
           else case initsql of None \<Rightarrow> (0, w)
           | Some q \<Rightarrow> (case mysql_query q w of (Q_ok _ _, w) \<Rightarrow> (0, w) | (Q_err _ _, w) \<Rightarrow> (1, w)))"

subsection \<open>One query\<close>

type_synonym myfmt = "string \<Rightarrow> int \<Rightarrow> string \<Rightarrow> string option"

text \<open>The error is formatted with the buffer's text as the format, and copied without a terminator.\<close>

definition err_put :: "myfmt \<Rightarrow> int \<Rightarrow> string \<Rightarrow> char list option \<Rightarrow> char list option outcome" where
  "err_put fmt no txt err =
     (case err of None \<Rightarrow> Done None
      | Some buf \<Rightarrow>
        if CHR 0x00 \<notin> set buf then Undef
        else case fmt (c_str buf) no txt of None \<Rightarrow> Undef
        | Some t \<Rightarrow> (case buf_put 0 (take 128 t) buf of None \<Rightarrow> Undef | Some b \<Rightarrow> Done (Some b)))"

text \<open>What is done between two tries: the pending result is dropped, or the connection is made again.\<close>

definition my_recover :: "int \<Rightarrow> myw \<Rightarrow> myw" where
  "my_recover no w =
     (if no = CR_COMMANDS_OUT_OF_SYNC then my_do [(M_sync, 0)] w
      else if my_cb w then my_do [(M_close, 0), (M_connect, 0)] w else w)"

primrec query_loop ::
  "nat \<Rightarrow> myfmt \<Rightarrow> string \<Rightarrow> char list option \<Rightarrow> myw \<Rightarrow> ((myres option \<times> nat) option \<times> char list option \<times> myw) outcome" where
  "query_loop 0 fmt sql err w = Done (None, err, w)"
| "query_loop (Suc n) fmt sql err w =
     (case mysql_query sql w of
        (Q_ok r aff, w) \<Rightarrow> Done (Some (r, aff), err, w)
      | (Q_err no txt, w) \<Rightarrow>
          (case err_put fmt no txt err of
             Done err \<Rightarrow> query_loop n fmt sql err (my_recover no w) | _ \<Rightarrow> Undef))"

datatype mycell = C_num int | C_str string

text \<open>A row as an object: NULL is read as the empty text.\<close>

definition row_object :: "(string \<times> bool) list \<Rightarrow> string option list \<Rightarrow> (string \<times> mycell) list" where
  "row_object fs row =
     map (\<lambda>((name, num), v). let val = (case v of None \<Rightarrow> [] | Some s \<Rightarrow> s)
           in (name, if num then C_num (c_atoi val) else C_str val)) (zip fs row)"

definition result_rows :: "myres option \<Rightarrow> (string \<times> mycell) list list outcome" where
  "result_rows r =
     (case r of None \<Rightarrow> Done []
      | Some r \<Rightarrow>
        if 102 < length (mr_fields r) \<or> \<not> list_all (\<lambda>f. length (fst f) < 102) (mr_fields r) then Undef
        else Done (map (row_object (mr_fields r)) (mr_rows r)))"

type_synonym mydata = "(string \<times> mycell) list list"

text \<open>
  \<open>data\<close> and \<open>rows\<close> say which results are asked for. The answer: the result, the rows, their
  number, the affected rows, the error buffer.
\<close>

record myout =
  mo_data :: "mydata option"
  mo_rows :: "nat option"
  mo_affected :: "nat option"

definition hp_mysql_query ::
  "bool \<Rightarrow> string option \<Rightarrow> bool \<Rightarrow> bool \<Rightarrow> myfmt \<Rightarrow> char list option \<Rightarrow> myw \<Rightarrow>
   (int \<times> myout \<times> char list option \<times> myw) outcome" where
  "hp_mysql_query mysql sqlo data rows fmt err w =
     (let none = \<lparr>mo_data = None, mo_rows = None, mo_affected = None\<rparr> in
      case sqlo of None \<Rightarrow> Done (-1, none, err, w)
      | Some sql \<Rightarrow>
        if \<not> mysql then Done (-1, none, err, w)
        else case query_loop 2 fmt sql err w of
          Done (None, err, w) \<Rightarrow> Done (-3, none, err, w)
        | Done (Some (r, aff), err, w) \<Rightarrow>
            if rows \<and> r = None then Undef
            else
              let o1 = none\<lparr>mo_rows := (if rows then Some (length (mr_rows (the r))) else None), mo_affected := Some aff\<rparr>
              in if \<not> data then Done (0, o1, err, w)
                 else (case result_rows r of Done d \<Rightarrow> Done (0, o1\<lparr>mo_data := Some d\<rparr>, err, w) | _ \<Rightarrow> Undef)
        | _ \<Rightarrow> Undef)"

subsection \<open>Transactions\<close>

text \<open>The statements in order, until one fails; the results so far.\<close>

fun all_loop ::
  "myfmt \<Rightarrow> bool \<Rightarrow> string list \<Rightarrow> mydata option list \<Rightarrow> char list option \<Rightarrow> myw \<Rightarrow>
   (int \<times> mydata option list \<times> char list option \<times> myw) outcome" where
  "all_loop fmt want [] acc err w = Done (0, acc, err, w)"
| "all_loop fmt want (s # ss) acc err w =
     (case hp_mysql_query True (Some s) want False fmt err w of
        Done (r, out, err, w) \<Rightarrow>
          if r \<noteq> 0 then Done (r, acc, err, my_ctl M_rollback w)
          else all_loop fmt want ss (acc @ [mo_data out]) err w
      | _ \<Rightarrow> Undef)"

definition hp_mysql_query_all ::
  "bool \<Rightarrow> string list \<Rightarrow> bool \<Rightarrow> myfmt \<Rightarrow> char list option \<Rightarrow> myw \<Rightarrow>
   (int \<times> mydata option list \<times> char list option \<times> myw) outcome" where
  "hp_mysql_query_all mysql sqls want fmt err w =
     (if \<not> mysql \<or> sqls = [] then Done (-1, [], err, w)
      else case all_loop fmt want sqls [] err (my_ctl (M_autocommit False) w) of
        Done (r, acc, err, w) \<Rightarrow>
          let w = my_ctl (M_autocommit True) w; acc = (if r \<noteq> 0 then replicate (length sqls) None else acc)
          in if r = 0 \<and> err \<noteq> None
             then (case buf_put 0 [CHR 0x00] (the err) of None \<Rightarrow> Undef | Some b \<Rightarrow> Done (r, acc, Some b, w))
             else Done (r, acc, err, w)
      | _ \<Rightarrow> Undef)"

definition sqlerr_init :: "char list" where
  "sqlerr_init = ''mysql_error: %d/'' @ [CHR 0x27] @ ''%s'' @ [CHR 0x27] @ replicate 108 (CHR 0x00)"

text \<open>
  The statements of one of the two texts of the template: the text of the error if one failed, and the
  first result set.
\<close>

fun tmpl_loop ::
  "myfmt \<Rightarrow> string list \<Rightarrow> mydata option \<Rightarrow> myw \<Rightarrow> (string option \<times> mydata option \<times> myw) outcome" where
  "tmpl_loop fmt [] rows w = Done (None, rows, w)"
| "tmpl_loop fmt (s # ss) rows w =
     (if s = [] then tmpl_loop fmt ss rows w
      else case hp_mysql_query True (Some s) (rows = None) False fmt (Some sqlerr_init) w of
        Done (rc, out, err, w) \<Rightarrow>
          if rc \<noteq> 0 then
            (if CHR 0x00 \<notin> set (the err) then Undef else Done (Some (c_str (the err)), rows, my_ctl M_rollback w))
          else tmpl_loop fmt ss (if rows = None then mo_data out else rows) w
      | _ \<Rightarrow> Undef)"

definition tmpl_texts :: "string option \<Rightarrow> string list" where
  "tmpl_texts s = (case s of None \<Rightarrow> [] | Some t \<Rightarrow> if t = [] then [] else split_on CHR '';'' t)"

text \<open>What the template gives to its result callback: the code, the text of the error, the count and the rows.\<close>

definition hp_mysql_tmpl ::
  "'j option \<times> string \<Rightarrow> ('j \<Rightarrow> int \<times> string option \<times> string option \<times> string) \<Rightarrow> myfmt \<Rightarrow> myw \<Rightarrow>
   ((int \<times> string \<times> mydata option \<times> mydata option) \<times> myw) outcome" where
  "hp_mysql_tmpl checked sql_cb fmt w =
     (case fst checked of
        None \<Rightarrow> Done ((-1, snd checked, None, None), w)
      | Some ijson \<Rightarrow>
        (case sql_cb ijson of (rc, sql_count, sql_query, errstr) \<Rightarrow>
          if rc \<noteq> 0 then Done ((-2, snd checked @ errstr, None, None), w)
          else
            let errstr = snd checked @ errstr; w = my_ctl (M_autocommit False) w
            in case tmpl_loop fmt (tmpl_texts sql_query) None w of
                 Done (Some e, rows, w) \<Rightarrow> Done ((-4, errstr @ e, None, rows), w)
               | Done (None, rows, w) \<Rightarrow>
                   (case tmpl_loop fmt (tmpl_texts sql_count) None w of
                      Done (Some e, cnt, w) \<Rightarrow> Done ((-3, errstr @ e, cnt, rows), w)
                    | Done (None, cnt, w) \<Rightarrow>
                        Done ((0, errstr, cnt, rows), my_ctl (M_autocommit True) (my_ctl M_commit w))
                    | _ \<Rightarrow> Undef)
               | _ \<Rightarrow> Undef))"

subsection \<open>What the calls mean to the server\<close>

text \<open>
  The documented meaning of the calls for a session: whether each statement commits by itself, the statements
  of the open transaction, and those that are committed. Turning the mode on commits the transaction; a new
  connection, also one the library made by itself, has lost it and starts with the mode on. A statement that
  commits implicitly (\<open>implicit\<close>: the statements that define tables and the others the manual lists) commits the
  transaction and itself. An error leaves the transaction as it was, unless it is one that rolls back all of it
  (\<open>aborts\<close>: a deadlock does, and a lock that was waited for too long if the server is set so).
\<close>

type_synonym mysession = "bool \<times> string list \<times> string list"

fun session_after :: "(string \<Rightarrow> bool) \<Rightarrow> (int \<Rightarrow> bool) \<Rightarrow> mysession \<Rightarrow> mycall \<times> int \<Rightarrow> mysession" where
  "session_after implicit aborts (auto, pend, com) (c, e) =
     (if e \<noteq> 0 then (auto, if aborts e then [] else pend, com)
      else case c of
        M_autocommit b \<Rightarrow> (b, if b then [] else pend, if b then com @ pend else com)
      | M_query q \<Rightarrow>
          if implicit q then (auto, [], com @ pend @ [q])
          else if auto then (auto, pend, com @ [q]) else (auto, pend @ [q], com)
      | M_rollback \<Rightarrow> (auto, [], com)
      | M_commit \<Rightarrow> (auto, [], com @ pend)
      | M_close \<Rightarrow> (True, [], com)
      | M_connect \<Rightarrow> (True, [], com)
      | M_reconnect \<Rightarrow> (True, [], com)
      | M_sync \<Rightarrow> (auto, pend, com))"

text \<open>
  A server, a step function with a view of its session, behaves as documented. Nothing is said of a statement that would commit
  implicitly and fails.
\<close>

definition documented :: "(string \<Rightarrow> bool) \<Rightarrow> mycall \<times> int \<Rightarrow> bool" where
  "documented implicit x = (case x of (M_query q, e) \<Rightarrow> e = 0 \<or> \<not> implicit q | _ \<Rightarrow> True)"

definition mysql_doc ::
  "(string \<Rightarrow> bool) \<Rightarrow> (int \<Rightarrow> bool) \<Rightarrow> ('s \<Rightarrow> mysession) \<Rightarrow> ('s \<Rightarrow> mycall \<times> int \<Rightarrow> 's) \<Rightarrow> bool" where
  "mysql_doc implicit aborts view step \<longleftrightarrow>
     aborts ER_LOCK_DEADLOCK \<and>
     (\<forall>s x. documented implicit x \<longrightarrow> view (step s x) = session_after implicit aborts (view s) x)"

lemma mysql_doc_fold:
  "mysql_doc implicit aborts view step \<Longrightarrow> list_all (documented implicit) cs \<Longrightarrow>
   view (foldl step s cs) = foldl (session_after implicit aborts) (view s) cs"
  by (induction cs arbitrary: s) (auto simp: mysql_doc_def)

text \<open>The calls made since a state, and that they were all made on one connection.\<close>

definition my_since :: "myw \<Rightarrow> myw \<Rightarrow> (mycall \<times> int) list" where
  "my_since w w' = drop (length (my_log w)) (my_log w')"

definition one_connection :: "(mycall \<times> int) list \<Rightarrow> bool" where
  "one_connection cs =
     list_all (\<lambda>(c, e). c \<noteq> M_connect \<and> c \<noteq> M_reconnect \<and> e \<noteq> CR_SERVER_LOST \<and> e \<noteq> CR_SERVER_GONE) cs"

text \<open>None of the calls failed with an error that rolls back the whole transaction.\<close>

definition none_aborts :: "(int \<Rightarrow> bool) \<Rightarrow> (mycall \<times> int) list \<Rightarrow> bool" where
  "none_aborts aborts cs = list_all (\<lambda>(c, e). e = 0 \<or> \<not> aborts e) cs"

text \<open>The only statements among the calls are those of a list.\<close>

definition queries_in :: "string set \<Rightarrow> (mycall \<times> int) list \<Rightarrow> bool" where
  "queries_in Q cs = list_all (\<lambda>(c, e). case c of M_query q \<Rightarrow> q \<in> Q | _ \<Rightarrow> True) cs"

lemma one_connection_append [simp]:
  "one_connection []" "one_connection (cs @ ds) = (one_connection cs \<and> one_connection ds)"
  by (simp_all add: one_connection_def)

lemma none_aborts_append [simp]:
  "none_aborts aborts []" "none_aborts aborts (cs @ ds) = (none_aborts aborts cs \<and> none_aborts aborts ds)"
  by (simp_all add: none_aborts_def)

lemma queries_in_append [simp]:
  "queries_in Q []" "queries_in Q (cs @ ds) = (queries_in Q cs \<and> queries_in Q ds)"
  by (simp_all add: queries_in_def)

lemma queries_in_mono: "queries_in Q cs \<Longrightarrow> Q \<subseteq> R \<Longrightarrow> queries_in R cs"
  unfolding queries_in_def by (erule list.pred_mono_strong) (auto split: mycall.splits)

lemma queries_in_documented:
  "queries_in Q cs \<Longrightarrow> \<forall>q \<in> Q. \<not> implicit q \<Longrightarrow> list_all (documented implicit) cs"
  unfolding queries_in_def by (erule list.pred_mono_strong) (auto simp: documented_def split: mycall.splits)

lemma my_do_simps [simp]:
  "my_log (my_do cs w) = my_log w @ cs" "my_script (my_do cs w) = my_script w" "my_cb (my_do cs w) = my_cb w"
  "my_lost (my_do cs w) = my_lost w" "my_reconnect (my_do cs w) = my_reconnect w"
  by (simp_all add: my_do_def)

text \<open>On one connection each call logs itself and nothing else.\<close>

lemma my_ctl_log: "\<exists>ds. my_log (my_ctl c w) = my_log w @ ds \<and> (one_connection ds \<longrightarrow> ds = [(c, 0)])"
  by (auto simp: my_ctl_def my_send_def Let_def one_connection_def)

lemma mysql_query_log:
  "mysql_query sql w = (a, w') \<Longrightarrow>
   \<exists>ds. my_log w' = my_log w @ ds \<and> (one_connection ds \<longrightarrow> ds = [(M_query sql, ans_errno a)])"
  by (auto simp: mysql_query_def my_send_def Let_def one_connection_def ans_errno_def split: if_splits list.splits)

text \<open>
  A stretch of calls inside a transaction, as long as the connection lasts: it runs statements of \<open>Q\<close> only, commits nothing,
  and adds \<open>add\<close> to the transaction if no error rolled it back; or it ends with the transaction empty.
\<close>

definition in_tx :: "(string \<Rightarrow> bool) \<Rightarrow> (int \<Rightarrow> bool) \<Rightarrow> string set \<Rightarrow> string list \<Rightarrow> (mycall \<times> int) list \<Rightarrow> bool" where
  "in_tx implicit aborts Q add cs \<longleftrightarrow> (one_connection cs \<longrightarrow> queries_in Q cs \<and>
     (\<forall>pend com. \<exists>pend'. foldl (session_after implicit aborts) (False, pend, com) cs = (False, pend', com) \<and>
        (none_aborts aborts cs \<longrightarrow> pend' = pend @ add)))"

definition rolled_back :: "(string \<Rightarrow> bool) \<Rightarrow> (int \<Rightarrow> bool) \<Rightarrow> string set \<Rightarrow> (mycall \<times> int) list \<Rightarrow> bool" where
  "rolled_back implicit aborts Q cs \<longleftrightarrow> (one_connection cs \<longrightarrow> queries_in Q cs \<and>
     (\<forall>pend com. foldl (session_after implicit aborts) (False, pend, com) cs = (False, [], com)))"

lemma in_txI: "(one_connection cs \<Longrightarrow> cs = ds) \<Longrightarrow> in_tx implicit aborts Q a ds \<Longrightarrow> in_tx implicit aborts Q a cs"
  unfolding in_tx_def by blast

lemma in_tx_Nil: "in_tx implicit aborts {} [] []"
  by (simp add: in_tx_def)

lemma in_tx_query:
  "\<not> implicit q \<Longrightarrow> in_tx implicit aborts {q} (if e = 0 then [q] else []) [(M_query q, e)]"
  by (auto simp: in_tx_def queries_in_def none_aborts_def)

lemma in_tx_append:
  assumes "in_tx implicit aborts Q a cs" and "in_tx implicit aborts R b ds"
  shows "in_tx implicit aborts (Q \<union> R) (a @ b) (cs @ ds)"
  unfolding in_tx_def
proof (intro impI conjI allI)
  assume one: "one_connection (cs @ ds)"
  then show "queries_in (Q \<union> R) (cs @ ds)"
    using assms queries_in_mono [of Q cs "Q \<union> R"] queries_in_mono [of R ds "Q \<union> R"] by (simp add: in_tx_def)
  fix pend com
  from assms(1) one obtain p1 where "foldl (session_after implicit aborts) (False, pend, com) cs = (False, p1, com)"
    "none_aborts aborts cs \<longrightarrow> p1 = pend @ a" by (auto simp: in_tx_def)
  moreover from assms(2) one obtain p2 where "foldl (session_after implicit aborts) (False, p1, com) ds = (False, p2, com)"
    "none_aborts aborts ds \<longrightarrow> p2 = p1 @ b" by (auto simp: in_tx_def)
  ultimately show "\<exists>pend'. foldl (session_after implicit aborts) (False, pend, com) (cs @ ds) = (False, pend', com) \<and>
      (none_aborts aborts (cs @ ds) \<longrightarrow> pend' = pend @ a @ b)" by simp
qed

lemma rolled_back_append:
  assumes "in_tx implicit aborts Q a cs" and "rolled_back implicit aborts R ds"
  shows "rolled_back implicit aborts (Q \<union> R) (cs @ ds)"
  unfolding rolled_back_def
proof (intro impI conjI allI)
  assume one: "one_connection (cs @ ds)"
  then show "queries_in (Q \<union> R) (cs @ ds)"
    using assms queries_in_mono [of Q cs "Q \<union> R"] queries_in_mono [of R ds "Q \<union> R"]
    by (simp add: in_tx_def rolled_back_def)
  fix pend com
  from assms(1) one obtain p1 where "foldl (session_after implicit aborts) (False, pend, com) cs = (False, p1, com)"
    by (auto simp: in_tx_def)
  then show "foldl (session_after implicit aborts) (False, pend, com) (cs @ ds) = (False, [], com)"
    using assms(2) one by (simp add: rolled_back_def)
qed

lemma my_ctl_rollback:
  "\<exists>ds. my_log (my_ctl M_rollback w) = my_log w @ ds \<and> rolled_back implicit aborts {} ds"
proof -
  obtain ds where ds: "my_log (my_ctl M_rollback w) = my_log w @ ds" "one_connection ds \<longrightarrow> ds = [(M_rollback, 0)]"
    using my_ctl_log by blast
  then have "rolled_back implicit aborts {} ds" by (auto simp: rolled_back_def queries_in_def)
  with ds(1) show ?thesis by blast
qed

lemma my_recover_log: "\<exists>ds. my_log (my_recover no w) = my_log w @ ds \<and> in_tx implicit aborts {} [] ds"
  by (auto simp: my_recover_def in_tx_def one_connection_def queries_in_def)

lemma query_loop_log:
  "query_loop n fmt sql err w = Done (r, err', w') \<Longrightarrow> \<not> implicit sql \<Longrightarrow>
   \<exists>cs. my_log w' = my_log w @ cs \<and> in_tx implicit aborts {sql} (if r = None then [] else [sql]) cs"
proof (induction n arbitrary: err w)
  case 0
  then show ?case by (auto simp: in_tx_def)
next
  case (Suc n)
  obtain a w1 where a: "mysql_query sql w = (a, w1)" by fastforce
  obtain d1 where d1: "my_log w1 = my_log w @ d1" "one_connection d1 \<longrightarrow> d1 = [(M_query sql, ans_errno a)]"
    using mysql_query_log [OF a] by blast
  have t1: "in_tx implicit aborts {sql} (if ans_errno a = 0 then [sql] else []) d1"
  proof (rule in_txI)
    show "in_tx implicit aborts {sql} (if ans_errno a = 0 then [sql] else []) [(M_query sql, ans_errno a)]"
      using Suc.prems(2) by (rule in_tx_query)
  qed (use d1(2) in blast)
  show ?case
  proof (cases a)
    case (Q_ok res aff)
    then show ?thesis using Suc.prems(1) a d1(1) t1 by (auto simp: ans_errno_def)
  next
    case (Q_err en tx)
    then obtain err1 where "query_loop n fmt sql err1 (my_recover en w1) = Done (r, err', w')"
      using Suc.prems(1) a by (auto split: outcome.splits)
    from Suc.IH [OF this Suc.prems(2)] obtain cs where
      cs: "my_log w' = my_log (my_recover en w1) @ cs" "in_tx implicit aborts {sql} (if r = None then [] else [sql]) cs"
      by blast
    obtain d2 where d2: "my_log (my_recover en w1) = my_log w1 @ d2" "in_tx implicit aborts {} [] d2"
      using my_recover_log by blast
    have "ans_errno a \<noteq> 0" using Q_err by (simp add: ans_errno_def)
    then have "in_tx implicit aborts {sql} (if r = None then [] else [sql]) (d1 @ d2 @ cs)"
      using in_tx_append [OF t1 in_tx_append [OF d2(2) cs(2)]] by simp
    then show ?thesis using cs(1) d1(1) d2(1) by (intro exI [of _ "d1 @ d2 @ cs"]) simp
  qed
qed

lemma hp_mysql_query_log:
  assumes "hp_mysql_query True (Some sql) data rows fmt err w = Done (rc, out, err', w')" and "\<not> implicit sql"
  shows "\<exists>cs. my_log w' = my_log w @ cs \<and> in_tx implicit aborts {sql} (if rc = 0 then [sql] else []) cs"
proof -
  obtain r e1 w1 where q: "query_loop 2 fmt sql err w = Done (r, e1, w1)"
    using assms(1) by (cases "query_loop 2 fmt sql err w") (auto simp: hp_mysql_query_def)
  then have "w1 = w'" "rc = 0 \<longleftrightarrow> r \<noteq> None"
    using assms(1) by (cases r; auto simp: hp_mysql_query_def Let_def split: if_splits outcome.splits)+
  then show ?thesis using query_loop_log [where implicit = implicit and aborts = aborts, OF q assms(2)] by (cases r) auto
qed

lemma all_loop_log:
  "all_loop fmt want ss acc err w = Done (r, acc', err', w') \<Longrightarrow> \<forall>q \<in> set ss. \<not> implicit q \<Longrightarrow>
   \<exists>cs. my_log w' = my_log w @ cs \<and>
     (if r = 0 then in_tx implicit aborts (set ss) ss cs else rolled_back implicit aborts (set ss) cs)"
proof (induction fmt want ss acc err w rule: all_loop.induct)
  case (1 fmt want acc err w)
  then show ?case by (auto intro: in_tx_Nil)
next
  case (2 fmt want s ss acc err w)
  obtain r1 out e1 w1 where q: "hp_mysql_query True (Some s) want False fmt err w = Done (r1, out, e1, w1)"
    using "2.prems"(1) by (cases "hp_mysql_query True (Some s) want False fmt err w") auto
  have ns: "\<not> implicit s" "\<forall>q \<in> set ss. \<not> implicit q" using "2.prems"(2) by simp_all
  obtain cs where cs: "my_log w1 = my_log w @ cs" "in_tx implicit aborts {s} (if r1 = 0 then [s] else []) cs"
    using hp_mysql_query_log [where implicit = implicit and aborts = aborts, OF q ns(1)] by blast
  show ?case
  proof (cases "r1 = 0")
    case True
    then have "all_loop fmt want ss (acc @ [mo_data out]) e1 w1 = Done (r, acc', err', w')" using "2.prems"(1) q by simp
    from "2.IH" [OF q refl refl refl _ this ns(2)] True obtain ds where
      ds: "my_log w' = my_log w1 @ ds"
        "if r = 0 then in_tx implicit aborts (set ss) ss ds else rolled_back implicit aborts (set ss) ds" by auto
    have "if r = 0 then in_tx implicit aborts (set (s # ss)) (s # ss) (cs @ ds)
        else rolled_back implicit aborts (set (s # ss)) (cs @ ds)"
      using in_tx_append [OF cs(2), of "set ss" ss ds] rolled_back_append [OF cs(2), of "set ss" ds] ds(2) True by simp
    then show ?thesis using cs(1) ds(1) by (intro exI [of _ "cs @ ds"]) simp
  next
    case False
    obtain ds where ds: "my_log (my_ctl M_rollback w1) = my_log w1 @ ds" "rolled_back implicit aborts {} ds"
      using my_ctl_rollback by blast
    have r: "r = r1" "w' = my_ctl M_rollback w1" using "2.prems"(1) q False by simp_all
    have "queries_in {s} x \<Longrightarrow> queries_in (set (s # ss)) x" for x by (erule queries_in_mono) simp
    then have "rolled_back implicit aborts (set (s # ss)) (cs @ ds)"
      using rolled_back_append [OF cs(2) ds(2)] by (simp add: rolled_back_def)
    then show ?thesis using cs(1) ds(1) r False by (intro exI [of _ "cs @ ds"]) simp
  qed
qed

text \<open>What the two functions come to between turning the mode off and on again.\<close>

lemma tx_session:
  assumes "mysql_doc implicit aborts view step" and "view s = (True, [], com)" and "\<forall>q \<in> Q. \<not> implicit q"
    and "one_connection (d0 @ cs @ d1)" and "one_connection d0 \<longrightarrow> d0 = [(M_autocommit False, 0)]"
    and "queries_in {} d1"
  shows "in_tx implicit aborts Q a cs \<Longrightarrow> none_aborts aborts (d0 @ cs @ d1) \<Longrightarrow>
      view (foldl step s (d0 @ cs @ d1)) = foldl (session_after implicit aborts) (False, a, com) d1"
    and "rolled_back implicit aborts Q cs \<Longrightarrow>
      view (foldl step s (d0 @ cs @ d1)) = foldl (session_after implicit aborts) (False, [], com) d1"
proof -
  have one: "one_connection cs" "d0 = [(M_autocommit False, 0)]" using assms(4,5) by simp_all
  have doc: "view (foldl step s (d0 @ cs @ d1)) = foldl (session_after implicit aborts) (view s) (d0 @ cs @ d1)"
    if "queries_in Q cs"
  proof (rule mysql_doc_fold [OF assms(1) queries_in_documented [OF _ assms(3)]])
    show "queries_in Q (d0 @ cs @ d1)"
      using that queries_in_mono [OF assms(6), of Q] one(2) by (simp add: queries_in_def)
  qed
  show "view (foldl step s (d0 @ cs @ d1)) = foldl (session_after implicit aborts) (False, a, com) d1"
    if "in_tx implicit aborts Q a cs" "none_aborts aborts (d0 @ cs @ d1)"
  proof -
    have q: "queries_in Q cs" using that(1) one(1) by (simp add: in_tx_def)
    have "\<exists>p. foldl (session_after implicit aborts) (False, [], com) cs = (False, p, com) \<and>
        (none_aborts aborts cs \<longrightarrow> p = [] @ a)" using that(1) one(1) unfolding in_tx_def by blast
    then obtain p where "foldl (session_after implicit aborts) (False, [], com) cs = (False, p, com)"
      "none_aborts aborts cs \<longrightarrow> p = [] @ a" by (elim exE conjE)
    moreover have "none_aborts aborts cs" using that(2) by simp
    ultimately show ?thesis using doc [OF q] one(2) assms(2) by simp
  qed
  show "view (foldl step s (d0 @ cs @ d1)) = foldl (session_after implicit aborts) (False, [], com) d1"
    if "rolled_back implicit aborts Q cs"
  proof -
    have q: "queries_in Q cs" using that one(1) by (simp add: rolled_back_def)
    show ?thesis using doc [OF q] that one assms(2) by (simp add: rolled_back_def)
  qed
qed


lemma tmpl_loop_log:
  "tmpl_loop fmt ss rows w = Done (e, rows', w') \<Longrightarrow> \<forall>q \<in> set ss. \<not> implicit q \<Longrightarrow>
   \<exists>cs. my_log w' = my_log w @ cs \<and>
     (if e = None then in_tx implicit aborts (set ss) (filter (\<lambda>s. s \<noteq> []) ss) cs
      else rolled_back implicit aborts (set ss) cs)"
proof (induction fmt ss rows w rule: tmpl_loop.induct)
  case (1 fmt rows w)
  then show ?case by (auto intro: in_tx_Nil)
next
  case (2 fmt s ss rows w)
  have wider: "queries_in (set ss) x \<Longrightarrow> queries_in (set (s # ss)) x" "queries_in {s} x \<Longrightarrow> queries_in (set (s # ss)) x" for x
    by (erule queries_in_mono; auto)+
  have ns: "\<not> implicit s" "\<forall>q \<in> set ss. \<not> implicit q" using "2.prems"(2) by simp_all
  show ?case
  proof (cases "s = []")
    case True
    then have "tmpl_loop fmt ss rows w = Done (e, rows', w')" using "2.prems"(1) by simp
    from "2.IH"(1) [OF True this ns(2)] True wider(1) show ?thesis
      by (auto simp: in_tx_def rolled_back_def split: if_splits)
  next
    case ne: False
    let ?q = "hp_mysql_query True (Some s) (rows = None) False fmt (Some sqlerr_init) w"
    obtain rc out e1 w1 where q: "?q = Done (rc, out, e1, w1)"
      using "2.prems"(1) ne by (cases ?q) auto
    obtain cs where cs: "my_log w1 = my_log w @ cs" "in_tx implicit aborts {s} (if rc = 0 then [s] else []) cs"
      using hp_mysql_query_log [where implicit = implicit and aborts = aborts, OF q ns(1)] by blast
    show ?thesis
    proof (cases "rc = 0")
      case True
      then have "tmpl_loop fmt ss (if rows = None then mo_data out else rows) w1 = Done (e, rows', w')"
        using "2.prems"(1) q ne by simp
      from "2.IH"(2) [OF ne q refl refl refl _ this ns(2)] True obtain ds where
        ds: "my_log w' = my_log w1 @ ds"
          "if e = None then in_tx implicit aborts (set ss) (filter (\<lambda>s. s \<noteq> []) ss) ds
           else rolled_back implicit aborts (set ss) ds" by auto
      have "if e = None then in_tx implicit aborts (set (s # ss)) (filter (\<lambda>s. s \<noteq> []) (s # ss)) (cs @ ds)
          else rolled_back implicit aborts (set (s # ss)) (cs @ ds)"
        using in_tx_append [OF cs(2), of "set ss" "filter (\<lambda>s. s \<noteq> []) ss" ds]
          rolled_back_append [OF cs(2), of "set ss" ds] ds(2) True ne by (cases e) simp_all
      then show ?thesis using cs(1) ds(1) by (intro exI [of _ "cs @ ds"]) simp
    next
      case False
      obtain ds where ds: "my_log (my_ctl M_rollback w1) = my_log w1 @ ds" "rolled_back implicit aborts {} ds"
        using my_ctl_rollback by blast
      have r: "e \<noteq> None" "w' = my_ctl M_rollback w1" using "2.prems"(1) q ne False by (auto split: if_splits)
      have "rolled_back implicit aborts (set (s # ss)) (cs @ ds)"
        using rolled_back_append [OF cs(2) ds(2)] wider(2) by (simp add: rolled_back_def)
      then show ?thesis using cs(1) ds(1) r by (intro exI [of _ "cs @ ds"]) (cases e; simp)
    qed
  qed
qed


subsection \<open>The transactions on a concrete server\<close>

definition myw_example :: "bool \<Rightarrow> bool \<Rightarrow> bool list \<Rightarrow> myans list \<Rightarrow> myw" where
  "myw_example cb rec lost answers =
     \<lparr>my_log = [], my_script = answers, my_lost = lost, my_reconnect = rec, my_cb = cb\<rparr>"

text \<open>A server on which statements that start with the letters of CREATE commit implicitly, and a deadlock is the only error that aborts.\<close>

definition ddl :: "string \<Rightarrow> bool" where
  "ddl q \<longleftrightarrow> take 6 q = ''CREATE''"

definition session_step :: "mysession \<Rightarrow> mycall \<times> int \<Rightarrow> mysession" where
  "session_step = session_after ddl (\<lambda>e. e = ER_LOCK_DEADLOCK)"

lemma mysql_doc_session: "mysql_doc ddl (\<lambda>e. e = ER_LOCK_DEADLOCK) (\<lambda>s. s) session_step"
  by (simp add: mysql_doc_def session_step_def)

lemmas my_run_simps = hp_mysql_query_all_def myw_example_def hp_mysql_query_def mysql_query_def err_put_def my_recover_def
  my_ctl_def my_send_def my_do_def ans_errno_def numeral_2_eq_2 Let_def


text \<open>
  Where the conditions do not hold it is no transaction. When the connection is lost in between, whether the code connects
  again or the library by itself, the first statement is lost, the second is sent again over the
  new connection, where it commits by itself, and the call reports success. After a deadlock only the
  statements from the one tried again on are committed. And a statement that commits implicitly
  commits what was before it, also when the call fails afterwards.
\<close>

lemma hp_mysql_query_all_lost:
  "\<exists>data w'. hp_mysql_query_all True [''a'', ''b''] False (\<lambda>_ _ _. None) None
      (myw_example True False [False, False, True] [Q_ok None 1, Q_ok None 1]) = Done (0, data, None, w') \<and>
    foldl session_step (True, [], []) (my_log w') = (True, [], [''b''])"
  by (simp add: my_run_simps session_step_def ddl_def)

lemma hp_mysql_query_all_reconnect:
  "\<exists>w0 data w'. hp_mysql_connect_addr (\<lambda>_. True) 3306 (Some ''u@h:1:d'') None
      (myw_example False False [False, False, True] [Q_ok None 1, Q_ok None 1]) = Done (0, w0) \<and>
    hp_mysql_query_all True [''a'', ''b''] False (\<lambda>_ _ _. None) None w0 = Done (0, data, None, w') \<and>
    foldl session_step (True, [], []) (my_since w0 w') = (True, [], [''b''])"
proof -
  let ?w = "myw_example False False [False, False, True] [Q_ok None 1, Q_ok None 1]"
  have "scan_addr 3306 ''u@h:1:d'' = Done \<lparr>ma_user = ''u'', ma_ip = ''h'', ma_port = 1, ma_db = ''d''\<rparr>" by code_simp
  then have "hp_mysql_connect_addr (\<lambda>_. True) 3306 (Some ''u@h:1:d'') None ?w =
      Done (0, my_do [(M_connect, 0)] (?w\<lparr>my_cb := True, my_reconnect := True\<rparr>))"
    by (simp add: hp_mysql_connect_addr_def)
  then show ?thesis
    by (simp add: my_run_simps my_since_def session_step_def ddl_def)
qed

lemma hp_mysql_query_all_deadlock:
  "\<exists>data w'. hp_mysql_query_all True [''a'', ''b''] False (\<lambda>_ _ _. None) None
      (myw_example False False [] [Q_ok None 1, Q_err 1213 [], Q_ok None 1]) = Done (0, data, None, w') \<and>
    foldl session_step (True, [], []) (my_log w') = (True, [], [''b''])"
  by (simp add: my_run_simps session_step_def ddl_def)

lemma hp_mysql_query_all_ddl:
  "\<exists>data w'. hp_mysql_query_all True [''a'', ''CREATE TABLE t'', ''b''] False (\<lambda>_ _ _. None) None
      (myw_example False False [] [Q_ok None 1, Q_ok None 0, Q_err 1064 [], Q_err 1064 []]) = Done (-3, data, None, w') \<and>
    foldl session_step (True, [], []) (my_log w') = (True, [], [''a'', ''CREATE TABLE t''])"
  by (simp add: my_run_simps session_step_def ddl_def)


end
