(* ===== verification/Hp_Inotify.thy ===== *)
theory Hp_Inotify
  imports Hp_Epoll
begin

section \<open>hp\_inotify: files watched from the event loop\<close>

text \<open>
  Models \<open>src/hp_inotify.c\<close> on the event loop of \<open>Hp_Epoll\<close>. The object holds the inotify descriptor and a
  vector of pointers to entries. The kernel answers \<open>inotify_add_watch\<close> and \<open>read\<close> from scripts, and a
  read comes with the paths that exist while its events are handled. The callbacks of the client
  are logged with the events and the argument they get, which is not the same everywhere: a slot of the
  vector, an entry, or the object itself. They do not add or remove entries while the events of a read are handled.
\<close>

abbreviation (input) IN_MODIFY :: int where "IN_MODIFY \<equiv> 2"
abbreviation (input) EPOLLERR :: int where "EPOLLERR \<equiv> 8"
abbreviation (input) EPOLL_ET :: int where "EPOLL_ET \<equiv> 2147483648"
abbreviation (input) HANDLE_II :: fnptr where "HANDLE_II \<equiv> 78"

record hp_inotify_ient =
  ie_ptr :: ptr
  ie_fd :: sock
  ie_wd :: int
  ie_path :: string
  ie_open :: fnptr
  ie_fn :: fnptr
  ie_d :: ptr

datatype cb_arg = Arg_slot nat | Arg_ient ptr | Arg_dl

datatype iread = I_events "string set" "(int \<times> int) list" | I_err int

record iw =
  in_ep :: epw
  in_has_epo :: bool
  in_ients :: "hp_inotify_ient list"
  in_ifd :: sock
  in_nxt :: ptr
  in_init :: "int list"
  in_wds :: "int list"
  in_reads :: "iread list"
  in_opens :: "int list"
  in_unwatched :: "int list"
  in_calls :: "(fnptr \<times> int \<times> cb_arg) list"
  in_closed :: "sock list"

definition in_call :: "fnptr \<Rightarrow> int \<Rightarrow> cb_arg \<Rightarrow> iw \<Rightarrow> iw" where
  "in_call fn ev a w = w\<lparr>in_calls := in_calls w @ [(fn, ev, a)]\<rparr>"

definition inotify_add_watch :: "iw \<Rightarrow> int \<times> iw" where
  "inotify_add_watch w = (case in_wds w of [] \<Rightarrow> (-1, w) | x # xs \<Rightarrow> (x, w\<lparr>in_wds := xs\<rparr>))"

definition inotify_rm_watch :: "int \<Rightarrow> iw \<Rightarrow> iw" where
  "inotify_rm_watch wd w = w\<lparr>in_unwatched := in_unwatched w @ [wd]\<rparr>"

definition call_open :: "fnptr \<Rightarrow> iw \<Rightarrow> int \<times> iw" where
  "call_open f w = (case in_opens w of [] \<Rightarrow> (0, w) | x # xs \<Rightarrow> (x, w\<lparr>in_opens := xs\<rparr>))"

subsection \<open>Names of events\<close>

definition iev_names :: "(int \<times> string) list" where
  "iev_names = [(1, ''IN_ACCESS | ''), (2, ''IN_MODIFY | ''), (4, ''IN_ATTRIB | ''), (8, ''IN_CLOSE_WRITE | ''),
     (16, ''IN_CLOSE_NOWRITE | ''), (24, ''IN_CLOSE | ''), (32, ''IN_OPEN | ''), (64, ''IN_MOVED_FROM | ''), (256, ''IN_CREATE | ''),
     (512, ''IN_DELETE | ''), (1024, ''IN_DELETE_SELF | ''), (2048, ''IN_MOVE_SELF | ''), (8192, ''IN_UNMOUNT | ''),
     (16384, ''IN_Q_OVERFLOW | ''), (32768, ''IN_IGNORED | '')]"

text \<open>The two characters before the end are cut off.\<close>

definition hp_inotify_iev_to_str :: "int \<Rightarrow> string" where
  "hp_inotify_iev_to_str iev =
     (let buf = concat (map (\<lambda>(m, name). if and iev m \<noteq> 0 then name else []) iev_names)
      in if 2 \<le> length buf then take (length buf - 2) buf else buf)"

subsection \<open>Entries\<close>

definition hp_inotify_init :: "bool \<Rightarrow> ptr \<Rightarrow> iw \<Rightarrow> int \<times> iw" where
  "hp_inotify_init has dl w =
     (if \<not> has then (-1, w)
      else
        let w = w\<lparr>in_has_epo := True, in_ients := [], in_ifd := 0\<rparr>;
            fd = (case in_init w of [] \<Rightarrow> -1 | x # _ \<Rightarrow> x); w = w\<lparr>in_init := tl (in_init w)\<rparr>
        in if fd = -1 then (-1, w)
           else case hp_epoll_add fd (EPOLLIN + EPOLL_ET) HANDLE_II NULL dl (in_ep w) of
             (rc, ep) \<Rightarrow> (if rc \<noteq> 0 then -1 else 0, w\<lparr>in_ifd := fd, in_ep := ep\<rparr>))"

text \<open>The descriptor the client opens is not kept.\<close>

definition hp_inotify_add :: "string option \<Rightarrow> fnptr \<Rightarrow> fnptr \<Rightarrow> ptr \<Rightarrow> iw \<Rightarrow> int \<times> iw" where
  "hp_inotify_add path opn fn d w =
     (case path of None \<Rightarrow> (-1, w)
      | Some p \<Rightarrow>
        if p = [] \<or> fn = NULL then (-1, w)
        else case inotify_add_watch w of (wd, w) \<Rightarrow>
          if wd = -1 then (-2, w)
          else
            let (fd, w) = (if opn \<noteq> NULL then call_open opn w else (0, w))
            in (0, w\<lparr>in_nxt := in_nxt w + 1,
                     in_ients := in_ients w @ [\<lparr>ie_ptr = in_nxt w, ie_fd = 0, ie_wd = wd, ie_path = p, ie_open = opn, ie_fn = fn, ie_d = d\<rparr>]\<rparr>))"

text \<open>The name is compared over its own length: it matches every path it is a prefix of.\<close>

definition cmp_by_name :: "string \<Rightarrow> hp_inotify_ient \<Rightarrow> bool" where
  "cmp_by_name key e \<longleftrightarrow> take (length key) (ie_path e) = key"

definition hp_inotify_del :: "string option \<Rightarrow> iw \<Rightarrow> int \<times> iw" where
  "hp_inotify_del dlname w =
     (case dlname of None \<Rightarrow> (0, w)
      | Some name \<Rightarrow>
        if name = [] then (0, w)
        else case lfind_idx (cmp_by_name name) (in_ients w) of
          None \<Rightarrow> (-1, w)
        | Some i \<Rightarrow>
            let e = in_ients w ! i;
                w = in_call (ie_fn e) EPOLLERR (Arg_ient (ie_ptr e)) (inotify_rm_watch (ie_wd e) w)
            in (0, w\<lparr>in_ients := del_at i (in_ients w)\<rparr>))"

definition hp_inotify_uninit :: "iw \<Rightarrow> iw" where
  "hp_inotify_uninit w =
     (let w = fold (\<lambda>e w. in_call (ie_fn e) EPOLLERR Arg_dl (inotify_rm_watch (ie_wd e) w)) (in_ients w) w;
          w = w\<lparr>in_ients := []\<rparr>
      in if 0 < in_ifd w then w\<lparr>in_closed := in_closed w @ [in_ifd w]\<rparr> else w)"

subsection \<open>Events\<close>

definition hp_inotify_all :: "int \<Rightarrow> iw \<Rightarrow> iw" where
  "hp_inotify_all events w =
     fold (\<lambda>i w. in_call (ie_fn (in_ients w ! i)) events (Arg_slot i) w) [0..<length (in_ients w)] w"

text \<open>Entries without a watch get one as soon as their file exists. Only the tests pass this to the loop.\<close>

definition epoll_before_wait :: "string set \<Rightarrow> iw \<Rightarrow> iw" where
  "epoll_before_wait files w =
     fold (\<lambda>i w. let e = in_ients w ! i in
       if ie_wd e \<noteq> 0 \<or> ie_path e \<notin> files then w
       else case inotify_add_watch w of (wd, w) \<Rightarrow>
         if wd = -1 then w
         else
           let w = w\<lparr>in_ients := (in_ients w)[i := e\<lparr>ie_wd := wd\<rparr>]\<rparr>
           in if ie_open e = NULL then w
              else case call_open (ie_open e) w of (fd, w) \<Rightarrow>
                w\<lparr>in_ients := (in_ients w)[i := e\<lparr>ie_wd := wd, ie_fd := (if 0 < fd then fd else 0)\<rparr>]\<rparr>)
       [0..<length (in_ients w)] w"

text \<open>One event, offered to entry number \<open>i\<close>.\<close>

definition iread_entry :: "string set \<Rightarrow> int \<times> int \<Rightarrow> nat \<Rightarrow> iw \<Rightarrow> iw" where
  "iread_entry files ev i w =
     (let e = in_ients w ! i in
      if fst ev \<noteq> ie_wd e then w
      else if ie_path e \<notin> files then
        (inotify_rm_watch (fst ev) w)\<lparr>in_ients := (in_ients w)[i := e\<lparr>ie_wd := 0\<rparr>]\<rparr>
      else if and (snd ev) IN_MODIFY \<noteq> 0 then in_call (ie_fn e) EPOLLIN (Arg_slot i) w
      else w)"

definition iread_event :: "string set \<Rightarrow> int \<times> int \<Rightarrow> iw \<Rightarrow> iw" where
  "iread_event files ev w = fold (iread_entry files ev) [0..<length (in_ients w)] w"

text \<open>
  Reads until there are no more events. \<open>EINTR\<close> is waited for in a loop that does not read again: it never
  ends. Other errors fail an assertion.
\<close>

function hp_inotify_iread_event :: "iw \<Rightarrow> (int \<times> iw) outcome" where
  "hp_inotify_iread_event w =
     (case in_reads w of
        [] \<Rightarrow> Done (0, w)
      | I_err e # rs \<Rightarrow>
          let w = w\<lparr>in_reads := rs\<rparr>
          in if e = EINTR then Blocked (0, w) else if e = EAGAIN then Done (0, w) else Undef
      | I_events files evs # rs \<Rightarrow>
          if evs = [] then Undef
          else hp_inotify_iread_event (fold (iread_event files) evs (w\<lparr>in_reads := rs\<rparr>)))"
  by pat_completeness auto

lemma iread_entry_frame:
  "in_reads (iread_entry files ev i w) = in_reads w \<and> length (in_ients (iread_entry files ev i w)) = length (in_ients w) \<and>
   in_ep (iread_entry files ev i w) = in_ep w"
  by (simp add: iread_entry_def Let_def inotify_rm_watch_def in_call_def)

lemma iread_entries_frame:
  "in_reads (fold (iread_entry files ev) is w) = in_reads w \<and>
   length (in_ients (fold (iread_entry files ev) is w)) = length (in_ients w) \<and> in_ep (fold (iread_entry files ev) is w) = in_ep w"
  by (induction "is" arbitrary: w) (simp_all add: iread_entry_frame)

lemma iread_events_frame:
  "in_reads (fold (iread_event files) evs w) = in_reads w \<and>
   length (in_ients (fold (iread_event files) evs w)) = length (in_ients w) \<and> in_ep (fold (iread_event files) evs w) = in_ep w"
  by (induction evs arbitrary: w) (simp_all add: iread_event_def iread_entries_frame)

termination hp_inotify_iread_event
  by (relation "measure (\<lambda>w. length (in_reads w))") (simp_all add: iread_events_frame)

declare hp_inotify_iread_event.simps [simp del]

definition epoll_dl_handle_ii :: "int \<Rightarrow> iw \<Rightarrow> (int \<times> iw) outcome" where
  "epoll_dl_handle_ii events w =
     (if and events EPOLLERR \<noteq> 0 then
        (let w = hp_inotify_all EPOLLERR w
         in Done (0, w\<lparr>in_ep := snd (hp_epoll_rm (in_ifd w) (in_ep w)), in_closed := in_closed w @ [in_ifd w], in_ifd := 0\<rparr>))
      else if and events EPOLLIN \<noteq> 0 then
        (case hp_inotify_iread_event w of Done (rc, w) \<Rightarrow> Done (0, w) | r \<Rightarrow> r)
      else Done (0, w))"

subsection \<open>Who is called\<close>

text \<open>The calls a batch of events asks for: each event, each entry with its watch, when it says the file was modified.\<close>

definition batch_calls :: "hp_inotify_ient list \<Rightarrow> (int \<times> int) list \<Rightarrow> (fnptr \<times> int \<times> cb_arg) list" where
  "batch_calls es evs = concat (map (\<lambda>ev.
     map (\<lambda>i. (ie_fn (es ! i), EPOLLIN, Arg_slot i))
       (filter (\<lambda>i. ie_wd (es ! i) = fst ev \<and> and (snd ev) IN_MODIFY \<noteq> 0) [0..<length es])) evs)"

lemma iread_entries_calls:
  assumes "\<forall>e \<in> set (in_ients w). ie_path e \<in> files" and "\<forall>i \<in> set is. i < length (in_ients w)"
  shows "fold (iread_entry files ev) is w = w\<lparr>in_calls := in_calls w @
    map (\<lambda>i. (ie_fn (in_ients w ! i), EPOLLIN, Arg_slot i))
      (filter (\<lambda>i. ie_wd (in_ients w ! i) = fst ev \<and> and (snd ev) IN_MODIFY \<noteq> 0) is)\<rparr>"
  using assms
proof (induction "is" arbitrary: w)
  case (Cons i "is")
  have "ie_path (in_ients w ! i) \<in> files" using Cons.prems by simp
  then have e: "iread_entry files ev i w =
      (if ie_wd (in_ients w ! i) = fst ev \<and> and (snd ev) IN_MODIFY \<noteq> 0 then in_call (ie_fn (in_ients w ! i)) EPOLLIN (Arg_slot i) w else w)"
    by (simp add: iread_entry_def Let_def)
  have "in_ients (iread_entry files ev i w) = in_ients w" by (simp add: e in_call_def)
  with Cons.IH [of "iread_entry files ev i w"] Cons.prems show ?case by (simp add: e in_call_def)
qed simp

lemma iread_events_calls:
  assumes "\<forall>e \<in> set (in_ients w). ie_path e \<in> files"
  shows "fold (iread_event files) evs w = w\<lparr>in_calls := in_calls w @ batch_calls (in_ients w) evs\<rparr>"
  using assms
proof (induction evs arbitrary: w)
  case (Cons ev evs)
  have e: "iread_event files ev w = w\<lparr>in_calls := in_calls w @ batch_calls (in_ients w) [ev]\<rparr>"
    using iread_entries_calls [of w files "[0..<length (in_ients w)]" ev] Cons.prems
    by (simp add: iread_event_def batch_calls_def)
  have "in_ients (iread_event files ev w) = in_ients w" by (simp add: e)
  with Cons.IH [of "iread_event files ev w"] Cons.prems show ?case by (simp add: e batch_calls_def)
qed (simp add: batch_calls_def)

text \<open>
  C26: A wake-up of the inotify descriptor calls, for each event of each read and in that order, the callback of
  every entry with the event's watch when the file was modified, and no other, as long as the files exist
  and no read is interrupted.
\<close>

theorem hp_inotify_calls:
  assumes "in_reads w = map (\<lambda>(files, evs). I_events files evs) batches @ rest" and "rest = [] \<or> hd rest = I_err EAGAIN"
    and "\<forall>(files, evs) \<in> set batches. evs \<noteq> [] \<and> (\<forall>e \<in> set (in_ients w). ie_path e \<in> files)"
    and "and events EPOLLERR = 0" and "and events EPOLLIN \<noteq> 0"
  shows "epoll_dl_handle_ii events w =
    Done (0, w\<lparr>in_reads := tl rest, in_calls := in_calls w @ concat (map (\<lambda>(files, evs). batch_calls (in_ients w) evs) batches)\<rparr>)"
proof -
  have "hp_inotify_iread_event w =
      Done (0, w\<lparr>in_reads := tl rest, in_calls := in_calls w @ concat (map (\<lambda>(files, evs). batch_calls (in_ients w) evs) batches)\<rparr>)"
    using assms(1,3)
  proof (induction batches arbitrary: w)
    case Nil
    then show ?case using assms(2) by (cases rest) (auto simp: hp_inotify_iread_event.simps [of w])
  next
    case (Cons b bs)
    obtain files evs where b: "b = (files, evs)" by (cases b)
    let ?w = "fold (iread_event files) evs (w\<lparr>in_reads := map (\<lambda>(files, evs). I_events files evs) bs @ rest\<rparr>)"
    have w: "?w = w\<lparr>in_reads := map (\<lambda>(files, evs). I_events files evs) bs @ rest, in_calls := in_calls w @ batch_calls (in_ients w) evs\<rparr>"
      using Cons.prems(2) b by (subst iread_events_calls) simp_all
    have "hp_inotify_iread_event w = hp_inotify_iread_event ?w"
      using Cons.prems b by (simp add: hp_inotify_iread_event.simps [of w])
    also have "\<dots> = Done (0, ?w\<lparr>in_reads := tl rest, in_calls := in_calls ?w @ concat (map (\<lambda>(files, evs). batch_calls (in_ients ?w) evs) bs)\<rparr>)"
      using Cons.prems(2) by (intro Cons.IH) (simp_all add: w)
    finally show ?case by (simp add: w b)
  qed
  then show ?thesis using assms(4,5) by (simp add: epoll_dl_handle_ii_def)
qed

definition iw_example :: iw where
  "iw_example = \<lparr>in_ep = \<lparr>epo = None, heap = Map.empty, kint = Map.empty, nxt = 1, ep_errno = 0, inject = []\<rparr>, in_has_epo = True,
     in_ients = [\<lparr>ie_ptr = 1, ie_fd = 0, ie_wd = 1, ie_path = ''/a'', ie_open = 0, ie_fn = 5, ie_d = 0\<rparr>,
                 \<lparr>ie_ptr = 2, ie_fd = 0, ie_wd = 2, ie_path = ''/b'', ie_open = 0, ie_fn = 6, ie_d = 0\<rparr>],
     in_ifd = 3, in_nxt = 3, in_init = [], in_wds = [], in_reads = [I_events {''/a'', ''/b''} [(2, 2), (1, 1), (1, 2)]], in_opens = [],
     in_unwatched = [], in_calls = [], in_closed = []\<rparr>"

theorem hp_inotify_calls_witness:
  "\<exists>w'. epoll_dl_handle_ii EPOLLIN iw_example = Done (0, w') \<and> in_calls w' = [(6, EPOLLIN, Arg_slot 1), (5, EPOLLIN, Arg_slot 0)]"
proof -
  have "[0..<2] = [0, 1::nat]" by (simp add: upt_rec)
  then show ?thesis
    using hp_inotify_calls [of iw_example "[({''/a'', ''/b''}, [(2, 2), (1, 1), (1, 2)])]" "[]" EPOLLIN]
    by (simp add: iw_example_def batch_calls_def)
qed

text \<open>After the object is gone its descriptor, closed by then, is still in the loop with a callback into it.\<close>

lemma hp_inotify_uninit_loop: "in_ep (hp_inotify_uninit w) = in_ep w"
proof -
  have "in_ep (fold (\<lambda>e w. in_call (ie_fn e) EPOLLERR Arg_dl (inotify_rm_watch (ie_wd e) w)) es w) = in_ep w" for es
    by (induction es arbitrary: w) (simp_all add: in_call_def inotify_rm_watch_def)
  then show ?thesis by (simp add: hp_inotify_uninit_def Let_def)
qed

text \<open>A name takes out the first entry whose path starts with it.\<close>

lemma hp_inotify_del_prefix:
  assumes "name \<noteq> []" and "in_ients w = e # es" and "ie_path e = name @ rest"
  shows "fst (hp_inotify_del (Some name) w) = 0 \<and> in_ients (snd (hp_inotify_del (Some name) w)) = es"
  using assms by (simp add: hp_inotify_del_def cmp_by_name_def Let_def in_call_def inotify_rm_watch_def del_at_def)

end
