(* ===== verification/Hp_Dl.thy ===== *)
theory Hp_Dl
  imports Hp_Inotify
begin

section \<open>hp\_dl: shared objects loaded again when their file changes\<close>

text \<open>
  Models \<open>src/hp_dl.c\<close>, which is compiled under \<open>LIBHP_DEPRECADTED\<close>. The object holds an array of
  \<open>IENT_MAX + 1\<close> entries of which the first \<open>ient_len\<close> are used; the search for an event's entry has no other
  end than the first entry without a file. The dynamic linker, \<open>stat\<close> and inotify answer from scripts;
  handles, watches and descriptors that are given back are logged. \<open>hp_epoll_add\<close> and \<open>hp_epoll_del\<close> belong
  to a former event loop which is no longer in the repository: their calls
  are logged, \<open>True\<close> for the first, and the first answers from a script.
  An assertion that fails is \<open>Undef\<close>. \<open>sdsnew\<close> of no text is the empty text.
\<close>

abbreviation (input) RTLD_LAZY :: int where "RTLD_LAZY \<equiv> 1"
abbreviation (input) EBADF :: int where "EBADF \<equiv> 9"

record hp_dl_ient =
  dle_hdl :: ptr
  dle_addr :: ptr
  dle_wd :: int
  dle_name :: "string option"
  dle_file :: "string option"
  dle_mtime1 :: int
  dle_mtime2 :: int
  dle_reload :: "string option"

definition dl_zero :: hp_dl_ient where
  "dl_zero = \<lparr>dle_hdl = NULL, dle_addr = NULL, dle_wd = 0, dle_name = None, dle_file = None,
     dle_mtime1 = 0, dle_mtime2 = 0, dle_reload = None\<rparr>"

datatype dl_read = DR_events "(int \<times> int) list" | DR_err int

record hp_dl =
  dl_ients :: "hp_dl_ient list"
  dl_ient_len :: nat
  dl_IENT_MAX :: nat
  dl_ifd :: sock
  dl_loop :: "(bool \<times> sock) list"
  dl_inits :: "int list"
  dl_adds :: "int list"
  dl_wds :: "int list"
  dl_reads :: "dl_read list"
  dl_opens :: "ptr list"
  dl_stats :: "int option list"
  dl_sym :: "ptr \<Rightarrow> string \<Rightarrow> bool"
  dl_rcs :: "int list"
  dl_opened :: "(string \<times> int) list"
  dl_loaded :: "ptr list"
  dl_unloaded :: "ptr list"
  dl_calls :: "(string \<times> ptr \<times> ptr) list"
  dl_unwatched :: "int list"
  dl_closed :: "sock list"
  dl_slept :: nat

subsection \<open>The system\<close>

definition handles :: "ptr list \<Rightarrow> ptr list" where
  "handles hs = filter (\<lambda>h. h \<noteq> NULL) hs"

lemma handles_simps [simp]:
  "handles [] = []" "handles (h # hs) = (if h = NULL then handles hs else h # handles hs)" "handles (hs @ ks) = handles hs @ handles ks"
  by (simp_all add: handles_def)

definition dl_dlopen :: "string \<Rightarrow> int \<Rightarrow> hp_dl \<Rightarrow> ptr \<times> hp_dl" where
  "dl_dlopen file mode w =
     (let w = w\<lparr>dl_opened := dl_opened w @ [(file, mode)]\<rparr>
      in case dl_opens w of [] \<Rightarrow> (NULL, w) | h # hs \<Rightarrow> (h, w\<lparr>dl_opens := hs, dl_loaded := dl_loaded w @ handles [h]\<rparr>))"

definition dl_stat :: "hp_dl \<Rightarrow> int option \<times> hp_dl" where
  "dl_stat w = (case dl_stats w of [] \<Rightarrow> (None, w) | t # ts \<Rightarrow> (t, w\<lparr>dl_stats := ts\<rparr>))"

definition dl_call :: "string \<Rightarrow> ptr \<Rightarrow> ptr \<Rightarrow> hp_dl \<Rightarrow> int \<times> hp_dl" where
  "dl_call f addr hdl w =
     (let w = w\<lparr>dl_calls := dl_calls w @ [(f, addr, hdl)]\<rparr>
      in case dl_rcs w of [] \<Rightarrow> (0, w) | x # xs \<Rightarrow> (x, w\<lparr>dl_rcs := xs\<rparr>))"

text \<open>A descriptor that was closed is no longer an inotify descriptor.\<close>

definition dl_add_watch :: "sock \<Rightarrow> hp_dl \<Rightarrow> int \<times> hp_dl" where
  "dl_add_watch fd w =
     (if fd \<in> set (dl_closed w) then (-1, w)
      else case dl_wds w of [] \<Rightarrow> (-1, w) | x # xs \<Rightarrow> (x, w\<lparr>dl_wds := xs\<rparr>))"

definition dl_rm_watch :: "int \<Rightarrow> hp_dl \<Rightarrow> hp_dl" where
  "dl_rm_watch wd w = w\<lparr>dl_unwatched := dl_unwatched w @ [wd]\<rparr>"

definition dl_close :: "sock \<Rightarrow> hp_dl \<Rightarrow> hp_dl" where
  "dl_close fd w = w\<lparr>dl_closed := dl_closed w @ [fd]\<rparr>"

definition dl_set :: "nat \<Rightarrow> hp_dl_ient \<Rightarrow> hp_dl \<Rightarrow> hp_dl" where
  "dl_set i e w = w\<lparr>dl_ients := (dl_ients w)[i := e]\<rparr>"

definition dl_unload :: "ptr \<Rightarrow> hp_dl \<Rightarrow> hp_dl" where
  "dl_unload hdl w = w\<lparr>dl_unloaded := dl_unloaded w @ handles [hdl]\<rparr>"

subsection \<open>Loading\<close>

text \<open>One try every hundredth of a second until the time is used up; \<open>left\<close> counts microseconds.\<close>

function dl_open_loop :: "string \<Rightarrow> int \<Rightarrow> int \<Rightarrow> hp_dl \<Rightarrow> ptr \<times> hp_dl" where
  "dl_open_loop file mode left w =
     (case dl_dlopen file (if mode \<le> 0 then RTLD_LAZY else mode) w of (hdl, w) \<Rightarrow>
        if hdl \<noteq> NULL then (hdl, w)
        else if left \<le> 0 then (NULL, w)
        else dl_open_loop file mode (left - 10 * 1000) (w\<lparr>dl_slept := dl_slept w + 10 * 1000\<rparr>))"
  by pat_completeness auto
termination
  by (relation "measure (\<lambda>(file, mode, left, w). nat left)") auto

declare dl_open_loop.simps [simp del]

definition hp_dl_open :: "string option \<Rightarrow> int \<Rightarrow> int \<Rightarrow> hp_dl \<Rightarrow> ptr \<times> hp_dl" where
  "hp_dl_open file mode timeout w =
     (case file of None \<Rightarrow> (NULL, w) | Some f \<Rightarrow> dl_open_loop f mode (timeout * 1000 * 1000) w)"

definition hp_dl_reopen :: "nat \<Rightarrow> hp_dl \<Rightarrow> (int \<times> hp_dl) outcome" where
  "hp_dl_reopen i w =
     (let e = dl_ients w ! i;
          w = (if dle_hdl e \<noteq> NULL then dl_set i (e\<lparr>dle_hdl := NULL\<rparr>) (dl_unload (dle_hdl e) w) else w);
          w = w\<lparr>dl_slept := dl_slept w + 2 * 1000 * 1000\<rparr>
      in case hp_dl_open (dle_file e) RTLD_LAZY 10 w of (hdl, w) \<Rightarrow>
        if hdl = NULL then Done (-1, w)
        else case dl_stat w of (st, w) \<Rightarrow>
          let e = (case st of None \<Rightarrow> e | Some t \<Rightarrow> e\<lparr>dle_mtime2 := dle_mtime1 e, dle_mtime1 := t\<rparr>);
              w = dl_set i (e\<lparr>dle_hdl := hdl\<rparr>) w
          in case dle_reload e of
               None \<Rightarrow> Done (0, w)
             | Some f \<Rightarrow> if dl_sym w hdl f then Done (dl_call f (dle_addr e) hdl w) else Undef)"

text \<open>The entries one after the other, until one cannot be loaded or its function reports an error.\<close>

primrec dl_reload_loop :: "nat \<Rightarrow> nat \<Rightarrow> hp_dl \<Rightarrow> (int \<times> hp_dl) outcome" where
  "dl_reload_loop 0 i w = Done (0, w)"
| "dl_reload_loop (Suc n) i w =
     (case hp_dl_reopen i w of
        Done (rc, w) \<Rightarrow> if rc \<noteq> 0 then Done (-3, w) else dl_reload_loop n (Suc i) w
      | r \<Rightarrow> r)"

definition hp_dl_reload :: "hp_dl \<Rightarrow> (int \<times> hp_dl) outcome" where
  "hp_dl_reload w = dl_reload_loop (dl_ient_len w) 0 w"

text \<open>What loading leaves alone.\<close>

lemma dl_dlopen_frame:
  "dl_dlopen f mode w = (hdl, w') \<Longrightarrow>
   \<exists>os hs. w' = w\<lparr>dl_opened := os, dl_opens := hs, dl_loaded := dl_loaded w @ handles [hdl]\<rparr>"
  by (auto simp: dl_dlopen_def Let_def split: list.splits)
    (metis hp_dl.surjective hp_dl.update_convs(10) hp_dl.update_convs(14) hp_dl.update_convs(15))+

lemma dl_open_loop_frame:
  "dl_open_loop f mode left w = (hdl, w') \<Longrightarrow>
   \<exists>os hs sl. w' = w\<lparr>dl_opened := os, dl_opens := hs, dl_loaded := dl_loaded w @ handles [hdl], dl_slept := sl\<rparr>"
proof (induction f mode left w arbitrary: hdl w' rule: dl_open_loop.induct)
  case (1 f mode left w)
  obtain h w1 where o1: "dl_dlopen f (if mode \<le> 0 then RTLD_LAZY else mode) w = (h, w1)"
    by (cases "dl_dlopen f (if mode \<le> 0 then RTLD_LAZY else mode) w")
  from dl_dlopen_frame [OF this] obtain os hs
    where w1: "w1 = w\<lparr>dl_opened := os, dl_opens := hs, dl_loaded := dl_loaded w @ handles [h]\<rparr>" by blast
  show ?case
  proof (cases "h \<noteq> NULL \<or> left \<le> 0")
    case True
    then have "hdl = h \<and> w' = w1"
      using "1.prems" o1 by (auto simp: dl_open_loop.simps [of f mode left w] split: if_splits)
    then have "w' = w\<lparr>dl_opened := os, dl_opens := hs, dl_loaded := dl_loaded w @ handles [hdl], dl_slept := dl_slept w\<rparr>"
      by (simp add: w1)
    then show ?thesis by blast
  next
    case False
    then have "dl_open_loop f mode (left - 10 * 1000) (w1\<lparr>dl_slept := dl_slept w1 + 10 * 1000\<rparr>) = (hdl, w')"
      using "1.prems" o1 by (simp add: dl_open_loop.simps [of f mode left w])
    with "1.IH" [OF o1 [symmetric]] False obtain os' hs' sl where
      "w' = w1\<lparr>dl_opened := os', dl_opens := hs', dl_loaded := dl_loaded w1 @ handles [hdl], dl_slept := sl\<rparr>" by fastforce
    then have "w' = w\<lparr>dl_opened := os', dl_opens := hs', dl_loaded := dl_loaded w @ handles [hdl], dl_slept := sl\<rparr>"
      using False by (simp add: w1)
    then show ?thesis by blast
  qed
qed

lemma hp_dl_open_frame:
  "hp_dl_open f mode timeout w = (hdl, w') \<Longrightarrow>
   \<exists>os hs sl. w' = w\<lparr>dl_opened := os, dl_opens := hs, dl_loaded := dl_loaded w @ handles [hdl], dl_slept := sl\<rparr>"
proof (cases f)
  case None
  assume "hp_dl_open f mode timeout w = (hdl, w')"
  then have "w' = w\<lparr>dl_opened := dl_opened w, dl_opens := dl_opens w, dl_loaded := dl_loaded w @ handles [hdl], dl_slept := dl_slept w\<rparr>"
    using None by (simp add: hp_dl_open_def)
  then show ?thesis by blast
next
  case (Some g)
  assume "hp_dl_open f mode timeout w = (hdl, w')"
  then have "dl_open_loop g mode (timeout * 1000 * 1000) w = (hdl, w')"
    using Some by (simp add: hp_dl_open_def)
  then show ?thesis by (rule dl_open_loop_frame)
qed

text \<open>
  What loading an entry again does: the handle it had is given back, the handle it gets is the one the
  dynamic linker gave, and nothing that the table is searched by changes.
\<close>

definition dl_same_key :: "hp_dl_ient \<Rightarrow> hp_dl_ient \<Rightarrow> bool" where
  "dl_same_key e e' \<longleftrightarrow> dle_name e' = dle_name e \<and> dle_file e' = dle_file e \<and> dle_reload e' = dle_reload e \<and>
     dle_wd e' = dle_wd e \<and> dle_addr e' = dle_addr e"

definition dl_same_world :: "hp_dl \<Rightarrow> hp_dl \<Rightarrow> bool" where
  "dl_same_world w w' \<longleftrightarrow> dl_ient_len w' = dl_ient_len w \<and> dl_IENT_MAX w' = dl_IENT_MAX w \<and> dl_ifd w' = dl_ifd w \<and>
     dl_loop w' = dl_loop w \<and> dl_wds w' = dl_wds w \<and> dl_reads w' = dl_reads w \<and> dl_sym w' = dl_sym w \<and>
     dl_unwatched w' = dl_unwatched w \<and> dl_closed w' = dl_closed w"

lemma hp_dl_reopen_effect:
  assumes "hp_dl_reopen i w = Done (rc, w')" and "i < length (dl_ients w)"
  shows "\<exists>e. dl_ients w' = (dl_ients w)[i := e] \<and> dl_same_key (dl_ients w ! i) e \<and> dl_same_world w w' \<and>
    dl_loaded w' = dl_loaded w @ handles [dle_hdl e] \<and> dl_unloaded w' = dl_unloaded w @ handles [dle_hdl (dl_ients w ! i)]"
proof -
  define e where "e = dl_ients w ! i"
  define w1 where "w1 = (if dle_hdl e \<noteq> NULL then dl_set i (e\<lparr>dle_hdl := NULL\<rparr>) (dl_unload (dle_hdl e) w) else w)"
  define w2 where "w2 = w1\<lparr>dl_slept := dl_slept w1 + 2 * 1000 * 1000\<rparr>"
  have w2: "dl_same_world w w2" "dl_ients w2 = (dl_ients w)[i := e\<lparr>dle_hdl := NULL\<rparr>]" "dl_loaded w2 = dl_loaded w"
    "dl_unloaded w2 = dl_unloaded w @ handles [dle_hdl e]"
    by (auto simp: w2_def w1_def dl_same_world_def dl_set_def dl_unload_def e_def)
      (metis hp_dl_ient.surjective hp_dl_ient.update_convs(1) list_update_id)
  obtain hdl w3 where o: "hp_dl_open (dle_file e) RTLD_LAZY 10 w2 = (hdl, w3)" by (cases "hp_dl_open (dle_file e) RTLD_LAZY 10 w2")
  from hp_dl_open_frame [OF this] have w3: "dl_same_world w2 w3" "dl_ients w3 = dl_ients w2"
    "dl_loaded w3 = dl_loaded w2 @ handles [hdl]" "dl_unloaded w3 = dl_unloaded w2"
    by (auto simp: dl_same_world_def)
  obtain st w4 where st: "dl_stat w3 = (st, w4)" by (cases "dl_stat w3")
  then have w4: "dl_same_world w3 w4" "dl_ients w4 = dl_ients w3" "dl_loaded w4 = dl_loaded w3" "dl_unloaded w4 = dl_unloaded w3"
    by (auto simp: dl_stat_def dl_same_world_def split: list.splits)
  define e' where "e' = (case st of None \<Rightarrow> e | Some t \<Rightarrow> e\<lparr>dle_mtime2 := dle_mtime1 e, dle_mtime1 := t\<rparr>)\<lparr>dle_hdl := hdl\<rparr>"
  have k: "dl_same_key e e'" "dle_hdl e' = hdl" by (auto simp: e'_def dl_same_key_def split: option.splits)
  have r: "Done (rc, w') = (if hdl = NULL then Done (-1, w3)
    else case dle_reload e of None \<Rightarrow> Done (0, dl_set i e' w4)
      | Some f \<Rightarrow> if dl_sym (dl_set i e' w4) hdl f then Done (dl_call f (dle_addr e) hdl (dl_set i e' w4)) else Undef)"
    using assms(1) o st
    by (auto simp: hp_dl_reopen_def w1_def w2_def e_def e'_def Let_def dl_same_world_def
        split: if_splits option.splits)
  show ?thesis
  proof (cases "hdl = NULL")
    case True
    then show ?thesis
      using r w2 w3 by (intro exI [of _ "e\<lparr>dle_hdl := NULL\<rparr>"]) (auto simp: e_def dl_same_key_def dl_same_world_def)
  next
    case False
    then show ?thesis
      using r w2 w3 w4 k
      by (intro exI [of _ e'])
        (auto simp: e_def dl_same_world_def dl_set_def dl_call_def Let_def split: option.splits if_splits list.splits)
  qed
qed

subsection \<open>Events\<close>

text \<open>The entry gets a new watch; without one the descriptor is closed, and the scan goes on.\<close>

definition dl_rewatch :: "sock \<Rightarrow> int \<Rightarrow> nat \<Rightarrow> hp_dl \<Rightarrow> hp_dl" where
  "dl_rewatch fd evwd i w =
     (case dl_add_watch fd (dl_rm_watch evwd w) of (wd, w) \<Rightarrow>
        if wd = -1 then (dl_close fd w)\<lparr>dl_ifd := 0\<rparr>
        else dl_set i ((dl_ients w ! i)\<lparr>dle_wd := wd\<rparr>) w)"

lemma dl_rewatch_length [simp]: "length (dl_ients (dl_rewatch fd evwd i w)) = length (dl_ients w)"
  and dl_rewatch_reads [simp]: "dl_reads (dl_rewatch fd evwd i w) = dl_reads w"
  by (auto simp: dl_rewatch_def dl_add_watch_def dl_rm_watch_def dl_close_def dl_set_def split: list.splits if_splits)

text \<open>One event against the entries from number \<open>i\<close> on; the event's mask is only logged.\<close>

function dl_scan :: "sock \<Rightarrow> int \<Rightarrow> nat \<Rightarrow> hp_dl \<Rightarrow> hp_dl outcome" where
  "dl_scan fd evwd i w =
     (if length (dl_ients w) \<le> i then Undef
      else if dle_file (dl_ients w ! i) = None then Done w
      else if evwd \<noteq> dle_wd (dl_ients w ! i) then dl_scan fd evwd (Suc i) w
      else case hp_dl_reopen i w of
             Done (rc, w) \<Rightarrow> dl_scan fd evwd (Suc i) (dl_rewatch fd evwd i w)
           | _ \<Rightarrow> Undef)"
  by pat_completeness auto
termination
proof (relation "measure (\<lambda>(fd, evwd, i, w). length (dl_ients w) - i)")
  fix fd evwd i w x rc w'
  assume a: "\<not> length (dl_ients w) \<le> i" "hp_dl_reopen i w = Done x" "(rc, w') = x"
  then have "length (dl_ients w') = length (dl_ients w)" using hp_dl_reopen_effect [of i w rc w'] by auto
  then show "((fd, evwd, Suc i, dl_rewatch fd evwd i w'), (fd, evwd, i, w)) \<in> measure (\<lambda>(fd, evwd, i, w). length (dl_ients w) - i)"
    using a by auto
qed auto

declare dl_scan.simps [simp del]

primrec dl_scan_all :: "sock \<Rightarrow> (int \<times> int) list \<Rightarrow> hp_dl \<Rightarrow> hp_dl outcome" where
  "dl_scan_all fd [] w = Done w"
| "dl_scan_all fd (ev # evs) w =
     (case dl_scan fd (fst ev) 0 w of Done w \<Rightarrow> dl_scan_all fd evs w | r \<Rightarrow> r)"

lemma dl_scan_reads: "dl_scan fd evwd i w = Done w' \<Longrightarrow> dl_reads w' = dl_reads w"
proof (induction fd evwd i w arbitrary: w' rule: dl_scan.induct)
  case (1 fd evwd i w)
  show ?case
  proof (cases "length (dl_ients w) \<le> i \<or> dle_file (dl_ients w ! i) = None \<or> evwd \<noteq> dle_wd (dl_ients w ! i)")
    case True
    then show ?thesis using 1 by (auto simp: dl_scan.simps [of fd evwd i w] split: if_splits)
  next
    case False
    with "1.prems" obtain rc w1 where r: "hp_dl_reopen i w = Done (rc, w1)"
      and d: "dl_scan fd evwd (Suc i) (dl_rewatch fd evwd i w1) = Done w'"
      by (auto simp: dl_scan.simps [of fd evwd i w] split: outcome.splits)
    have "dl_reads w1 = dl_reads w" using hp_dl_reopen_effect [OF r] False by (auto simp: dl_same_world_def)
    with "1.IH"(2) [OF _ _ _ r refl d] False show ?thesis by simp
  qed
qed

lemma dl_scan_all_reads: "dl_scan_all fd evs w = Done w' \<Longrightarrow> dl_reads w' = dl_reads w"
  by (induction evs arbitrary: w) (auto simp: dl_scan_reads split: outcome.splits)

text \<open>The loop reads from the descriptor it started with, also when it was closed on the way.\<close>

definition dl_read :: "sock \<Rightarrow> hp_dl \<Rightarrow> dl_read \<times> hp_dl" where
  "dl_read fd w =
     (if fd \<in> set (dl_closed w) then (DR_err EBADF, w)
      else case dl_reads w of [] \<Rightarrow> (DR_err EAGAIN, w) | r # rs \<Rightarrow> (r, w\<lparr>dl_reads := rs\<rparr>))"

function dl_iread_loop :: "sock \<Rightarrow> hp_dl \<Rightarrow> (int \<times> hp_dl) outcome" where
  "dl_iread_loop fd w =
     (case dl_read fd w of
        (DR_err e, w) \<Rightarrow> if e \<noteq> EAGAIN then Done (-1, w) else Done (0, w)
      | (DR_events evs, w) \<Rightarrow>
          if evs = [] then Done (0, w)
          else case dl_scan_all fd evs w of
                 Done w \<Rightarrow> dl_iread_loop fd w
               | _ \<Rightarrow> Undef)"
  by pat_completeness auto
termination
  by (relation "measure (\<lambda>(fd, w). length (dl_reads w))")
    (auto simp: dl_read_def dl_scan_all_reads split: if_splits list.splits)

declare dl_iread_loop.simps [simp del]

definition hp_dl_iread_event :: "hp_dl \<Rightarrow> (int \<times> hp_dl) outcome" where
  "hp_dl_iread_event w = dl_iread_loop (dl_ifd w) w"

definition dl_drop_ifd :: "hp_dl \<Rightarrow> hp_dl" where
  "dl_drop_ifd w = (dl_close (dl_ifd w) (w\<lparr>dl_loop := dl_loop w @ [(False, dl_ifd w)]\<rparr>))\<lparr>dl_ifd := 0\<rparr>"

definition hp_dl_handle_ii :: "int \<Rightarrow> hp_dl \<Rightarrow> (int \<times> hp_dl) outcome" where
  "hp_dl_handle_ii events w =
     (if and events EPOLLERR \<noteq> 0 then Done (0, dl_drop_ifd w)
      else if and events EPOLLIN \<noteq> 0 then
        (case hp_dl_iread_event w of
           Done (rc, w) \<Rightarrow> if rc \<noteq> 0 then Done (0, dl_drop_ifd w) else Done (0, w)
         | r \<Rightarrow> r)
      else Done (0, w))"

text \<open>The names of the events of a mask in a buffer of \<open>len\<close> bytes, without the last separator.\<close>

definition hp_dl_iev_to_str :: "int \<Rightarrow> nat \<Rightarrow> string outcome" where
  "hp_dl_iev_to_str iev len =
     (if len = 0 then Undef
      else
        let text = concat (map (\<lambda>(m, name). if and iev m \<noteq> 0 then name else []) iev_names);
            n = length text; buf = take (len - 1) text
        in if buf \<noteq> [] \<and> 3 \<le> n then (if n - 3 < len then Done (take (n - 3) buf) else Undef)
           else Done buf)"

subsection \<open>Entries\<close>

definition hp_dl_add :: "string option \<Rightarrow> string option \<Rightarrow> string option \<Rightarrow> ptr \<Rightarrow> hp_dl \<Rightarrow> (int \<times> hp_dl) outcome" where
  "hp_dl_add dlpath dlname reload addr w =
     (case (dlpath, dlname) of
        (Some path, Some name) \<Rightarrow>
          if dl_ient_len w = dl_IENT_MAX w then Done (-1, w)
          else
            let i = dl_ient_len w;
                e = (dl_ients w ! i)\<lparr>dle_addr := addr, dle_reload := Some (case reload of None \<Rightarrow> [] | Some r \<Rightarrow> r),
                  dle_name := Some name, dle_file := Some (path @ ''/lib'' @ name @ ''.so'')\<rparr>;
                w = (dl_set i e w)\<lparr>dl_ient_len := i + 1\<rparr>
            in (case dl_add_watch (dl_ifd w) w of (wd, w) \<Rightarrow>
                  if wd = -1 then Done (-2, w)
                  else hp_dl_reopen i (dl_set i (e\<lparr>dle_wd := wd\<rparr>) w))
      | _ \<Rightarrow> Done (-1, w))"

text \<open>The names are compared over the length of the entry's name. Names of used entries are never \<open>NULL\<close>.\<close>

definition dl_match :: "string \<Rightarrow> hp_dl_ient \<Rightarrow> bool" where
  "dl_match dlname e = (case dle_name e of None \<Rightarrow> False | Some n \<Rightarrow> take (length n) dlname = n)"

definition dl_remove :: "nat \<Rightarrow> hp_dl \<Rightarrow> hp_dl" where
  "dl_remove i w =
     (let e = dl_ients w ! i;
          w = dl_unload (dle_hdl e) (dl_rm_watch (dle_wd e) w);
          n = dl_ient_len w;
          xs = (if i + 1 < n then mem_move i (i + 1) (n - (i + 1)) (dl_ients w) else dl_ients w)
      in w\<lparr>dl_ients := xs[n - 1 := dl_zero], dl_ient_len := n - 1\<rparr>)"

definition hp_dl_del :: "string option \<Rightarrow> hp_dl \<Rightarrow> int \<times> hp_dl" where
  "hp_dl_del dlname w =
     (case dlname of None \<Rightarrow> (0, w)
      | Some name \<Rightarrow>
        if name = [] then (0, w)
        else case lfind_idx (dl_match name) (take (dl_ient_len w) (dl_ients w)) of
               None \<Rightarrow> (0, w)
             | Some i \<Rightarrow> (1, dl_remove i w))"

definition hp_dl_init :: "bool \<Rightarrow> hp_dl \<Rightarrow> int \<times> hp_dl" where
  "hp_dl_init efds w =
     (if \<not> efds then (-1, w)
      else
        let w = w\<lparr>dl_ifd := 0, dl_ient_len := 0, dl_IENT_MAX := 8, dl_ients := replicate (8 + 1) dl_zero\<rparr>;
            fd = (case dl_inits w of [] \<Rightarrow> -1 | x # _ \<Rightarrow> x); w = w\<lparr>dl_inits := tl (dl_inits w)\<rparr>
        in if fd = -1 then (-1, w)
           else
             let w = w\<lparr>dl_ifd := fd, dl_closed := removeAll fd (dl_closed w), dl_loop := dl_loop w @ [(True, fd)]\<rparr>;
                 rc = (case dl_adds w of [] \<Rightarrow> 0 | x # _ \<Rightarrow> x); w = w\<lparr>dl_adds := tl (dl_adds w)\<rparr>
             in (if rc \<noteq> 0 then -1 else 0, w))"

text \<open>The last entry's name is deleted until there is no entry: \<open>None\<close> is a loop that does not end.\<close>

partial_function (option) dl_del_all :: "hp_dl \<Rightarrow> hp_dl option" where
  "dl_del_all w =
     (if dl_ient_len w = 0 then Some w
      else dl_del_all (snd (hp_dl_del (dle_name (dl_ients w ! (dl_ient_len w - 1))) w)))"

definition hp_dl_uninit :: "hp_dl \<Rightarrow> hp_dl option" where
  "hp_dl_uninit w = (case dl_del_all w of None \<Rightarrow> None | Some w \<Rightarrow> Some (dl_close (dl_ifd w) (w\<lparr>dl_ients := []\<rparr>)))"

subsection \<open>The table\<close>

text \<open>Used entries have a name and a file; behind them the array is zero, and it has room for one more.\<close>

definition dl_full :: "hp_dl_ient \<Rightarrow> bool" where
  "dl_full e \<longleftrightarrow> dle_name e \<noteq> None \<and> dle_file e \<noteq> None"

definition dl_wf :: "hp_dl \<Rightarrow> bool" where
  "dl_wf w \<longleftrightarrow> dl_ient_len w \<le> dl_IENT_MAX w \<and> length (dl_ients w) = Suc (dl_IENT_MAX w) \<and>
     list_all dl_full (take (dl_ient_len w) (dl_ients w)) \<and>
     list_all (\<lambda>e. e = dl_zero) (drop (dl_ient_len w) (dl_ients w))"

text \<open>Every handle the dynamic linker gave is in the table or was given back.\<close>

definition dl_kept :: "hp_dl \<Rightarrow> bool" where
  "dl_kept w \<longleftrightarrow> mset (dl_loaded w) = mset (dl_unloaded w) + mset (handles (map dle_hdl (dl_ients w)))"

definition dl_inv :: "hp_dl \<Rightarrow> bool" where
  "dl_inv w \<longleftrightarrow> dl_wf w \<and> dl_kept w"

lemma handles_update:
  "i < length xs \<Longrightarrow> mset (handles (xs[i := h])) + mset (handles [xs ! i]) = mset (handles xs) + mset (handles [h])"
  by (subst (3) del_at_split [of i xs]) (auto simp: upd_conv_take_nth_drop)

lemma dl_set_inv:
  assumes "dl_inv w" and "i < dl_ient_len w" and "dl_same_key (dl_ients w ! i) e \<or> dl_full e"
    and "dl_same_world w w'" and "dl_ients w' = (dl_ients w)[i := e]"
    and "dl_loaded w' = dl_loaded w @ l" and "dl_unloaded w' = dl_unloaded w @ u"
    and "mset l + mset (handles [dle_hdl (dl_ients w ! i)]) = mset u + mset (handles [dle_hdl e])"
  shows "dl_inv w'"
proof -
  have i: "i < length (dl_ients w)" using assms(1,2) by (simp add: dl_inv_def dl_wf_def)
  have "dl_full (dl_ients w ! i)"
    using assms(1,2) by (auto simp: dl_inv_def dl_wf_def list_all_length)
  then have "dl_full e" using assms(3) by (auto simp: dl_same_key_def dl_full_def)
  then have "dl_wf w'"
    using assms i by (auto simp: dl_inv_def dl_wf_def dl_same_world_def take_update_swap list_all_length nth_list_update)
  moreover have "dl_kept w'"
  proof -
    let ?hs = "map dle_hdl (dl_ients w)" and ?o = "mset (handles [dle_hdl (dl_ients w ! i)])" and ?n = "mset (handles [dle_hdl e])"
    have "mset (handles (?hs[i := dle_hdl e])) + ?o = mset (handles ?hs) + ?n"
      using handles_update [of i ?hs "dle_hdl e"] i by simp
    then have "mset (handles ?hs) + mset l + ?o = mset u + mset (handles (?hs[i := dle_hdl e])) + ?o"
      using assms(8) by (metis add.assoc add.commute)
    then have "mset (handles ?hs) + mset l = mset u + mset (handles (?hs[i := dle_hdl e]))" by (simp only: add_right_cancel)
    then show ?thesis using assms by (simp add: dl_inv_def dl_kept_def map_update)
  qed
  ultimately show ?thesis by (simp add: dl_inv_def)
qed

lemma dl_wf_nth:
  assumes "dl_wf w" and "i < length (dl_ients w)"
  shows "i < dl_ient_len w \<Longrightarrow> dl_full (dl_ients w ! i)" and "dl_ient_len w \<le> i \<Longrightarrow> dl_ients w ! i = dl_zero"
proof -
  show "i < dl_ient_len w \<Longrightarrow> dl_full (dl_ients w ! i)"
    using assms by (auto simp: dl_wf_def list_all_length)
  assume "dl_ient_len w \<le> i"
  then show "dl_ients w ! i = dl_zero"
    using assms by (auto simp: dl_wf_def list_all_length dest!: spec [of _ "i - dl_ient_len w"])
qed

lemma dl_wf_file: "dl_wf w \<Longrightarrow> i < length (dl_ients w) \<Longrightarrow> dle_file (dl_ients w ! i) = None \<longleftrightarrow> dl_ient_len w \<le> i"
  using dl_wf_nth [of w i] by (cases "i < dl_ient_len w") (auto simp: dl_full_def dl_zero_def)

text \<open>
  A run keeps the invariant, the linker and the number of entries, and it is defined when every entry's
  function is in its object.
\<close>

definition dl_run :: "hp_dl \<Rightarrow> 'a outcome \<Rightarrow> ('a \<Rightarrow> hp_dl) \<Rightarrow> bool" where
  "dl_run w r f \<longleftrightarrow>
     (\<forall>x. r = Done x \<longrightarrow> dl_inv (f x) \<and> dl_sym (f x) = dl_sym w \<and> dl_ient_len (f x) = dl_ient_len w) \<and>
     ((\<forall>h g. dl_sym w h g) \<longrightarrow> (\<exists>x. r = Done x))"

lemma dl_run_inv: "dl_run w r f \<Longrightarrow> r = Done x \<Longrightarrow> dl_inv (f x)"
  by (simp add: dl_run_def)

lemma hp_dl_reopen_run [hp_inv]:
  assumes "dl_inv w" and "i < dl_ient_len w"
  shows "dl_run w (hp_dl_reopen i w) snd"
proof -
  have i: "i < length (dl_ients w)" using assms by (simp add: dl_inv_def dl_wf_def)
  have "dl_inv w' \<and> dl_sym w' = dl_sym w \<and> dl_ient_len w' = dl_ient_len w" if "hp_dl_reopen i w = Done (rc, w')" for rc w'
  proof -
    from hp_dl_reopen_effect [OF that i] obtain e where e: "dl_ients w' = (dl_ients w)[i := e]" "dl_same_key (dl_ients w ! i) e"
      "dl_same_world w w'" "dl_loaded w' = dl_loaded w @ handles [dle_hdl e]"
      "dl_unloaded w' = dl_unloaded w @ handles [dle_hdl (dl_ients w ! i)]" by auto
    have "dl_inv w'" by (rule dl_set_inv [OF assms _ e(3,1,4,5) add.commute]) (use e in blast)
    with e(3) show ?thesis by (simp add: dl_same_world_def)
  qed
  moreover have "\<exists>x. hp_dl_reopen i w = Done x" if "\<forall>h g. dl_sym w h g"
  proof -
    have "dl_sym w' = dl_sym w" if "hp_dl_open f m t w1 = (hdl, w')" "dl_sym w1 = dl_sym w" for f m t w1 hdl w'
      using hp_dl_open_frame [OF that(1)] that(2) by auto
    then show ?thesis
      using \<open>\<forall>h g. dl_sym w h g\<close>
      by (fastforce simp: hp_dl_reopen_def Let_def dl_set_def dl_unload_def dl_stat_def split: prod.splits option.splits list.splits)
  qed
  ultimately show ?thesis by (auto simp: dl_run_def)
qed

lemma dl_run_bind:
  assumes "dl_run w r f" and "\<And>x. r = Done x \<Longrightarrow> dl_inv (f x) \<Longrightarrow> dl_ient_len (f x) = dl_ient_len w \<Longrightarrow> dl_run (f x) (k x) g"
    and "\<And>x y. u x \<noteq> Done y"
  shows "dl_run w (case r of Done x \<Rightarrow> k x | Undef \<Rightarrow> Undef | Blocked x \<Rightarrow> u x) g"
  using assms by (cases r) (auto simp: dl_run_def)

lemma dl_rewatch_run:
  assumes "dl_inv w" and "i < dl_ient_len w"
  shows "dl_inv (dl_rewatch fd evwd i w) \<and> dl_sym (dl_rewatch fd evwd i w) = dl_sym w \<and>
    dl_ient_len (dl_rewatch fd evwd i w) = dl_ient_len w"
proof -
  have i: "i < length (dl_ients w)" using assms by (simp add: dl_inv_def dl_wf_def)
  then have f: "dl_full (dl_ients w ! i)" using dl_wf_nth(1) assms by (simp add: dl_inv_def)
  have m: "map dle_hdl ((dl_ients w)[i := (dl_ients w ! i)\<lparr>dle_wd := wd\<rparr>]) = map dle_hdl (dl_ients w)" for wd
    using i by (simp add: map_update list_update_same_conv)
  show ?thesis
    using assms i f
    by (auto simp: dl_rewatch_def dl_add_watch_def dl_rm_watch_def dl_close_def dl_set_def dl_inv_def dl_wf_def dl_kept_def m dl_full_def
        take_update_swap list_all_length nth_list_update split: list.splits)
qed

lemma dl_scan_run:
  "dl_inv w \<Longrightarrow> i \<le> dl_ient_len w \<Longrightarrow> dl_run w (dl_scan fd evwd i w) (\<lambda>x. x)"
proof (induction fd evwd i w rule: dl_scan.induct)
  case (1 fd evwd i w)
  have i: "i < length (dl_ients w)" using "1.prems" by (simp add: dl_inv_def dl_wf_def)
  consider "dl_ient_len w \<le> i" | "i < dl_ient_len w" "evwd \<noteq> dle_wd (dl_ients w ! i)"
    | "i < dl_ient_len w" "evwd = dle_wd (dl_ients w ! i)" by linarith
  then show ?case
  proof cases
    case 1
    then show ?thesis using "1.prems" i dl_wf_file [of w i] by (simp add: dl_scan.simps [of fd evwd i w] dl_run_def dl_inv_def)
  next
    case 2
    then show ?thesis
      using "1.IH"(1) "1.prems" i dl_wf_file [of w i] by (auto simp: dl_scan.simps [of fd evwd i w] dl_inv_def)
  next
    case 3
    have "dl_run w (case hp_dl_reopen i w of Done (rc, w) \<Rightarrow> dl_scan fd evwd (Suc i) (dl_rewatch fd evwd i w) | _ \<Rightarrow> Undef) (\<lambda>x. x)"
    proof (rule dl_run_bind [OF hp_dl_reopen_run])
      fix x assume r: "hp_dl_reopen i w = Done x" "dl_inv (snd x)" "dl_ient_len (snd x) = dl_ient_len w"
      have "dl_run (dl_rewatch fd evwd i (snd x)) (dl_scan fd evwd (Suc i) (dl_rewatch fd evwd i (snd x))) (\<lambda>x. x)"
        using "1.IH"(2) [of x "fst x" "snd x"] r 3 i "1.prems" dl_wf_file [of w i] dl_rewatch_run [of "snd x" i fd evwd]
        by (auto simp: dl_inv_def)
      then show "dl_run (snd x) (case x of (rc, w) \<Rightarrow> dl_scan fd evwd (Suc i) (dl_rewatch fd evwd i w)) (\<lambda>x. x)"
        using dl_rewatch_run [of "snd x" i fd evwd] r 3 by (cases x) (auto simp: dl_run_def)
    qed (use "1.prems" 3 in auto)
    then show ?thesis
      using 3 i "1.prems" dl_wf_file [of w i]
      by (subst dl_scan.simps) (auto simp: dl_inv_def)
  qed
qed

lemma dl_scan_all_run: "dl_inv w \<Longrightarrow> dl_run w (dl_scan_all fd evs w) (\<lambda>x. x)"
proof (induction evs arbitrary: w)
  case (Cons ev evs)
  have "dl_run w (case dl_scan fd (fst ev) 0 w of Done x \<Rightarrow> dl_scan_all fd evs x | Undef \<Rightarrow> Undef | Blocked x \<Rightarrow> Blocked x) (\<lambda>x. x)"
    by (rule dl_run_bind [OF dl_scan_run]) (use Cons in auto)
  then show ?case by simp
qed (simp add: dl_run_def)

lemma dl_iread_loop_run: "dl_inv w \<Longrightarrow> dl_run w (dl_iread_loop fd w) snd"
proof (induction fd w rule: dl_iread_loop.induct)
  case (1 fd w)
  obtain r w1 where rd: "dl_read fd w = (r, w1)" by (cases "dl_read fd w")
  then have w1: "dl_inv w1" "dl_sym w1 = dl_sym w" "dl_ient_len w1 = dl_ient_len w"
    using "1.prems" by (auto simp: dl_read_def dl_inv_def dl_wf_def dl_kept_def split: if_splits list.splits)
  show ?case
  proof (cases "r = DR_events [] \<or> (\<exists>e. r = DR_err e)")
    case True
    then show ?thesis using rd w1 by (auto simp: dl_iread_loop.simps [of fd w] dl_run_def split: if_splits)
  next
    case False
    then obtain evs where r: "r = DR_events evs" "evs \<noteq> []" by (cases r) auto
    have "dl_run w1 (case dl_scan_all fd evs w1 of Done x \<Rightarrow> dl_iread_loop fd x | Undef \<Rightarrow> Undef | Blocked x \<Rightarrow> Undef) snd"
      by (rule dl_run_bind [OF dl_scan_all_run [OF w1(1)]]) (use "1.IH" [OF rd [symmetric] r(1)] r in auto)
    then show ?thesis using rd r w1 by (simp add: dl_iread_loop.simps [of fd w] dl_run_def)
  qed
qed

lemma dl_inv_log:
  "dl_inv (w\<lparr>dl_ifd := fd\<rparr>) = dl_inv w" "dl_inv (dl_close fd w) = dl_inv w" "dl_inv (dl_drop_ifd w) = dl_inv w"
  by (simp_all add: dl_inv_def dl_wf_def dl_kept_def dl_close_def dl_drop_ifd_def)

lemma hp_dl_handle_ii_run: "dl_inv w \<Longrightarrow> dl_run w (hp_dl_handle_ii events w) snd"
proof -
  assume w: "dl_inv w"
  have d: "dl_sym (dl_drop_ifd w) = dl_sym w \<and> dl_ient_len (dl_drop_ifd w) = dl_ient_len w" for w
    by (simp add: dl_drop_ifd_def dl_close_def)
  have "dl_run w (case hp_dl_iread_event w of
      Done x \<Rightarrow> (case x of (rc, w) \<Rightarrow> if rc \<noteq> 0 then Done (0, dl_drop_ifd w) else Done (0, w)) | Undef \<Rightarrow> Undef | Blocked x \<Rightarrow> Blocked x) snd"
    using dl_iread_loop_run [OF w] w by (intro dl_run_bind) (auto simp: hp_dl_iread_event_def dl_run_def d dl_inv_log split: if_splits)
  then show ?thesis using w d by (auto simp: hp_dl_handle_ii_def dl_run_def dl_inv_log)
qed

lemma hp_dl_reload_run: "dl_inv w \<Longrightarrow> dl_run w (hp_dl_reload w) snd"
proof -
  have "dl_inv w \<Longrightarrow> n + i = dl_ient_len w \<Longrightarrow> dl_run w (dl_reload_loop n i w) snd" for n i
  proof (induction n arbitrary: i w)
    case (Suc n)
    have "dl_run w (case hp_dl_reopen i w of
        Done x \<Rightarrow> (case x of (rc, w) \<Rightarrow> if rc \<noteq> 0 then Done (-3, w) else dl_reload_loop n (Suc i) w) | Undef \<Rightarrow> Undef | Blocked x \<Rightarrow> Blocked x) snd"
    proof (rule dl_run_bind [OF hp_dl_reopen_run])
      fix x :: "int \<times> hp_dl" assume "dl_inv (snd x)" "dl_ient_len (snd x) = dl_ient_len w"
      then show "dl_run (snd x) (case x of (rc, w) \<Rightarrow> if rc \<noteq> 0 then Done (-3, w) else dl_reload_loop n (Suc i) w) snd"
        using Suc.IH [of "snd x" "Suc i"] Suc.prems by (cases x) (auto simp: dl_run_def [of _ "Done _"])
    qed (use Suc.prems in auto)
    then show ?case by simp
  qed (simp add: dl_run_def)
  then show "dl_inv w \<Longrightarrow> dl_run w (hp_dl_reload w) snd" by (simp add: hp_dl_reload_def)
qed

lemma hp_dl_init_inv:
  "mset (dl_loaded w) = mset (dl_unloaded w) \<Longrightarrow> efds \<Longrightarrow> dl_inv (snd (hp_dl_init efds w))"
  by (auto simp: hp_dl_init_def Let_def dl_inv_def dl_wf_def dl_kept_def dl_zero_def handles_def list_all_iff)

lemma dl_inv_add_watch: "dl_add_watch fd w = (wd, w') \<Longrightarrow>
    dl_inv w' = dl_inv w \<and> dl_ient_len w' = dl_ient_len w \<and> dl_ients w' = dl_ients w \<and> dl_sym w' = dl_sym w \<and>
    dl_same_world (w\<lparr>dl_wds := dl_wds w'\<rparr>) w' \<and> dl_loaded w' = dl_loaded w \<and> dl_unloaded w' = dl_unloaded w"
  by (auto simp: dl_add_watch_def dl_inv_def dl_wf_def dl_kept_def dl_same_world_def split: if_splits list.splits)

lemma hp_dl_add_inv:
  assumes "dl_inv w" and "hp_dl_add path name reload addr w = Done (rc, w')"
  shows "dl_inv w'"
proof (cases "path = None \<or> name = None \<or> dl_ient_len w = dl_IENT_MAX w")
  case True
  then show ?thesis using assms by (auto simp: hp_dl_add_def split: option.splits)
next
  case False
  then obtain p n where pn: "path = Some p" "name = Some n" by auto
  let ?i = "dl_ient_len w"
  define e where "e = (dl_ients w ! ?i)\<lparr>dle_addr := addr, dle_reload := Some (case reload of None \<Rightarrow> [] | Some r \<Rightarrow> r),
    dle_name := Some n, dle_file := Some (p @ ''/lib'' @ n @ ''.so'')\<rparr>"
  have i: "?i < length (dl_ients w)" "Suc ?i \<le> dl_IENT_MAX w" using assms(1) False by (auto simp: dl_inv_def dl_wf_def)
  then have z: "dl_ients w ! ?i = dl_zero" using dl_wf_nth(2) assms(1) by (simp add: dl_inv_def)
  then have e: "dl_full e" "dle_hdl e = NULL" by (simp_all add: e_def dl_full_def dl_zero_def)
  define w1 where "w1 = (dl_set ?i e w)\<lparr>dl_ient_len := ?i + 1\<rparr>"
  have hd: "map dle_hdl ((dl_ients w)[?i := e]) = map dle_hdl (dl_ients w)"
    using i e z by (simp add: map_update list_update_same_conv dl_zero_def)
  have w1: "dl_inv w1"
  proof -
    have "take (Suc ?i) ((dl_ients w)[?i := e]) = take ?i (dl_ients w) @ [e]" using i by (simp add: take_Suc_conv_app_nth)
    moreover have "drop ?i (dl_ients w) = dl_zero # drop (Suc ?i) (dl_ients w)" using Cons_nth_drop_Suc [OF i(1)] z by simp
    ultimately show ?thesis
      using assms(1) i e by (simp add: w1_def dl_set_def dl_inv_def dl_wf_def dl_kept_def hd)
  qed
  obtain wd w2 where a: "dl_add_watch (dl_ifd w1) w1 = (wd, w2)" by (cases "dl_add_watch (dl_ifd w1) w1")
  from dl_inv_add_watch [OF a] w1 have w2: "dl_inv w2" "dl_ient_len w2 = Suc ?i" "dl_ients w2 = dl_ients w1" "dl_ients w1 ! ?i = e"
    using i by (auto simp: w1_def dl_set_def)
  have w3: "dl_inv (dl_set ?i (e\<lparr>dle_wd := wd\<rparr>) w2)"
    by (rule dl_set_inv [OF w2(1), where i = ?i and e = "e\<lparr>dle_wd := wd\<rparr>" and l = "[]" and u = "[]"]) (use w2 e in \<open>auto simp: dl_set_def dl_full_def dl_same_world_def\<close>)
  have w3l: "dl_ient_len (dl_set ?i (e\<lparr>dle_wd := wd\<rparr>) w2) = Suc ?i" using w2 by (simp add: dl_set_def)
  have "hp_dl_add path name reload addr w = (if wd = -1 then Done (-2, w2) else hp_dl_reopen ?i (dl_set ?i (e\<lparr>dle_wd := wd\<rparr>) w2))"
    using False a by (simp add: hp_dl_add_def Let_def pn e_def w1_def)
  then show ?thesis
    using assms(2) w2(1) dl_run_inv [OF hp_dl_reopen_run [OF w3, of ?i], of "(rc, w')"] w3l by (simp split: if_splits)
qed

subsection \<open>Removal\<close>

definition dl_used :: "hp_dl \<Rightarrow> hp_dl_ient list" where
  "dl_used w = take (dl_ient_len w) (dl_ients w)"

lemma dl_used_last: "dl_wf w \<Longrightarrow> 0 < dl_ient_len w \<Longrightarrow> dl_ients w ! (dl_ient_len w - 1) = last (dl_used w) \<and> dl_used w \<noteq> []"
proof -
  assume "dl_wf w" "0 < dl_ient_len w"
  then have "dl_used w \<noteq> []" "length (dl_used w) = dl_ient_len w" by (auto simp: dl_used_def dl_wf_def)
  then show ?thesis using \<open>0 < dl_ient_len w\<close> by (simp add: last_conv_nth) (simp add: dl_used_def)
qed

lemma dl_used_full: "dl_wf w \<Longrightarrow> e \<in> set (dl_used w) \<Longrightarrow> \<exists>n. dle_name e = Some n"
  by (auto simp: dl_used_def dl_wf_def list_all_iff dl_full_def)

lemma dl_used_handles:
  assumes "dl_wf w"
  shows "handles (map dle_hdl (dl_ients w)) = handles (map dle_hdl (dl_used w))"
proof -
  have "dl_ients w = dl_used w @ drop (dl_ient_len w) (dl_ients w)" by (simp add: dl_used_def)
  moreover have "handles (map dle_hdl (drop (dl_ient_len w) (dl_ients w))) = []"
    using assms by (auto simp: dl_wf_def list_all_iff handles_def dl_zero_def filter_empty_conv)
  ultimately show ?thesis by (metis append_Nil2 handles_simps(3) map_append)
qed

lemma handles_del_at:
  "i < length xs \<Longrightarrow> mset (handles xs) = mset (handles [xs ! i]) + mset (handles (del_at i xs))"
  by (subst (1) del_at_split [of i xs]) (auto simp: del_at_def)

lemma dl_remove_used:
  assumes "dl_wf w" and "i < dl_ient_len w"
  shows "dl_used (dl_remove i w) = del_at i (dl_used w) \<and> dl_wf (dl_remove i w) \<and> dl_ient_len (dl_remove i w) = dl_ient_len w - 1"
proof -
  let ?n = "dl_ient_len w"
  define xs where "xs = (if i + 1 < ?n then mem_move i (i + 1) (?n - (i + 1)) (dl_ients w) else dl_ients w)"
  have n: "?n \<le> length (dl_ients w)" "?n - 1 < length (dl_ients w)" using assms by (auto simp: dl_wf_def)
  have len: "length xs = length (dl_ients w)" using assms n by (simp add: xs_def)
  have t: "take (?n - 1) xs = del_at i (dl_used w)"
  proof (cases "i + 1 < ?n")
    case True
    then show ?thesis using take_mem_move_del_at [OF assms(2) n(1)] by (simp add: xs_def dl_used_def)
  next
    case False
    then have "i = ?n - 1" using assms(2) by simp
    then show ?thesis using n assms(2) by (simp add: xs_def dl_used_def del_at_def min_def)
  qed
  have d: "drop ?n xs = drop ?n (dl_ients w)"
    using assms(2) n by (auto simp: xs_def mem_move_def)
  have r: "dl_ients (dl_remove i w) = xs[?n - 1 := dl_zero]" "dl_ient_len (dl_remove i w) = ?n - 1" "dl_IENT_MAX (dl_remove i w) = dl_IENT_MAX w"
    by (simp_all add: dl_remove_def xs_def dl_unload_def dl_rm_watch_def Let_def)
  have u: "dl_used (dl_remove i w) = del_at i (dl_used w)" using t by (simp add: dl_used_def r)
  have "drop (?n - 1) (xs[?n - 1 := dl_zero]) = dl_zero # drop ?n (dl_ients w)"
    using n len d assms(2) by (subst Cons_nth_drop_Suc [symmetric]) auto
  moreover have "list_all dl_full (del_at i (dl_used w))"
    using assms(1) set_del_at_subset [of i "dl_used w"] by (auto simp: list_all_iff dl_wf_def dl_used_def)
  ultimately have "dl_wf (dl_remove i w)"
    using assms(1) u t by (auto simp: dl_wf_def r len)
  with u r show ?thesis by simp
qed

lemma dl_remove_inv:
  assumes "dl_inv w" and "i < dl_ient_len w"
  shows "dl_inv (dl_remove i w)"
    and "dl_unwatched (dl_remove i w) = dl_unwatched w @ [dle_wd (dl_used w ! i)]"
    and "dl_closed (dl_remove i w) = dl_closed w"
    and "dl_ifd (dl_remove i w) = dl_ifd w"
proof -
  have r: "dl_used (dl_remove i w) = del_at i (dl_used w)" "dl_wf (dl_remove i w)" and w: "dl_wf w"
    using dl_remove_used assms by (auto simp: dl_inv_def)
  have i: "i < length (dl_used w)" "dl_used w ! i = dl_ients w ! i" using assms w by (auto simp: dl_used_def dl_wf_def)
  have "dl_loaded (dl_remove i w) = dl_loaded w" "dl_unloaded (dl_remove i w) = dl_unloaded w @ handles [dle_hdl (dl_used w ! i)]"
    by (simp_all add: dl_remove_def dl_unload_def dl_rm_watch_def Let_def i(2))
  then show "dl_inv (dl_remove i w)"
    using assms(1) r w handles_del_at [of i "map dle_hdl (dl_used w)"] i(1)
    by (simp add: dl_inv_def dl_kept_def dl_used_handles map_del_at)
qed (simp_all add: dl_remove_def dl_unload_def dl_rm_watch_def Let_def dl_used_def assms)

lemma hp_dl_del_inv: "dl_inv w \<Longrightarrow> dl_inv (snd (hp_dl_del name w))"
  by (auto simp: hp_dl_del_def dl_remove_inv(1) split: option.splits dest!: lfind_idx_SomeD)

text \<open>A last entry with an empty name is never deleted.\<close>

lemma dl_del_all_None: "dl_del_all w = Some w' \<Longrightarrow> \<not> (0 < dl_ient_len w \<and> dle_name (dl_ients w ! (dl_ient_len w - 1)) = Some [])"
proof (rule dl_del_all.raw_induct [where P = "\<lambda>w _. \<not> (0 < dl_ient_len w \<and> dle_name (dl_ients w ! (dl_ient_len w - 1)) = Some [])"])
  fix f :: "hp_dl \<Rightarrow> hp_dl option" and w y
  assume ih: "\<And>w y. f w = Some y \<Longrightarrow> \<not> (0 < dl_ient_len w \<and> dle_name (dl_ients w ! (dl_ient_len w - 1)) = Some [])"
    and body: "(if dl_ient_len w = 0 then Some w else f (snd (hp_dl_del (dle_name (dl_ients w ! (dl_ient_len w - 1))) w))) = Some y"
  show "\<not> (0 < dl_ient_len w \<and> dle_name (dl_ients w ! (dl_ient_len w - 1)) = Some [])"
  proof
    assume a: "0 < dl_ient_len w \<and> dle_name (dl_ients w ! (dl_ient_len w - 1)) = Some []"
    then have "f w = Some y" using body by (simp add: hp_dl_del_def)
    with ih a show False by blast
  qed
qed

text \<open>Any other last entry is deleted in the end; entries whose name is a prefix of its name go before it.\<close>

lemma dl_del_all_Some:
  assumes "dl_inv w" and "dl_used w = [] \<or> dle_name (last (dl_used w)) \<noteq> Some []"
  shows "\<exists>w'. dl_del_all w = Some w' \<and> dl_inv w' \<and> dl_ient_len w' = 0 \<and> dl_closed w' = dl_closed w \<and> dl_ifd w' = dl_ifd w \<and>
    mset (dl_unwatched w') = mset (dl_unwatched w) + mset (map dle_wd (dl_used w))"
  using assms
proof (induction "dl_ient_len w" arbitrary: w)
  case 0
  then show ?case by (auto simp: dl_del_all.simps [of w] dl_used_def)
next
  case (Suc m)
  let ?us = "dl_used w"
  have w: "dl_wf w" using Suc.prems(1) by (simp add: dl_inv_def)
  have l: "dl_ients w ! (dl_ient_len w - 1) = last ?us" "?us \<noteq> []" using dl_used_last [OF w] Suc.hyps(2) by auto
  have len: "length ?us = dl_ient_len w" using w by (auto simp: dl_used_def dl_wf_def)
  obtain name where name: "dle_name (last ?us) = Some name" "name \<noteq> []"
    using dl_used_full [OF w, of "last ?us"] Suc.prems(2) l by auto
  have "dl_match name (last ?us)" using name by (simp add: dl_match_def)
  then have "lfind_idx (dl_match name) ?us \<noteq> None" using l(2) by (auto simp: lfind_idx_None_iff intro!: bexI [of _ "last ?us"])
  then obtain i where i: "lfind_idx (dl_match name) ?us = Some i" by auto
  from lfind_idx_SomeD [OF i] have il: "i < dl_ient_len w" and nm: "\<forall>j < i. \<not> dl_match name (?us ! j)" using len by auto
  let ?w = "dl_remove i w"
  have step: "dl_del_all w = dl_del_all ?w"
    using i name Suc.hyps(2) l by (subst dl_del_all.simps) (simp add: hp_dl_del_def flip: dl_used_def)
  have r: "dl_used ?w = del_at i ?us" "dl_ient_len ?w = dl_ient_len w - 1" using dl_remove_used [OF w il] by auto
  have "dl_used ?w = [] \<or> dle_name (last (dl_used ?w)) \<noteq> Some []"
  proof (cases "Suc i < dl_ient_len w")
    case True
    then have "last (del_at i ?us) = last ?us" using len by (simp add: del_at_def)
    then show ?thesis using name r(1) by simp
  next
    case False
    then have "i = length ?us - 1" using il len by simp
    then have "del_at i ?us = butlast ?us" using l(2) by (simp add: del_at_def butlast_conv_take)
    moreover have "dle_name e \<noteq> Some []" if "e \<in> set (butlast ?us)" for e
    proof -
      from that obtain j where "j < length ?us - 1" "e = ?us ! j" by (auto simp: in_set_conv_nth nth_butlast)
      with nm \<open>i = _\<close> have "\<not> dl_match name e" by simp
      then show ?thesis by (auto simp: dl_match_def)
    qed
    ultimately show ?thesis using r(1) by (metis last_in_set)
  qed
  with Suc.hyps r(2) dl_remove_inv(1) [OF Suc.prems(1) il] obtain w' where w': "dl_del_all ?w = Some w'" "dl_inv w'" "dl_ient_len w' = 0"
    "dl_closed w' = dl_closed ?w" "dl_ifd w' = dl_ifd ?w" "mset (dl_unwatched w') = mset (dl_unwatched ?w) + mset (map dle_wd (dl_used ?w))"
    by (metis diff_Suc_1)
  have "mset (map dle_wd ?us) = add_mset (dle_wd (?us ! i)) (mset (map dle_wd (del_at i ?us)))"
    using mset_del_at [of i "map dle_wd ?us"] il len by (simp add: map_del_at)
  then show ?case
    using w' step dl_remove_inv(2-4) [OF Suc.prems(1) il] r(1) by auto
qed

subsection \<open>How long loading takes\<close>

lemma dl_open_loop_tries:
  "dl_opens w = [] \<Longrightarrow> dl_open_loop f mode (10000 * int n) w = (hdl, w') \<Longrightarrow>
   hdl = NULL \<and> length (dl_opened w') = length (dl_opened w) + n + 1 \<and> dl_slept w' = dl_slept w + 10000 * n"
proof (induction n arbitrary: w)
  case 0
  then show ?case by (auto simp: dl_open_loop.simps [of f mode 0] dl_dlopen_def Let_def)
next
  case (Suc n)
  let ?w = "w\<lparr>dl_opened := dl_opened w @ [(f, if mode \<le> 0 then RTLD_LAZY else mode)], dl_slept := dl_slept w + 10 * 1000\<rparr>"
  have "10000 * int (Suc n) - 10 * 1000 = 10000 * int n" by simp
  then have "dl_open_loop f mode (10000 * int (Suc n)) w = dl_open_loop f mode (10000 * int n) ?w"
    using Suc.prems(1) by (subst dl_open_loop.simps) (simp add: dl_dlopen_def)
  then show ?case using Suc.IH [of ?w] Suc.prems by simp
qed

lemma hp_dl_open_tries:
  assumes "dl_opens w = []" and "hp_dl_open (Some f) mode (int t) w = (hdl, w')"
  shows "hdl = NULL \<and> length (dl_opened w') = length (dl_opened w) + 100 * t + 1 \<and> dl_slept w' = dl_slept w + 1000000 * t"
  using dl_open_loop_tries [of w f mode "100 * t" hdl w'] assms by (simp add: hp_dl_open_def)

subsection \<open>The life of the object\<close>

text \<open>The states the operations lead to, from an object whose handles are all given back.\<close>

inductive dl_reach :: "hp_dl \<Rightarrow> bool" where
  init: "mset (dl_loaded w) = mset (dl_unloaded w) \<Longrightarrow> hp_dl_init True w = (rc, w') \<Longrightarrow> dl_reach w'"
| add: "dl_reach w \<Longrightarrow> hp_dl_add path name reload addr w = Done (rc, w') \<Longrightarrow> dl_reach w'"
| del: "dl_reach w \<Longrightarrow> hp_dl_del name w = (rc, w') \<Longrightarrow> dl_reach w'"
| reload: "dl_reach w \<Longrightarrow> hp_dl_reload w = Done (rc, w') \<Longrightarrow> dl_reach w'"
| event: "dl_reach w \<Longrightarrow> hp_dl_handle_ii events w = Done (rc, w') \<Longrightarrow> dl_reach w'"

lemma dl_reach_inv: "dl_reach w \<Longrightarrow> dl_inv w"
proof (induction rule: dl_reach.induct)
  case (init w rc w')
  then show ?case using hp_dl_init_inv [of w True] by simp
next
  case (add w path name reload addr rc w')
  then show ?case by (auto intro: hp_dl_add_inv)
next
  case (del w name rc w')
  then show ?case using hp_dl_del_inv [of w name] by simp
next
  case (reload w rc w')
  then show ?case using dl_run_inv [OF hp_dl_reload_run [of w]] by force
next
  case (event w events rc w')
  then show ?case using dl_run_inv [OF hp_dl_handle_ii_run [of w events]] by force
qed

text \<open>
  C27: The table of shared objects is well-formed in every state the operations lead to: the used entries have
  a name and a file, the array is zero behind them and has room for the entry that ends the search,
  every handle is in the table or was given back. An event then never runs off the table, as long as the
  functions to call are in their objects.
\<close>

theorem hp_dl_table_wf:
  assumes "dl_reach w"
  shows "dl_wf w \<and> mset (dl_loaded w) = mset (dl_unloaded w) + mset (handles (map dle_hdl (dl_used w))) \<and>
    ((\<forall>h f. dl_sym w h f) \<longrightarrow> (\<exists>w'. hp_dl_handle_ii events w = Done (0, w')))"
proof -
  have w: "dl_inv w" by (rule dl_reach_inv [OF assms])
  have "\<exists>w'. hp_dl_handle_ii events w = Done (0, w')" if "hp_dl_handle_ii events w = Done x" for x
    using that by (auto simp: hp_dl_handle_ii_def split: if_splits outcome.splits)
  moreover have "\<exists>x. hp_dl_handle_ii events w = Done x" if "\<forall>h f. dl_sym w h f"
    using hp_dl_handle_ii_run [OF w, of events] that unfolding dl_run_def by blast
  ultimately show ?thesis using w by (auto simp: dl_inv_def dl_kept_def dl_used_handles)
qed

definition dl_start :: hp_dl where
  "dl_start = \<lparr>dl_ients = [], dl_ient_len = 0, dl_IENT_MAX = 0, dl_ifd = 0, dl_loop = [], dl_inits = [5], dl_adds = [], dl_wds = [1, 2, 3],
     dl_reads = [DR_events [(1, 2)]], dl_opens = [11, 12, 13], dl_stats = [], dl_sym = (\<lambda>h f. True), dl_rcs = [], dl_opened = [],
     dl_loaded = [], dl_unloaded = [], dl_calls = [], dl_unwatched = [], dl_closed = [], dl_slept = 0\<rparr>"

definition dl_ready :: hp_dl where
  "dl_ready = snd (hp_dl_init True dl_start)"

lemma dl_ready_reach: "dl_reach dl_ready"
  by (rule dl_reach.init [of dl_start "fst (hp_dl_init True dl_start)"]) (simp_all add: dl_ready_def dl_start_def)

theorem hp_dl_table_wf_witness:
  "dl_wf dl_ready \<and> dl_ient_len dl_ready = 0 \<and> (\<exists>w'. hp_dl_handle_ii EPOLLIN dl_ready = Done (0, w'))"
proof -
  have "\<forall>h f. dl_sym dl_ready h f" and "dl_ient_len dl_ready = 0" by (simp_all add: dl_ready_def dl_start_def hp_dl_init_def)
  then show ?thesis using hp_dl_table_wf [OF dl_ready_reach, of EPOLLIN] by blast
qed

text \<open>
  C28: Releasing the object comes to an end exactly when its last entry has a name that is not empty, and
  then every handle the dynamic linker gave has been given back, each entry's watch is removed, once each, and
  the inotify descriptor is closed.
\<close>

theorem hp_dl_uninit_releases:
  assumes "dl_reach w"
  shows "case hp_dl_uninit w of
      None \<Rightarrow> dl_used w \<noteq> [] \<and> dle_name (last (dl_used w)) = Some []
    | Some w' \<Rightarrow> (dl_used w = [] \<or> dle_name (last (dl_used w)) \<noteq> Some []) \<and> mset (dl_unloaded w') = mset (dl_loaded w') \<and>
        mset (dl_unwatched w') = mset (dl_unwatched w) + mset (map dle_wd (dl_used w)) \<and> dl_closed w' = dl_closed w @ [dl_ifd w]"
proof (cases "dl_used w = [] \<or> dle_name (last (dl_used w)) \<noteq> Some []")
  case True
  from dl_del_all_Some [OF dl_reach_inv [OF assms] True] obtain w' where w': "dl_del_all w = Some w'" "dl_inv w'" "dl_ient_len w' = 0"
    "dl_closed w' = dl_closed w" "dl_ifd w' = dl_ifd w" "mset (dl_unwatched w') = mset (dl_unwatched w) + mset (map dle_wd (dl_used w))" by auto
  have "mset (dl_loaded w') = mset (dl_unloaded w')"
    using w'(2,3) by (simp add: dl_inv_def dl_kept_def dl_used_handles dl_used_def)
  with w' True show ?thesis by (simp add: hp_dl_uninit_def dl_close_def)
next
  case False
  have w: "dl_wf w" using dl_reach_inv [OF assms] by (simp add: dl_inv_def)
  have "0 < dl_ient_len w" using False w by (auto simp: dl_used_def)
  then have "dl_del_all w = None" using dl_del_all_None [of w] dl_used_last [OF w] False by (cases "dl_del_all w") auto
  with False show ?thesis by (simp add: hp_dl_uninit_def)
qed

definition dl_one :: hp_dl where
  "dl_one = (case hp_dl_add (Some ''l'') (Some ''a'') (Some ''f'') 9 dl_ready of Done x \<Rightarrow> snd x | _ \<Rightarrow> dl_ready)"

lemmas dl_run_defs = hp_dl_add_def hp_dl_reopen_def hp_dl_open_def dl_open_loop.simps dl_dlopen_def dl_stat_def dl_call_def dl_add_watch_def
  dl_set_def dl_unload_def dl_rm_watch_def

lemma dl_one_add: "hp_dl_add (Some ''l'') (Some ''a'') (Some ''f'') 9 dl_ready = Done (0, dl_one)"
  by (simp add: dl_one_def dl_ready_def dl_start_def hp_dl_init_def dl_run_defs dl_zero_def)

lemma dl_one_used: "map dle_wd (dl_used dl_one) = [1] \<and> map dle_name (dl_used dl_one) = [Some ''a''] \<and> dl_loaded dl_one = [11] \<and>
    dl_unwatched dl_one = [] \<and> dl_closed dl_one = [] \<and> dl_ifd dl_one = 5"
  by (simp add: dl_one_def dl_ready_def dl_start_def hp_dl_init_def dl_run_defs dl_zero_def dl_used_def take_update_swap)

theorem hp_dl_uninit_releases_witness:
  "\<exists>w'. hp_dl_uninit dl_one = Some w' \<and> dl_unwatched w' = [1] \<and> dl_closed w' = [5]"
proof -
  have "dl_reach dl_one" by (rule dl_reach.add [OF dl_ready_reach dl_one_add])
  from hp_dl_uninit_releases [OF this] obtain w' where w': "hp_dl_uninit dl_one = Some w'"
      "mset (dl_unwatched w') = mset (map dle_wd (dl_used dl_one))" "dl_closed w' = [5]"
    using dl_one_used by (cases "hp_dl_uninit dl_one") (auto simp: last_map simp flip: map_is_Nil_conv [of dle_name])
  then show ?thesis using dl_one_used by auto
qed

subsection \<open>What goes wrong\<close>

text \<open>An entry added last with an empty name keeps the object from being released.\<close>

lemma hp_dl_uninit_empty_name: "dl_wf w \<Longrightarrow> dl_used w \<noteq> [] \<Longrightarrow> dle_name (last (dl_used w)) = Some [] \<Longrightarrow> hp_dl_uninit w = None"
  using dl_del_all_None [of w] dl_used_last [of w]
  by (cases "dl_del_all w") (auto simp: hp_dl_uninit_def dl_used_def)

lemma hp_dl_open_hit:
  "dl_opens w = h # hs \<Longrightarrow> h \<noteq> NULL \<Longrightarrow> hp_dl_open (Some f) m t w =
   (h, w\<lparr>dl_opened := dl_opened w @ [(f, if m \<le> 0 then RTLD_LAZY else m)], dl_opens := hs, dl_loaded := dl_loaded w @ [h]\<rparr>)"
  by (subst hp_dl_open_def) (simp add: dl_open_loop.simps dl_dlopen_def Let_def)

text \<open>Without a function to call, the function without a name is looked for, and that it exists is asserted.\<close>

lemma hp_dl_reopen_no_reload:
  assumes "dle_reload (dl_ients w ! i) = Some []" and "dle_file (dl_ients w ! i) = Some f" and "dl_opens w = h # hs" and "h \<noteq> NULL"
    and "\<not> dl_sym w h []"
  shows "hp_dl_reopen i w = Undef"
  using assms by (simp add: hp_dl_reopen_def hp_dl_open_hit dl_stat_def dl_set_def dl_unload_def Let_def split: list.splits option.splits)

lemma hp_dl_reopen_plain:
  assumes "dle_reload (dl_ients w ! i) = None" and "dle_file (dl_ients w ! i) = Some f" and "dl_opens w = h # hs" and "h \<noteq> NULL"
  shows "\<exists>w'. hp_dl_reopen i w = Done (0, w')"
  using assms by (simp add: hp_dl_reopen_def hp_dl_open_hit dl_stat_def dl_set_def dl_unload_def Let_def split: list.splits option.splits)

text \<open>Deleting a name deletes the first entry whose name is a prefix of it.\<close>

lemma hp_dl_del_prefix:
  assumes "dl_used w = e # es" and "dle_name e = Some n" and "n @ rest \<noteq> []"
  shows "hp_dl_del (Some (n @ rest)) w = (1, dl_remove 0 w)"
  using assms by (simp add: hp_dl_del_def dl_match_def flip: dl_used_def)

text \<open>What an event says is not looked at: opening the file to load it is an event like a change of it.\<close>

lemma dl_scan_all_mask: "map fst evs = map fst evs' \<Longrightarrow> dl_scan_all fd evs w = dl_scan_all fd evs' w"
proof (induction evs arbitrary: evs' w)
  case (Cons ev evs)
  then obtain ev' es where "evs' = ev' # es" "fst ev' = fst ev" "map fst es = map fst evs" by (cases evs') auto
  moreover have "dl_scan_all fd evs x = dl_scan_all fd es x" for x using Cons.IH [of es x] calculation(3) by simp
  ultimately show ?case by (simp split: outcome.splits)
qed simp

text \<open>
  When the watch cannot be renewed the descriptor is closed and forgotten; the next read of it fails, and then
  the forgotten descriptor is closed: descriptor 0.
\<close>

lemma dl_iread_loop_closed: "fd \<in> set (dl_closed w) \<Longrightarrow> dl_iread_loop fd w = Done (-1, w)"
  by (simp add: dl_iread_loop.simps [of fd w] dl_read_def)

lemma dl_rewatch_lost: "dl_wds w = [] \<Longrightarrow> dl_rewatch fd evwd i w = w\<lparr>dl_unwatched := dl_unwatched w @ [evwd], dl_closed := dl_closed w @ [fd], dl_ifd := 0\<rparr>"
  by (simp add: dl_rewatch_def dl_add_watch_def dl_rm_watch_def dl_close_def)

lemma hp_dl_closes_stdin:
  assumes "dl_ients w = [e, dl_zero]" and "dle_file e = Some f" and "dle_wd e = wd" and "dle_reload e = None"
    and "dl_reads w = DR_events [(wd, ms)] # rs" and "dl_wds w = []" and "dl_opens w = h # hs" and "h \<noteq> NULL"
    and "dl_ifd w \<notin> set (dl_closed w)"
  shows "\<exists>w'. hp_dl_handle_ii EPOLLIN w = Done (0, w') \<and> dl_closed w' = dl_closed w @ [dl_ifd w, 0]"
proof -
  let ?fd = "dl_ifd w" and ?w = "w\<lparr>dl_reads := rs\<rparr>"
  obtain x w1 where r: "hp_dl_reopen 0 ?w = Done (x, w1)"
    using hp_dl_reopen_plain [of ?w 0 f h hs] assms(1,2,4,7,8) by auto
  from hp_dl_reopen_effect [OF r] obtain e1 where w1: "dl_ients w1 = [e1, dl_zero]" "dl_wds w1 = []" "dl_closed w1 = dl_closed w"
    using assms(1,6) by (auto simp: dl_same_world_def)
  define w2 where "w2 = dl_rewatch ?fd wd 0 w1"
  have w2: "dl_closed w2 = dl_closed w @ [?fd]" "dl_ifd w2 = 0" "dl_ients w2 = [e1, dl_zero]"
    by (simp_all add: w2_def dl_rewatch_lost w1)
  have "dl_scan ?fd wd 1 w2 = Done w2" by (simp add: dl_scan.simps w2 dl_zero_def)
  then have "dl_scan ?fd wd 0 ?w = Done w2"
    by (subst dl_scan.simps) (simp add: assms(1-3) r w2_def [symmetric])
  then have "dl_iread_loop ?fd w = Done (-1, w2)"
    using assms(5,9) w2(1) by (subst dl_iread_loop.simps) (simp add: dl_read_def dl_iread_loop_closed)
  then show ?thesis
    by (simp add: hp_dl_handle_ii_def hp_dl_iread_event_def dl_drop_ifd_def dl_close_def w2)
qed

end
