(* ===== verification/Hp_Err.thy ===== *)
theory Hp_Err
  imports Prelude
begin

section \<open>hp\_err: texts of errors\<close>

text \<open>
  Models \<open>src/hp_err.c\<close> for a system with \<open>errno\<close> and, at the end, its branch for Windows. The buffer of the caller is both the format and the result.
  \<open>strerror\<close> is a parameter. \<open>printf1\<close> is \<open>printf\<close> with one string argument, as far as formats of
  plain text, \<open>%s\<close> and \<open>%%\<close> go; anything else is undefined.
\<close>

abbreviation (input) ERR_LEN :: nat where "ERR_LEN \<equiv> 128"

fun printf1 :: "string option \<Rightarrow> string \<Rightarrow> string option" where
  "printf1 a [] = Some []"
| "printf1 a [c] = (if c = CHR ''%'' then None else Some [c])"
| "printf1 a (c # d # cs) =
     (if c \<noteq> CHR ''%'' then map_option (Cons c) (printf1 a (d # cs))
      else if d = CHR ''%'' then map_option (Cons d) (printf1 a cs)
      else if d = CHR ''s'' then (case a of None \<Rightarrow> None | Some t \<Rightarrow> map_option ((@) t) (printf1 None cs))
      else None)"

text \<open>
  The text is cut to the size of the buffer less one and copied without a terminator: what was behind
  it in the buffer stays. \<open>None\<close> is undefined behaviour.
\<close>

definition err_format :: "char list \<Rightarrow> char list" where
  "err_format errstr = (if hd errstr = CHR 0x00 then ''%s'' @ CHR 0x00 # drop 3 errstr else errstr)"

definition hp_err :: "(int \<Rightarrow> string) \<Rightarrow> int \<Rightarrow> char list \<Rightarrow> char list option" where
  "hp_err strerror err errstr =
     (let errstr = err_format errstr
      in if CHR 0x00 \<notin> set errstr then None
         else case printf1 (Some (strerror err)) (c_str errstr) of None \<Rightarrow> None
         | Some serr \<Rightarrow> buf_put 0 (take (length errstr - 1) serr) (errstr[0 := CHR 0x00]))"

text \<open>\<open>hp_lerr\<close> keeps its buffer from call to call; the error is the current \<open>errno\<close>.\<close>

definition lerr_init :: "char list" where
  "lerr_init = ''%s'' @ replicate (ERR_LEN - 2) (CHR 0x00)"

definition hp_lerr :: "(int \<Rightarrow> string) \<Rightarrow> int \<Rightarrow> char list \<Rightarrow> char list option" where
  "hp_lerr strerror errno errstr = hp_err strerror errno errstr"

fun lerr_calls :: "(int \<Rightarrow> string) \<Rightarrow> int list \<Rightarrow> char list \<Rightarrow> char list option" where
  "lerr_calls strerror [] buf = Some buf"
| "lerr_calls strerror (e # es) buf = Option.bind (hp_lerr strerror e buf) (lerr_calls strerror es)"

subsection \<open>The first error stays\<close>

lemma printf1_plain: "CHR ''%'' \<notin> set s \<Longrightarrow> printf1 a s = Some s"
  by (induction a s rule: printf1.induct) auto

lemma nul_char: "char_of (0::nat) = CHR 0x00"
  by (simp add: char_of_def)

lemma c_str_put: "CHR 0x00 \<notin> set t \<Longrightarrow> c_str (t @ CHR 0x00 # r) = t"
  by (induction t) (auto simp: c_str_def nul_char)

lemma lerr_again:
  assumes "t \<noteq> []" and "CHR 0x00 \<notin> set t" and "CHR ''%'' \<notin> set t"
  shows "hp_lerr strerror e (t @ CHR 0x00 # r) = Some (t @ CHR 0x00 # r)"
proof -
  obtain c cs where t: "t = c # cs" using assms(1) by (cases t) auto
  have "c_str (t @ CHR 0x00 # r) = t" by (rule c_str_put) (rule assms(2))
  moreover have "hd (t @ CHR 0x00 # r) \<noteq> CHR 0x00" using assms(2) t by auto
  ultimately show ?thesis
    using printf1_plain [OF assms(3), of "Some (strerror e)"]
    by (simp add: hp_lerr_def hp_err_def err_format_def Let_def buf_put_def t)
qed

text \<open>
  \<open>hp_lerr\<close> returns the text of the error of its first call for ever: whatever error numbers follow,
  the buffer still holds the first text, provided it has at least two characters, fits and
  holds no percent sign.
\<close>

lemma hp_lerr_sticks:
  assumes "2 \<le> length (strerror e)" and "length (strerror e) < ERR_LEN" and "CHR 0x00 \<notin> set (strerror e)"
    and "CHR ''%'' \<notin> set (strerror e)"
  shows "map_option c_str (lerr_calls strerror (e # es) lerr_init) = Some (strerror e)"
proof -
  let ?t = "strerror e"
  have fmt: "c_str lerr_init = ''%s''" using c_str_put [of "''%s''" "replicate 125 (CHR 0x00)"]
    by (simp add: lerr_init_def flip: replicate_Suc)
  have len: "length lerr_init = ERR_LEN" by (simp add: lerr_init_def)
  obtain k where k: "ERR_LEN = length ?t + Suc k" using assms(2) less_iff_Suc_add by auto
  have "drop (length ?t) (lerr_init[0 := CHR 0x00]) = replicate (Suc k) (CHR 0x00)"
    using assms(1) k by (cases ?t; cases "tl ?t") (auto simp: lerr_init_def replicate_eq_replicate simp del: replicate_Suc)
  then have "hp_lerr strerror e lerr_init = Some (?t @ CHR 0x00 # replicate k (CHR 0x00))"
    using assms(2) len fmt
    by (simp add: hp_lerr_def hp_err_def err_format_def Let_def buf_put_def) (simp add: lerr_init_def)
  moreover have "lerr_calls strerror es (?t @ CHR 0x00 # r) = Some (?t @ CHR 0x00 # r)" for r
  proof -
    have "hp_lerr strerror a (?t @ CHR 0x00 # r) = Some (?t @ CHR 0x00 # r)" for a
      using assms by (intro lerr_again) auto
    then show ?thesis by (induction es) simp_all
  qed
  ultimately show ?thesis using c_str_put [OF assms(3)] by simp
qed

lemma hp_lerr_sticks_witness:
  "map_option c_str (lerr_calls (\<lambda>e. if e = 2 then ''No such file'' else ''Broken pipe'') [2, 32] lerr_init) = Some ''No such file''"
  using hp_lerr_sticks [of "\<lambda>e. if e = 2 then ''No such file'' else ''Broken pipe''" 2 "[32]"] by simp

subsection \<open>On Windows\<close>

text \<open>
  The text of an error is asked from the system, then from the library of network errors, if it can be loaded;
  both are parameters. The last line feed and the last carriage return become blanks.
\<close>

definition strrchr_blank :: "char \<Rightarrow> char list \<Rightarrow> char list option" where
  "strrchr_blank c buf =
     (if CHR 0x00 \<notin> set buf then None
      else
        let s = c_str buf
        in Some (if c \<in> set s then buf[length s - 1 - length (takeWhile (\<lambda>d. d \<noteq> c) (rev s)) := CHR '' ''] else buf))"

definition hp_err_msc :: "(int \<Rightarrow> string option) \<Rightarrow> (int \<Rightarrow> string option) option \<Rightarrow> int \<Rightarrow> char list \<Rightarrow> char list option" where
  "hp_err_msc sysmsg netmsg err errstr =
     (let errstr = err_format errstr
      in case (case sysmsg err of Some m \<Rightarrow> Some m | None \<Rightarrow> Option.bind netmsg (\<lambda>f. f err)) of
           None \<Rightarrow> Some errstr
         | Some m \<Rightarrow>
           if CHR 0x00 \<notin> set errstr then None
           else case printf1 (Some m) (c_str errstr) of None \<Rightarrow> None
             | Some serr \<Rightarrow>
               Option.bind (buf_put 0 (take (length errstr - 1) serr) (errstr[0 := CHR 0x00])) (\<lambda>buf.
               Option.bind (strrchr_blank CHR 0x0A buf) (strrchr_blank CHR 0x0D)))"

text \<open>An error without a text is told as the format.\<close>

lemma hp_err_msc_unknown: "sysmsg e = None \<Longrightarrow> netmsg = None \<Longrightarrow> map_option c_str (hp_err_msc sysmsg netmsg e lerr_init) = Some ''%s''"
  using c_str_put [of "''%s''" "replicate 125 (CHR 0x00)"]
  by (simp add: hp_err_msc_def err_format_def lerr_init_def flip: replicate_Suc)

lemma hp_err_msc_line:
  "map_option c_str (hp_err_msc (\<lambda>e. Some (''gone'' @ [CHR 0x0D, CHR 0x0A])) None 2 lerr_init) = Some ''gone  ''"
  by code_simp

end
