(* ===== verification/Hp_Z.thy ===== *)
theory Hp_Z
  imports Prelude
begin

section \<open>hp\_z: compression into buffers\<close>

text \<open>
  Models \<open>src/hp_z.c\<close>. zlib is a parameter: for an input, the list of what its calls answer, each a
  return code and the bytes it put into the output chunk; after the list it answers that
  nothing can be done. A call that fills the chunk is followed by another. Assertions are
  off: the decompressor copies whatever comes, \<open>Undef\<close> is a copy past the end of the buffer.
\<close>

abbreviation (input) Z_CHUNK :: nat where "Z_CHUNK \<equiv> 131072"
abbreviation (input) Z_OK :: int where "Z_OK \<equiv> 0"
abbreviation (input) Z_STREAM_END :: int where "Z_STREAM_END \<equiv> 1"
abbreviation (input) Z_NEED_DICT :: int where "Z_NEED_DICT \<equiv> 2"
abbreviation (input) Z_DATA_ERROR :: int where "Z_DATA_ERROR \<equiv> -3"
abbreviation (input) Z_MEM_ERROR :: int where "Z_MEM_ERROR \<equiv> -4"
abbreviation (input) Z_BUF_ERROR :: int where "Z_BUF_ERROR \<equiv> -5"

type_synonym zanswers = "(int \<times> byte list) list"

definition put_bytes :: "nat \<Rightarrow> byte list \<Rightarrow> byte list \<Rightarrow> byte list option" where
  "put_bytes off bs buf =
     (if off + length bs \<le> length buf then Some (take off buf @ bs @ drop (off + length bs) buf) else None)"

text \<open>The result of the loops: the code to return at once, or the last answer and the bytes written.\<close>

fun zc_loop :: "nat \<Rightarrow> zanswers \<Rightarrow> nat \<Rightarrow> byte list \<Rightarrow> ((int + int \<times> nat) \<times> byte list) outcome" where
  "zc_loop olen [] offset out = Done (Inr (Z_BUF_ERROR, offset), out)"
| "zc_loop olen ((ret, bs) # as) offset out =
     (if int olen - int offset < int (length bs) then Done (Inl 1, out)
      else case put_bytes offset bs out of None \<Rightarrow> Undef
      | Some out \<Rightarrow>
        if length bs = Z_CHUNK then zc_loop olen as (offset + length bs) out
        else Done (Inr (ret, offset + length bs), out))"

definition hp_zc_buf ::
  "(int \<Rightarrow> byte list \<Rightarrow> zanswers option) \<Rightarrow> int \<Rightarrow> byte list option \<Rightarrow> byte list option \<Rightarrow> int \<Rightarrow>
   (int \<times> byte list \<times> int) outcome" where
  "hp_zc_buf deflate level buf out olen =
     (case (buf, out) of
        (Some b, Some out) \<Rightarrow>
          if b = [] \<or> olen \<le> 0 then Done (-1, out, olen)
          else (case deflate level b of None \<Rightarrow> Done (-1, out, olen)
            | Some as \<Rightarrow>
              (case zc_loop (nat olen) as 0 out of
                 Done (Inl rc, out) \<Rightarrow> Done (rc, out, olen)
               | Done (Inr (ret, tot), out) \<Rightarrow>
                   if ret \<noteq> Z_STREAM_END then Done (-1, out, olen) else Done (0, out, int tot)
               | _ \<Rightarrow> Undef))
      | (_, out) \<Rightarrow> Done (-1, (case out of None \<Rightarrow> [] | Some o' \<Rightarrow> o'), olen))"

fun zd_loop :: "zanswers \<Rightarrow> nat \<Rightarrow> byte list \<Rightarrow> ((int + int \<times> nat) \<times> byte list) outcome" where
  "zd_loop [] offset out = Done (Inr (Z_BUF_ERROR, offset), out)"
| "zd_loop ((ret, bs) # as) offset out =
     (if ret \<in> {Z_NEED_DICT, Z_DATA_ERROR, Z_MEM_ERROR} then Done (Inl (-1), out)
      else case put_bytes offset bs out of None \<Rightarrow> Undef
      | Some out \<Rightarrow>
        if length bs = Z_CHUNK then zd_loop as (offset + length bs) out
        else Done (Inr (ret, offset + length bs), out))"

definition hp_zd_buf ::
  "(byte list \<Rightarrow> zanswers option) \<Rightarrow> byte list option \<Rightarrow> byte list option \<Rightarrow> int \<Rightarrow> (int \<times> byte list \<times> int) outcome" where
  "hp_zd_buf inflate buf out olen =
     (case (buf, out) of
        (Some b, Some out) \<Rightarrow>
          if b = [] \<or> olen \<le> 0 then Done (-1, out, olen)
          else (case inflate b of None \<Rightarrow> Done (-1, out, olen)
            | Some as \<Rightarrow>
              (case zd_loop as 0 out of
                 Done (Inl rc, out) \<Rightarrow> Done (rc, out, olen)
               | Done (Inr (ret, tot), out) \<Rightarrow>
                   if ret \<noteq> Z_STREAM_END then Done (-1, out, olen) else Done (0, out, int tot)
               | _ \<Rightarrow> Undef))
      | (_, out) \<Rightarrow> Done (-1, (case out of None \<Rightarrow> [] | Some o' \<Rightarrow> o'), olen))"

subsection \<open>Room and round trip\<close>

text \<open>
  The documented run of a stream with output \<open>c\<close>: full chunks, then one that is not full with the
  end of the stream.
\<close>

definition z_stream :: "byte list \<Rightarrow> zanswers \<Rightarrow> bool" where
  "z_stream c as \<longleftrightarrow> (\<exists>pre bs. as = pre @ [(Z_STREAM_END, bs)] \<and> length bs < Z_CHUNK \<and>
     (\<forall>(r, b) \<in> set pre. length b = Z_CHUNK \<and> (r = Z_OK \<or> r = Z_STREAM_END)) \<and> concat (map snd as) = c)"

lemma z_stream_single: "z_stream c [(Z_STREAM_END, c)] \<longleftrightarrow> length c < Z_CHUNK"
  by (auto simp: z_stream_def)

lemma put_bytes_at:
  "put_bytes (length p) bs (p @ q) = (if length bs \<le> length q then Some (p @ bs @ drop (length bs) q) else None)"
  by (simp add: put_bytes_def)

lemma zc_loop_room:
  assumes "z_stream c as" and "olen \<le> length (p @ q)" and "length p \<le> olen"
  shows "\<exists>out. zc_loop olen as (length p) (p @ q) =
    Done (if length p + length c \<le> olen then (Inr (Z_STREAM_END, length p + length c), p @ c @ drop (length c) q) else (Inl 1, out))"
proof -
  obtain pre bs where as: "as = pre @ [(Z_STREAM_END, bs)]" "length bs < Z_CHUNK"
    "\<forall>(r, b) \<in> set pre. length b = Z_CHUNK \<and> (r = Z_OK \<or> r = Z_STREAM_END)" "concat (map snd as) = c"
    using assms(1) by (auto simp: z_stream_def)
  have run: "\<exists>out. zc_loop olen (pre @ [(Z_STREAM_END, bs)]) (length p) (p @ q) =
      Done (if length p + length (concat (map snd pre) @ bs) \<le> olen
            then (Inr (Z_STREAM_END, length p + length (concat (map snd pre) @ bs)),
                  p @ (concat (map snd pre) @ bs) @ drop (length (concat (map snd pre) @ bs)) q)
            else (Inl 1, out))"
    using as(2,3) assms(2,3)
  proof (induction pre arbitrary: p q)
    case Nil
    then show ?case using put_bytes_at [of p bs q] by (auto simp: of_nat_diff)
  next
    case (Cons x pre)
    obtain r b where x: "x = (r, b)" by (cases x)
    then have b: "length b = Z_CHUNK" using Cons.prems(2) by auto
    show ?case
    proof (cases "length p + length b \<le> olen")
      case True
      then have put: "put_bytes (length p) b (p @ q) = Some ((p @ b) @ drop (length b) q)"
        using put_bytes_at [of p b q] Cons.prems(3) by simp
      from Cons.IH [of "p @ b" "drop (length b) q"] Cons.prems True put show ?thesis
        by (auto simp: x b add.assoc drop_drop add.commute)
    next
      case False
      then show ?thesis by (auto simp: x)
    qed
  qed
  have "concat (map snd pre) @ bs = c" using as(1,4) by simp
  from run [unfolded this] show ?thesis using as(1) by simp
qed

lemma zd_loop_room:
  assumes "z_stream c as"
  shows "zd_loop as (length p) (p @ q) =
    (if length c \<le> length q then Done (Inr (Z_STREAM_END, length p + length c), p @ c @ drop (length c) q) else Undef)"
proof -
  obtain pre bs where as: "as = pre @ [(Z_STREAM_END, bs)]" "length bs < Z_CHUNK"
    "\<forall>(r, b) \<in> set pre. length b = Z_CHUNK \<and> (r = Z_OK \<or> r = Z_STREAM_END)" "concat (map snd as) = c"
    using assms(1) by (auto simp: z_stream_def)
  have run: "zd_loop (pre @ [(Z_STREAM_END, bs)]) (length p) (p @ q) =
      (let c = concat (map snd pre) @ bs in
       if length c \<le> length q then Done (Inr (Z_STREAM_END, length p + length c), p @ c @ drop (length c) q) else Undef)"
    using as(2,3)
  proof (induction pre arbitrary: p q)
    case Nil
    then show ?case using put_bytes_at [of p bs q] by simp
  next
    case (Cons x pre)
    obtain r b where x: "x = (r, b)" by (cases x)
    then have b: "length b = Z_CHUNK" "r \<notin> {Z_NEED_DICT, Z_DATA_ERROR, Z_MEM_ERROR}" using Cons.prems(2) by auto
    show ?case
    proof (cases "length b \<le> length q")
      case True
      then have put: "put_bytes (length p) b (p @ q) = Some ((p @ b) @ drop (length b) q)"
        using put_bytes_at [of p b q] by simp
      from Cons.IH [of "p @ b" "drop (length b) q"] Cons.prems True put show ?thesis
        by (auto simp: x b Let_def add.assoc drop_drop add.commute)
    next
      case False
      then show ?thesis using b put_bytes_at [of p b q] by (simp add: x Let_def)
    qed
  qed
  have "concat (map snd pre) @ bs = c" using as(1,4) by simp
  from run [unfolded this] show ?thesis using as(1) by (simp add: Let_def)
qed

text \<open>
  C29: Compressing writes the stream into the buffer exactly when it fits, and says so; decompressing the result
  gives the bytes back when their buffer is long enough, and writes past its end when it is not.
\<close>

theorem hp_z_roundtrip:
  assumes "deflate level x = Some as" and "z_stream c as" and "inflate c = Some bs" and "z_stream x bs"
    and "x \<noteq> []" and "c \<noteq> []" and "0 < n" and "n \<le> length out" and "0 < m"
  shows "\<exists>out'. hp_zc_buf deflate level (Some x) (Some out) (int n) =
      Done (if length c \<le> n then (0, c @ drop (length c) out, int (length c)) else (1, out', int n)) \<and>
    hp_zd_buf inflate (Some c) (Some dst) m =
      (if length x \<le> length dst then Done (0, x @ drop (length x) dst, int (length x)) else Undef)"
proof -
  have "\<exists>out'. zc_loop n as 0 out =
      Done (if length c \<le> n then (Inr (Z_STREAM_END, length c), c @ drop (length c) out) else (Inl 1, out'))"
    using zc_loop_room [OF assms(2), of n "[]" out] assms(8) by (simp cong: if_cong)
  then obtain out' where
    "zc_loop n as 0 out = Done (if length c \<le> n then (Inr (Z_STREAM_END, length c), c @ drop (length c) out) else (Inl 1, out'))" ..
  then show ?thesis using assms zd_loop_room [OF assms(4), of "[]" dst]
    by (auto simp: hp_zc_buf_def hp_zd_buf_def intro!: exI [of _ out'])
qed

theorem hp_z_roundtrip_witness:
  "hp_zc_buf (\<lambda>_ b. Some [(Z_STREAM_END, map not b)]) 6 (Some [1, 2]) (Some [0, 0, 0]) (int 3) =
      Done (0, [not 1, not 2, 0], 2) \<and>
    hp_zd_buf (\<lambda>b. Some [(Z_STREAM_END, map not b)]) (Some [not 1, not 2]) (Some [9]) 1 = Undef"
  using hp_z_roundtrip [of "\<lambda>_ b. Some [(Z_STREAM_END, map not b)]" 6 "[1, 2]" "[(Z_STREAM_END, map not [1, 2])]"
      "map not [1, 2]" "\<lambda>b. Some [(Z_STREAM_END, map not b)]" "[(Z_STREAM_END, [1, 2])]" 3 "[0, 0, 0]" 1 "[9]"]
  by (simp add: z_stream_single)

end
