(* ===== verification/Hp_Fs.thy ===== *)
theory Hp_Fs
  imports Hp_Str
begin

section \<open>fsutil: directories and locks\<close>

text \<open>
  Models \<open>src/fsutil.c\<close>: making a path, removing a tree, locking a file, walking over files. A tree of
  the file system is a \<open>datatype\<close> with files, directories and links; system calls are logged. \<open>fcntl\<close> answers
  from an infinite sequence, and waiting for the lock is a \<open>partial_function\<close> whose \<open>None\<close> is a
  loop that never ends. The file is compiled when \<open>LIBHP_DEPRECADTED\<close> is defined.
\<close>

subsection \<open>Making a path\<close>

text \<open>
  The path is cut at 1023 characters and loses a slash at its end; every slash behind the first character
  ends a directory that is made, then the whole is. An empty path reads before the buffer.
\<close>

fun mkdir_loop :: "string \<Rightarrow> string \<Rightarrow> string list" where
  "mkdir_loop done [] = []"
| "mkdir_loop done (c # cs) =
     (if c = CHR ''/'' then done # mkdir_loop (done @ [c]) cs else mkdir_loop (done @ [c]) cs)"

definition hp_fsutil_mkdir_p :: "string \<Rightarrow> string list outcome" where
  "hp_fsutil_mkdir_p dir =
     (let tmp = take 1023 dir
      in if tmp = [] then Undef
         else
           let tmp = (if last tmp = CHR ''/'' then butlast tmp else tmp)
           in Done ((case tmp of [] \<Rightarrow> [] | c # cs \<Rightarrow> mkdir_loop [c] cs) @ [tmp]))"

text \<open>The paths made are the prefixes that end before a slash, shortest first, then the path.\<close>

lemma mkdir_loop_prefixes:
  "mkdir_loop pre cs = map (\<lambda>i. pre @ take i cs) (filter (\<lambda>i. cs ! i = CHR ''/'') [0..<length cs])"
proof (induction pre cs rule: mkdir_loop.induct)
  case (2 pre c cs)
  have "[0..<length (c # cs)] = 0 # map Suc [0..<length cs]" by (simp add: map_Suc_upt upt_conv_Cons del: upt_Suc)
  then have "filter (\<lambda>i. (c # cs) ! i = CHR ''/'') [0..<length (c # cs)] =
      (if c = CHR ''/'' then [0] else []) @ map Suc (filter (\<lambda>i. cs ! i = CHR ''/'') [0..<length cs])"
    by (simp add: filter_map comp_def del: upt_Suc)
  then show ?case using 2 by (simp add: comp_def del: upt_Suc)
qed simp

definition hp_fsutil_chown_R :: "(string \<Rightarrow> int) \<Rightarrow> string option \<Rightarrow> string option \<Rightarrow> int \<times> string list" where
  "hp_fsutil_chown_R run dir ug =
     (case (dir, ug) of
        (Some (d # ds), Some (u # us)) \<Rightarrow>
          (let cmd = take 1023 (''chown -R '' @ (u # us) @ '' '' @ (d # ds)) in (run cmd, [cmd]))
      | _ \<Rightarrow> (-1, []))"

subsection \<open>Removing a tree\<close>

text \<open>
  \<open>Link (Some n)\<close> is a link that leads to \<open>n\<close>, \<open>Link None\<close> one that leads nowhere. \<open>opendir\<close> and \<open>stat\<close>
  follow links: \<open>stat_of\<close> is what they find. \<open>unlink\<close> and \<open>rmdir\<close> act on the link itself.
\<close>

datatype fsnode = File | Dir "(string \<times> fsnode) list" | Link "fsnode option"

datatype fsop = Unlink string | Rmdir string

fun stat_of :: "fsnode \<Rightarrow> fsnode option" where
  "stat_of File = Some File"
| "stat_of (Dir es) = Some (Dir es)"
| "stat_of (Link None) = None"
| "stat_of (Link (Some n)) = stat_of n"

lemma stat_of_size: "stat_of n = Some m \<Longrightarrow> size m \<le> size n"
  by (induction n rule: stat_of.induct) auto

definition is_dir :: "fsnode option \<Rightarrow> bool" where
  "is_dir n = (case n of Some (Dir _) \<Rightarrow> True | _ \<Rightarrow> False)"

text \<open>
  What is no directory is unlinked, unless \<open>stat\<close> failed: the result is then the -1 it started with.
\<close>

definition rm_file :: "(fsop \<Rightarrow> bool) \<Rightarrow> string \<Rightarrow> fsnode \<Rightarrow> int \<times> fsop list" where
  "rm_file may buf n =
     (if stat_of n = None then (-1, []) else (if may (Unlink buf) then 0 else -1, [Unlink buf]))"

text \<open>
  A directory is emptied entry by entry until one fails, then removed. \<open>rm_entries\<close> is the loop over the
  entries. \<open>may\<close> says which removals the system allows; \<open>rmdir\<close> of a link fails in any case. A directory that is
  there can be opened and read, and memory for the paths is not short. The result is the
  code and the calls that were made, in order.
\<close>

function (sequential) hp_fsutil_rm_r :: "(fsop \<Rightarrow> bool) \<Rightarrow> string \<Rightarrow> fsnode \<Rightarrow> int \<times> fsop list"
  and rm_entries :: "(fsop \<Rightarrow> bool) \<Rightarrow> string \<Rightarrow> (string \<times> fsnode) list \<Rightarrow> int \<times> fsop list" where
  "hp_fsutil_rm_r may path n =
     (case stat_of n of
        Some (Dir es) \<Rightarrow>
          (case rm_entries may path es of
             (r, ops) \<Rightarrow>
               if r \<noteq> 0 then (r, ops)
               else (if may (Rmdir path) \<and> (\<exists>es. n = Dir es) then 0 else -1, ops @ [Rmdir path]))
      | _ \<Rightarrow> (-1, []))"
| "rm_entries may path [] = (0, [])"
| "rm_entries may path ((name, n) # es) =
     (if name = ''.'' \<or> name = ''..'' then rm_entries may path es
      else
        case (if is_dir (stat_of n) then hp_fsutil_rm_r may (path @ ''/'' @ name) n
              else rm_file may (path @ ''/'' @ name) n) of
          (r, ops) \<Rightarrow>
            if r \<noteq> 0 then (r, ops)
            else case rm_entries may path es of (r, ops') \<Rightarrow> (r, ops @ ops'))"
  by pat_completeness auto
termination
  by (relation "measure (\<lambda>x. case x of Inl (may, path, n) \<Rightarrow> 2 * size n + 1
      | Inr (may, path, es) \<Rightarrow> 2 * size_list (size_prod (\<lambda>x. 0) size) es + 2)")
    (auto dest!: stat_of_size)

text \<open>
  The removals an orderly removal makes: what is in a directory before the directory, a link like a file; and a run
  that stops at the first one refused.
\<close>

fun tree_ops :: "string \<Rightarrow> fsnode \<Rightarrow> fsop list"
  and entry_ops :: "string \<Rightarrow> (string \<times> fsnode) list \<Rightarrow> fsop list" where
  "tree_ops path (Dir es) = entry_ops path es @ [Rmdir path]"
| "tree_ops path File = [Unlink path]"
| "tree_ops path (Link n) = [Unlink path]"
| "entry_ops path [] = []"
| "entry_ops path ((name, n) # es) = tree_ops (path @ ''/'' @ name) n @ entry_ops path es"

fun upto_refused :: "('a \<Rightarrow> bool) \<Rightarrow> 'a list \<Rightarrow> 'a list" where
  "upto_refused may [] = []"
| "upto_refused may (x # xs) = x # (if may x then upto_refused may xs else [])"

lemma upto_refused_append:
  "upto_refused may (xs @ ys) = upto_refused may xs @ (if list_all may xs then upto_refused may ys else [])"
  by (induction xs) auto

text \<open>No link leads to a directory or to nothing, and no entry is called dot or dot-dot.\<close>

fun plain_tree :: "fsnode \<Rightarrow> bool" and plain_entries :: "(string \<times> fsnode) list \<Rightarrow> bool" where
  "plain_tree (Dir es) = plain_entries es"
| "plain_tree File = True"
| "plain_tree (Link n) = (stat_of (Link n) = Some File)"
| "plain_entries [] = True"
| "plain_entries ((name, n) # es) = (name \<noteq> ''.'' \<and> name \<noteq> ''..'' \<and> plain_tree n \<and> plain_entries es)"

lemma stat_of_cases: "stat_of n = Some m \<Longrightarrow> m = File \<or> (\<exists>es. m = Dir es)"
  by (induction n rule: stat_of.induct) auto

lemma plain_not_dir:
  "plain_tree n \<Longrightarrow> \<not> is_dir (stat_of n) \<Longrightarrow>
    rm_file may buf n = (if may (Unlink buf) then 0 else -1, [Unlink buf]) \<and> tree_ops buf n = [Unlink buf]"
  by (cases n) (auto simp: is_dir_def rm_file_def)

lemma plain_is_dir: "plain_tree n \<Longrightarrow> is_dir (stat_of n) \<Longrightarrow> \<exists>es. n = Dir es"
  by (cases n) (auto simp: is_dir_def)

lemma rm_r_rm_entries_run:
  "plain_tree n \<Longrightarrow> is_dir (stat_of n) \<Longrightarrow>
    hp_fsutil_rm_r may path n =
      (if list_all may (tree_ops path n) then 0 else -1, upto_refused may (tree_ops path n))"
  "plain_entries es \<Longrightarrow>
    rm_entries may path es =
      (if list_all may (entry_ops path es) then 0 else -1, upto_refused may (entry_ops path es))"
proof (induction may path n and may path es rule: hp_fsutil_rm_r_rm_entries.induct)
  case (1 may path n)
  then obtain es where n: "n = Dir es" using plain_is_dir by blast
  with 1 show ?case by (auto simp: upto_refused_append)
next
  case (3 may path name n es)
  let ?b = "path @ ''/'' @ name"
  let ?e = "if is_dir (stat_of n) then hp_fsutil_rm_r may ?b n else rm_file may ?b n"
  have p: "name \<noteq> ''.''" "name \<noteq> ''..''" "plain_tree n" "plain_entries es" using "3.prems" by auto
  have e: "?e = (if list_all may (tree_ops ?b n) then 0 else -1, upto_refused may (tree_ops ?b n))"
  proof (cases "is_dir (stat_of n)")
    case True
    then show ?thesis using "3.IH"(2) p by simp
  next
    case False
    then show ?thesis using plain_not_dir [OF p(3), of may ?b] by simp
  qed
  show ?case
  proof (cases "list_all may (tree_ops ?b n)")
    case True
    have "rm_entries may path es =
      (if list_all may (entry_ops path es) then 0 else -1, upto_refused may (entry_ops path es))"
      by (rule "3.IH"(3) [OF _ e [symmetric, unfolded True if_True]]) (use p True in auto)
    with True show ?thesis using p e by (simp add: upto_refused_append)
  next
    case False
    then show ?thesis using p e by (simp add: upto_refused_append)
  qed
qed simp


text \<open>
  C31: Over a tree without links to directories, removing makes exactly the calls of an orderly removal, children first,
  up to the first one the system refuses, and succeeds when none is. A link to that tree is taken for the tree: everything
  behind the link is removed all the same, and the result is -1 because a link is no directory.
\<close>

theorem hp_fsutil_rm_r_order:
  assumes "plain_tree (Dir es)"
  shows "hp_fsutil_rm_r may path (Dir es) =
      (if list_all may (tree_ops path (Dir es)) then 0 else -1, upto_refused may (tree_ops path (Dir es))) \<and>
    hp_fsutil_rm_r may path (Link (Some (Dir es))) = (-1, upto_refused may (tree_ops path (Dir es)))"
  using assms by (auto simp: rm_r_rm_entries_run upto_refused_append is_dir_def)

theorem hp_fsutil_rm_r_order_witness:
  "hp_fsutil_rm_r (\<lambda>_. True) ''d'' (Dir [(''a'', File), (''s'', Dir [(''b'', File)])]) =
      (0, [Unlink ''d/a'', Unlink ''d/s/b'', Rmdir ''d/s'', Rmdir ''d'']) \<and>
    hp_fsutil_rm_r (\<lambda>_. True) ''l'' (Link (Some (Dir [(''a'', File)]))) = (-1, [Unlink ''l/a'', Rmdir ''l''])"
  using hp_fsutil_rm_r_order [of "[(''a'', File), (''s'', Dir [(''b'', File)])]" "\<lambda>_. True" "''d''"]
    hp_fsutil_rm_r_order [of "[(''a'', File)]" "\<lambda>_. True" "''l''"]
  by simp

subsection \<open>Locks\<close>

text \<open>
  \<open>ans i\<close> is what the \<open>i\<close>-th \<open>fcntl\<close> does: 0 when it succeeds, else the error it leaves in \<open>errno\<close>. A success leaves
  \<open>errno\<close> as it was, as Linux does and POSIX does not promise. The loop looks at \<open>errno\<close> alone. The result is the return value, the number of calls and \<open>errno\<close>.
\<close>

partial_function (option) lock_internal :: "(nat \<Rightarrow> int) \<Rightarrow> nat \<Rightarrow> int \<Rightarrow> (int \<times> nat \<times> int) option" where
  "lock_internal ans i errno =
     (let retval = (if ans i = 0 then 0 else -1);
          errno = (if ans i = 0 then errno else ans i)
      in if errno = EINTR then lock_internal ans (Suc i) errno else Some (retval, Suc i, errno))"

definition vsf_sysutil_lock_file_write :: "(nat \<Rightarrow> int) \<Rightarrow> int \<Rightarrow> (int \<times> nat \<times> int) option" where
  "vsf_sysutil_lock_file_write ans errno = lock_internal ans 0 errno"

definition vsf_sysutil_lock_file_read :: "(nat \<Rightarrow> int) \<Rightarrow> int \<Rightarrow> (int \<times> nat \<times> int) option" where
  "vsf_sysutil_lock_file_read ans errno = lock_internal ans 0 errno"

text \<open>Unlocking asserts that its one call succeeds.\<close>

definition vsf_sysutil_unlock_file :: "int \<Rightarrow> bool" where
  "vsf_sysutil_unlock_file ans = (ans = 0)"

text \<open>While nothing but successes and interruptions come, an \<open>errno\<close> that says interrupted keeps the loop going.\<close>

lemma lock_internal_skip:
  "\<lbrakk>\<And>j. i \<le> j \<Longrightarrow> j < k \<Longrightarrow> ans j = 0 \<or> ans j = EINTR; i \<le> k\<rbrakk> \<Longrightarrow> lock_internal ans i EINTR = lock_internal ans k EINTR"
proof (induction "k - i" arbitrary: i)
  case (Suc n)
  then have "ans i = 0 \<or> ans i = EINTR" by simp
  then have "lock_internal ans i EINTR = lock_internal ans (Suc i) EINTR"
    by (subst lock_internal.simps) (auto simp: Let_def)
  also have "\<dots> = lock_internal ans k EINTR" using Suc by simp
  finally show ?case .
qed simp

lemma lock_internal_stuck:
  assumes ret: "lock_internal ans i errno = Some r"
  shows "errno = EINTR \<longrightarrow> (\<exists>j. i \<le> j \<and> ans j \<noteq> 0 \<and> ans j \<noteq> EINTR)"
proof (rule lock_internal.raw_induct
    [where P = "\<lambda>ans i errno r. errno = EINTR \<longrightarrow> (\<exists>j. i \<le> j \<and> ans j \<noteq> 0 \<and> ans j \<noteq> EINTR)", OF _ ret])
  fix f and ans :: "nat \<Rightarrow> int" and i errno r
  assume IH: "\<And>ans i errno r. f ans i errno = Some r \<Longrightarrow>
      errno = EINTR \<longrightarrow> (\<exists>j. i \<le> j \<and> ans j \<noteq> 0 \<and> ans j \<noteq> EINTR)"
    and eq: "(let retval = (if ans i = 0 then 0 else -1); errno = (if ans i = 0 then errno else ans i)
      in if errno = EINTR then f ans (Suc i) errno else Some (retval, Suc i, errno)) = Some r"
  show "errno = EINTR \<longrightarrow> (\<exists>j. i \<le> j \<and> ans j \<noteq> 0 \<and> ans j \<noteq> EINTR)"
  proof (cases "ans i = 0 \<or> ans i = EINTR")
    case True
    show ?thesis
    proof
      assume "errno = EINTR"
      with True eq have "f ans (Suc i) EINTR = Some r" by (auto simp: Let_def)
      from IH [OF this] show "\<exists>j. i \<le> j \<and> ans j \<noteq> 0 \<and> ans j \<noteq> EINTR" by (auto dest: Suc_leD)
    qed
  next
    case False
    then show ?thesis by auto
  qed
qed

lemma lock_internal_least:
  assumes "ans j \<noteq> 0 \<and> ans j \<noteq> EINTR"
  shows "\<exists>k. lock_internal ans 0 EINTR = Some (-1, Suc k, ans k) \<and> ans k \<noteq> 0 \<and> ans k \<noteq> EINTR \<and>
    (\<forall>i < k. ans i = 0 \<or> ans i = EINTR)"
proof -
  let ?Q = "\<lambda>j. ans j \<noteq> 0 \<and> ans j \<noteq> EINTR"
  let ?k = "LEAST j. ?Q j"
  have k: "?Q ?k" using assms by (rule LeastI)
  have below: "\<forall>i < ?k. ans i = 0 \<or> ans i = EINTR" using not_less_Least [of _ ?Q] by blast
  have "lock_internal ans 0 EINTR = lock_internal ans ?k EINTR"
    by (rule lock_internal_skip) (use below in auto)
  also have "\<dots> = Some (-1, Suc ?k, ans ?k)" using k by (subst lock_internal.simps) (simp add: Let_def)
  finally show ?thesis using k below by blast
qed

text \<open>
  C33: Locking returns at once, with the result of its one call, exactly when that call is not interrupted and no older
  interruption is left in \<open>errno\<close>. Otherwise it goes on, also after a call that took the lock, until a call fails for
  another reason, and then reports failure: it can no more succeed, and without such a failure it never returns.
\<close>

theorem lock_internal_ends:
  "vsf_sysutil_lock_file_write ans errno =
      (if ans 0 = 0 \<and> errno \<noteq> EINTR then Some (0, 1, errno)
       else vsf_sysutil_lock_file_write ans EINTR) \<and>
    (case vsf_sysutil_lock_file_write ans EINTR of
       None \<Rightarrow> range ans \<subseteq> {0, EINTR}
     | Some (r, n, e) \<Rightarrow> r = -1 \<and> 0 < n \<and> e = ans (n - 1) \<and> e \<notin> {0, EINTR} \<and> ans ` {..<n - 1} \<subseteq> {0, EINTR})"
proof -
  have "lock_internal ans 0 errno = lock_internal ans 0 EINTR" if "\<not> (ans 0 = 0 \<and> errno \<noteq> EINTR)"
    using that by (subst (1 2) lock_internal.simps) (auto simp: Let_def)
  moreover have "lock_internal ans 0 errno = Some (0, 1, errno)" if "ans 0 = 0" "errno \<noteq> EINTR"
    using that by (subst lock_internal.simps) (simp add: Let_def)
  moreover have "case lock_internal ans 0 EINTR of
       None \<Rightarrow> range ans \<subseteq> {0, EINTR}
     | Some (r, n, e) \<Rightarrow> r = -1 \<and> 0 < n \<and> e = ans (n - 1) \<and> e \<notin> {0, EINTR} \<and> ans ` {..<n - 1} \<subseteq> {0, EINTR}"
  proof (cases "\<exists>j. ans j \<noteq> 0 \<and> ans j \<noteq> EINTR")
    case True
    then obtain k where "lock_internal ans 0 EINTR = Some (-1, Suc k, ans k)" "ans k \<noteq> 0 \<and> ans k \<noteq> EINTR"
      "\<forall>i < k. ans i = 0 \<or> ans i = EINTR"
      using lock_internal_least by blast
    then show ?thesis by auto
  next
    case False
    then have "lock_internal ans 0 EINTR = None"
      using lock_internal_stuck [of ans 0 EINTR] by (cases "lock_internal ans 0 EINTR") auto
    with False show ?thesis by auto
  qed
  ultimately show ?thesis by (simp add: vsf_sysutil_lock_file_write_def)
qed


subsection \<open>Walking over the files\<close>

text \<open>
  What the directory reader of libuv says of an entry; \<open>Seen_Dir\<close> comes with what is in it. \<open>fn\<close> sees the names it was called with
  before. The loop stops in a directory when \<open>fn\<close> returns not 0; the result of the walk through a
  directory below is dropped, so the walk above goes on.
\<close>

datatype seen = Seen_File | Seen_Link | Seen_Other | Seen_Dir "(string \<times> seen) list"

definition name_ext :: "string \<Rightarrow> string option" where
  "name_ext name = (if CHR ''.'' \<in> set name then Some (rev (takeWhile (\<lambda>c. c \<noteq> CHR ''.'') (rev name))) else None)"

definition ext_wanted :: "string option \<Rightarrow> string \<Rightarrow> bool" where
  "ext_wanted posfix name =
     (posfix = None \<or> posfix = Some [] \<or>
      (case name_ext name of None \<Rightarrow> False | Some e \<Rightarrow> strstr (the posfix) e \<noteq> None))"

fun foreach_loop ::
  "(string list \<Rightarrow> string \<Rightarrow> int) \<Rightarrow> string option \<Rightarrow> string \<Rightarrow> (string \<times> seen) list \<Rightarrow> string list \<Rightarrow> int \<times> string list" where
  "foreach_loop fn posfix dirstr [] calls = (0, calls)"
| "foreach_loop fn posfix dirstr ((name, Seen_Dir es') # es) calls =
     foreach_loop fn posfix dirstr es (snd (foreach_loop fn posfix (dirstr @ ''/'' @ name) es' calls))"
| "foreach_loop fn posfix dirstr ((name, Seen_Other) # es) calls = foreach_loop fn posfix dirstr es calls"
| "foreach_loop fn posfix dirstr ((name, k) # es) calls =
     (if ext_wanted posfix name then
        (let dirsub = dirstr @ ''/'' @ name
         in if fn calls dirsub \<noteq> 0 then (1, calls @ [dirsub])
            else foreach_loop fn posfix dirstr es (calls @ [dirsub]))
      else foreach_loop fn posfix dirstr es calls)"

text \<open>What \<open>stat\<close> says of the path given: nothing, a regular file, a directory, something else, on which the open is asserted.\<close>

datatype root = No_Root | Reg_Root | Dir_Root "(string \<times> seen) list" | Other_Root

definition hp_foreach_file ::
  "(string list \<Rightarrow> string \<Rightarrow> int) option \<Rightarrow> string option \<Rightarrow> string option \<Rightarrow> root \<Rightarrow> (int \<times> string list) outcome" where
  "hp_foreach_file fn dirstr posfix at =
     (case (dirstr, fn) of
        (Some d, Some f) \<Rightarrow>
          (case at of
             No_Root \<Rightarrow> Done (-1, [])
           | Reg_Root \<Rightarrow> Done (f [] d, [d])
           | Dir_Root es \<Rightarrow> Done (foreach_loop f posfix d es [])
           | Other_Root \<Rightarrow> Undef)
      | _ \<Rightarrow> Done (-1, []))"

text \<open>The files of a tree with a wanted ending, in the order of the reader.\<close>

fun files_in :: "(string \<Rightarrow> bool) \<Rightarrow> string \<Rightarrow> (string \<times> seen) list \<Rightarrow> string list" where
  "files_in P d [] = []"
| "files_in P d ((name, Seen_Dir es') # es) = files_in P (d @ ''/'' @ name) es' @ files_in P d es"
| "files_in P d ((name, Seen_Other) # es) = files_in P d es"
| "files_in P d ((name, k) # es) = (if P name then [d @ ''/'' @ name] else []) @ files_in P d es"

lemma foreach_loop_all:
  "(\<And>cs s. fn cs s = 0) \<Longrightarrow>
    foreach_loop fn posfix d es calls = (0, calls @ files_in (ext_wanted posfix) d es)"
  by (induction fn posfix d es calls rule: foreach_loop.induct) (auto simp: Let_def)

text \<open>A refusal below does not stop the walk above, nor does it show in the result.\<close>

lemma foreach_loop_refusal_below:
  "foreach_loop (\<lambda>_ _. 1) None d [(''s'', Seen_Dir [(''a'', Seen_File), (''b'', Seen_File)]), (''o'', Seen_Other)] [] =
    (0, [d @ ''/s/a''])"
  by (simp add: ext_wanted_def Let_def)

end
