(* ===== verification/Hp_Small.thy ===== *)
theory Hp_Small
  imports Hp_Sock
begin

section \<open>Small modules: time, test runner, opening Redis\<close>

text \<open>
  Models \<open>src/hp_time.c\<close> (the clock on Windows), \<open>src/hp_test.c\<close> (running tests by name) and \<open>src/hp_redis.c\<close> (opening
  and closing a Redis connection). Symbols, the splitting function of sds and hiredis are parameters.
\<close>

subsection \<open>The clock\<close>

text \<open>
  The file time counts 100 ns from the year 1601 in two halves of 32 bits. \<open>tmpres\<close> has 64 bits, \<open>long\<close> on Windows 32.
\<close>

definition gettimeofday :: "u32 \<Rightarrow> u32 \<Rightarrow> int \<times> int" where
  "gettimeofday high low =
     (let tmpres = (0 :: u64);
          tmpres = or tmpres (ucast high);
          tmpres = push_bit 32 tmpres;
          tmpres = or tmpres (ucast low);
          tmpres = tmpres div 10;
          tmpres = tmpres - 11644473600000000
      in (sint (ucast (tmpres div 1000000) :: u32), sint (ucast (tmpres mod 1000000) :: u32)))"

definition file_time :: "u32 \<Rightarrow> u32 \<Rightarrow> int" where
  "file_time high low = uint high * 2 ^ 32 + uint low"

lemma uint_take_bit: "32 \<le> n \<Longrightarrow> take_bit n (uint (w :: u32)) = uint w"
proof -
  assume n: "32 \<le> n"
  have "uint w < 2 ^ 32" using uint_lt2p [of w] by simp
  also have "(2 :: int) ^ 32 \<le> 2 ^ n" by (rule power_increasing) (use n in auto)
  finally show ?thesis by (simp add: take_bit_int_eq_self)
qed

lemma file_time_word: "uint (or (push_bit 32 (ucast (high :: u32))) (ucast (low :: u32)) :: u64) = file_time high low"
proof -
  have "uint (or (push_bit 32 (ucast high)) (ucast low) :: u64) = or (push_bit 32 (uint high)) (uint low)"
    by (simp add: unsigned_or_eq unsigned_push_bit_eq unsigned_ucast_eq take_bit_push_bit uint_take_bit)
  also have "\<dots> = concat_bit 32 (uint low) (uint high)"
    by (simp add: concat_bit_def uint_take_bit or.commute)
  also have "\<dots> = file_time high low"
    by (simp add: concat_bit_eq uint_take_bit file_time_def push_bit_eq_mult)
  finally show ?thesis .
qed


lemma sint_ucast_32: "sint (ucast (w :: u64) :: u32) = to_int32 (uint w)"
  by (simp add: sint_uint unsigned_ucast_eq signed_take_bit_take_bit to_int32_def)

text \<open>
  C32: From 1970 on the clock gives the microseconds since then, cut to the tenth of them the file time can tell, as long as the
  seconds fit \<open>long\<close>: from 2038-01-19 03:14:08 on they wrap around to negative numbers.
\<close>

theorem gettimeofday_wraps_2038:
  assumes "11644473600 * 10 ^ 7 \<le> file_time high low"
  shows "let t = file_time high low div 10 - 11644473600 * 10 ^ 6
    in gettimeofday high low = (to_int32 (t div 10 ^ 6), t mod 10 ^ 6) \<and>
      (to_int32 (t div 10 ^ 6) = t div 10 ^ 6 \<longleftrightarrow> file_time high low < (11644473600 + 2 ^ 31) * 10 ^ 7)"
proof -
  let ?t = "file_time high low div 10 - 11644473600 * 10 ^ 6"
  have t: "0 \<le> ?t" using assms by auto
  have "uint ((or (push_bit 32 (ucast high)) (ucast low) :: u64) div 10) = file_time high low div 10"
    by (simp add: uint_div file_time_word)
  then have w: "uint ((or (push_bit 32 (ucast high)) (ucast low) :: u64) div 10 - 11644473600000000) = ?t"
    using t by (simp add: uint_sub_if')
  have "gettimeofday high low = (to_int32 (?t div 10 ^ 6), to_int32 (?t mod 10 ^ 6))"
    by (simp add: gettimeofday_def Let_def sint_ucast_32 uint_div uint_mod w)
  moreover have "to_int32 (?t mod 10 ^ 6) = ?t mod 10 ^ 6"
    using pos_mod_bound [of "10 ^ 6" ?t] pos_mod_sign [of "10 ^ 6" ?t] by (intro to_int32_id) auto
  moreover have "to_int32 (?t div 10 ^ 6) = ?t div 10 ^ 6 \<longleftrightarrow> ?t div 10 ^ 6 < 2 ^ 31"
  proof
    assume "to_int32 (?t div 10 ^ 6) = ?t div 10 ^ 6"
    then show "?t div 10 ^ 6 < 2 ^ 31"
      using signed_take_bit_int_less_exp [of 31 "?t div 10 ^ 6"] by (simp add: to_int32_def)
  next
    assume "?t div 10 ^ 6 < 2 ^ 31"
    moreover have "0 \<le> ?t div 10 ^ 6" using t by (simp add: pos_imp_zdiv_nonneg_iff)
    ultimately show "to_int32 (?t div 10 ^ 6) = ?t div 10 ^ 6" by (intro to_int32_id) auto
  qed
  moreover have "?t div 10 ^ 6 < 2 ^ 31 \<longleftrightarrow> file_time high low < (11644473600 + 2 ^ 31) * 10 ^ 7" by auto
  ultimately show ?thesis by (simp add: Let_def)
qed

theorem gettimeofday_wraps_2038_witness:
  "gettimeofday 0x019DB1DE 0xD53E8000 = (0, 0) \<and> gettimeofday 0x01E9FD1E 0xD53E8000 = (-2147483648, 0)"
  using gettimeofday_wraps_2038 [of "0x019DB1DE" "0xD53E8000"] gettimeofday_wraps_2038 [of "0x01E9FD1E" "0xD53E8000"]
  by (simp add: file_time_def Let_def to_int32_def)


subsection \<open>Running tests by name\<close>

text \<open>
  \<open>dlsym\<close> gives what the function of that name returns, if there is one; \<open>split\<close> is the splitting at commas. The result is
  that of the runner and the names called. A failure counts as run, or ends the run with its own code.
\<close>

fun test_loop :: "(string \<Rightarrow> int option) \<Rightarrow> bool \<Rightarrow> string list \<Rightarrow> int \<Rightarrow> string list \<Rightarrow> int \<times> string list" where
  "test_loop dlsym stop [] n calls = (n, calls)"
| "test_loop dlsym stop (t # ts) n calls =
     (if t = [] then test_loop dlsym stop ts n calls
      else case dlsym t of
        None \<Rightarrow> test_loop dlsym stop ts n calls
      | Some rc \<Rightarrow>
          if rc \<noteq> 0 \<and> stop then (rc, calls @ [t]) else test_loop dlsym stop ts (n + 1) (calls @ [t]))"

definition hp_test ::
  "(string \<Rightarrow> int option) \<Rightarrow> (string \<Rightarrow> string list) \<Rightarrow> string option \<Rightarrow> u32 \<Rightarrow> int \<times> string list" where
  "hp_test dlsym split test flags =
     (case test of None \<Rightarrow> (-1, [])
      | Some t \<Rightarrow> test_loop dlsym (bit flags 0) (split t) 0 [])"

definition known :: "(string \<Rightarrow> int option) \<Rightarrow> string list \<Rightarrow> string list" where
  "known dlsym ts = filter (\<lambda>t. t \<noteq> [] \<and> dlsym t \<noteq> None) ts"

text \<open>Without the flag every known test runs and the result is their number, failed ones included.\<close>

lemma test_loop_runs_all:
  "test_loop dlsym False ts n calls = (n + int (length (known dlsym ts)), calls @ known dlsym ts)"
  by (induction ts arbitrary: n calls) (auto simp: known_def)

text \<open>With it the run ends at the first failure.\<close>

lemma test_loop_stops:
  "test_loop dlsym True ts n calls =
    (case find (\<lambda>t. dlsym t \<noteq> Some 0) (known dlsym ts) of
       None \<Rightarrow> (n + int (length (known dlsym ts)), calls @ known dlsym ts)
     | Some t \<Rightarrow> (the (dlsym t), calls @ takeWhile (\<lambda>t. dlsym t = Some 0) (known dlsym ts) @ [t]))"
  by (induction ts arbitrary: n calls) (auto simp: known_def split: option.splits)

subsection \<open>Opening Redis\<close>

text \<open>
  \<open>conn\<close> is \<open>redisAsyncConnect\<close>: no context, or one with its error number. The context comes with the calls made on it.
  \<open>scan_host\<close> is \<open>sscanf\<close> with the format \<open>%[^:]:%d\<close> into 64 bytes: \<open>Undef\<close> when the host does not fit, \<open>None\<close> when it
  does not read both parts.
\<close>

definition scan_host :: "string \<Rightarrow> (string \<times> int) option outcome" where
  "scan_host addr =
     (let host = takeWhile (\<lambda>c. c \<noteq> CHR '':'') addr; rest = drop (length host) addr
      in if 64 \<le> length host then Undef
         else if host = [] \<or> rest = [] then Done None
         else
           let d = dropWhile is_space (tl rest);
               ds = (if d \<noteq> [] \<and> (hd d = CHR ''-'' \<or> hd d = CHR ''+'') then tl d else d)
           in if ds = [] \<or> \<not> is_digit (hd ds) then Done None else Done (Some (host, c_atoi d)))"

datatype redis_call = Attach | On_connect bool | On_disconnect | Auth string | Disconnect

definition hp_redis_init ::
  "(string \<Rightarrow> int \<Rightarrow> int option) \<Rightarrow> int \<Rightarrow> bool \<Rightarrow> bool \<Rightarrow> string option \<Rightarrow> string option \<Rightarrow> bool \<Rightarrow>
   (int \<times> (string \<times> int \<times> redis_call list) option) outcome" where
  "hp_redis_init conn hp_log_level redisc s_ev addr passwd on_connect =
     (case addr of None \<Rightarrow> Done (-1, None)
      | Some addr \<Rightarrow>
        if \<not> (redisc \<and> s_ev) then Done (-1, None)
        else case scan_host addr of
          Done None \<Rightarrow> Done (-2, None)
        | Done (Some (host, port)) \<Rightarrow>
            (case conn host port of
               None \<Rightarrow> Undef
             | Some err \<Rightarrow>
               if err \<noteq> 0 then Done (-2, None)
               else if hp_log_level > 0 \<and> passwd = None then Undef
               else Done (0, Some (host, port,
                 [Attach, On_connect on_connect, On_disconnect] @
                 (case passwd of None \<Rightarrow> [] | Some p \<Rightarrow> if p = [] then [] else [Auth p]))))
        | _ \<Rightarrow> Undef)"

definition hp_redis_uninit :: "(string \<times> int \<times> redis_call list) option \<Rightarrow> (string \<times> int \<times> redis_call list) option" where
  "hp_redis_uninit redisc = map_option (\<lambda>(h, p, cs). (h, p, cs @ [Disconnect])) redisc"

text \<open>
  When the log is on, as it is in a build without assertions, opening without a password fails only in
  the log: the length of NULL is taken.
\<close>

lemma hp_redis_init_no_password:
  assumes "scan_host a = Done (Some (h, p))" and "conn h p = Some 0"
  shows "hp_redis_init conn 9 True True (Some a) None cb = Undef"
    and "hp_redis_init conn 0 True True (Some a) None cb = Done (0, Some (h, p, [Attach, On_connect cb, On_disconnect]))"
  using assms by (simp_all add: hp_redis_init_def)

lemma scan_host_example: "scan_host ''127.0.0.1:6379'' = Done (Some (''127.0.0.1'', 6379))"
  by code_simp

end
