(* ===== verification/Hp_Lib.thy ===== *)
theory Hp_Lib
  imports Prelude
begin

section \<open>hp\_log, hp\_dict, hp\_ssl, hp\_bdb: thin layers over libraries\<close>

text \<open>
  Models \<open>src/hp_log.c\<close> without zlog, \<open>src/hp_dict.cpp\<close>, \<open>src/hp_ssl.c\<close> as a release build compiles it, and
  \<open>src/hp_bdb.c\<close>. What the libraries compute is a parameter; what is modelled is what this code does with it:
  the texts it builds, the keys it passes on, what it allocates and gives back.
\<close>

subsection \<open>Log lines\<close>

text \<open>\<open>%0wd\<close> of a number that is not negative.\<close>

definition zero_padded :: "nat \<Rightarrow> nat \<Rightarrow> string" where
  "zero_padded w n = replicate (w - length (nat_text n)) (CHR ''0'') @ nat_text n"

text \<open>\<open>date\<close> is what \<open>strftime\<close> makes of the time; there is room for 512 bytes.\<close>

definition hp_log_hdr :: "string \<Rightarrow> nat \<Rightarrow> nat \<Rightarrow> string" where
  "hp_log_hdr date usec pid = date @ ''.'' @ zero_padded 3 (usec div 1000) @ '']/'' @ zero_padded 5 pid @ '' ''"

text \<open>
  The stream is looked at before it is tested for NULL. \<open>err\<close> says whether it is the stream of errors, \<open>tty\<close> whether it is a
  terminal; the colour is for errors on a terminal.
\<close>

record log_stream =
  ls_err :: bool
  ls_tty :: bool

definition hp_log :: "string \<Rightarrow> log_stream option \<Rightarrow> string option \<Rightarrow> string option outcome" where
  "hp_log hdr f text =
     (case f of None \<Rightarrow> Undef
      | Some f \<Rightarrow>
        (case text of None \<Rightarrow> Done None
         | Some t \<Rightarrow>
           let buf = hdr @ t
           in Done (Some (if ls_tty f \<and> ls_err f
                then CHR 0x1B # ''[31m'' @ buf @ CHR 0x1B # ''[0m'' else buf))))"

subsection \<open>Counters by name\<close>

text \<open>
  The dictionary is a parameter: \<open>add_raw\<close> enters a key and answers the new entry, or that there is one, and which.
  A counter is the number stored with the entry. \<open>si_keyCompare\<close> and \<open>si_hashFunction\<close> are what the dictionary is given.
\<close>

definition si_keyCompare :: "string \<Rightarrow> string \<Rightarrow> int" where
  "si_keyCompare key1 key2 =
     (if length key1 \<noteq> length key2 then 0 else if list_all2 (=) key1 key2 then 1 else 0)"

definition si_hashFunction :: "(string \<Rightarrow> nat \<Rightarrow> u64) \<Rightarrow> string \<Rightarrow> u64" where
  "si_hashFunction gen key = gen key (length key)"

text \<open>The copy of the key is freed when the key was there.\<close>

definition hp_dict_at :: "(string \<Rightarrow> 'd \<Rightarrow> ('e option \<times> 'e) \<times> 'd) \<Rightarrow> string \<Rightarrow> 'd \<Rightarrow> 'e \<times> string list \<times> 'd" where
  "hp_dict_at add_raw k d =
     (case add_raw k d of ((e, existing), d) \<Rightarrow>
        (case e of Some e \<Rightarrow> (e, [], d) | None \<Rightarrow> (existing, [k], d)))"

lemma si_keyCompare_eq: "si_keyCompare a b \<noteq> 0 \<longleftrightarrow> a = b"
  by (auto simp: si_keyCompare_def list_all2_eq [symmetric])

text \<open>
  With a dictionary that enters every key at most once the same name leads to the same counter, different names to
  different ones, and the copies of a name that are kept are one.
\<close>

lemma hp_dict_at_same:
  assumes "\<And>k d. add_raw k d = (case lookup d k of Some e \<Rightarrow> ((None, e), d) | None \<Rightarrow> ((Some (fresh d), fresh d), insert_raw k (fresh d) d))"
    and "\<And>k k' e d. lookup (insert_raw k e d) k' = (if k' = k then Some e else lookup d k')"
  shows "case hp_dict_at add_raw k d of (e, _, d') \<Rightarrow>
    hp_dict_at add_raw k d' = (e, [k], d') \<and> (\<forall>k'. k' \<noteq> k \<longrightarrow> lookup d' k' = lookup d k')"
  by (cases "lookup d k") (simp_all add: hp_dict_at_def assms)

text \<open>The hypotheses hold for association lists whose entries are numbered.\<close>

lemma hp_dict_at_same_witness:
  "hp_dict_at (\<lambda>k d. case map_of d k of Some e \<Rightarrow> ((None, e), d) | None \<Rightarrow> ((Some (length d), length d), (k, length d) # d))
     ''a'' [(''a'', 0::nat)] = (0, [''a''], [(''a'', 0)])"
  using hp_dict_at_same [where lookup = map_of and fresh = length and insert_raw = "\<lambda>k e d. (k, e) # d" and d = "[]" and k = "''a''"
      and add_raw = "\<lambda>k d. case map_of d k of Some e \<Rightarrow> ((None, e), d) | None \<Rightarrow> ((Some (length d), length d), (k, length d) # d)"]
  by (simp add: hp_dict_at_def)

subsection \<open>Encryption and digests\<close>

record 'k ssl_lib =
  ssl_bio :: "string \<Rightarrow> bool"
  ssl_key :: "string \<Rightarrow> 'k option"
  ssl_encrypt :: "'k \<Rightarrow> char list \<Rightarrow> char list option"
  ssl_base64 :: "byte list \<Rightarrow> string"
  ssl_sha256 :: "byte list \<Rightarrow> byte list"
  ssl_hexstr :: "nat \<Rightarrow> byte list \<Rightarrow> (char list \<times> nat) option"

datatype ssl_res = R_bio | R_rsa | R_buf

text \<open>
  The result, what \<open>*outbuf\<close> becomes (\<open>None\<close>: it is not written) and what was allocated and not given back.
  The message is encrypted with its terminator.
\<close>

definition hp_ssl_rsa128 :: "'k ssl_lib \<Rightarrow> string option \<Rightarrow> string option \<Rightarrow> bool \<Rightarrow> int \<times> char list option option \<times> ssl_res list" where
  "hp_ssl_rsa128 L pubkey msg outbuf =
     (case (pubkey, msg) of
        (Some pubkey, Some msg) \<Rightarrow>
          if \<not> outbuf then (-1, None, [])
          else if \<not> ssl_bio L pubkey then (-2, Some None, [])
          else case ssl_key L pubkey of
            None \<Rightarrow> (-3, Some None, remove1 R_bio [R_bio])
          | Some key \<Rightarrow>
            let live = [R_bio, R_rsa, R_buf]; free_stuff = (\<lambda>live. remove1 R_rsa (remove1 R_bio live))
            in case ssl_encrypt L key (msg @ [CHR 0x00]) of
                 None \<Rightarrow> (-4, Some None, free_stuff live)
               | Some encrypt \<Rightarrow> (0, Some (Some encrypt), free_stuff live)
      | _ \<Rightarrow> (-1, None, []))"

definition hp_ssl_base64 :: "'k ssl_lib \<Rightarrow> byte list \<Rightarrow> nat \<Rightarrow> string" where
  "hp_ssl_base64 L input len = ssl_base64 L (take len input)"

text \<open>\<open>avail\<close> is the room \<open>sdsMakeRoomFor\<close> made, 65 bytes at least. The text gets the length the library reports.\<close>

definition hp_ssl_sha256 :: "'k ssl_lib \<Rightarrow> nat \<Rightarrow> byte list option \<Rightarrow> nat \<Rightarrow> char list option" where
  "hp_ssl_sha256 L avail d n =
     (case d of None \<Rightarrow> None
      | Some d \<Rightarrow>
        (case ssl_hexstr L avail (ssl_sha256 L (take n d)) of
           None \<Rightarrow> Some []
         | Some (buf, buflen) \<Rightarrow> Some (take buflen buf)))"

text \<open>
  The key and its source are always given back. The buffer is the caller's when the message was encrypted;
  when it was not, nobody has it.
\<close>

lemma hp_ssl_rsa128_live:
  "case hp_ssl_rsa128 L pubkey msg outbuf of (rc, out, live) \<Rightarrow>
     (rc = 0 \<longleftrightarrow> (\<exists>b. out = Some (Some b))) \<and> live = (if rc = 0 \<or> rc = -4 then [R_buf] else [])"
  by (auto simp: hp_ssl_rsa128_def Let_def split: option.splits)

text \<open>A library that counts the terminator makes the text of the digest one character too long.\<close>

lemma hp_ssl_sha256_terminator:
  assumes "ssl_hexstr L avail (ssl_sha256 L (take n d)) = Some (t @ [CHR 0x00], Suc (length t))"
  shows "hp_ssl_sha256 L avail (Some d) n = Some (t @ [CHR 0x00])"
  using assms by (simp add: hp_ssl_sha256_def)

subsection \<open>Berkeley DB\<close>

text \<open>The key is the text without its terminator. What \<open>get\<close> answers is not looked at.\<close>

definition hp_bdb_get :: "('b \<Rightarrow> string \<Rightarrow> 'v \<Rightarrow> int \<times> 'v) \<Rightarrow> 'b option \<Rightarrow> string option \<Rightarrow> 'v option \<Rightarrow> 'v option" where
  "hp_bdb_get get dbp keystr data =
     (case (dbp, keystr, data) of
        (Some db, Some k, Some v) \<Rightarrow> Some (snd (get db k v))
      | _ \<Rightarrow> None)"

definition hp_bdb_put :: "('b \<Rightarrow> string \<Rightarrow> 'v \<Rightarrow> int \<times> 'b) \<Rightarrow> 'b \<Rightarrow> string \<Rightarrow> 'v \<Rightarrow> int \<times> 'b" where
  "hp_bdb_put put dbp keystr data = put dbp keystr data"

text \<open>What is put is got, as the database promises; a key that is not there gives the data of the caller back, as if it were found.\<close>

lemma hp_bdb_get_put:
  assumes "\<And>b k v rc b' v'. put b k v = (0, b') \<Longrightarrow> get b' k v' = (0, v)" and "hp_bdb_put put b k v = (0, b')"
  shows "hp_bdb_get get (Some b') (Some k) (Some v') = Some v"
  using assms by (simp add: hp_bdb_get_def hp_bdb_put_def)

lemma hp_bdb_get_missing: "get b k v = (rc, v) \<Longrightarrow> hp_bdb_get get (Some b) (Some k) (Some v) = Some v"
  by (simp add: hp_bdb_get_def)

end
