(* ===== verification/Hp_Hdr.thy ===== *)
theory Hp_Hdr
  imports Hp_Str
begin

section \<open>hp\_http\_modify\_header: changing a header in place\<close>

text \<open>
  Models \<open>hp_http_modify_header\<close> and the small wrappers of \<open>src/hp_str.c\<close>. The message is the first \<open>len\<close>
  characters of a buffer; \<open>Undef\<close> is a read or a write outside the buffer. The search looks at every position of
  the message, the search for the end of the line does not look at the length.
\<close>

subsection \<open>The function\<close>

text \<open>\<open>strncasecmp\<close> with the length of the header's name: \<open>None\<close> when it reads behind the buffer.\<close>

fun case_prefix :: "string \<Rightarrow> char list \<Rightarrow> bool option" where
  "case_prefix [] cs = Some True"
| "case_prefix (h # hs) [] = None"
| "case_prefix (h # hs) (c # cs) = (if lower_char c = lower_char h then case_prefix hs cs else Some False)"

text \<open>The position of the name, \<open>Inr None\<close> when there is none, \<open>Inl\<close> for a read outside.\<close>

function hdr_find :: "char list \<Rightarrow> nat \<Rightarrow> string \<Rightarrow> nat \<Rightarrow> unit + nat option" where
  "hdr_find buf n hdr i =
     (if i < n then
        (case case_prefix hdr (drop i buf) of
           None \<Rightarrow> Inl ()
         | Some m \<Rightarrow> if m then Inr (Some i) else hdr_find buf n hdr (Suc i))
      else Inr None)"
  by pat_completeness auto
termination
  by (relation "measure (\<lambda>(buf, n, hdr, i). n - i)") auto

declare hdr_find.simps [simp del]

definition skipped :: "char \<Rightarrow> bool" where
  "skipped c \<longleftrightarrow> c = CHR '':'' \<or> c = CHR '' '' \<or> c = CHR 0x09"

text \<open>The value starts at the first character not skipped, the carriage return included, and ends before the line's end.\<close>

function value_loop :: "char list \<Rightarrow> nat \<Rightarrow> nat option \<Rightarrow> unit + (nat \<times> nat) option" where
  "value_loop buf p v =
     (if length buf \<le> p then Inl ()
      else
        let c = buf ! p in
        if c = CHR 0x0A then Inr None
        else
          let v = (if v = None \<and> \<not> skipped c then Some p else v) in
          if c = CHR 0x0D \<and> length buf \<le> Suc p then Inl ()
          else if c = CHR 0x0D \<and> buf ! Suc p = CHR 0x0A then Inr (Some (the v, p))
          else value_loop buf (Suc p) v)"
  by pat_completeness auto
termination
  by (relation "measure (\<lambda>(buf, p, v). length buf - p)") auto

declare value_loop.simps [simp del]

definition hdr_replace :: "char list \<Rightarrow> nat \<Rightarrow> nat \<times> nat \<Rightarrow> string option \<Rightarrow> (int \<times> char list \<times> nat) outcome" where
  "hdr_replace buf len vv nvalue =
     (case vv of (v, vend) \<Rightarrow>
        let nnvalue = (case nvalue of None \<Rightarrow> 0 | Some s \<Rightarrow> length s); nhdrvalue = vend - v;
            len' = nat (int len + int nnvalue - int nhdrvalue)
        in if nnvalue \<noteq> nhdrvalue \<and> (len < vend \<or> length buf < len') then Undef
           else
             let buf = (if nnvalue \<noteq> nhdrvalue then mem_move (v + nnvalue) vend (len - vend) buf else buf)
             in case (case nvalue of None \<Rightarrow> Some buf | Some s \<Rightarrow> buf_put v s buf) of
                  None \<Rightarrow> Undef
                | Some buf \<Rightarrow> Done (0, buf, len'))"

definition hp_http_modify_header ::
  "char list option \<Rightarrow> nat option \<Rightarrow> string option \<Rightarrow> string option \<Rightarrow> string option \<Rightarrow> (int \<times> char list \<times> nat) outcome" where
  "hp_http_modify_header buf len hdr nvalue ovalue =
     (case (buf, len, hdr) of
        (Some buf, Some len, Some hdr) \<Rightarrow>
          (case hdr_find buf (sub_size len (length hdr)) hdr 0 of
             Inl _ \<Rightarrow> Undef
           | Inr None \<Rightarrow> Done (1, buf, len)
           | Inr (Some i) \<Rightarrow>
               (case value_loop buf (i + length hdr) None of
                  Inl _ \<Rightarrow> Undef
                | Inr None \<Rightarrow> Done (-1, buf, len)
                | Inr (Some (v, vend)) \<Rightarrow>
                    if (case ovalue of None \<Rightarrow> True
                        | Some old \<Rightarrow> length old = vend - v \<and> case_prefix old (drop v buf) = Some True)
                    then hdr_replace buf len (v, vend) nvalue
                    else Done (-1, buf, len)))
      | _ \<Rightarrow> Done (-1, [], 0))"

subsection \<open>What it does to a message\<close>

lemma hdr_find_first:
  assumes "\<And>j. i \<le> j \<Longrightarrow> j < k \<Longrightarrow> case_prefix hdr (drop j buf) = Some False"
    and "i \<le> k" and "k < n" and "case_prefix hdr (drop k buf) = Some True"
  shows "hdr_find buf n hdr i = Inr (Some k)"
  using assms
proof (induction "k - i" arbitrary: i)
  case 0
  then show ?case by (subst hdr_find.simps) simp
next
  case (Suc m)
  then have "case_prefix hdr (drop i buf) = Some False" "i < n" by auto
  moreover have "hdr_find buf n hdr (Suc i) = Inr (Some k)" by (rule Suc.hyps(1)) (use Suc in auto)
  ultimately show ?case by (subst hdr_find.simps) simp
qed

lemma value_loop_skip:
  "list_all skipped sep \<Longrightarrow> value_loop (pre @ sep @ rest) (length pre) None = value_loop (pre @ sep @ rest) (length pre + length sep) None"
proof (induction sep arbitrary: pre)
  case (Cons c sep)
  have "value_loop (pre @ (c # sep) @ rest) (length pre) None = value_loop (pre @ (c # sep) @ rest) (Suc (length pre)) None"
    using Cons.prems by (subst value_loop.simps) (auto simp: nth_append skipped_def)
  also have "\<dots> = value_loop ((pre @ [c]) @ sep @ rest) (length (pre @ [c])) None" by simp
  also have "\<dots> = value_loop ((pre @ [c]) @ sep @ rest) (length (pre @ [c]) + length sep) None"
    by (rule Cons.IH) (use Cons.prems in simp)
  finally show ?case by simp
qed simp

lemma value_loop_value:
  "CHR 0x0A \<notin> set old \<Longrightarrow> CHR 0x0D \<notin> set old \<Longrightarrow>
    value_loop (pre @ old @ CHR 0x0D # CHR 0x0A # rest) (length pre) (Some v) = Inr (Some (v, length pre + length old))"
proof (induction old arbitrary: pre)
  case Nil
  then show ?case by (subst value_loop.simps) (simp add: nth_append)
next
  case (Cons c old)
  have "value_loop (pre @ (c # old) @ CHR 0x0D # CHR 0x0A # rest) (length pre) (Some v) =
      value_loop ((pre @ [c]) @ old @ CHR 0x0D # CHR 0x0A # rest) (length (pre @ [c])) (Some v)"
    using Cons.prems by (subst value_loop.simps) (auto simp: nth_append)
  also have "\<dots> = Inr (Some (v, length (pre @ [c]) + length old))" by (rule Cons.IH) (use Cons.prems in auto)
  finally show ?case by simp
qed

lemma value_loop_found:
  assumes "list_all skipped sep" and "CHR 0x0A \<notin> set old" and "CHR 0x0D \<notin> set old" and "old = [] \<or> \<not> skipped (hd old)"
  shows "value_loop (pre @ sep @ old @ CHR 0x0D # CHR 0x0A # rest) (length pre) None =
    Inr (Some (length pre + length sep, length pre + length sep + length old))"
proof -
  let ?b = "pre @ sep @ old @ CHR 0x0D # CHR 0x0A # rest" and ?p = "length pre + length sep"
  have "value_loop ?b (length pre) None = value_loop ?b ?p None" by (rule value_loop_skip) (rule assms(1))
  also have "\<dots> = value_loop ?b ?p (Some ?p)"
  proof (cases old)
    case Nil
    then show ?thesis by (subst (1 2) value_loop.simps) (simp add: nth_append skipped_def)
  next
    case (Cons c cs)
    then show ?thesis using assms by (subst (1 2) value_loop.simps) (auto simp: nth_append)
  qed
  also have "\<dots> = Inr (Some (?p, ?p + length old))"
    using value_loop_value [OF assms(2,3), of "pre @ sep" rest ?p] by simp
  finally show ?thesis .
qed

lemma case_prefix_append: "case_prefix hs cs = Some True \<Longrightarrow> case_prefix hs (cs @ rest) = Some True"
  by (induction hs cs rule: case_prefix.induct) (auto split: if_splits)

lemma hdr_replace_value:
  assumes "len = length pre + length old + length post" and "buf = pre @ old @ post @ tail"
  shows "hdr_replace buf len (length pre, length pre + length old) (Some new) =
    (if length new \<le> length old + length tail
     then Done (0, (pre @ new @ post) @ drop (length (pre @ new @ post)) buf, length (pre @ new @ post)) else Undef)"
proof -
  have len': "nat (int len + int (length new) - int (length old)) = length (pre @ new @ post)"
    by (simp add: assms(1))
  show ?thesis
  proof (cases "length new = length old")
    case True
    then show ?thesis
      unfolding hdr_replace_def Let_def prod.case option.case len' [simplified]
      by (simp add: assms buf_put_def)
  next
    case False
    have fit: "length buf < length (pre @ new @ post) \<longleftrightarrow> \<not> length new \<le> length old + length tail"
      by (auto simp: assms(2))
    have "buf_put (length pre) new (mem_move (length pre + length new) (length pre + length old) (length post) buf) =
      Some ((pre @ new @ post) @ drop (length (pre @ new @ post)) buf)" if "length new \<le> length old + length tail"
    proof -
      let ?d = "length pre + length new"
      let ?m = "mem_move ?d (length pre + length old) (length post) buf"
      have d: "?d + length post \<le> length buf" using that by (simp add: assms(2))
      have "take (length post) (drop (length pre + length old) buf) = post" by (simp add: assms(2))
      then have m: "?m = take ?d buf @ post @ drop (?d + length post) buf" by (simp add: mem_move_def)
      have "take (length pre) ?m = take (length pre) buf" unfolding m using d by (simp add: min_def)
      also have "\<dots> = pre" by (simp add: assms(2))
      finally have "take (length pre) ?m = pre" .
      moreover have "drop ?d ?m = post @ drop (?d + length post) buf" unfolding m using d by simp
      moreover have "?d \<le> length ?m" unfolding m using d by simp
      ultimately show ?thesis by (simp add: buf_put_def add.assoc)
    qed
    with False show ?thesis
      unfolding hdr_replace_def Let_def prod.case option.case diff_add_inverse len' fit
      by (simp add: assms(1))
  qed
qed

lemma hdr_replace_None:
  assumes "v \<le> vend" and "vend \<le> len" and "len \<le> length buf"
  shows "hdr_replace buf len (v, vend) None = hdr_replace buf len (v, vend) (Some [])"
  using assms by (simp add: hdr_replace_def Let_def buf_put_def)

text \<open>Where the code finds the header and its value; the rest is the check of the old value and the replacement.\<close>

lemma modify_header_at:
  fixes pre name sep old post tail :: string
  defines "msg \<equiv> pre @ name @ sep @ old @ CHR 0x0D # CHR 0x0A # post"
  assumes "case_prefix hdr name = Some True" and "length name = length hdr"
    and "\<forall>j < length pre. case_prefix hdr (drop j (msg @ tail)) = Some False"
    and "list_all skipped sep" and "CHR 0x0A \<notin> set old" and "CHR 0x0D \<notin> set old" and "old = [] \<or> \<not> skipped (hd old)"
    and "length msg < 2 ^ 64" and "v = length (pre @ name @ sep)"
  shows "hp_http_modify_header (Some (msg @ tail)) (Some (length msg)) (Some hdr) nvalue ovalue =
    (if (case ovalue of None \<Rightarrow> True
         | Some ov \<Rightarrow> length ov = length old \<and> case_prefix ov (drop v (msg @ tail)) = Some True)
     then hdr_replace (msg @ tail) (length msg) (v, v + length old) nvalue
     else Done (-1, msg @ tail, length msg))"
proof -
  let ?b = "msg @ tail"
  have "hdr_find ?b (sub_size (length msg) (length hdr)) hdr 0 = Inr (Some (length pre))"
  proof (rule hdr_find_first)
    show "length pre < sub_size (length msg) (length hdr)" using assms(3,9) by (simp add: msg_def)
    show "case_prefix hdr (drop (length pre) ?b) = Some True"
      using case_prefix_append [OF assms(2)] by (simp add: msg_def)
  qed (use assms(4) in auto)
  moreover have "value_loop ?b (length pre + length hdr) None = Inr (Some (v, v + length old))"
    using value_loop_found [OF assms(5-8), of "pre @ name" "post @ tail"] assms(3,10) by (simp add: msg_def add.assoc)
  ultimately show ?thesis by (cases ovalue) (simp_all add: hp_http_modify_header_def)
qed

text \<open>
  C30: In a message whose first match of the name is the header with the old value (when one is asked for), the value is
  replaced: what was before it and behind it stays as it was, the length is that of the new message, and
  what is behind the message in the buffer is left alone. No new value stands for the empty one. A new value that does not fit the buffer is written past
  its end, since the function is not told its size. The new value is the argument before the old one, as in the definition
  and in its tests; the prototype in \<open>hp_str.h\<close> documents the opposite order, and a call in that order
  with values of different lengths returns -1 and changes nothing.
\<close>

theorem hp_http_modify_header_replaces:
  fixes pre name sep old post tail new :: string
  defines "msg \<equiv> pre @ name @ sep @ old @ CHR 0x0D # CHR 0x0A # post"
    and "res \<equiv> pre @ name @ sep @ new @ CHR 0x0D # CHR 0x0A # post"
  assumes "case_prefix hdr name = Some True" and "length name = length hdr"
    and "\<forall>j < length pre. case_prefix hdr (drop j (msg @ tail)) = Some False"
    and "list_all skipped sep" and "CHR 0x0A \<notin> set old" and "CHR 0x0D \<notin> set old" and "old = [] \<or> \<not> skipped (hd old)"
    and "ovalue = None \<or> ovalue = Some ov \<and> length ov = length old \<and> case_prefix ov old = Some True"
    and "length msg < 2 ^ 64" and "nvalue = Some new \<or> nvalue = None \<and> new = []"
  shows "hp_http_modify_header (Some (msg @ tail)) (Some (length msg)) (Some hdr) nvalue ovalue =
    (if length new \<le> length old + length tail then Done (0, res @ drop (length res) (msg @ tail), length res) else Undef) \<and>
    (length new \<noteq> length old \<longrightarrow>
      hp_http_modify_header (Some (msg @ tail)) (Some (length msg)) (Some hdr) (Some old) (Some new) =
        Done (-1, msg @ tail, length msg))"
proof -
  let ?b = "msg @ tail" and ?v = "length (pre @ name @ sep)"
  note msg_len = assms(11) [unfolded msg_def] and first = assms(5) [unfolded msg_def]
  note at = modify_header_at [OF assms(3,4) first assms(6-9) msg_len refl, folded msg_def]
  have "case_prefix ov (drop ?v ?b) = Some True" if "case_prefix ov old = Some True"
    using case_prefix_append [OF that] by (simp add: msg_def)
  moreover have "hdr_replace ?b (length msg) (?v, ?v + length old) nvalue =
    (if length new \<le> length old + length tail then Done (0, res @ drop (length res) ?b, length res) else Undef)"
    using hdr_replace_value [of "length msg" "pre @ name @ sep" old "CHR 0x0D # CHR 0x0A # post" ?b tail new]
      hdr_replace_None [of ?v "?v + length old" "length msg" ?b] assms(12)
    by (auto simp: msg_def res_def)
  ultimately show ?thesis using assms(10) at [of nvalue ovalue] at [of "Some old" "Some new"] by auto
qed

theorem hp_http_modify_header_replaces_witness:
  "hp_http_modify_header (Some (''GET'' @ [CHR 0x0D, CHR 0x0A] @ ''Host: a:80'' @ [CHR 0x0D, CHR 0x0A] @ ''xyz''))
     (Some 17) (Some ''host'') (Some ''b.org'') (Some ''A:80'') =
   Done (0, ''GET'' @ [CHR 0x0D, CHR 0x0A] @ ''Host: b.org'' @ [CHR 0x0D, CHR 0x0A] @ ''yz'', 18) \<and>
   (\<exists>m. hp_http_modify_header (Some m) (Some 17) (Some ''host'') (Some ''a:80'') (Some ''b.org'') = Done (-1, m, 17))"
proof -
  let ?pre = "''GET'' @ [CHR 0x0D, CHR 0x0A]" and ?o = "''a:80''" and ?n = "''b.org''"
  define m where "m = ?pre @ ''Host'' @ '': '' @ ?o @ CHR 0x0D # CHR 0x0A # []"
  define r where "r = ?pre @ ''Host'' @ '': '' @ ?n @ CHR 0x0D # CHR 0x0A # []"
  have len: "length m = 17" "length r = 18" by (simp_all add: m_def r_def)
  have c: "case_prefix ''host'' ''Host'' = Some True" "case_prefix ''A:80'' ?o = Some True" by code_simp+
  have "\<forall>j < length ?pre. case_prefix ''host'' (drop j (m @ ''xyz'')) = Some False" unfolding m_def by code_simp
  then have "hp_http_modify_header (Some (m @ ''xyz'')) (Some (length m)) (Some ''host'') (Some ?n) (Some ''A:80'') =
    (if length ?n \<le> length ?o + length ''xyz'' then Done (0, r @ drop (length r) (m @ ''xyz''), length r) else Undef) \<and>
    (length ?n \<noteq> length ?o \<longrightarrow> hp_http_modify_header (Some (m @ ''xyz'')) (Some (length m)) (Some ''host'') (Some ?o) (Some ?n) =
      Done (-1, m @ ''xyz'', length m))"
    unfolding m_def r_def
    by (intro hp_http_modify_header_replaces [where ov = "''A:80''"]) (use c in \<open>simp_all add: skipped_def\<close>)
  then have "hp_http_modify_header (Some (m @ ''xyz'')) (Some 17) (Some ''host'') (Some ?n) (Some ''A:80'') =
    Done (0, r @ drop 18 (m @ ''xyz''), 18) \<and>
    hp_http_modify_header (Some (m @ ''xyz'')) (Some 17) (Some ''host'') (Some ?o) (Some ?n) = Done (-1, m @ ''xyz'', 17)"
    unfolding len by simp
  then show ?thesis by (intro conjI exI [of _ "m @ ''xyz''"]) (simp_all add: m_def r_def)
qed

subsection \<open>Texts in a row, sizes, whole files\<close>

text \<open>
  \<open>hp_2str\<close> prints at the pointer and moves it behind the terminator. \<open>None\<close> is a write outside the buffer. The result is the
  place of the text, the new pointer and the buffer.
\<close>

definition hp_2str :: "char list \<Rightarrow> nat \<Rightarrow> string \<Rightarrow> (nat \<times> nat \<times> char list) option" where
  "hp_2str buf p s = map_option (\<lambda>b. (p, p + length s + 1, b)) (buf_put p (s @ [CHR 0x00]) buf)"

fun many_2str :: "char list \<Rightarrow> nat \<Rightarrow> string list \<Rightarrow> (nat list \<times> char list) option" where
  "many_2str buf p [] = Some ([], buf)"
| "many_2str buf p (s # ss) =
     (case hp_2str buf p s of None \<Rightarrow> None
      | Some (q, p, buf) \<Rightarrow> map_option (\<lambda>(qs, b). (q # qs, b)) (many_2str buf p ss))"

lemma c_str_here: "CHR 0x00 \<notin> set s \<Longrightarrow> c_str (s @ CHR 0x00 # r) = s"
  by (induction s) (auto simp: c_str_def char_of_def)

text \<open>Texts printed one after the other all stay readable where they were put.\<close>

lemma many_2str_reads:
  assumes "many_2str (pre @ rest) (length pre) ss = Some (qs, b)" and "\<forall>s \<in> set ss. CHR 0x00 \<notin> set s"
  shows "take (length pre) b = pre \<and> map (\<lambda>q. c_str (drop q b)) qs = ss"
  using assms
proof (induction ss arbitrary: pre rest qs b)
  case (Cons s ss)
  let ?s = "s @ [CHR 0x00]"
  have fit: "length pre + length ?s \<le> length (pre @ rest)"
    using Cons.prems(1) by (auto simp: hp_2str_def buf_put_def split: if_splits)
  define rest' where "rest' = drop (length ?s) rest"
  have step: "hp_2str (pre @ rest) (length pre) s = Some (length pre, length (pre @ ?s), (pre @ ?s) @ rest')"
    using fit by (simp add: hp_2str_def buf_put_def rest'_def)
  then obtain qs' where q: "many_2str ((pre @ ?s) @ rest') (length (pre @ ?s)) ss = Some (qs', b)" "qs = length pre # qs'"
    using Cons.prems(1) unfolding many_2str.simps step option.case prod.case by auto
  from Cons.IH [OF q(1)] Cons.prems(2)
  have IH: "take (length (pre @ ?s)) b = pre @ ?s" "map (\<lambda>q. c_str (drop q b)) qs' = ss" by auto
  have "take (length pre) b = take (length pre) (take (length (pre @ ?s)) b)" by simp
  also have "\<dots> = pre" unfolding IH(1) by simp
  finally have p: "take (length pre) b = pre" .
  have "b = (pre @ ?s) @ drop (length (pre @ ?s)) b" using IH(1) append_take_drop_id by metis
  then obtain r where "b = pre @ s @ CHR 0x00 # r" by auto
  then have "c_str (drop (length pre) b) = s" using Cons.prems(2) c_str_here by simp
  with p IH(2) q(2) show ?case by simp
qed simp

text \<open>\<open>fmt\<close> prints the number with its unit. The static variant has a buffer of its own.\<close>

definition byte_to_mb_kb_str_r ::
  "(nat \<Rightarrow> char \<times> nat \<Rightarrow> string) option \<Rightarrow> nat \<Rightarrow> char list option \<Rightarrow> (bool \<times> char list) option" where
  "byte_to_mb_kb_str_r fmt bytes buff =
     (case (fmt, buff) of
        (Some f, Some b) \<Rightarrow>
          Option.bind (buf_put 0 [CHR 0x00] b)
            (\<lambda>b. map_option (Pair True) (c_snprintf 0 64 (f bytes (byte_to_mb_kb bytes)) b))
      | (_, b) \<Rightarrow> Some (False, case b of None \<Rightarrow> [] | Some b \<Rightarrow> b))"

definition byte_to_mb_kb_str ::
  "(nat \<Rightarrow> char \<times> nat \<Rightarrow> string) option \<Rightarrow> nat \<Rightarrow> char list \<Rightarrow> (bool \<times> char list) option" where
  "byte_to_mb_kb_str fmt bytes buff = byte_to_mb_kb_str_r fmt bytes (Some buff)"

text \<open>The static buffer of 64 bytes is never overrun, and its text is the printed one, cut to 63 characters.\<close>

lemma byte_to_mb_kb_str_text:
  assumes "length buff = 64" and "\<forall>u. CHR 0x00 \<notin> set (f bytes u)"
  shows "\<exists>b. byte_to_mb_kb_str (Some f) bytes buff = Some (True, b) \<and> length b = 64 \<and>
    c_str b = take 63 (f bytes (byte_to_mb_kb bytes))"
proof -
  let ?t = "take 63 (f bytes (byte_to_mb_kb bytes))"
  have "CHR 0x00 \<notin> set ?t" using assms(2) by (cases "byte_to_mb_kb bytes") (auto dest: in_set_takeD)
  then have "c_str (?t @ CHR 0x00 # r) = ?t" for r by (rule c_str_here)
  then show ?thesis
    using assms(1) by (auto simp: byte_to_mb_kb_str_def byte_to_mb_kb_str_r_def buf_put_def c_snprintf_def char_of_def)
qed

text \<open>The file: its content when it can be opened, and whether its size can be told. The handle stays open on success.\<close>

definition hp_fread :: "(string \<Rightarrow> (string \<times> bool) option) \<Rightarrow> string option \<Rightarrow> string option \<times> nat" where
  "hp_fread fs fname =
     (case fname of None \<Rightarrow> (None, 0)
      | Some n \<Rightarrow>
        (case fs n of None \<Rightarrow> (None, 0)
         | Some (content, stat_ok) \<Rightarrow> if \<not> stat_ok then (None, 0) else (Some content, 1)))"


subsection \<open>Time as text\<close>

text \<open>
  \<open>gmtime\<close>: the date of a number of seconds since 1970, by the calendar of 400 years that begin on March 1. \<open>strftime\<close> for the
  conversions the code uses; one it does not know stays as it is, and a result that does not fit is empty.
  \<open>avail\<close> is the room that sds makes, at least 128.
\<close>

record tm =
  tm_year :: int
  tm_mon :: int
  tm_mday :: int
  tm_hour :: int
  tm_min :: int
  tm_sec :: int

definition gmtime :: "int \<Rightarrow> tm" where
  "gmtime t =
     (let z = t div 86400 + 719468; s = t mod 86400; era = z div 146097; doe = z mod 146097;
          yoe = (doe - doe div 1460 + doe div 36524 - doe div 146096) div 365;
          doy = doe - (365 * yoe + yoe div 4 - yoe div 100); mp = (5 * doy + 2) div 153;
          m = (if mp < 10 then mp + 3 else mp - 9)
      in \<lparr>tm_year = yoe + era * 400 + (if m \<le> 2 then 1 else 0), tm_mon = m, tm_mday = doy - (153 * mp + 2) div 5 + 1,
          tm_hour = s div 3600, tm_min = s mod 3600 div 60, tm_sec = s mod 60\<rparr>)"

definition two_digits :: "int \<Rightarrow> string" where
  "two_digits n = (if n < 10 then ''0'' @ int_text n else int_text n)"

fun strftime_text :: "string \<Rightarrow> tm \<Rightarrow> string" where
  "strftime_text [] tm = []"
| "strftime_text [c] tm = [c]"
| "strftime_text (c # d # cs) tm =
     (if c \<noteq> CHR ''%'' then c # strftime_text (d # cs) tm
      else (if d = CHR ''Y'' then int_text (tm_year tm)
            else if d = CHR ''m'' then two_digits (tm_mon tm) else if d = CHR ''d'' then two_digits (tm_mday tm)
            else if d = CHR ''H'' then two_digits (tm_hour tm) else if d = CHR ''M'' then two_digits (tm_min tm)
            else if d = CHR ''S'' then two_digits (tm_sec tm) else if d = CHR ''%'' then [d] else [c, d]) @
           strftime_text cs tm)"

definition hp_timestr :: "nat \<Rightarrow> int \<Rightarrow> string option \<Rightarrow> string" where
  "hp_timestr avail t fmt =
     (let s = strftime_text (case fmt of None \<Rightarrow> ''%Y-%m-%d %H:%M:%S'' | Some f \<Rightarrow> f) (gmtime t)
      in if length s < avail then s else [])"


text \<open>The time of day of a date is that of its second, whatever the day.\<close>

lemma gmtime_seconds: "tm_hour (gmtime t) * 3600 + tm_min (gmtime t) * 60 + tm_sec (gmtime t) = t mod 86400"
proof -
  define s where "s = t mod 86400"
  have "s div 3600 * 3600 + s mod 3600 = s" by (rule div_mult_mod_eq)
  moreover have "s mod 3600 div 60 * 60 + s mod 3600 mod 60 = s mod 3600" by (rule div_mult_mod_eq)
  moreover have "s mod 3600 mod 60 = s mod 60" by (rule mod_mod_cancel) simp
  ultimately have "s div 3600 * 3600 + s mod 3600 div 60 * 60 + s mod 60 = s" by linarith
  then show ?thesis by (simp only: gmtime_def Let_def tm.select_convs s_def)
qed

end
