(* ===== verification/Hp_Tests.thy ===== *)
theory Hp_Tests
  imports Hp_Cjson Hp_Hdr
begin

section \<open>The repository's own tests, run on the model\<close>

text \<open>
  Models the test functions at the end of \<open>src/hp_cjson.c\<close> and \<open>src/hp_str.c\<close>: every assertion about a modelled function
  as a conjunct, block by block, with the same inputs. Documents are given parsed, in the library \<open>std_cjson\<close>. The
  theorems evaluate them, so the models agree with the code on every case its authors thought of.
\<close>

text \<open>Bitwise equations for characters, for evaluation.\<close>

declare lower_char_def [code del] is_digit_def [code del]

lemma lower_char_code [code]:
  "lower_char (Char b0 b1 b2 b3 b4 b5 b6 b7) =
     (if \<not> b7 \<and> b6 \<and> \<not> b5 \<and> (b0 \<or> b1 \<or> b2 \<or> b3 \<or> b4) \<and> \<not> (b4 \<and> b3 \<and> (b2 \<or> b1 \<and> b0))
      then Char b0 b1 b2 b3 b4 True b6 b7 else Char b0 b1 b2 b3 b4 b5 b6 b7)"
  unfolding lower_char_def
  by (cases b0; cases b1; cases b2; cases b3; cases b4; cases b5; cases b6; cases b7; simp add: char_of_def bit_Suc_0_iff)

lemma is_digit_code [code]:
  "is_digit (Char b0 b1 b2 b3 b4 b5 b6 b7) \<longleftrightarrow> \<not> b7 \<and> \<not> b6 \<and> b5 \<and> b4 \<and> (\<not> b3 \<or> \<not> b2 \<and> \<not> b1)"
  unfolding is_digit_def
  by (cases b0; cases b1; cases b2; cases b3; cases b4; cases b5; cases b6; cases b7; simp)

subsection \<open>hp\_cjson\<close>

definition found :: "json option outcome \<Rightarrow> bool" where
  "found r = (case r of Done (Some _) \<Rightarrow> True | _ \<Rightarrow> False)"

definition missing :: "json option outcome \<Rightarrow> bool" where
  "missing r = (r = Done None)"

text \<open>A default is a buffer with a terminator.\<close>

definition sval :: "json \<Rightarrow> string \<Rightarrow> char list \<Rightarrow> string option" where
  "sval j k def =
     (case cjson_sval std_cjson (Some j) (Some k) (Some def) of
        Done (S_doc s, _) \<Rightarrow> Some s
      | Done (S_print s, _) \<Rightarrow> Some s
      | Done (S_def, Some d) \<Rightarrow> Some (c_str d)
      | _ \<Rightarrow> None)"

definition lit :: "string \<Rightarrow> char list" where
  "lit s = s @ [CHR 0x00]"

definition quoted :: "string \<Rightarrow> string" where
  "quoted s = quote_char # s @ [quote_char]"

definition test_in_cmdline :: bool where
  "test_in_cmdline \<longleftrightarrow>
     missing (cjson_path std_cjson None None) \<and>
     cjson_in std_cjson (Some (JArr [])) = ''('' @ [sq, sq] @ '')'' \<and>
     cjson_in std_cjson (Some (JArr [JStr ''1''])) = ''('' @ quoted ''1'' @ '')'' \<and>
     cjson_in std_cjson (Some (JArr [JStr ''1'', JStr ''2''])) = ''('' @ quoted ''1'' @ '','' @ quoted ''2'' @ '')'' \<and>
     cjson_in std_cjson (Some (JObj [(''1'', JStr ''1'')])) = ''('' @ [sq, sq] @ '')'' \<and>
     cjson_path std_cjson (Some (JObj [(''1'', JStr ''1'')])) (Some ''1'') = Done (Some (JStr ''1'')) \<and>
     cjson_in std_cjson (Some (JStr ''1'')) = ''('' @ quoted ''1'' @ '')'' \<and>
     cjson_cmdline std_cjson [] None = Done [] \<and>
     cjson_cmdline std_cjson ''hello'' None = Done ''hello'' \<and>
     cjson_cmdline std_cjson ''hello'' (Some (JObj [(''a'', JNum 1)])) = Done ''hello'' \<and>
     cjson_cmdline std_cjson ''hello'' (Some (JArr [JStr ''a''])) = Done ''hello a'' \<and>
     cjson_cmdline std_cjson ''hello'' (Some (JArr [JStr ''a'', JStr ''bc''])) = Done ''hello a bc''"

definition test_ival_replace :: bool where
  "test_ival_replace \<longleftrightarrow>
     cjson_ival std_cjson (Some (JObj [(''success'', JBool False)])) (Some ''success'') 1 = Done 0 \<and>
     cjson_ival std_cjson (Some (JObj [(''success'', JBool True)])) (Some ''success'') 0 = Done 1 \<and>
     (let j = json_replace (JObj [(''params'', JObj [(''id'', JStr ''123412341'')])]) ''params''
                (JObj [(''OS'', JStr ''Android''), (''OSVer'', JStr ''5.1'')])
      in found (cjson_path std_cjson (Some j) (Some ''params/OS'')))"

definition refused :: "string \<Rightarrow> string \<Rightarrow> bool" where
  "refused k v = (case cjson_check std_cjson (JObj [(k, JStr v)]) ''phone'' (check_phone std_cjson) of
     Done (rc, j) \<Rightarrow> rc = 0 | _ \<Rightarrow> False)"

definition test_check_refused :: bool where
  "test_check_refused \<longleftrightarrow>
     refused ''phonea'' ''  '' \<and> refused ''phone'' '''' \<and> refused ''phone'' ''  '' \<and>
     refused ''phone'' ''1306696966'' \<and> refused ''phone'' ''13066969666666''"

definition test_sval :: bool where
  "test_sval \<longleftrightarrow>
     (let j = JObj [(''params'', JObj [(''hasChild'', JNum 11), (''deptCode'', JStr ''999951688'')])]
      in cjson_exists std_cjson (Some j) [''params/deptCode'', ''params/hasChild''] \<noteq> 0 \<and>
         sval j ''params/deptCode'' (lit '''') = Some ''999951688'' \<and>
         sval j ''/params/deptCode'' (lit '''') = Some ''999951688'' \<and>
         sval j ''params/deptCode/'' (lit '''') = Some ''999951688'' \<and>
         sval j ''/params/deptCode/'' (lit '''') = Some ''999951688'' \<and>
         sval j ''/params/this_key_NOT_exist/'' (lit ''hello'') = Some ''hello'' \<and>
         cjson_ival std_cjson (Some j) (Some ''params/hasChild'') 0 = Done 11 \<and>
         cjson_ival std_cjson (Some j) (Some ''params/this_key_NOT_exist'') 12 = Done 12)"

definition test_array :: bool where
  "test_array \<longleftrightarrow>
     (let j = JObj [(''name'', JStr ''jack''), (''apps'', JArr [JStr ''1'', JStr ''2'', JStr ''3''])];
          f = JArr [JObj [(''flag'', JBool True)]]
      in sval j ''name'' (lit '''') = Some ''jack'' \<and>
         sval j ''apps[0]'' (lit '''') = Some ''1'' \<and> sval j ''apps[1]'' (lit '''') = Some ''2'' \<and>
         sval j ''apps[2]'' (lit '''') = Some ''3'' \<and>
         sval j ''apps/[0]'' (lit '''') = Some ''1'' \<and> sval j ''apps/[1]'' (lit '''') = Some ''2'' \<and>
         sval j ''apps/[2]'' (lit '''') = Some ''3'' \<and>
         found (cjson_path std_cjson (Some f) (Some ''[0]'')) \<and>
         cjson_ival std_cjson (Some f) (Some ''[0]/flag'') 0 = Done 1)"

definition test_index :: bool where
  "test_index \<longleftrightarrow>
     (let j = JObj [(''data'', JObj [(''params'', JArr [JObj [(''app_id'', JStr ''appid'')]])])];
          p = (\<lambda>k. cjson_path std_cjson (Some j) (Some k))
      in missing (p ''data/params['') \<and> missing (p ''data/params]'') \<and> missing (p ''data/params[]'') \<and>
         missing (p ''data/params[ ]'') \<and> missing (p ''data/params[a]'') \<and>
         found (p ''data/params[0]'') \<and> found (p ''data/params[-1]'') \<and> found (p ''data/params[1]'') \<and>
         found (p ''data/params[999]'') \<and>
         missing (p ''data/params[/app_id'') \<and> missing (p ''data/params]/app_id'') \<and> missing (p ''data/params[]/app_id'') \<and>
         missing (p ''data/params[ ]/app_id'') \<and> missing (p ''data/params[a]/app_id'') \<and>
         found (p ''data/params[0]/app_id'') \<and> found (p ''data/params[-1]/app_id'') \<and> found (p ''data/params[1]/app_id'') \<and>
         found (p ''data/params[999]/app_id'') \<and> missing (p ''data/params[999]/this_KEY_NOT_exist'') \<and>
         sval j ''data/params[0]/app_id'' [] \<noteq> None)"

lemma test_in_cmdline_ok: test_in_cmdline
  by code_simp

lemma test_ival_replace_ok: test_ival_replace
  by code_simp

lemma test_check_refused_ok: test_check_refused
  by code_simp

lemma test_sval_ok: test_sval
  by code_simp

lemma test_array_ok: test_array
  by code_simp

lemma test_index_ok: test_index
  by code_simp


text \<open>Every call gets a buffer of 64 zero bytes.\<close>

definition range_is :: "string \<Rightarrow> string \<Rightarrow> bool" where
  "range_is k s \<longleftrightarrow>
     sval (JObj [(''data'', JObj [(''id'', JStr ''123456789098765'')])]) k (replicate 64 (CHR 0x00)) = Some s"

definition test_range :: bool where
  "test_range \<longleftrightarrow>
     (let j = JObj [(''data'', JObj [(''id'', JStr ''123456789098765'')])]
      in sval j ''data/this_key_NOT_exist'' (lit ''defvalue'') = Some ''defvalue'' \<and>
         sval j ''data/id'' (lit '''') = Some ''123456789098765'') \<and>
     range_is ''data/id[a,b]'' '''' \<and> range_is ''data/id[0,13]'' ''12345678909876'' \<and>
     range_is ''data/id[-1,13]'' '''' \<and> range_is ''data/id[1,13]'' ''2345678909876'' \<and>
     range_is ''data/id[13,13]'' ''6'' \<and> range_is ''data/id[14,13]'' '''' \<and>
     range_is ''data/id[0,0]'' ''1'' \<and> range_is ''data/id[0,1]'' ''12'' \<and>
     range_is ''data/id[0,14]'' ''123456789098765'' \<and> range_is ''data/id[0,15]'' ''123456789098765'' \<and>
     range_is ''data/id[14,14]'' ''5'' \<and> range_is ''data/id[14,15]'' ''5'' \<and> range_is ''data/id[15,14]'' '''' \<and>
     range_is ''data/id[15,15]'' '''' \<and> range_is ''data/id[-1,-1]'' ''''"

definition test_or :: bool where
  "test_or \<longleftrightarrow>
     (let j = JObj [(''data'', JObj [(''id2'', JStr ''123456789098765'')])];
          p = (\<lambda>k. cjson_path std_cjson (Some j) (Some k))
      in p ''|'' = Done (Some j) \<and> found (p ''data'') \<and> found (p ''data|'') \<and> found (p ''|data'') \<and>
         found (p ''this_id_NOT_exist|data'') \<and> found (p ''|this_id_NOT_exist|data'') \<and>
         found (p ''this_id_NOT_exist|data|'') \<and> found (p ''data/this_id_NOT_exist|id2'') \<and>
         found (p ''data/this_id_NOT_exist|this_id_NOT_exist_too|id2''))"

definition accepted :: "string \<Rightarrow> string \<Rightarrow> bool" where
  "accepted v s = (case cjson_check std_cjson (JObj [(''phone'', JStr v)]) ''phone'' (check_phone std_cjson) of
     Done (rc, j) \<Rightarrow> rc \<noteq> 0 \<and> sval j ''phone'' (lit '''') = Some s | _ \<Rightarrow> False)"

definition test_check_accepted :: bool where
  "test_check_accepted \<longleftrightarrow> accepted ''13066969666   '' ''13066969666'' \<and> accepted ''13066969666'' ''13066969666''"

definition test_fmt_exists :: bool where
  "test_fmt_exists \<longleftrightarrow>
     (let phone = JObj [(''phone'', JStr ''13066969666'')];
          page = JObj [(''page'', JNum 1), (''line'', JNum 10), (''params'', JObj [(''hasChild'', JNum 1),
                   (''deptCode'', JStr ''999951688''), (''accessToken'', JStr ''679cf9f8c5b04965b820a5b4103f2020''),
                   (''name'', JStr ''name10'')])]
      in cjson_fmt std_cjson ((@) ''phone='') (\<lambda>i. ''phone='' @ int_text i) (Some phone) ''text'' = '''' \<and>
         cjson_fmt std_cjson ((@) ''age='') (\<lambda>i. ''age='' @ int_text i) (Some (JObj [(''age'', JNum 29)])) ''age'' = ''age=29'' \<and>
         cjson_fmt std_cjson ((@) ''phone='') (\<lambda>i. ''phone='' @ int_text i) (Some phone) ''phone'' = ''phone=13066969666'' \<and>
         cjson_exists std_cjson (Some page)
           [''/page'', ''page/'', ''page'', ''params'', ''/params/name'', ''params/name'', ''/params/name/''] \<noteq> 0 \<and>
         cjson_exists std_cjson (Some page) [''/NOT_EXIST''] = 0)"

definition two_objs :: "string \<Rightarrow> json" where
  "two_objs name = JArr [JObj [(''id'', JStr ''2384''), (name, JStr ''jack'')], JObj [(''id'', JStr ''2385''), (name, JStr ''tom'')]]"

definition col_is :: "json \<Rightarrow> string \<Rightarrow> string list \<Rightarrow> bool" where
  "col_is j k vs = (case cjson_col std_cjson (Some j) (Some k) of
     Done (Some c) \<Rightarrow> cj_print std_cjson False c = ''['' @ comma (map quoted vs) @ '']'' | _ \<Rightarrow> False)"

definition test_col :: bool where
  "test_col \<longleftrightarrow>
     (let j = JObj [(''objs'', two_objs ''name'')];
          p = JObj [(''line'', JNum 10), (''params'', JObj [(''objs'', two_objs ''name'')])];
          p1 = JObj [(''line'', JNum 10), (''params'', JObj [(''objs'', two_objs ''name1'')])]
      in missing (cjson_col std_cjson (Some j) (Some ''objs/id/a'')) \<and>
         missing (cjson_col std_cjson (Some j) (Some ''objs/id/a/'')) \<and>
         missing (cjson_col std_cjson (Some j) (Some ''/objs/id/a'')) \<and>
         missing (cjson_col std_cjson (Some j) (Some ''objs/phone'')) \<and>
         col_is j ''objs/id'' [''2384'', ''2385''] \<and>
         col_is p ''params/objs/id'' [''2384'', ''2385''] \<and>
         col_is p ''params/objs/id|name'' [''2384'', ''2385''] \<and>
         col_is p ''params/objs/name|id'' [''jack'', ''tom''] \<and>
         col_is p1 ''params/objs/name|id'' [''2384'', ''2385''])"

definition cJSON_IsNumber :: "json \<Rightarrow> int" where
  "cJSON_IsNumber j = (case j of JNum _ \<Rightarrow> 1 | _ \<Rightarrow> 0)"

definition cJSON_IsString :: "json \<Rightarrow> int" where
  "cJSON_IsString j = (case j of JStr _ \<Rightarrow> 1 | _ \<Rightarrow> 0)"

definition test_is :: bool where
  "test_is \<longleftrightarrow>
     (let j = JObj [(''page'', JNum 1), (''line'', JNum 10), (''params'', JObj [(''hasChild'', JNum 1),
                   (''deptCode'', JStr ''999951688''), (''accessToken'', JStr ''679cf9f8c5b04965b820a5b4103f2020''),
                   (''name'', JStr ''name10'')])]
      in cjson_is std_cjson (Some j) (Some ''line'') (Some cJSON_IsNumber) = Done 1 \<and>
         cjson_is std_cjson (Some j) (Some ''params/hasChild'') (Some cJSON_IsString) = Done 0 \<and>
         cjson_is std_cjson (Some j) (Some ''params/hasChild'') (Some cJSON_IsNumber) = Done 1 \<and>
         cjson_is std_cjson (Some j) (Some ''params/deptCode'') (Some cJSON_IsString) = Done 1)"

lemma test_range_ok: test_range
  by code_simp

lemma test_or_ok: test_or
  by code_simp

lemma test_check_accepted_ok: test_check_accepted
  by code_simp

lemma test_fmt_exists_ok: test_fmt_exists
  by code_simp

lemma test_col_ok: test_col
  by code_simp

lemma test_is_ok: test_is
  by code_simp


subsection \<open>hp\_str\<close>

definition dots :: "string \<Rightarrow> string list" where
  "dots s = (if s = [] then [] else split_on CHR ''.'' s)"

definition test_timestr :: bool where
  "test_timestr \<longleftrightarrow>
     hp_timestr 256 0 None = ''1970-01-01 00:00:00'' \<and>
     hp_timestr 256 1688225233 None = ''2023-07-01 15:27:13'' \<and>
     hp_timestr 256 1688225233 (Some ''%Y-%m-%d'') = ''2023-07-01'' \<and>
     hp_timestr 256 1688225233 (Some ''%H:%M:%S'') = ''15:27:13'' \<and>
     hp_timestr 256 1688225233 (Some ''day=%d/hour=%H'') = ''day=01/hour=15'' \<and>
     hp_timestr 256 1688225233 (Some ''%E'') = ''%E'' \<and>
     hp_timestr 256 1688225233 (Some ''hello'') = ''hello''"

definition test_vercmp :: bool where
  "test_vercmp \<longleftrightarrow>
     hp_vercmp dots None None = 0 \<and> hp_vercmp dots None (Some '''') = 0 \<and>
     hp_vercmp dots (Some '''') None = 0 \<and> hp_vercmp dots (Some '''') (Some '''') = 0 \<and>
     hp_vercmp dots (Some ''1'') (Some '''') > 0 \<and> hp_vercmp dots (Some '''') (Some ''1'') < 0 \<and>
     hp_vercmp dots (Some ''1'') (Some ''1'') = 0 \<and> hp_vercmp dots (Some ''1'') (Some ''1.0'') = 0 \<and>
     hp_vercmp dots (Some ''1.0'') (Some ''1'') = 0 \<and> hp_vercmp dots (Some ''1.1'') (Some ''1'') > 0 \<and>
     hp_vercmp dots (Some ''1'') (Some ''1.1'') < 0 \<and> hp_vercmp dots (Some ''1'') (Some ''1.0.0'') = 0 \<and>
     hp_vercmp dots (Some ''1.0.0'') (Some ''1'') = 0 \<and> hp_vercmp dots (Some ''1.0.1'') (Some ''1'') > 0 \<and>
     hp_vercmp dots (Some ''1'') (Some ''1.0.1'') < 0 \<and> hp_vercmp dots (Some ''1.0'') (Some ''1.1'') < 0 \<and>
     hp_vercmp dots (Some ''1.1'') (Some ''1.0'') > 0 \<and> hp_vercmp dots (Some ''1.1.0'') (Some ''1.1'') = 0 \<and>
     hp_vercmp dots (Some ''1.1'') (Some ''1.1.0'') = 0 \<and> hp_vercmp dots (Some ''1.1.1'') (Some ''1.1.0'') > 0 \<and>
     hp_vercmp dots (Some ''1.0.1'') (Some ''1.1.0'') < 0"

definition test_quote :: bool where
  "test_quote \<longleftrightarrow> sds_quote ''hello'' = sq # ''hello'' @ [sq] \<and> sds_quote '''' = [sq, sq]"

definition test_myatoi :: bool where
  "test_myatoi \<longleftrightarrow>
     myatoi (Some '''') 0 = Some 0 \<and> myatoi (Some ''-'') 0 = Some 0 \<and> myatoi (Some ''-1'') 2 = Some (-1) \<and>
     myatoi (Some ''0'') 1 = Some 0 \<and> myatoi (Some ''1'') 1 = Some 1 \<and> myatoi (Some ''+1'') 2 = Some 1 \<and>
     myatoi (Some ''-1a'') 3 = Some (-1) \<and> myatoi (Some ''+1a'') 3 = Some 1 \<and> myatoi (Some ''0a'') 2 = Some 0 \<and>
     myatoi (Some ''1a'') 2 = Some 1 \<and> myatoi (Some ''a'') 1 = Some 0 \<and> myatoi (Some ''a0'') 2 = Some 0 \<and>
     myatoi (Some ''--1'') 3 = Some 0"

text \<open>The last comparison of the source stops at the first zero byte.\<close>

definition test_2str :: bool where
  "test_2str \<longleftrightarrow>
     (case many_2str (replicate 512 (CHR 0x00)) 0 [int_text 1, ''hello'', int_text 20] of
        None \<Rightarrow> False
      | Some (ps, buf) \<Rightarrow> map (\<lambda>p. c_str (drop p buf)) ps = [''1'', ''hello'', ''20''] \<and> c_str buf = ''1'')"

definition test_blank :: bool where
  "test_blank \<longleftrightarrow>
     hp_isblank (Some '''') \<noteq> 0 \<and> hp_isblank (Some [CHR 0x0A]) \<noteq> 0 \<and> hp_isblank (Some '' '') \<noteq> 0 \<and>
     hp_isblank (Some ('' '' @ [CHR 0x0A])) \<noteq> 0"

definition test_find :: bool where
  "test_find \<longleftrightarrow>
     hp_str_find 0 None = Some 0 \<and> hp_str_find 0 (Some '''') = Some 0 \<and> hp_str_find 0 (Some ''1'') = Some 0 \<and>
     hp_str_find 1 (Some ''1'') = Some 1 \<and> hp_str_find 1 (Some ''1,2'') = Some 1 \<and> hp_str_find 2 (Some ''1,2'') = Some 1 \<and>
     hp_str_find 3 (Some ''1,2'') = Some 0 \<and> hp_str_find 0 (Some ''0,2,3'') = Some 1 \<and>
     hp_str_find 2 (Some ''0,2,3'') = Some 1 \<and> hp_str_find 3 (Some ''0,2,3'') = Some 1 \<and>
     hp_str_find 4 (Some ''0,2,3'') = Some 0 \<and> hp_str_find 4 (Some ''0,2,3,4,'') = Some 1 \<and>
     hp_str_find 5 (Some ''0,2,3,4,'') = Some 0"

lemma test_gmtime:
  "gmtime 0 = \<lparr>tm_year = 1970, tm_mon = 1, tm_mday = 1, tm_hour = 0, tm_min = 0, tm_sec = 0\<rparr>"
  "gmtime 1688225233 = \<lparr>tm_year = 2023, tm_mon = 7, tm_mday = 1, tm_hour = 15, tm_min = 27, tm_sec = 13\<rparr>"
  by (simp_all add: gmtime_def cong: let_weak_cong)

lemma test_timestr_ok: test_timestr
  unfolding test_timestr_def hp_timestr_def test_gmtime by code_simp

lemma test_vercmp_ok: test_vercmp
  by code_simp

lemma test_quote_ok: test_quote
  by code_simp

lemma test_myatoi_ok: test_myatoi
  by code_simp

lemma test_2str_ok: test_2str
  by code_simp

lemma test_blank_ok: test_blank
  by code_simp

lemma test_find_ok: test_find
  by code_simp


text \<open>The search of the header from the rest of the buffer, for evaluation.\<close>

primrec hdr_scan :: "nat \<Rightarrow> string \<Rightarrow> char list \<Rightarrow> nat \<Rightarrow> unit + nat option" where
  "hdr_scan 0 hdr cs i = Inr None"
| "hdr_scan (Suc n) hdr cs i =
     (case case_prefix hdr cs of
        None \<Rightarrow> Inl ()
      | Some m \<Rightarrow> if m then Inr (Some i) else hdr_scan n hdr (tl cs) (Suc i))"

lemma hdr_find_scan: "hdr_find buf n hdr i = hdr_scan (n - i) hdr (drop i buf) i"
proof (induction "n - i" arbitrary: i)
  case 0
  then show ?case by (subst hdr_find.simps) simp
next
  case (Suc m)
  have m: "m = n - Suc i" using Suc.hyps(2) by simp
  have "hdr_find buf n hdr (Suc i) = hdr_scan m hdr (tl (drop i buf)) (Suc i)"
    using Suc.hyps(1) [OF m] m by (simp add: tl_drop drop_Suc)
  moreover have "i < n" using Suc.hyps(2) by simp
  ultimately show ?case by (subst hdr_find.simps) (simp flip: Suc.hyps(2) split: option.splits)
qed

declare hdr_find.simps [code del]

lemma hdr_find_code [code]: "hdr_find buf n hdr i = hdr_scan (n - i) hdr (drop i buf) i"
  by (rule hdr_find_scan)

fun value_scan :: "char list \<Rightarrow> nat \<Rightarrow> nat option \<Rightarrow> unit + (nat \<times> nat) option" where
  "value_scan [] p v = Inl ()"
| "value_scan [c] p v = (if c = CHR 0x0A then Inr None else Inl ())"
| "value_scan (c # d # cs) p v =
     (if c = CHR 0x0A then Inr None
      else if c = CHR 0x0D \<and> d = CHR 0x0A then Inr (Some (case v of None \<Rightarrow> p | Some v \<Rightarrow> v, p))
      else value_scan (d # cs) (Suc p) (if v = None \<and> \<not> skipped c then Some p else v))"

lemma value_loop_scan: "value_loop (pre @ cs) (length pre) v = value_scan cs (length pre) v"
proof (induction cs "length pre" v arbitrary: pre rule: value_scan.induct)
  case (2 c v)
  have "value_loop (pre @ [c]) (Suc (length pre)) w = Inl ()" for w by (subst value_loop.simps) simp
  then show ?case by (subst value_loop.simps) (simp add: nth_append Let_def)
next
  case (3 c d cs v)
  have "value_loop ((pre @ [c]) @ d # cs) (length (pre @ [c])) (if v = None \<and> \<not> skipped c then Some (length pre) else v) =
      value_scan (d # cs) (length (pre @ [c])) (if v = None \<and> \<not> skipped c then Some (length pre) else v)"
    if "c \<noteq> CHR 0x0A" "\<not> (c = CHR 0x0D \<and> d = CHR 0x0A)"
    using "3.hyps" [of "pre @ [c]"] that by simp
  then show ?case
    by (subst value_loop.simps) (auto simp: nth_append Let_def skipped_def split: option.splits)
qed (subst value_loop.simps, simp)

declare value_loop.simps [code del]

lemma value_loop_code [code]: "value_loop buf p v = (if p \<le> length buf then value_scan (drop p buf) p v else Inl ())"
proof (cases "p \<le> length buf")
  case True
  then show ?thesis using value_loop_scan [of "take p buf" "drop p buf" v] by simp
next
  case False
  then show ?thesis by (subst value_loop.simps) simp
qed

definition crlf :: string where
  "crlf = [CHR 0x0D, CHR 0x0A]"

text \<open>A message in a buffer of 512 bytes whose length is given as 492.\<close>

definition data512 :: "string \<Rightarrow> char list" where
  "data512 s = s @ replicate (512 - length s) (CHR 0x00)"

definition modified :: "string \<Rightarrow> string option \<Rightarrow> string option \<Rightarrow> string \<Rightarrow> bool" where
  "modified s new old r =
     (case hp_http_modify_header (Some (data512 s)) (Some 492) (Some ''Host'') new old of
        Done (rc, b, len) \<Rightarrow> rc = 0 \<and> take (length r) b = r | _ \<Rightarrow> False)"

definition unmodified :: "int \<Rightarrow> string \<Rightarrow> string \<Rightarrow> string option \<Rightarrow> bool" where
  "unmodified code s hdr old =
     (case hp_http_modify_header (Some (data512 s)) (Some 492) (Some hdr) (Some ''192.168.1.106:80'') old of
        Done (rc, b, len) \<Rightarrow> rc = code \<and> len = 492 | _ \<Rightarrow> False)"

definition host_line :: "string \<Rightarrow> string" where
  "host_line s = ''XXXX'' @ crlf @ ''Host:'' @ s @ crlf @ ''XXXX''"

definition test_header_kept :: bool where
  "test_header_kept \<longleftrightarrow>
     unmodified 1 ''hello'' ''Host'' None \<and>
     unmodified 1 (host_line '' 192.168.1.105:9201'') ''If-None-Match'' None \<and>
     unmodified (-1) (host_line '''') ''Host'' (Some ''192.168.1.105:9201'')"

lemma test_header_kept_ok: test_header_kept
  by code_simp

definition test_header_modified :: bool where
  "test_header_modified \<longleftrightarrow>
     modified (host_line '' '') (Some ''192.168.1.106:80'') None (host_line '' 192.168.1.106:80'') \<and>
     modified (host_line '''') (Some ''192.168.1.106:80'') None (host_line ''192.168.1.106:80'') \<and>
     (case hp_http_modify_header (Some (data512 (host_line '' 192.168.1.105:9201''))) (Some 492) (Some ''Host'')
             (Some ''192.168.1.106:80'') None of
        Done (rc, b, len) \<Rightarrow> rc = 0 \<and> take 34 b = host_line '' 192.168.1.106:80'' \<and> len = 490
      | _ \<Rightarrow> False) \<and>
     unmodified (-1) (host_line '' 192.168.1.105:9201'') ''Host'' (Some ''192.168.1.105:9202'')"

definition test_header_lengths :: bool where
  "test_header_lengths \<longleftrightarrow>
     (let s = host_line '' 192.168.1.105:9201''; old = Some ''192.168.1.105:9201''
      in modified s (Some ''168.66.8.22:8080'') old (host_line '' 168.66.8.22:8080'') \<and>
         modified s (Some ''168.166.888.222:8080'') old (host_line '' 168.166.888.222:8080'') \<and>
         modified s (Some ''192.168.1.106:80'') old (host_line '' 192.168.1.106:80'') \<and>
         modified s None old (host_line '' '') \<and>
         modified s None None (host_line '' '') \<and>
         modified (host_line '' '') None None (host_line '' ''))"

lemma test_header_modified_ok: test_header_modified
  by code_simp

lemma test_header_lengths_ok: test_header_lengths
  by code_simp

end
