(* ===== verification/Hp_Tests_Io.thy ===== *)
theory Hp_Tests_Io
  imports Hp_Wr Hp_Var Hp_Opt Hp_Sock
begin

section \<open>The repository's own tests, run on the model: queues, arrays, variables, addresses\<close>

text \<open>
  Models the test functions at the end of \<open>src/hp_io.c\<close>, \<open>src/hp_stdlib.c\<close>, \<open>src/hp_var.c\<close>, \<open>src/hp_opt.c\<close> and \<open>src/hp_net.c\<close>,
  as \<open>Hp_Tests\<close> does.
\<close>

subsection \<open>hp\_io\<close>

text \<open>The texts lie in memory from address 100 on; the kernel takes all it is offered.\<close>

definition test_kio :: kio where
  "test_kio = \<lparr>mem = (\<lambda>a. 0), brk = 1000, freed = [], k_errno = 0, sent = [], script = [W_ok 1000]\<rparr>"

definition test_wr :: "int \<Rightarrow> hp_wr" where
  "test_wr n = the (snd (hp_wr_init (Some \<lparr>o_items = [], O_ITEMS_INIT_LEN = 0, O_ITEMS_LEN = 0, o_bytes = 0,
     write_error = 7, wr_err = 0\<rparr>) n NULL))"

definition add_len :: "nat \<Rightarrow> hp_wr \<times> kio \<Rightarrow> hp_wr \<times> kio" where
  "add_len n s = (case hp_wr_add (Some (fst s)) 100 n NoFree NULL (snd s) of (rc, w, k) \<Rightarrow> (the w, k))"

text \<open>The queue after a write of everything, if exactly \<open>n\<close> bytes went out.\<close>

definition written_all :: "nat \<Rightarrow> hp_wr \<times> kio \<Rightarrow> (hp_wr \<times> kio) option" where
  "written_all n s =
     (case hp_wr_write (\<lambda>_ _ s. s) 1024 (Some (fst s)) (snd s, ()) of
        (m, Some wr, k, _) \<Rightarrow> if m = n \<and> o_bytes wr = n \<and> o_items wr = [] then Some (wr, k) else None
      | _ \<Rightarrow> None)"

definition uninit_empty :: "hp_wr \<times> kio \<Rightarrow> bool" where
  "uninit_empty s = (map_option o_items (fst (hp_wr_uninit (Some (fst s)) (snd s))) = Some [])"

definition test_wr_8 :: bool where
  "test_wr_8 \<longleftrightarrow>
     (let s = fold add_len [1, 2, 3, 4, 5, 6] (test_wr 8, test_kio)
      in O_ITEMS_LEN (fst s) = 16 \<and>
         (case written_all (1 + 2 + 3 + 4 + 5 + 6) s of None \<Rightarrow> False
          | Some s \<Rightarrow> let s = add_len 1 s in O_ITEMS_LEN (fst s) = 8 \<and> uninit_empty s))"

definition test_wr_5 :: bool where
  "test_wr_5 \<longleftrightarrow>
     (let s2 = fold add_len [1, 2] (test_wr 5, test_kio); s3 = add_len 3 s2; s8 = fold add_len [4, 5, 6, 7, 8] s3
      in O_ITEMS_LEN (fst s2) = 5 \<and> O_ITEMS_LEN (fst s3) = 10 \<and> O_ITEMS_LEN (fst s8) = 20 \<and>
         (case written_all (1 + 2 + 3 + 4 + 5 + 6 + 7 + 8) s8 of None \<Rightarrow> False
          | Some s \<Rightarrow> let s = add_len 1 s in O_ITEMS_LEN (fst s) = 10 \<and> uninit_empty s))"

lemma test_wr_8_ok: test_wr_8
  by code_simp

lemma test_wr_5_ok: test_wr_5
  by code_simp

subsection \<open>hp\_stdlib\<close>

text \<open>Addresses 101, 102 and 103 hold the values 1, 8 and 5. Fresh memory holds 77.\<close>

definition test_iv :: bool where
  "test_iv \<longleftrightarrow>
     (let m = [\<lparr>iv_key = 1, iv_val = 101, iv_offset = 1\<rparr>, \<lparr>iv_key = 8, iv_val = 102, iv_offset = 7\<rparr>,
               \<lparr>iv_key = 5, iv_val = 103, iv_offset = 3\<rparr>]
      in hp_iv_lfind m 1 = Some 101 \<and> hp_iv_lfind m 8 = Some 102 \<and> hp_iv_lfind m 5 = Some 103 \<and>
         hp_iv_lfind m 9 = Some NULL)"

definition lreserve_int :: "bool \<Rightarrow> nat \<Rightarrow> int list option \<times> nat \<Rightarrow> int list option \<times> nat" where
  "lreserve_int clr n a = hp_lreserve (\<lambda>_. 77) 0 (fst a) (snd a) 4 n 10 clr"

definition test_lreserve :: bool where
  "test_lreserve \<longleftrightarrow>
     (let a0 = lreserve_int False 0 (None, 100); a1 = lreserve_int False 4 a0; a2 = lreserve_int False 90 a1;
          a3 = lreserve_int False 91 a2
      in fst a0 \<noteq> None \<and> snd a0 = 100 \<and> snd a1 = 100 \<and> snd a2 = 100 \<and> snd a3 = 110 \<and>
         map_option (take 100) (fst a3) = fst a2)"

definition test_lreserve_clr :: bool where
  "test_lreserve_clr \<longleftrightarrow>
     (let a2 = lreserve_int False 90 (lreserve_int False 4 (lreserve_int False 0 (None, 100)));
          a3 = lreserve_int True 91 (map_option (\<lambda>xs. replicate 100 0 @ drop 100 xs) (fst a2), snd a2);
          b = lreserve_int True 0 (None, 100)
      in snd a2 = 100 \<and> snd a3 = 110 \<and> map_option (take 100) (fst a3) = Some (replicate 100 0) \<and>
         map_option (\<lambda>xs. take 10 (drop 100 xs)) (fst a3) = Some (replicate 10 0) \<and>
         snd b = 100 \<and> fst b = Some (replicate 100 0))"

lemma test_iv_ok: test_iv
  by code_simp

lemma test_lreserve_ok: test_lreserve
  by code_simp

lemma test_lreserve_clr_ok: test_lreserve_clr
  by code_simp

subsection \<open>hp\_var\<close>

definition replaced :: "(string \<times> string) list \<Rightarrow> string \<Rightarrow> string \<Rightarrow> bool" where
  "replaced vs s r \<longleftrightarrow>
     hp_var_map_replace (Some s) [] (map (\<lambda>(k, v). \<lparr>vm_var = Some k, vm_val = v\<rparr>) vs) = (r, True)"

definition test_var_eval :: bool where
  "test_var_eval \<longleftrightarrow>
     hp_var_eval (\<lambda>n. n) (Some ''1 $policeId _ $app_name-$app_version'')
       (map_of [(''policeId'', ''admin''), (''app_name'', ''Antox''), (''app_version'', ''0.25.515'')]) =
     V_sds ''1 admin _ Antox-0.25.515''"

definition test_var_one :: bool where
  "test_var_one \<longleftrightarrow>
     (let v = [(''FILE_NAME'', ''12'')]
      in replaced v ''a'' ''a'' \<and> replaced v ''$'' ''$'' \<and> replaced v ''$$'' ''$'' \<and> replaced v ''$$a'' ''$a'' \<and>
         replaced v ''a$$'' ''a$'' \<and> replaced v ''$a'' ''$a'' \<and> replaced v ''$FILE_NAME'' ''12'' \<and>
         replaced v ''$FILE_NAME$$'' ''12$'' \<and> replaced v ''$$FILE_NAME'' ''$FILE_NAME'' \<and>
         replaced v ''$$$FILE_NAME'' ''$12'' \<and> replaced v ''$$$FILE_NAME$a'' ''$12$a'')"

definition test_var_many :: bool where
  "test_var_many \<longleftrightarrow>
     (let v = [(''FILE_NAME'', ''12''), (''a'', ''A'')]
      in replaced v ''$FILE_NAME.$a'' ''12.A'' \<and> replaced v ''$FILE_NAME.$a$b'' ''12.A$b'' \<and>
         replaced v ''$FILE_NAME.$a$$b'' ''12.A$b'') \<and>
     replaced [(''CHAIN_INDEX'', ''0''), (''CHAIN_INDEX_NEXT'', ''1''), (''WORKER_ID'', ''1''), (''FILE_NAME'', ''1'')]
       ''$CHAIN_INDEX$CHAIN_INDEX_NEXT$WORKER_ID$FILE_NAME'' ''0111'' \<and>
     replaced [(''CHAIN_INDEX'', ''1''), (''CHAIN_INDEX_PREV'', ''0''), (''WORKER_ID'', ''1''), (''FILE_NAME'', ''1'')]
       ''$CHAIN_INDEX$CHAIN_INDEX_PREV$WORKER_ID$FILE_NAME'' ''1011''"

lemma test_var_eval_ok: test_var_eval
  by code_simp

lemma test_var_one_ok: test_var_one
  by code_simp

lemma test_var_many_ok: test_var_many
  by code_simp


subsection \<open>hp\_opt\<close>

definition line512 :: "string \<Rightarrow> string" where
  "line512 s = s @ replicate (512 - length s) (CHR 0x00)"

definition test_opt :: bool where
  "test_opt \<longleftrightarrow>
     fst (hp_opt_argv None False) < 0 \<and>
     fst (hp_opt_argv (Some (line512 '' --url  index -F  -i 5 '')) True) = 5 \<and>
     (case hp_opt_argv (Some (line512 ''--url index -F  -i 5'')) True of
        (argc, argv, buf) \<Rightarrow>
          argc = 5 \<and> c_str (drop (argv ! 0) buf) = ''--url'' \<and> c_str (drop (argv ! 3) buf) = ''-i'' \<and>
          c_str (drop (argv ! 4) buf) = ''5'')"

subsection \<open>hp\_net\<close>

text \<open>\<open>inet_pton\<close> and \<open>inet_ntop\<close> for four decimal numbers, the first in the lowest byte.\<close>

definition dotted :: "string \<Rightarrow> in_addr option" where
  "dotted s = (case map c_atoi (split_on CHR ''.'' s) of
     [a, b, c, d] \<Rightarrow> Some (word_of_int (a + 256 * (b + 256 * (c + 256 * d)))) | _ \<Rightarrow> None)"

definition dotted_text :: "in_addr \<Rightarrow> string" where
  "dotted_text w =
     (let n = uint w
      in int_text (n mod 256) @ ''.'' @ int_text (n div 256 mod 256) @ ''.'' @ int_text (n div 65536 mod 256) @ ''.'' @
         int_text (n div 16777216))"

definition test_names :: bool where
  "test_names \<longleftrightarrow>
     hp_net_get_ipport2 dotted_text (0, 0) 64 = (''0.0.0.0'', 0) \<and>
     (let a = (the (dotted ''172.28.0.59''), 0)
      in hp_addr4name dotted_text (Some a) (Some '':'') 64 = Some ''172.28.0.59:0'' \<and>
         hp_addr4name dotted_text (Some a) (Some '' '') 64 = Some ''172.28.0.59 0'' \<and>
         hp_addr4name dotted_text (Some a) (Some ''::'') 64 = Some ''172.28.0.59::0'')"

definition in_subnets :: "string \<Rightarrow> string \<Rightarrow> bool outcome" where
  "in_subnets a ips = netutil_in_same_subnet dotted (-1) (Some ips) (the (dotted a))"

definition test_subnets :: bool where
  "test_subnets \<longleftrightarrow>
     in_subnets ''172.28.0.59'' ''172.28.0.170:172.19.255.95'' = Done True \<and>
     in_subnets ''172.19.255.88'' ''172.28.0.170:172.19.255.95'' = Done True \<and>
     in_subnets ''173.19.255.88'' ''172.28.0.170:172.19.255.95'' = Done False \<and>
     in_subnets ''172.19.255.100'' ''172.28.0.170:172.19.255.95:192.168.1.140'' = Done True \<and>
     in_subnets ''192.168.1.1'' ''172.28.0.170:172.19.255.95:192.168.1.140'' = Done True \<and>
     in_subnets ''191.168.1.1'' ''172.28.0.170:172.19.255.95:192.168.1.140'' = Done False \<and>
     netutil_same_subnet dotted (-1) (Some ''172.28.0.170'') (Some ''172.28.0.4'') \<and>
     \<not> netutil_same_subnet dotted (-1) (Some ''172.28.0.170'') (Some ''195.28.0.4'')"

lemma test_opt_ok: test_opt
  by code_simp

lemma test_names_ok: test_names
  by code_simp

lemma test_subnets_ok: test_subnets
  by code_simp

end
