(* ===== verification/Hp_Tests_Loop.thy ===== *)
theory Hp_Tests_Loop
  imports Hp_Epoll Hp_Poll
begin

section \<open>The tests of the event tables\<close>

text \<open>
  The test functions at the end of \<open>src/hp_epoll.c\<close> and \<open>src/hp_poll.c\<close> that need no peer: the texts of events,
  adding and removing, searching. A test is a function whose value says whether all its assertions hold; the
  program runs it for a few sizes, the lemmas say that it passes for every size. The sockets that the search tests
  open are a parameter, as the addresses and contents of their array.
\<close>

subsection \<open>Loops of assertions\<close>

primrec run_steps :: "(nat \<Rightarrow> 's \<Rightarrow> bool \<times> 's) \<Rightarrow> nat \<Rightarrow> 's \<Rightarrow> bool \<times> 's" where
  "run_steps f 0 s = (True, s)"
| "run_steps f (Suc n) s = (case run_steps f n s of (ok, s) \<Rightarrow> case f n s of (ok', s) \<Rightarrow> (ok \<and> ok', s))"

lemma run_steps_inv:
  assumes "I 0 s" and "\<And>i s. i < n \<Longrightarrow> I i s \<Longrightarrow> fst (f i s) \<and> I (Suc i) (snd (f i s))"
  shows "fst (run_steps f n s) \<and> I n (snd (run_steps f n s))"
  using assms by (induction n) (auto simp: case_prod_unfold)

subsection \<open>What the tests rely on\<close>

text \<open>The table after the first \<open>i\<close> of the additions, and before the \<open>i\<close>-th removal.\<close>

definition table :: "(nat \<Rightarrow> sock) \<Rightarrow> (nat \<Rightarrow> 'd) \<Rightarrow> nat \<Rightarrow> nat \<Rightarrow> (sock \<times> 'd) list" where
  "table fs d i n = map (\<lambda>j. (fs j, d j)) [i..<n]"

lemma table_simps [simp]: "table fs d i i = []" "length (table fs d i n) = n - i"
  "fst ` set (table fs d i n) = fs ` {i..<n}"
  by (simp_all add: table_def image_image)

lemma table_snoc: "i \<le> n \<Longrightarrow> table fs d i (Suc n) = table fs d i n @ [(fs n, d n)]"
  by (simp add: table_def)

lemma table_Cons: "i < n \<Longrightarrow> table fs d i n = (fs i, d i) # table fs d (Suc i) n"
  by (simp add: table_def upt_rec)

lemma reg_put_new: "fd \<notin> fst ` set es \<Longrightarrow> reg_put fd d es = es @ [(fd, d)]"
  by (simp add: reg_put_def)

lemma reg_put_again: "fd \<notin> fst ` set es \<Longrightarrow> reg_put fd d (es @ [(fd, d')]) = es @ [(fd, d)]"
  by (force simp: reg_put_def intro!: map_idI)

lemma inj_notin: "inj_on f A \<Longrightarrow> i \<in> A \<Longrightarrow> B \<subseteq> A \<Longrightarrow> i \<notin> B \<Longrightarrow> f i \<notin> f ` B"
  by (simp add: inj_on_image_mem_iff)

lemma reg_del_head: "fd \<notin> fst ` set es \<Longrightarrow> reg_del fd ((fd, d) # es) = es"
  by (auto simp: reg_del_def filter_id_conv)

lemma reg_del_last: "fd \<notin> fst ` set es \<Longrightarrow> reg_del fd (es @ [(fd, d)]) = es"
  by (auto simp: reg_del_def filter_id_conv)

definition filled ::
  "('s \<Rightarrow> bool) \<Rightarrow> ('s \<Rightarrow> (sock \<times> 'd) list) \<Rightarrow> ('s \<Rightarrow> nat) \<Rightarrow> (nat \<Rightarrow> sock) \<Rightarrow> (nat \<Rightarrow> 'd) \<Rightarrow> nat \<Rightarrow> nat \<Rightarrow> nat \<Rightarrow> 's \<Rightarrow> bool" where
  "filled ok ents cap fs d c i n s \<longleftrightarrow> ok s \<and> cap s = c \<and> ents s = table fs d i n"

context event_registry
begin

lemma filled_add:
  assumes "filled inv entries capacity fs d c 0 i s" and "i < c" and "inj_on fs {0..i}" and "0 \<le> fs i"
  shows "fst (add (fs i) (d i) s) = 0 \<and> filled inv entries capacity fs d c 0 (Suc i) (snd (add (fs i) (d i) s))"
proof -
  have "fs i \<notin> fs ` {0..<i}" using assms(3) by (rule inj_notin) auto
  then show ?thesis
    using assms add_room [of s "fs i" "d i"] add_inv [of s "fs i" "d i"] by (auto simp: filled_def reg_put_new table_snoc)
qed

lemma filled_add_twice:
  assumes "filled inv entries capacity fs d c 0 i s" and "i < c" and "inj_on fs {0..i}" and "0 \<le> fs i"
    and s1_def: "s1 = snd (add (fs i) d1 s)"
  shows "fst (add (fs i) d1 s) = 0 \<and> fst (add (fs i) (d i) s1) = 0 \<and> filled inv entries capacity fs d c 0 (Suc i) (snd (add (fs i) (d i) s1))"
proof -
  have n: "fs i \<notin> fst ` set (table fs d 0 i)" unfolding table_simps using assms(3) by (rule inj_notin) auto
  have "inv s1" "capacity s1 = c" "entries s1 = table fs d 0 i @ [(fs i, d1)]" "fst (add (fs i) d1 s) = 0"
    using assms n add_room [of s "fs i" d1] add_inv [of s "fs i" d1] by (auto simp: filled_def reg_put_new)
  then show ?thesis
    using assms(4) n add_room [of s1 "fs i" "d i"] add_inv [of s1 "fs i" "d i"] by (auto simp: filled_def reg_put_again table_snoc)
qed

lemma filled_full:
  assumes "filled inv entries capacity fs d c 0 c s" and "0 \<le> fd" and "fd \<notin> fs ` {0..<c}"
  shows "fst (add fd e s) < 0 \<and> filled inv entries capacity fs d c 0 c (snd (add fd e s))"
  using assms add_full [of s fd e] add_inv [of s fd e] by (auto simp: filled_def)

lemma filled_rm:
  assumes "filled inv entries capacity fs d c i n s" and "i < n" and "inj_on fs {0..<n}"
  shows "fst (rm (fs i) s) = 0 \<and> filled inv entries capacity fs d c (Suc i) n (snd (rm (fs i) s))"
proof -
  have "fs i \<notin> fs ` {Suc i..<n}" using assms(3) by (rule inj_notin) (use assms(2) in auto)
  then have "reg_del (fs i) (table fs d i n) = table fs d (Suc i) n" using assms(2) by (simp add: table_Cons reg_del_head)
  then show ?thesis using assms(1,2) rm_entries [of s "fs i"] rm_inv [of s "fs i"] rm_result [of s "fs i"] by (auto simp: filled_def)
qed

lemma filled_rm_last:
  assumes "filled inv entries capacity fs d c 0 (Suc i) s" and "inj_on fs {0..i}"
  shows "fst (rm (fs i) s) = 0 \<and> filled inv entries capacity fs d c 0 i (snd (rm (fs i) s))"
proof -
  have "fs i \<notin> fs ` {0..<i}" using assms(2) by (rule inj_notin) auto
  then have "reg_del (fs i) (table fs d 0 (Suc i)) = table fs d 0 i"
    by (simp add: table_snoc reg_del_last)
  then show ?thesis using assms(1) rm_entries [of s "fs i"] rm_inv [of s "fs i"] rm_result [of s "fs i"] by (auto simp: filled_def)
qed

end

context searchable_registry
begin

text \<open>A search by the contents of the argument finds an entry exactly when there is one with the contents.\<close>

lemma filled_search:
  assumes "filled inv entries capacity fs d c 0 n s" and "\<And>j. j < n \<Longrightarrow> argument (d j) \<noteq> 0"
  shows "search P s \<noteq> 0 \<longleftrightarrow> (\<exists>j < n. P (argument (d j)))"
proof (cases "\<exists>j < n. P (argument (d j))")
  case True
  then obtain j where j: "j < n" "P (argument (d j))" by auto
  then have "(fs j, d j) \<in> set (entries s)" using assms(1) by (auto simp: filled_def table_def)
  then have "find (\<lambda>e. P (argument (snd e))) (entries s) \<noteq> None" using j(2) by (auto simp: find_None_iff)
  then obtain e where e: "find (\<lambda>e. P (argument (snd e))) (entries s) = Some e" by auto
  then have "e \<in> set (entries s)" by (auto simp: find_Some_iff)
  then have "argument (snd e) \<noteq> 0" using assms by (auto simp: filled_def table_def)
  then show ?thesis using True assms(1) e by (simp add: filled_def search_entries reg_find_def)
next
  case False
  then have "search P s = 0" using assms(1) by (intro search_none) (auto simp: filled_def table_def)
  with False show ?thesis by simp
qed

end

subsection \<open>hp\_epoll\<close>

text \<open>Every descriptor is added twice; then the table is full; then all go, in the same order.\<close>

definition ep_add_step :: "fnptr \<Rightarrow> nat \<Rightarrow> epw \<Rightarrow> bool \<times> epw" where
  "ep_add_step fn i s =
     (case hp_epoll_add (int i) 0 0 0 0 s of (rc, s) \<Rightarrow>
      case hp_epoll_add (int i) (EPOLLIN + EPOLLOUT) fn 0 0 s of (rc', s) \<Rightarrow>
        (rc = 0 \<and> rc' = 0 \<and> hp_epoll_size s = i + 1, s))"

definition ep_rm_step :: "(nat \<Rightarrow> sock) \<Rightarrow> nat \<Rightarrow> epw \<Rightarrow> bool \<times> epw" where
  "ep_rm_step fs i s = (case hp_epoll_rm (fs i) s of (rc, s) \<Rightarrow> (rc = 0, s))"

definition ep_add_remove_test :: "sock \<Rightarrow> fnptr \<Rightarrow> nat \<Rightarrow> epw \<Rightarrow> bool" where
  "ep_add_remove_test epfd fn n s =
     (case hp_epoll_init epfd (int n) 200 0 0 s of (_, s0) \<Rightarrow>
      case run_steps (ep_add_step fn) n s0 of (ok1, s1) \<Rightarrow>
      case hp_epoll_add (int n + 1) (EPOLLIN + EPOLLOUT) fn 0 0 s1 of (rc, s2) \<Rightarrow>
      case run_steps (ep_rm_step int) n s2 of (ok2, s3) \<Rightarrow>
        hp_epoll_size s0 = 0 \<and> ok1 \<and> rc < 0 \<and> ok2 \<and> hp_epoll_size s3 = 0)"

text \<open>
  The sockets are \<open>fs 0, fs 1, \<dots>\<close>; \<open>p i\<close> is the address of the \<open>i\<close>-th in the array, \<open>mem\<close> what is stored there. The
  comparison of the test compares what two pointers point at.
\<close>

definition search_test_on_cmp :: "(ptr \<Rightarrow> int) \<Rightarrow> ptr \<Rightarrow> ptr \<Rightarrow> int" where
  "search_test_on_cmp mem k e = (if mem e = mem k then 1 else 0)"

definition ep_found :: "(ptr \<Rightarrow> int) \<Rightarrow> ptr \<Rightarrow> epw \<Rightarrow> bool" where
  "ep_found mem k s \<longleftrightarrow> hp_epoll_find k (Some (search_test_on_cmp mem)) s \<noteq> NULL"

definition ep_search_step :: "(nat \<Rightarrow> sock) \<Rightarrow> (nat \<Rightarrow> ptr) \<Rightarrow> (ptr \<Rightarrow> int) \<Rightarrow> nat \<Rightarrow> epw \<Rightarrow> bool \<times> epw" where
  "ep_search_step fs p mem i s0 =
     (case hp_epoll_add (fs i) 0 0 0 (p i) s0 of (rc1, s1) \<Rightarrow>
      case hp_epoll_rm (fs i) s1 of (rc2, s2) \<Rightarrow>
      case hp_epoll_add (fs i) 0 0 0 (p i) s2 of (rc3, s3) \<Rightarrow>
        (0 \<le> fs i \<and> \<not> ep_found mem (p i) s0 \<and> rc1 = 0 \<and> hp_epoll_size s1 = i + 1 \<and> ep_found mem (p i) s1 \<and>
         rc2 = 0 \<and> \<not> ep_found mem (p i) s2 \<and> rc3 = 0, s3))"

definition ep_search_test :: "sock \<Rightarrow> (nat \<Rightarrow> sock) \<Rightarrow> (nat \<Rightarrow> ptr) \<Rightarrow> (ptr \<Rightarrow> int) \<Rightarrow> ptr \<Rightarrow> nat \<Rightarrow> epw \<Rightarrow> bool" where
  "ep_search_test epfd fs p mem cmp n s =
     (case hp_epoll_init epfd (int n) 200 0 0 s of (_, s0) \<Rightarrow>
      case run_steps (ep_search_step fs p mem) n s0 of (ok1, s1) \<Rightarrow>
      case run_steps (ep_rm_step fs) n s1 of (ok2, s2) \<Rightarrow>
        hp_epoll_size s0 = 0 \<and> ok1 \<and> ep_found mem (p 0) s1 \<and> ep_found mem (p (n div 2)) s1 \<and> ep_found mem (p (n - 1)) s1 \<and>
        \<not> ep_found mem cmp s1 \<and> ok2 \<and> hp_epoll_size s2 = 0)"

lemma hp_epoll_size_entries: "ep_inv s \<Longrightarrow> hp_epoll_size s = length (ep_entries s)"
  by (auto simp: ep_inv_def hp_epoll_size_def ep_entries_def ep_wf_def split: option.splits)

abbreviation (input) ep_filled :: "(nat \<Rightarrow> sock) \<Rightarrow> (nat \<Rightarrow> ep_desc) \<Rightarrow> nat \<Rightarrow> nat \<Rightarrow> nat \<Rightarrow> epw \<Rightarrow> bool" where
  "ep_filled \<equiv> filled ep_inv ep_entries ep_capacity"

lemma ep_filled_size: "ep_filled fs d c i n s \<Longrightarrow> hp_epoll_size s = n - i"
  by (simp add: filled_def hp_epoll_size_entries)

text \<open>A fresh object, before \<open>hp_epoll_init\<close>.\<close>

definition ep_fresh :: "epw \<Rightarrow> bool" where
  "ep_fresh s \<longleftrightarrow> epo s \<noteq> None \<and> heap s = Map.empty \<and> kint s = Map.empty \<and> 0 < nxt s \<and> inject s = []"

lemma hp_epoll_init_filled:
  assumes "ep_fresh s" and "epfd \<noteq> -1" and "0 < n"
  shows "ep_filled fs d n 0 0 (snd (hp_epoll_init epfd (int n) 200 0 0 s))"
  using assms by (auto simp: ep_fresh_def hp_epoll_init_def filled_def ep_inv_def ep_wf_def ed_used_def ep_capacity_def ep_entries_def Let_def)

lemma ep_rm_steps:
  assumes "ep_filled fs d n 0 n s" and "inj_on fs {0..<n}"
  shows "fst (run_steps (ep_rm_step fs) n s) \<and> hp_epoll_size (snd (run_steps (ep_rm_step fs) n s)) = 0"
proof -
  have "fst (run_steps (ep_rm_step fs) n s) \<and> ep_filled fs d n n n (snd (run_steps (ep_rm_step fs) n s))"
    by (rule run_steps_inv [where I = "\<lambda>i. ep_filled fs d n i n"])
      (use assms epr.filled_rm [of fs d n _ n] in \<open>auto simp: ep_rm_step_def case_prod_unfold\<close>)
  then show ?thesis using ep_filled_size by force
qed

lemma ep_add_remove_test_passes:
  assumes "ep_fresh s" and "epfd \<noteq> -1" and "0 < n"
  shows "ep_add_remove_test epfd fn n s"
proof -
  define s0 where "s0 = snd (hp_epoll_init epfd (int n) 200 0 0 s)"
  define d :: "nat \<Rightarrow> ep_desc" where "d = (\<lambda>_. (EPOLLIN + EPOLLOUT, fn, 0, 0))"
  have s0: "ep_filled int d n 0 0 s0" unfolding s0_def by (rule hp_epoll_init_filled [OF assms])
  have add: "hp_epoll_add (int i) 0 0 0 0 s = ep_add (int i) (0, 0, 0, 0) s"
    "hp_epoll_add (int i) 5 fn 0 0 s = ep_add (int i) (d i) s" for i s by (simp_all add: ep_add_def d_def)
  have nin: "int n + 1 \<notin> int ` {0..<n}" by auto
  define s1 where "s1 = snd (run_steps (ep_add_step fn) n s0)"
  have "fst (run_steps (ep_add_step fn) n s0) \<and> ep_filled int d n 0 n s1"
    unfolding s1_def
  proof (rule run_steps_inv [where I = "ep_filled int d n 0"])
    fix i s assume "i < n" "ep_filled int d n 0 i s"
    from epr.filled_add_twice [OF this(2,1) _ _ refl, of "(0, 0, 0, 0)"]
    show "fst (ep_add_step fn i s) \<and> ep_filled int d n 0 (Suc i) (snd (ep_add_step fn i s))"
      by (auto simp: ep_add_step_def add case_prod_unfold ep_filled_size)
  qed (rule s0)
  moreover define s2 where "s2 = snd (hp_epoll_add (int n + 1) (EPOLLIN + EPOLLOUT) fn 0 0 s1)"
  moreover have "fst (hp_epoll_add (int n + 1) (EPOLLIN + EPOLLOUT) fn 0 0 s1) < 0 \<and> ep_filled int d n 0 n s2"
    using nin epr.filled_full [of int d n s1 "int n + 1" "d 0"] calculation by (auto simp: s2_def ep_add_def d_def)
  moreover have "inj_on int {0..<n}" by simp
  ultimately show ?thesis
    using ep_rm_steps [of int d n s2] ep_filled_size [OF s0]
    by (simp add: ep_add_remove_test_def case_prod_unfold s0_def s1_def s2_def)
qed

lemma ep_found_search: "ep_found mem k s = (ep_search (\<lambda>arg. mem arg = mem k) s \<noteq> NULL)"
proof -
  have "ep_do_find h (k, Some (search_test_on_cmp mem)) = ep_do_find h (0, Some (\<lambda>k' arg. if mem arg = mem k then 1 else 0))" for h
    by (rule ext) (simp add: ep_do_find_def search_test_on_cmp_def Let_def)
  then show ?thesis
    by (simp add: ep_found_def ep_search_def hp_epoll_find_def hp_lfind_def split: option.splits)
qed

text \<open>The array of the test: its addresses are not \<open>NULL\<close>, and it holds different sockets.\<close>

definition fd_array :: "(nat \<Rightarrow> sock) \<Rightarrow> (nat \<Rightarrow> ptr) \<Rightarrow> (ptr \<Rightarrow> int) \<Rightarrow> nat \<Rightarrow> bool" where
  "fd_array fs p mem n \<longleftrightarrow> inj_on fs {0..<n} \<and> (\<forall>i < n. 0 \<le> fs i \<and> p i \<noteq> NULL \<and> mem (p i) = fs i)"

lemma ep_filled_found:
  assumes "fd_array fs p mem n" and "m \<le> n" and "ep_filled fs (\<lambda>i. (ev, fn, lp, p i)) c 0 m s"
  shows "ep_found mem k s \<longleftrightarrow> mem k \<in> fs ` {0..<m}"
proof -
  have "ep_found mem k s \<longleftrightarrow> (\<exists>j < m. mem (p j) = mem k)"
    unfolding ep_found_search
    using epr.filled_search [OF assms(3), of "\<lambda>arg. mem arg = mem k"] assms(1,2) by (auto simp: ep_argument_def fd_array_def)
  moreover have "\<forall>j < m. mem (p j) = fs j" using assms(1,2) by (auto simp: fd_array_def)
  ultimately show ?thesis by (force simp: image_iff)
qed

lemma ep_search_test_passes:
  assumes "ep_fresh s" and "epfd \<noteq> -1" and "0 < n" and "fd_array fs p mem n" and "mem cmp \<notin> fs ` {0..<n}"
  shows "ep_search_test epfd fs p mem cmp n s"
proof -
  define s0 where "s0 = snd (hp_epoll_init epfd (int n) 200 0 0 s)"
  define d :: "nat \<Rightarrow> ep_desc" where "d = (\<lambda>i. (0, 0, 0, p i))"
  have s0: "ep_filled fs d n 0 0 s0" unfolding s0_def by (rule hp_epoll_init_filled [OF assms(1-3)])
  have add: "hp_epoll_add (fs i) 0 0 0 (p i) s = ep_add (fs i) (d i) s" for i s by (simp add: ep_add_def d_def)
  have inj: "inj_on fs {0..<n}" and fs: "\<forall>i < n. 0 \<le> fs i \<and> mem (p i) = fs i" using assms(4) by (auto simp: fd_array_def)
  have found: "ep_found mem k s \<longleftrightarrow> mem k \<in> fs ` {0..<m}" if "ep_filled fs d n 0 m s" "m \<le> n" for k m s
    using ep_filled_found [OF assms(4) that(2)] that(1) by (simp add: d_def)
  define s1 where "s1 = snd (run_steps (ep_search_step fs p mem) n s0)"
  have r: "fst (run_steps (ep_search_step fs p mem) n s0) \<and> ep_filled fs d n 0 n s1"
    unfolding s1_def
  proof (rule run_steps_inv [where I = "ep_filled fs d n 0"])
    fix i s assume i: "i < n" and f: "ep_filled fs d n 0 i s"
    have ij: "inj_on fs {0..i}" using inj i by (auto intro: inj_on_subset)
    have nin: "fs i \<notin> fs ` {0..<i}" using ij by (rule inj_notin) auto
    define s1 where "s1 = snd (ep_add (fs i) (d i) s)"
    define s2 where "s2 = snd (hp_epoll_rm (fs i) s1)"
    have a1: "fst (ep_add (fs i) (d i) s) = 0" "ep_filled fs d n 0 (Suc i) s1"
      using epr.filled_add [OF f i ij] fs i by (auto simp: s1_def)
    have a2: "fst (hp_epoll_rm (fs i) s1) = 0" "ep_filled fs d n 0 i s2"
      using epr.filled_rm_last [OF a1(2) ij] by (auto simp: s2_def)
    have a3: "fst (ep_add (fs i) (d i) s2) = 0" "ep_filled fs d n 0 (Suc i) (snd (ep_add (fs i) (d i) s2))"
      using epr.filled_add [OF a2(2) i ij] fs i by auto
    show "fst (ep_search_step fs p mem i s) \<and> ep_filled fs d n 0 (Suc i) (snd (ep_search_step fs p mem i s))"
      using a1 a2 a3 fs i nin found [OF f] found [OF a1(2)] found [OF a2(2)] ep_filled_size [OF a1(2)]
      by (auto simp: ep_search_step_def add case_prod_unfold simp flip: s1_def s2_def)
  qed (rule s0)
  then have f1: "ep_filled fs d n 0 n s1" by blast
  have "ep_found mem (p i) s1" if "i < n" for i using found [OF f1, of "p i"] fs that by simp
  moreover have "\<not> ep_found mem cmp s1" using found [OF f1, of cmp] assms(5) by simp
  ultimately show ?thesis
    using r ep_rm_steps [OF f1 inj] ep_filled_size [OF s0] assms(3)
    by (simp add: ep_search_test_def case_prod_unfold s0_def s1_def)
qed

subsection \<open>hp\_poll\<close>

definition po_add_step :: "fnptr \<Rightarrow> nat \<Rightarrow> hp_poll option \<Rightarrow> bool \<times> hp_poll option" where
  "po_add_step fn i s =
     (case hp_poll_add (int i) 1 0 0 0 s of (rc, s) \<Rightarrow>
      case hp_poll_add (int i) 5 fn 0 0 s of (rc', s) \<Rightarrow>
        (rc = 0 \<and> rc' = 0 \<and> hp_poll_size s = i + 1, s))"

definition po_rm_step :: "(nat \<Rightarrow> sock) \<Rightarrow> nat \<Rightarrow> hp_poll option \<Rightarrow> bool \<times> hp_poll option" where
  "po_rm_step fs i s = (case hp_poll_rm (fs i) s of (rc, s) \<Rightarrow> (rc = 0, s))"

definition po_add_remove_test :: "fnptr \<Rightarrow> nat \<Rightarrow> hp_poll \<Rightarrow> bool" where
  "po_add_remove_test fn n s =
     (case hp_poll_init (Some s) (int n) 200 0 0 of (_, s0) \<Rightarrow>
      case run_steps (po_add_step fn) n s0 of (ok1, s1) \<Rightarrow>
      case hp_poll_add (int n + 1) 5 fn 0 0 s1 of (rc, s2) \<Rightarrow>
      case run_steps (po_rm_step int) n s2 of (ok2, s3) \<Rightarrow>
        hp_poll_size s0 = 0 \<and> ok1 \<and> rc < 0 \<and> ok2 \<and> hp_poll_size s3 = 0)"

definition po_found :: "(ptr \<Rightarrow> int) \<Rightarrow> ptr \<Rightarrow> hp_poll option \<Rightarrow> bool" where
  "po_found mem k s \<longleftrightarrow> hp_poll_find k (Some (search_test_on_cmp mem)) s \<noteq> NULL"

text \<open>Here each socket is added twice, found, removed, not found, and added for good.\<close>

definition po_search_step :: "fnptr \<Rightarrow> (nat \<Rightarrow> sock) \<Rightarrow> (nat \<Rightarrow> ptr) \<Rightarrow> (ptr \<Rightarrow> int) \<Rightarrow> nat \<Rightarrow> hp_poll option \<Rightarrow> bool \<times> hp_poll option" where
  "po_search_step fn fs p mem i s0 =
     (case hp_poll_add (fs i) 1 0 0 (p i) s0 of (rc1, s1) \<Rightarrow>
      case hp_poll_add (fs i) 5 fn 0 (p i) s1 of (rc2, s2) \<Rightarrow>
      case hp_poll_rm (fs i) s2 of (rc3, s3) \<Rightarrow>
      case hp_poll_add (fs i) 5 fn 0 (p i) s3 of (rc4, s4) \<Rightarrow>
        (0 \<le> fs i \<and> \<not> po_found mem (p i) s0 \<and> rc1 = 0 \<and> rc2 = 0 \<and> hp_poll_size s2 = i + 1 \<and> po_found mem (p i) s2 \<and>
         rc3 = 0 \<and> \<not> po_found mem (p i) s3 \<and> rc4 = 0, s4))"

definition po_search_test :: "fnptr \<Rightarrow> (nat \<Rightarrow> sock) \<Rightarrow> (nat \<Rightarrow> ptr) \<Rightarrow> (ptr \<Rightarrow> int) \<Rightarrow> sock \<Rightarrow> nat \<Rightarrow> hp_poll \<Rightarrow> bool" where
  "po_search_test fn fs p mem confd n s =
     (case hp_poll_init (Some s) (int n) 200 0 0 of (_, s0) \<Rightarrow>
      case run_steps (po_search_step fn fs p mem) n s0 of (ok1, s1) \<Rightarrow>
      case hp_poll_add confd 5 fn 0 0 s1 of (rc, s2) \<Rightarrow>
      case run_steps (po_rm_step fs) n s2 of (ok2, s3) \<Rightarrow>
        hp_poll_size s0 = 0 \<and> ok1 \<and> 0 \<le> confd \<and> rc < 0 \<and> ok2 \<and> hp_poll_size s3 = 0)"

abbreviation (input) po_filled :: "(nat \<Rightarrow> sock) \<Rightarrow> (nat \<Rightarrow> po_desc) \<Rightarrow> nat \<Rightarrow> nat \<Rightarrow> nat \<Rightarrow> hp_poll option \<Rightarrow> bool" where
  "po_filled \<equiv> filled po_inv po_entries po_capacity"

lemma po_filled_size: "po_filled fs d c i n s \<Longrightarrow> hp_poll_size s = n - i"
  by (auto simp: filled_def po_inv_def hp_poll_size_def dest!: arg_cong [of _ _ length] split: option.splits)

lemma hp_poll_init_filled: "0 < n \<Longrightarrow> po_filled fs d n 0 0 (snd (hp_poll_init (Some s) (int n) 200 0 0))"
  using hp_poll_init_inv [OF prod.collapse [symmetric], of s "int n" 200 0 0] by (simp add: filled_def)

lemma po_rm_steps:
  assumes "po_filled fs d n 0 n s" and "inj_on fs {0..<n}"
  shows "fst (run_steps (po_rm_step fs) n s) \<and> hp_poll_size (snd (run_steps (po_rm_step fs) n s)) = 0"
proof -
  have "fst (run_steps (po_rm_step fs) n s) \<and> po_filled fs d n n n (snd (run_steps (po_rm_step fs) n s))"
    by (rule run_steps_inv [where I = "\<lambda>i. po_filled fs d n i n"])
      (use assms por.filled_rm [of fs d n _ n] in \<open>auto simp: po_rm_step_def case_prod_unfold\<close>)
  then show ?thesis using po_filled_size by force
qed

lemma po_add_remove_test_passes:
  assumes "0 < n"
  shows "po_add_remove_test fn n s"
proof -
  define s0 where "s0 = snd (hp_poll_init (Some s) (int n) 200 0 0)"
  define d :: "nat \<Rightarrow> po_desc" where "d = (\<lambda>_. (5, fn, 0, 0))"
  have s0: "po_filled int d n 0 0 s0" unfolding s0_def by (rule hp_poll_init_filled [OF assms])
  have add: "hp_poll_add (int i) 1 0 0 0 s = po_add (int i) (1, 0, 0, 0) s"
    "hp_poll_add (int i) 5 fn 0 0 s = po_add (int i) (d i) s" for i s by (simp_all add: po_add_def d_def)
  have nin: "int n + 1 \<notin> int ` {0..<n}" by auto
  define s1 where "s1 = snd (run_steps (po_add_step fn) n s0)"
  have "fst (run_steps (po_add_step fn) n s0) \<and> po_filled int d n 0 n s1"
    unfolding s1_def
  proof (rule run_steps_inv [where I = "po_filled int d n 0"])
    fix i s assume "i < n" "po_filled int d n 0 i s"
    from por.filled_add_twice [OF this(2,1) _ _ refl, of "(1, 0, 0, 0)"]
    show "fst (po_add_step fn i s) \<and> po_filled int d n 0 (Suc i) (snd (po_add_step fn i s))"
      by (auto simp: po_add_step_def add case_prod_unfold po_filled_size)
  qed (rule s0)
  moreover define s2 where "s2 = snd (hp_poll_add (int n + 1) 5 fn 0 0 s1)"
  moreover have "fst (hp_poll_add (int n + 1) 5 fn 0 0 s1) < 0 \<and> po_filled int d n 0 n s2"
    using nin por.filled_full [of int d n s1 "int n + 1" "d 0"] calculation by (auto simp: s2_def po_add_def d_def)
  moreover have "inj_on int {0..<n}" by simp
  ultimately show ?thesis
    using po_rm_steps [of int d n s2] po_filled_size [OF s0]
    by (simp add: po_add_remove_test_def case_prod_unfold s0_def s1_def s2_def)
qed

lemma po_found_search: "po_found mem k s = (po_search (\<lambda>arg. mem arg = mem k) s \<noteq> NULL)"
proof -
  have "po_do_find po (k, Some (search_test_on_cmp mem)) = po_do_find po (0, Some (\<lambda>k' arg. if mem arg = mem k then 1 else 0))" for po
    by (rule ext) (simp add: po_do_find_def search_test_on_cmp_def Let_def)
  then show ?thesis
    by (simp add: po_found_def po_search_def hp_poll_find_def hp_lfind_def split: option.splits)
qed

lemma po_filled_found:
  assumes "fd_array fs p mem n" and "m \<le> n" and "po_filled fs (\<lambda>i. (ev, fn, lp, p i)) c 0 m s"
  shows "po_found mem k s \<longleftrightarrow> mem k \<in> fs ` {0..<m}"
proof -
  have "po_found mem k s \<longleftrightarrow> (\<exists>j < m. mem (p j) = mem k)"
    unfolding po_found_search
    using por.filled_search [OF assms(3), of "\<lambda>arg. mem arg = mem k"] assms(1,2) by (auto simp: po_argument_def fd_array_def)
  moreover have "\<forall>j < m. mem (p j) = fs j" using assms(1,2) by (auto simp: fd_array_def)
  ultimately show ?thesis by (force simp: image_iff)
qed

lemma po_search_test_passes:
  assumes "0 < n" and "fd_array fs p mem n" and "0 \<le> confd" and "confd \<notin> fs ` {0..<n}"
  shows "po_search_test fn fs p mem confd n s"
proof -
  define s0 where "s0 = snd (hp_poll_init (Some s) (int n) 200 0 0)"
  define d :: "nat \<Rightarrow> po_desc" where "d = (\<lambda>i. (5, fn, 0, p i))"
  have s0: "po_filled fs d n 0 0 s0" unfolding s0_def by (rule hp_poll_init_filled [OF assms(1)])
  have add: "hp_poll_add (fs i) 1 0 0 (p i) s = po_add (fs i) (1, 0, 0, p i) s"
    "hp_poll_add (fs i) 5 fn 0 (p i) s = po_add (fs i) (d i) s" for i s by (simp_all add: po_add_def d_def)
  have inj: "inj_on fs {0..<n}" and fs: "\<forall>i < n. 0 \<le> fs i \<and> mem (p i) = fs i" using assms(2) by (auto simp: fd_array_def)
  have found: "po_found mem k s \<longleftrightarrow> mem k \<in> fs ` {0..<m}" if "po_filled fs d n 0 m s" "m \<le> n" for k m s
    using po_filled_found [OF assms(2) that(2)] that(1) by (simp add: d_def)
  define s1 where "s1 = snd (run_steps (po_search_step fn fs p mem) n s0)"
  have r: "fst (run_steps (po_search_step fn fs p mem) n s0) \<and> po_filled fs d n 0 n s1"
    unfolding s1_def
  proof (rule run_steps_inv [where I = "po_filled fs d n 0"])
    fix i s assume i: "i < n" and f: "po_filled fs d n 0 i s"
    have ij: "inj_on fs {0..i}" using inj i by (auto intro: inj_on_subset)
    have nin: "fs i \<notin> fs ` {0..<i}" using ij by (rule inj_notin) auto
    define s1 where "s1 = snd (po_add (fs i) (1, 0, 0, p i) s)"
    define s2 where "s2 = snd (po_add (fs i) (d i) s1)"
    define s3 where "s3 = snd (hp_poll_rm (fs i) s2)"
    have a2: "fst (po_add (fs i) (1, 0, 0, p i) s) = 0" "fst (po_add (fs i) (d i) s1) = 0" "po_filled fs d n 0 (Suc i) s2"
      using por.filled_add_twice [OF f i ij _ refl, of "(1, 0, 0, p i)"] fs i by (auto simp: s1_def s2_def)
    have a3: "fst (hp_poll_rm (fs i) s2) = 0" "po_filled fs d n 0 i s3"
      using por.filled_rm_last [OF a2(3) ij] by (auto simp: s3_def)
    have a4: "fst (po_add (fs i) (d i) s3) = 0" "po_filled fs d n 0 (Suc i) (snd (po_add (fs i) (d i) s3))"
      using por.filled_add [OF a3(2) i ij] fs i by auto
    show "fst (po_search_step fn fs p mem i s) \<and> po_filled fs d n 0 (Suc i) (snd (po_search_step fn fs p mem i s))"
      using a2 a3 a4 fs i nin found [OF f] found [OF a2(3)] found [OF a3(2)] po_filled_size [OF a2(3)]
      by (auto simp: po_search_step_def add case_prod_unfold simp flip: s1_def s2_def s3_def)
  qed (rule s0)
  then have f1: "po_filled fs d n 0 n s1" by blast
  define s2 where "s2 = snd (hp_poll_add confd 5 fn 0 0 s1)"
  have "fst (hp_poll_add confd 5 fn 0 0 s1) < 0 \<and> po_filled fs d n 0 n s2"
    using por.filled_full [OF f1 assms(3,4), of "(5, fn, 0, 0)"] by (simp add: s2_def po_add_def)
  then show ?thesis
    using r po_rm_steps [OF _ inj, of d s2] po_filled_size [OF s0] assms(3)
    by (simp add: po_search_test_def case_prod_unfold s0_def s1_def s2_def)
qed

subsection \<open>Texts of events\<close>

text \<open>The tests of the texts, in order and with one buffer; those of \<open>hp_poll\<close> have a new buffer each.\<close>

fun e2str_tests :: "(u32 \<Rightarrow> char list option \<Rightarrow> nat \<Rightarrow> char list option outcome) \<Rightarrow> (u32 \<times> string) list \<Rightarrow> char list \<Rightarrow> bool" where
  "e2str_tests f [] buf = True"
| "e2str_tests f ((ev, t) # ts) buf =
     (case f ev (Some buf) (length buf) of Done (Some buf) \<Rightarrow> c_str buf = t \<and> e2str_tests f ts buf | _ \<Rightarrow> False)"

definition test_epoll_e2str :: bool where
  "test_epoll_e2str \<longleftrightarrow> e2str_tests hp_epoll_e2str
     [(0, []), (0x8, ''EPOLLERR''), (0x80000000, ''EPOLLET''), (0x1, ''EPOLLIN''), (0x4, ''EPOLLOUT''),
      (0x80000008, ''EPOLLERR | EPOLLET''), (0x80000001, ''EPOLLET | EPOLLIN''),
      (0x80000009, ''EPOLLERR | EPOLLET | EPOLLIN''), (0x8000000D, ''EPOLLERR | EPOLLET | EPOLLIN | EPOLLOUT'')] (replicate 128 (CHR 0x00))"

lemma test_epoll_e2str_passes: test_epoll_e2str
  by code_simp

definition test_poll_e2str :: bool where
  "test_poll_e2str \<longleftrightarrow> list_all (\<lambda>t. e2str_tests hp_poll_e2str [t] (replicate 128 (CHR 0x00)))
     [(0, []), (0x8, ''POLLERR''), (0x1, ''POLLIN''), (0x4, ''POLLOUT''), (0x9, ''POLLERR | POLLIN''), (0xD, ''POLLERR | POLLIN | POLLOUT'')]"

lemma test_poll_e2str_passes: test_poll_e2str
  by code_simp

text \<open>Initialising works for every length, zero included.\<close>

definition test_epoll_init :: "sock \<Rightarrow> epw \<Rightarrow> bool" where
  "test_epoll_init epfd s \<longleftrightarrow> list_all (\<lambda>n. fst (hp_epoll_init epfd n 200 0 0 s) = 0) [0, 1, 2]"

lemma test_epoll_init_passes: "epo s \<noteq> None \<Longrightarrow> epfd \<noteq> -1 \<Longrightarrow> test_epoll_init epfd s"
  by (auto simp: test_epoll_init_def hp_epoll_init_def)

end
