(* ===== verification/Hp_Tests_Svc.thy ===== *)
theory Hp_Tests_Svc
  imports Hp_Url Hp_Msg Hp_Ini Hp_Timerfd Hp_Str Hp_Tests_Loop
begin

section \<open>The tests of query strings, messages, configuration and timers\<close>

text \<open>
  The test functions of \<open>src/hp_url.c\<close>, \<open>src/hp_msg.c\<close> and \<open>src/hp_ini.c\<close>, and the first of \<open>src/hp_timerfd.c\<close>. The
  parsers of query strings and of files are parameters, as in the models.
\<close>

subsection \<open>hp\_url\<close>

definition url_test_query :: string where
  "url_test_query = ''s=\"192.168.1.105:9201\"&d=\"192.168.1.105:80\"''"

text \<open>\<open>text\<close> is the text at an address: the values point into the query.\<close>

definition test_url :: "(string \<Rightarrow> char \<Rightarrow> nat \<Rightarrow> int \<times> param list) \<Rightarrow> (ptr \<Rightarrow> string) \<Rightarrow> bool" where
  "test_url parse text \<longleftrightarrow>
     (case hp_url_query parse (Some url_test_query) 256 [(''s'', NULL), (''d'', NULL)] (char_of (0::nat)) of
        (n, q) \<Rightarrow> n = 2 \<and> text (snd (q ! 0)) = ''\"192.168.1.105:9201\"'' \<and> text (snd (q ! 1)) = ''\"192.168.1.105:80\"'')"

lemma test_url_passes:
  assumes "parse url_test_query CHR ''&'' 256 = (2, [(''s'', p), (''d'', p')])"
    and "text p = ''\"192.168.1.105:9201\"''" and "text p' = ''\"192.168.1.105:80\"''"
  shows "test_url parse text"
  using assms by (simp add: test_url_def hp_url_query_def query_store_def)

subsection \<open>hp\_msg\<close>

text \<open>The buffer is what \<open>malloc\<close> left in it.\<close>

definition test_msg :: "byte list \<Rightarrow> bool" where
  "test_msg garbage \<longleftrightarrow>
     (let msg = (hp_msg_new (128 * 1024))\<lparr>msg_len := 127 * 1024, msg_buf := garbage\<rparr>
      in case hp_msg_dup (Some msg) of
           Done (Some msg2) \<Rightarrow>
             msg_id msg = msg_id msg2 \<and> msg_type msg = msg_type msg2 \<and> msg_sid msg = msg_sid msg2 \<and> msg_len msg = msg_len msg2 \<and>
             take (127 * 1024) (msg_buf msg) = take (127 * 1024) (msg_buf msg2)
         | _ \<Rightarrow> False)"

lemma test_msg_passes: "length garbage = 128 * 1024 \<Longrightarrow> test_msg garbage"
proof -
  have "sint (127 * 1024 :: u32) = 127 * 1024" by simp
  then show "length garbage = 128 * 1024 \<Longrightarrow> test_msg garbage"
    by (simp add: test_msg_def hp_msg_dup_def hp_msg_new_def Let_def to_size_def)
qed

subsection \<open>hp\_ini\<close>

text \<open>The commands with what each must answer.\<close>

fun ini_tests ::
  "(string \<Rightarrow> int \<times> ini_entry list) \<Rightarrow> (fnptr \<Rightarrow> ini_entry \<Rightarrow> hp_ini \<Rightarrow> hp_ini) \<Rightarrow> (string \<times> (string \<Rightarrow> bool)) list \<Rightarrow> hp_ini \<Rightarrow> bool" where
  "ini_tests ini_file cb [] i = True"
| "ini_tests ini_file cb ((k, p) # ts) i =
     (case hp_ini_exec ini_file cb (Some i) (Some k) of
        Done (Some r, Some i) \<Rightarrow> p r \<and> ini_tests ini_file cb ts i
      | _ \<Rightarrow> False)"

definition test_config :: "(string \<Rightarrow> int \<times> ini_entry list) \<Rightarrow> (fnptr \<Rightarrow> ini_entry \<Rightarrow> hp_ini \<Rightarrow> hp_ini) \<Rightarrow> bool" where
  "test_config ini_file cb \<longleftrightarrow> ini_tests ini_file cb
     [(''#set test.key.name 23'', \<lambda>r. c_atoi r = 0), (''test.key.name'', \<lambda>r. c_atoi r = 23),
      (''#set test.key.name 24'', \<lambda>r. c_atoi r = 0), (''test.key.name'', \<lambda>r. c_atoi r = 24),
      (''#load test_hp_config_main.ini'', \<lambda>r. c_atoi r = 0), (''#load this_file_not_exist.conf'', \<lambda>r. c_atoi r \<noteq> 0),
      (''#set loglevel 1'', \<lambda>r. c_atoi r = 0), (''loglevel'', \<lambda>r. c_atoi r = 1),
      (''#show'', \<lambda>r. 0 < length r), (''#show'', \<lambda>r. 0 < length r), (''#unload'', \<lambda>r. c_atoi r = 0)]
     \<lparr>ini_dict = None, ini_parser = NULL, ini_section = []\<rparr>"

text \<open>The test makes an empty file, and the other file does not exist.\<close>

lemma test_config_passes:
  assumes "ini_file ''test_hp_config_main.ini'' = (0, [])" and "ini_file ''this_file_not_exist.conf'' = (-1, [])"
  shows "test_config ini_file cb"
proof -
  have "c_atoi ''0'' = 0" "c_atoi ''1'' = 1" "c_atoi ''23'' = 23" "c_atoi ''24'' = 24" "c_atoi ''-1'' = -1" by code_simp+
  then show ?thesis
    using assms by (simp add: test_config_def hp_ini_exec_def dict_replace_def prefix_def)
qed

subsection \<open>hp\_timerfd\<close>

text \<open>The first of the tests: a timer on a descriptor of the client is made and given up. \<open>ta\<close> is its address.\<close>

definition test_timerfd_init2 :: "sock \<Rightarrow> sock \<Rightarrow> hp_timerfd \<Rightarrow> ptr \<Rightarrow> fnptr \<Rightarrow> ptr \<Rightarrow> tw \<Rightarrow> bool" where
  "test_timerfd_init2 epfd fd timer ta handle efds w =
     (case hp_epoll_init epfd 2 0 0 0 (tw_ep w) of (rc0, ep) \<Rightarrow>
      case hp_timerfd_init2 (Some timer) ta True fd handle 100 efds (w\<lparr>tw_ep := ep\<rparr>) of (rc, tf, w) \<Rightarrow>
        rc0 = 0 \<and> rc = 0 \<and> (case hp_timerfd_uninit tf w of Done _ \<Rightarrow> True | _ \<Rightarrow> False))"

lemma test_timerfd_init2_passes:
  assumes "ep_fresh (tw_ep w)" and "epfd \<noteq> -1" and "0 \<le> fd" and "tw_clock w = []" and "tw_settime w = []"
  shows "test_timerfd_init2 epfd fd timer ta handle efds w"
proof -
  obtain rc0 ep where i: "hp_epoll_init epfd 2 0 0 0 (tw_ep w) = (rc0, ep)" by fastforce
  let ?d = "(EPOLLIN + EPOLLET, HANDLE_TFD, NULL, ta)"
  have rc0: "rc0 = 0" and inv: "ep_inv ep" "ep_entries ep = []" "ep_capacity ep = 2"
    using assms(1,2) i
    by (auto simp: ep_fresh_def hp_epoll_init_def ep_inv_def ep_wf_def ed_used_def ep_capacity_def ep_entries_def Let_def)
  have "fst (ep_add fd ?d ep) = 0" using epr.add_room [OF inv(1) assms(3), of ?d] inv(2,3) by simp
  then have a: "fst (hp_epoll_add fd (EPOLLIN + EPOLLET) HANDLE_TFD NULL ta ep) = 0" by (simp add: ep_add_def)
  then show ?thesis
    using assms(4,5) i rc0
    by (simp add: test_timerfd_init2_def hp_timerfd_init2_def hp_timerfd_uninit_def hp_timerfd_reset_def answer_def Let_def case_prod_unfold)
qed

end
