(* ===== verification/Hp_Tcpio.thy ===== *)
theory Hp_Tcpio
  imports Hp_Rd Hp_Wr Hp_Sock
begin

section \<open>hp\_tcpio: the older TCP server\<close>

text \<open>
  Models \<open>src/hp_tcpio.c\<close>, which is compiled under \<open>LIBHP_DEPRECADTED\<close>. Like \<open>Hp_Dl\<close> it calls a former
  event loop which is no longer in the repository: \<open>hp_epolld_set\<close> and \<open>hp_epoll_add\<close> are one entry of a log
  (descriptor, events, handler and its argument), and the second answers from a script; a script that has ended
  answers 0. \<open>accept\<close> answers from a script, too, and waits when it has ended. The state of the program, to which
  the callback \<open>conn\<close> belongs, is a parameter. An assertion that fails is \<open>Undef\<close>. The functions of the
  file stand for their addresses.
\<close>

abbreviation (input) TCP_EPOLLIN :: int where "TCP_EPOLLIN \<equiv> 1"
abbreviation (input) TCP_EPOLL_ALL :: int where "TCP_EPOLL_ALL \<equiv> 0x80000005"
abbreviation (input) PACK_CB :: fnptr where "PACK_CB \<equiv> 1"
abbreviation (input) READ_ERROR_CB :: fnptr where "READ_ERROR_CB \<equiv> 2"
abbreviation (input) WRITE_ERROR_CB :: fnptr where "WRITE_ERROR_CB \<equiv> 3"

datatype tcp_accept = Ac_conn sock in_addr nat | Ac_err int string

datatype epolld_cb = Cb_accept | Cb_io

datatype epolld_arg = Arg_ctx | Arg_client ptr

text \<open>The server, and what it allocates for a connection.\<close>

record hp_tcpio =
  tp_keepalive :: int
  tp_efds :: ptr
  tp_ed :: "sock \<times> epolld_cb \<times> epolld_arg"
  tp_conn :: fnptr
  tp_pack :: fnptr
  tp_write_error :: fnptr
  tp_read_error :: fnptr

record tcpio_cli =
  tcc_eti :: hp_rd
  tcc_eto :: hp_wr
  tcc_epolld :: "sock \<times> epolld_cb \<times> epolld_arg"

record tcpio_sys =
  tc_adds :: "int list"
  tc_loop :: "(sock \<times> int \<times> epolld_cb \<times> epolld_arg) list"
  tc_accepted :: "sock list"
  tc_nonblock :: "sock list"
  tc_closed :: "sock list"
  tc_clients :: "tcpio_cli list"
  tc_lines :: "string list"

definition tcp_epoll_add :: "sock \<Rightarrow> int \<Rightarrow> epolld_cb \<Rightarrow> epolld_arg \<Rightarrow> tcpio_sys \<Rightarrow> int \<times> tcpio_sys" where
  "tcp_epoll_add fd events cb arg w =
     (let w = w\<lparr>tc_loop := tc_loop w @ [(fd, events, cb, arg)]\<rparr>
      in case tc_adds w of [] \<Rightarrow> (0, w) | rc # rcs \<Rightarrow> (rc, w\<lparr>tc_adds := rcs\<rparr>))"

definition hp_tcpio_init :: "hp_tcpio option \<Rightarrow> ptr \<Rightarrow> sock \<Rightarrow> fnptr \<Rightarrow> fnptr \<Rightarrow> tcpio_sys \<Rightarrow> (int \<times> hp_tcpio option \<times> tcpio_sys) outcome" where
  "hp_tcpio_init ctxo efds fd conn pack w =
     (case ctxo of None \<Rightarrow> Done (-1, None, w)
      | Some ctx \<Rightarrow>
        let ctx = ctx\<lparr>tp_efds := efds, tp_conn := conn, tp_pack := pack, tp_ed := (fd, Cb_accept, Arg_ctx)\<rparr>
        in case tcp_epoll_add fd TCP_EPOLLIN Cb_accept Arg_ctx w of (rc, w) \<Rightarrow>
          if rc \<noteq> 0 then Undef else Done (0, Some ctx, w))"

definition hp_tcpio_uninit :: "hp_tcpio option \<Rightarrow> hp_tcpio option" where
  "hp_tcpio_uninit ctxo = ctxo"

subsection \<open>Callbacks\<close>

text \<open>An event of a connection is printed in a debug build, and nothing else is done; every byte read is dropped.\<close>

definition tcp_io_cb :: "epolld_arg \<Rightarrow> int \<Rightarrow> tcpio_sys \<Rightarrow> int \<times> tcpio_sys" where
  "tcp_io_cb arg events w = (0, w)"

definition tcp_pack_cb :: "'u data_cb" where
  "tcp_pack_cb f buf u = (EAGAIN, [], u)"

text \<open>The error callbacks only assert that they were given an event with an argument.\<close>

definition tcp_write_error_cb :: "(ptr \<Rightarrow> ptr) \<Rightarrow> ptr \<Rightarrow> unit outcome" where
  "tcp_write_error_cb epoll_arg ev = (if ev = NULL \<or> epoll_arg ev = NULL then Undef else Done ())"

definition tcp_read_error_cb :: "(ptr \<Rightarrow> ptr) \<Rightarrow> ptr \<Rightarrow> unit outcome" where
  "tcp_read_error_cb epoll_arg ev = (if ev = NULL \<or> epoll_arg ev = NULL then Undef else Done ())"

subsection \<open>New connections\<close>

text \<open>\<open>calloc\<close> gives a client whose reader and writer are zero, which \<open>hp_rd_init\<close> and \<open>hp_wr_init\<close> set up.\<close>

definition tcp_rd0 :: hp_rd where
  "tcp_rd0 = \<lparr>i_buf = [], i_alloc = False, I_BUF_MAX = 0, i_bytes = 0, rd_stat = None, rd_data = NULL,
     rd_read_error = NULL, rd_err = 0\<rparr>"

definition tcp_wr0 :: hp_wr where
  "tcp_wr0 = \<lparr>o_items = [], O_ITEMS_INIT_LEN = 0, O_ITEMS_LEN = 0, o_bytes = 0, write_error = NULL, wr_err = 0\<rparr>"

definition tcp_client :: "sock \<Rightarrow> ptr \<Rightarrow> tcpio_cli" where
  "tcp_client confd arg =
     \<lparr>tcc_eti = the (snd (hp_rd_init (Some tcp_rd0) (1024 * 2) PACK_CB READ_ERROR_CB)),
      tcc_eto = the (snd (hp_wr_init (Some tcp_wr0) 2 WRITE_ERROR_CB)),
      tcc_epolld = (confd, Cb_io, Arg_client arg)\<rparr>"

definition tcp_take :: "sock \<Rightarrow> ptr \<Rightarrow> tcpio_sys \<Rightarrow> tcpio_sys outcome" where
  "tcp_take confd arg w =
     (case tcp_epoll_add confd TCP_EPOLL_ALL Cb_io (Arg_client arg) (w\<lparr>tc_clients := tc_clients w @ [tcp_client confd arg]\<rparr>) of
        (rc, w) \<Rightarrow> if rc \<noteq> 0 then Undef else Done w)"

definition tcp_close :: "sock \<Rightarrow> tcpio_sys \<Rightarrow> tcpio_sys" where
  "tcp_close fd w = w\<lparr>tc_closed := tc_closed w @ [fd]\<rparr>"

definition tcp_new :: "(in_addr \<Rightarrow> string) \<Rightarrow> sock \<Rightarrow> in_addr \<Rightarrow> nat \<Rightarrow> tcpio_sys \<Rightarrow> tcpio_sys" where
  "tcp_new ntop confd a port w =
     w\<lparr>tc_accepted := tc_accepted w @ [confd], tc_nonblock := tc_nonblock w @ [confd],
       tc_lines := tc_lines w @ [''accept_cb: new connect from '' @ [CHR 0x27] @
         the (hp_addr4name ntop (Some (a, port)) (Some '':'') 64) @ [CHR 0x27] @ '', fd='' @ int_text confd @ [CHR 0x0A]]\<rparr>"

fun accept_loop ::
  "(in_addr \<Rightarrow> string) \<Rightarrow> (hp_tcpio \<Rightarrow> sock \<Rightarrow> 'u \<Rightarrow> int \<times> ptr \<times> 'u) \<Rightarrow> hp_tcpio \<Rightarrow>
   tcp_accept list \<Rightarrow> tcpio_sys \<times> 'u \<Rightarrow> (int \<times> tcpio_sys \<times> 'u) outcome" where
  "accept_loop ntop conn ctx [] (w, u) = Blocked (0, w, u)"
| "accept_loop ntop conn ctx (Ac_err e msg # acs) (w, u) =
     (if e = EINTR \<or> e = EAGAIN then Done (0, w, u)
      else Done (-1, w\<lparr>tc_lines := tc_lines w @ [''accept_cb: accept failed, errno='' @ int_text e @ '', error='' @
        [CHR 0x27] @ msg @ [CHR 0x27, CHR 0x0A]]\<rparr>, u))"
| "accept_loop ntop conn ctx (Ac_conn confd a port # acs) (w, u) =
     (let w = tcp_new ntop confd a port w
      in case conn ctx confd u of (rc, arg, u) \<Rightarrow>
        if rc = 0 then
          (case tcp_take confd arg w of Done w \<Rightarrow> accept_loop ntop conn ctx acs (w, u) | _ \<Rightarrow> Undef)
        else accept_loop ntop conn ctx acs (tcp_close confd w, u))"

definition accept_cb ::
  "(in_addr \<Rightarrow> string) \<Rightarrow> (hp_tcpio \<Rightarrow> sock \<Rightarrow> 'u \<Rightarrow> int \<times> ptr \<times> 'u) \<Rightarrow> hp_tcpio option \<Rightarrow>
   tcp_accept list \<Rightarrow> tcpio_sys \<times> 'u \<Rightarrow> (int \<times> tcpio_sys \<times> 'u) outcome" where
  "accept_cb ntop conn ctxo acs s =
     (case ctxo of None \<Rightarrow> Undef
      | Some ctx \<Rightarrow> if tp_efds ctx = NULL then Undef else accept_loop ntop conn ctx acs s)"

subsection \<open>Where the descriptors go\<close>

text \<open>
  A descriptor that was accepted is watched by the event loop and owned by a client, or it was closed, and
  never both: counted with repetition, since the system may give a number again.
\<close>

definition tcp_client_fds :: "tcpio_cli list \<Rightarrow> sock list" where
  "tcp_client_fds cs = map (\<lambda>c. fst (tcc_epolld c)) cs"

definition tcp_inv :: "tcpio_sys \<Rightarrow> bool" where
  "tcp_inv w \<longleftrightarrow>
     mset (tc_accepted w) = mset (tcp_client_fds (tc_clients w)) + mset (tc_closed w) \<and>
     tc_nonblock w = tc_accepted w \<and>
     tcp_client_fds (tc_clients w) = map fst (filter (\<lambda>(fd, ev, cb, arg). cb = Cb_io) (tc_loop w))"

lemma tcp_client_fd [simp]: "tcc_epolld (tcp_client fd arg) = (fd, Cb_io, Arg_client arg)"
  by (simp add: tcp_client_def)

lemma tcp_client_fds_snoc [simp]: "tcp_client_fds (cs @ [c]) = tcp_client_fds cs @ [fst (tcc_epolld c)]"
  by (simp add: tcp_client_fds_def)

lemma tcp_new_close_inv: "tcp_inv w \<Longrightarrow> tcp_inv (tcp_close fd (tcp_new ntop fd a p w))"
  unfolding tcp_inv_def tcp_new_def tcp_close_def by (elim conjE) simp

lemma tcp_new_take_inv:
  assumes "tcp_inv w" and "tcp_take fd arg (tcp_new ntop fd a p w) = Done w'"
  shows "tcp_inv w'"
  using assms
  by (auto simp: tcp_inv_def tcp_new_def tcp_take_def tcp_epoll_add_def Let_def split: list.splits if_splits)

lemma accept_loop_inv:
  assumes "tcp_inv w" and "accept_loop ntop conn ctx acs (w, u) = Done (rc, w', u') \<or> accept_loop ntop conn ctx acs (w, u) = Blocked (rc, w', u')"
  shows "tcp_inv w'"
  using assms
proof (induction acs arbitrary: w u)
  case Nil
  then show ?case by simp
next
  case (Cons x acs)
  show ?case
  proof (cases x)
    case (Ac_err e msg)
    with Cons.prems show ?thesis by (auto simp: tcp_inv_def split: if_splits)
  next
    case (Ac_conn fd a p)
    obtain r arg v where c: "conn ctx fd u = (r, arg, v)" by (cases "conn ctx fd u") auto
    show ?thesis
    proof (cases "r = 0")
      case False
      with Cons.IH [of "tcp_close fd (tcp_new ntop fd a p w)" v] Cons.prems Ac_conn c tcp_new_close_inv [OF Cons.prems(1)]
      show ?thesis by simp
    next
      case True
      with Cons.prems Ac_conn c obtain t where t: "tcp_take fd arg (tcp_new ntop fd a p w) = Done t"
        by (cases "tcp_take fd arg (tcp_new ntop fd a p w)") auto
      with Cons.IH [of t v] Cons.prems Ac_conn c True tcp_new_take_inv [OF Cons.prems(1) t]
      show ?thesis by simp
    qed
  qed
qed

lemma accept_cb_inv:
  assumes "tcp_inv w" and "accept_cb ntop conn ctxo acs (w, u) = Done (rc, w', u')"
  shows "tcp_inv w'"
proof -
  from assms(2) obtain ctx where "accept_loop ntop conn ctx acs (w, u) = Done (rc, w', u')"
    by (auto simp: accept_cb_def split: option.splits if_splits)
  then show ?thesis by (rule accept_loop_inv [OF assms(1) disjI1])
qed

text \<open>
  The loop comes to an end without undefined behaviour when the event loop takes every descriptor and the
  listening socket at last has no connection to give; the handler says failure exactly when \<open>accept\<close> failed
  for another reason.
\<close>

lemma accept_loop_returns:
  assumes "tc_adds w = []" and "list_all (\<lambda>x. \<exists>fd a p. x = Ac_conn fd a p) cs"
  shows "\<exists>w' u'. accept_loop ntop conn ctx (cs @ Ac_err e msg # acs) (w, u) =
    Done (if e = EINTR \<or> e = EAGAIN then 0 else -1, w', u') \<and>
    tc_accepted w' = tc_accepted w @ map (\<lambda>x. case x of Ac_conn fd a p \<Rightarrow> fd) cs"
  using assms
proof (induction cs arbitrary: w u)
  case Nil
  then show ?case by simp
next
  case (Cons x cs)
  then obtain fd a p where x: "x = Ac_conn fd a p" by auto
  obtain r arg v where c: "conn ctx fd u = (r, arg, v)" by (cases "conn ctx fd u") auto
  let ?w = "tcp_new ntop fd a p w"
  obtain t where t: "tcp_take fd arg ?w = Done t" and ta: "tc_adds t = []" "tc_accepted t = tc_accepted w @ [fd]"
    using Cons.prems by (simp add: tcp_take_def tcp_epoll_add_def tcp_new_def)
  have ca: "tc_adds (tcp_close fd ?w) = []" "tc_accepted (tcp_close fd ?w) = tc_accepted w @ [fd]"
    using Cons.prems by (simp_all add: tcp_close_def tcp_new_def)
  show ?case
    using Cons.IH [of t v] Cons.IH [of "tcp_close fd ?w" v] Cons.prems x c t ta ca by (cases "r = 0") auto
qed

lemma accept_cb_returns:
  assumes "tp_efds ctx \<noteq> NULL" and "tc_adds w = []" and "list_all (\<lambda>x. \<exists>fd a p. x = Ac_conn fd a p) cs"
  shows "\<exists>w' u'. accept_cb ntop conn (Some ctx) (cs @ Ac_err e msg # acs) (w, u) =
    Done (if e = EINTR \<or> e = EAGAIN then 0 else -1, w', u') \<and>
    tc_accepted w' = tc_accepted w @ map (\<lambda>x. case x of Ac_conn fd a p \<Rightarrow> fd) cs"
  using assms(1) accept_loop_returns [OF assms(2, 3), of ntop conn ctx e msg acs u] by (simp add: accept_cb_def)

subsection \<open>The callback for packets\<close>

text \<open>
  \<open>hp_tcpio_init\<close> keeps the callback \<open>pack\<close>, and no code calls it: every client gets the reader of
  the file, which drops what it reads.
\<close>

lemma accept_loop_pack:
  assumes "\<And>fd u. conn (ctx\<lparr>tp_pack := f\<rparr>) fd u = conn ctx fd u"
  shows "accept_loop ntop conn (ctx\<lparr>tp_pack := f\<rparr>) acs s = accept_loop ntop conn ctx acs s"
proof (induction acs arbitrary: s)
  case Nil
  then show ?case by (cases s) simp
next
  case (Cons x acs)
  then show ?case using assms by (cases s; cases x) (auto simp: Let_def split: prod.split outcome.split)
qed

lemma tcp_client_drops: "rd_data (tcc_eti (tcp_client fd arg)) = PACK_CB \<and> fst (snd (tcp_pack_cb PACK_CB buf u)) = []"
  by (simp add: tcp_client_def hp_rd_init_def tcp_pack_cb_def)

end
