(* ===== verification/Hp_Tests_Conn.thy ===== *)
theory Hp_Tests_Conn
  imports Hp_Tests_Loop Hp_Http
begin

section \<open>The tests of hp\_io\_t: the echo program and the table of connections\<close>

text \<open>
  The program that the tests at the end of \<open>src/hp_io_t.cpp\<close> run: its callbacks, for the server's and the
  client's side, as the client part of \<open>Hp_Iot\<close>. The texts of the log are left out, as are the tests that talk
  to a peer. An assertion of the program that fails is recorded in \<open>ech_failed\<close>. \<open>hello\<close> and \<open>world\<close> are
  the addresses of the static texts.
\<close>

subsection \<open>The echo program\<close>

record echo_client =
  ec_in :: "byte list"
  ec_s :: ptr
  ec_test :: int

text \<open>
  \<open>ech_test\<close> is the test of a server by its address, \<open>ech_turns\<close> the static counter of \<open>s_on_loop\<close>,
  \<open>ech_shut\<close> the descriptors that were shut down.
\<close>

record echo =
  ech_clients :: "ptr \<rightharpoonup> echo_client"
  ech_test :: "ptr \<rightharpoonup> int"
  ech_nxt :: ptr
  ech_turns :: int
  ech_shut :: "sock list"
  ech_failed :: bool

abbreviation (input) S_NEW :: fnptr where "S_NEW \<equiv> 21"
abbreviation (input) S_PARSE :: fnptr where "S_PARSE \<equiv> 22"
abbreviation (input) S_DISPATCH :: fnptr where "S_DISPATCH \<equiv> 23"
abbreviation (input) S_LOOP :: fnptr where "S_LOOP \<equiv> 24"
abbreviation (input) S_DELETE :: fnptr where "S_DELETE \<equiv> 25"
abbreviation (input) C_PARSE :: fnptr where "C_PARSE \<equiv> 26"
abbreviation (input) C_DISPATCH :: fnptr where "C_DISPATCH \<equiv> 27"
abbreviation (input) C_DELETE :: fnptr where "C_DELETE \<equiv> 28"

definition on_ech :: "(echo \<Rightarrow> echo) \<Rightarrow> echo iow \<Rightarrow> echo iow" where
  "on_ech f = on_ior (\<lambda>r. r\<lparr>ior_user := f (ior_user r)\<rparr>)"

definition ech :: "echo iow \<Rightarrow> echo" where
  "ech w = ior_user (snd w)"

definition ech_assert :: "bool \<Rightarrow> echo iow \<Rightarrow> echo iow" where
  "ech_assert P w = (if P then w else on_ech (\<lambda>e. e\<lparr>ech_failed := True\<rparr>) w)"

definition ech_put :: "ptr \<Rightarrow> echo_client \<Rightarrow> echo iow \<Rightarrow> echo iow" where
  "ech_put io c = on_ech (\<lambda>e. e\<lparr>ech_clients := (ech_clients e)(io \<mapsto> c)\<rparr>)"

definition ech_shutdown :: "ptr \<Rightarrow> echo iow \<Rightarrow> echo iow" where
  "ech_shutdown io w =
     (case io_of w io of None \<Rightarrow> io_faulty F_freed w
      | Some x \<Rightarrow> on_ech (\<lambda>e. e\<lparr>ech_shut := ech_shut e @ [io_fd x]\<rparr>) w)"

definition starts_with :: "string \<Rightarrow> byte list \<Rightarrow> bool" where
  "starts_with s bs \<longleftrightarrow> take (length s) bs = ascii s"

definition ech_say :: "ptr \<Rightarrow> ptr \<Rightarrow> hp_free_t \<Rightarrow> echo iow \<Rightarrow> int \<times> echo iow" where
  "ech_say io text f w = (case hp_io_write io text 5 f NULL w of (rc, w) \<Rightarrow> (rc, ech_assert (rc = 0) w))"

subsubsection \<open>The server\<close>

definition s_on_new :: "hp_io_t \<Rightarrow> ptr \<Rightarrow> ptr \<Rightarrow> sock \<Rightarrow> echo iow \<Rightarrow> ptr \<times> echo iow" where
  "s_on_new zero_io hello cio fd w =
     (case io_of w cio of None \<Rightarrow> (NULL, io_faulty F_freed w)
      | Some c \<Rightarrow>
        case ech_test (ech w) (io_user c) of None \<Rightarrow> (NULL, io_faulty F_freed w)
      | Some t \<Rightarrow>
        let w = ech_assert (io_user c \<noteq> NULL) w;
            req = ech_nxt (ech w);
            w = on_ech (\<lambda>e. e\<lparr>ech_nxt := req + 1\<rparr>) w;
            w = ech_put req \<lparr>ec_in = [], ec_s = io_user c, ec_test = t\<rparr> (io_put req zero_io w)
        in case hp_io_add req fd ((io_hdl c)\<lparr>h_on_new := NULL\<rparr>) w of (rc, w) \<Rightarrow>
          let w = ech_assert (rc = 0) w
          in (req, if t = 3 then snd (ech_say req hello NoFree w) else w))"

definition s_on_parse :: "ptr \<Rightarrow> byte list \<Rightarrow> echo iow \<Rightarrow> int \<times> byte list \<times> ptr \<times> ptr \<times> echo iow" where
  "s_on_parse io buf w =
     (case ech_clients (ech w) io of None \<Rightarrow> (0, [], NULL, NULL, io_faulty F_freed w)
      | Some req \<Rightarrow>
        let w = ech_assert (ec_s req \<noteq> NULL) w;
            inp = ec_in req @ buf
        in if ec_test req = 1
           then (if starts_with ''hello'' inp then 1 else 0, [], NULL, NULL, ech_put io (req\<lparr>ec_in := inp\<rparr>) w)
           else if ec_test req = 3
           then (if starts_with ''world'' inp then 1 else 0, [], NULL, NULL, ech_put io (req\<lparr>ec_in := inp\<rparr>) w)
           else (0, [], NULL, NULL, w))"

definition s_on_dispatch :: "ptr \<Rightarrow> ptr \<Rightarrow> echo iow \<Rightarrow> int \<times> echo iow" where
  "s_on_dispatch world io w =
     (case ech_clients (ech w) io of None \<Rightarrow> (0, io_faulty F_freed w)
      | Some req \<Rightarrow>
        let w = ech_assert (ec_s req \<noteq> NULL) w
        in if ec_test req = 1 then
             (if starts_with ''hello'' (ec_in req)
              then (case ech_say io world NoFree w of (rc, w) \<Rightarrow> (rc, ech_put io (req\<lparr>ec_test := 0\<rparr>) w))
              else (0, w))
           else if ec_test req = 3 then
             (0, if starts_with ''world'' (ec_in req) then ech_shutdown io (ech_put io (req\<lparr>ec_test := 0\<rparr>) w) else w)
           else (0, w))"

definition s_on_loop :: "ptr \<Rightarrow> echo iow \<Rightarrow> int \<times> echo iow" where
  "s_on_loop io w =
     (case io_of w io of None \<Rightarrow> (0, io_faulty F_freed w)
      | Some x \<Rightarrow>
        if h_on_new (io_hdl x) \<noteq> NULL then (0, w)
        else case ech_clients (ech w) io of None \<Rightarrow> (0, io_faulty F_freed w)
        | Some req \<Rightarrow>
          if ec_test req \<noteq> 2 then (0, w)
          else let w = on_ech (\<lambda>e. e\<lparr>ech_turns := ech_turns e - 1\<rparr>) w
               in if ech_turns (ech w) \<le> 0 then (-1, ech_shutdown io (ech_put io (req\<lparr>ec_test := 0\<rparr>) w)) else (0, w))"

definition s_on_delete :: "ptr \<Rightarrow> echo iow \<Rightarrow> echo iow" where
  "s_on_delete io w =
     (case ech_clients (ech w) io of None \<Rightarrow> io_faulty F_freed w
      | Some req \<Rightarrow>
        on_ior (\<lambda>r. r\<lparr>ior_ios := (ior_ios r)(io := None)\<rparr>)
          (on_ech (\<lambda>e. e\<lparr>ech_clients := (ech_clients e)(io := None)\<rparr>) (ech_assert (ec_s req \<noteq> NULL) w)))"

subsubsection \<open>The client\<close>

definition c_on_parse :: "ptr \<Rightarrow> byte list \<Rightarrow> echo iow \<Rightarrow> int \<times> byte list \<times> ptr \<times> ptr \<times> echo iow" where
  "c_on_parse io buf w =
     (case ech_clients (ech w) io of None \<Rightarrow> (0, [], NULL, NULL, io_faulty F_freed w)
      | Some c \<Rightarrow>
        let w = ech_assert (ec_s c = NULL) w;
            inp = ec_in c @ buf
        in if ec_test c = 1
           then (if starts_with ''world'' inp then 1 else 0, [], NULL, NULL, ech_put io (c\<lparr>ec_in := inp\<rparr>) w)
           else if ec_test c = 3
           then (if starts_with ''hello'' inp then 1 else 0, [], NULL, NULL, ech_put io (c\<lparr>ec_in := inp\<rparr>) w)
           else (0, [], NULL, NULL, w))"

definition c_on_dispatch :: "ptr \<Rightarrow> echo iow \<Rightarrow> int \<times> echo iow" where
  "c_on_dispatch io w =
     (case ech_clients (ech w) io of None \<Rightarrow> (0, io_faulty F_freed w)
      | Some c \<Rightarrow>
        let w = ech_assert (ec_s c = NULL) w
        in if ec_test c = 1 then
             (if starts_with ''world'' (ec_in c)
              then (-1, ech_shutdown io (ech_put io (c\<lparr>ec_test := 0\<rparr>) w)) else (0, w))
           else if ec_test c = 3 then
             (if starts_with ''hello'' (ec_in c)
              then (case k_store (ascii ''world'') (ior_kio (snd w)) of (text, k) \<Rightarrow>
                    case ech_say io text SDSFREE (on_ior (\<lambda>r. r\<lparr>ior_kio := k\<rparr>) w) of (rc, w) \<Rightarrow>
                      (rc, ech_put io (c\<lparr>ec_test := 0\<rparr>) w))
              else (0, w))
           else (0, w))"

definition c_on_delete :: "ptr \<Rightarrow> echo iow \<Rightarrow> echo iow" where
  "c_on_delete io w =
     (case (io_of w io, ech_clients (ech w) io) of
        (Some x, Some c) \<Rightarrow> on_ior (\<lambda>r. r\<lparr>ior_closed := ior_closed r @ [io_fd x]\<rparr>) (ech_assert (ec_s c = NULL) w)
      | _ \<Rightarrow> io_faulty F_freed w)"

definition echo_hdl :: "bool \<Rightarrow> hp_iohdl" where
  "echo_hdl loop = \<lparr>h_on_new = S_NEW, h_on_parse = S_PARSE, h_on_dispatch = S_DISPATCH,
     h_on_loop = (if loop then S_LOOP else NULL), h_on_delete = S_DELETE\<rparr>"

definition echo_hdlc :: hp_iohdl where
  "echo_hdlc = \<lparr>h_on_new = NULL, h_on_parse = C_PARSE, h_on_dispatch = C_DISPATCH, h_on_loop = NULL, h_on_delete = C_DELETE\<rparr>"

definition echo_cbs :: "hp_io_t \<Rightarrow> ptr \<Rightarrow> ptr \<Rightarrow> (int \<Rightarrow> string) \<Rightarrow> echo io_cbs" where
  "echo_cbs zero_io hello world strerr =
     \<lparr>u_new = (\<lambda>f io fd w. s_on_new zero_io hello io fd w),
      u_parse = (\<lambda>f io buf w. if f = S_PARSE then s_on_parse io buf w else c_on_parse io buf w),
      u_dispatch = (\<lambda>f io hdr body w. if f = S_DISPATCH then s_on_dispatch world io w else c_on_dispatch io w),
      u_loop = (\<lambda>f io w. s_on_loop io w),
      u_delete = (\<lambda>f io err errstr w. if f = S_DELETE then s_on_delete io w else c_on_delete io w),
      u_strerr = strerr\<rparr>"

text \<open>The search of the loop around the test: any connection whose test is not over.\<close>

definition checkiftestrunning :: "echo iow \<Rightarrow> ptr \<Rightarrow> ptr \<Rightarrow> int" where
  "checkiftestrunning w key p =
     (case io_of w p of None \<Rightarrow> 0
      | Some x \<Rightarrow> if h_on_new (io_hdl x) = NULL \<and> (\<exists>c. ech_clients (ech w) p = Some c \<and> ec_test c \<noteq> 0) then 1 else 0)"

subsection \<open>What comes is answered once\<close>

text \<open>
  The bytes of a connection arrive in any pieces. \<open>echo_feed\<close> hands them to the connection one
  after the other, as the reader does.
\<close>

primrec echo_feed :: "echo io_cbs \<Rightarrow> nat \<Rightarrow> ptr \<Rightarrow> byte list list \<Rightarrow> echo iow \<Rightarrow> echo iow" where
  "echo_feed cbs fuel io [] w = w"
| "echo_feed cbs fuel io (b # bs) w = echo_feed cbs fuel io bs (snd (snd (hp_io_t_on_data cbs fuel io b w)))"

text \<open>A connection \<open>io\<close> of the program with handler \<open>h\<close>, state \<open>c\<close> and the bytes \<open>q\<close> still to send.\<close>

definition echo_at :: "hp_iohdl \<Rightarrow> ptr \<Rightarrow> ptr \<Rightarrow> echo_client \<Rightarrow> byte list \<Rightarrow> echo iow \<Rightarrow> bool" where
  "echo_at h world io c q w \<longleftrightarrow>
     (\<exists>x. io_of w io = Some x \<and> io_hdl x = h \<and> wr_ok (io_wr x) \<and> wr_below (ior_kio (snd w)) (io_wr x) \<and>
        wr_queue (mem (ior_kio (snd w))) (io_wr x) = q) \<and>
     ech_clients (ech w) io = Some c \<and> \<not> ech_failed (ech w) \<and> ior_fault (snd w) = None \<and>
     world \<noteq> NULL \<and> world + 5 \<le> brk (ior_kio (snd w)) \<and>
     iov_bytes (mem (ior_kio (snd w))) \<lparr>iov_base = world, iov_len = 5\<rparr> = ascii ''world''"

lemma on_ech_simps [simp]:
  "io_of (on_ech f w) io = io_of w io" "ior_kio (snd (on_ech f w)) = ior_kio (snd w)" "ech (on_ech f w) = f (ech w)"
  "ior_fault (snd (on_ech f w)) = ior_fault (snd w)" "fst (on_ech f w) = fst w"
  by (simp_all add: on_ech_def on_ior_def io_of_def ech_def)

lemma ech_put_simps [simp]:
  "io_of (ech_put io c w) p = io_of w p" "ior_kio (snd (ech_put io c w)) = ior_kio (snd w)"
  "ech (ech_put io c w) = (ech w)\<lparr>ech_clients := (ech_clients (ech w))(io \<mapsto> c)\<rparr>"
  "ior_fault (snd (ech_put io c w)) = ior_fault (snd w)"
  by (simp_all add: ech_put_def)

lemma ech_assert_True [simp]: "P \<Longrightarrow> ech_assert P w = w"
  by (simp add: ech_assert_def)

lemma echo_at_put: "echo_at h world io c q w \<Longrightarrow> echo_at h world io c' q (ech_put io c' w)"
  by (simp add: echo_at_def)

lemma starts_with_append: "starts_with s bs \<Longrightarrow> starts_with s (bs @ cs)"
proof -
  assume a: "starts_with s bs"
  then have "length (take (length s) bs) = length s" by (simp add: starts_with_def ascii_def)
  then have "length s \<le> length bs" by simp
  with a show ?thesis by (simp add: starts_with_def)
qed

lemma hp_io_write_frame:
  assumes "io_of w io = Some x"
  shows "\<exists>wr k. snd (hp_io_write io buf len f p w) = io_put io (x\<lparr>io_wr := wr\<rparr>) (io_kio_put (io_fd x) k w)"
  using assms by (auto simp: hp_io_write_def split: prod.split)

lemma ech_frame [simp]: "ech (io_put io x w) = ech w" "ech (io_kio_put fd k w) = ech w"
  by (simp_all add: ech_def)

lemma ech_say_world:
  assumes "echo_at h world io c q w"
  shows "\<exists>w'. ech_say io world NoFree w = (0, w') \<and> echo_at h world io c (q @ ascii ''world'') w' \<and> ech w' = ech w"
proof -
  from assms obtain x where x: "io_of w io = Some x" "io_hdl x = h" "wr_ok (io_wr x)" "wr_below (ior_kio (snd w)) (io_wr x)"
    "wr_queue (mem (ior_kio (snd w))) (io_wr x) = q" "world \<noteq> NULL" "world + 5 \<le> brk (ior_kio (snd w))"
    by (auto simp: echo_at_def)
  obtain x' w' where r: "hp_io_write io world 5 NoFree NULL w = (0, w')" "io_of w' io = Some x'" "wr_ok (io_wr x')"
    "wr_below (ior_kio (snd w')) (io_wr x')" "mem (ior_kio (snd w')) = mem (ior_kio (snd w))"
    "brk (ior_kio (snd w')) = brk (ior_kio (snd w))" "wr_queue (mem (ior_kio (snd w'))) (io_wr x') =
      q @ iov_bytes (mem (ior_kio (snd w))) \<lparr>iov_base = world, iov_len = 5\<rparr>"
    using hp_io_write_result [OF x(1,3,4,6,7), of NoFree] x(5) by auto
  obtain wr k where w': "w' = io_put io (x\<lparr>io_wr := wr\<rparr>) (io_kio_put (io_fd x) k w)"
    using hp_io_write_frame [OF x(1), of world 5 NoFree NULL] r(1) by auto
  have "io_hdl x' = h" "ech w' = ech w" "ior_fault (snd w') = ior_fault (snd w)" using r(2) x(2) w' by auto
  then show ?thesis using assms r by (simp add: ech_say_def echo_at_def)
qed

lemma on_data_step:
  assumes "io_of w io = Some x" and "h_on_parse (io_hdl x) \<noteq> NULL" and "buf \<noteq> []" and "0 < fuel"
    and "u_parse cbs (h_on_parse (io_hdl x)) io buf w = (n, [], hdr, body, w1)" and "0 \<le> n"
    and "io_of w1 io = Some x1" and "h_on_dispatch (io_hdl x1) \<noteq> NULL"
  shows "hp_io_t_on_data cbs fuel io buf w =
    (if n = 0 then (0, [], w1)
     else case u_dispatch cbs (h_on_dispatch (io_hdl x1)) io hdr body w1 of (rc, w2) \<Rightarrow> (rc, [], w2))"
proof -
  obtain m where "fuel = Suc m" using assms(4) by (cases fuel) auto
  then show ?thesis using assms by (simp add: hp_io_t_on_data_def)
qed

text \<open>One piece, on the server's side: what comes after \<open>hello\<close> is complete is dropped.\<close>

definition server_next :: "byte list \<Rightarrow> echo_client \<times> byte list \<Rightarrow> echo_client \<times> byte list" where
  "server_next b = (\<lambda>(c, q).
     if ec_test c \<noteq> 1 then (c, q)
     else let c = c\<lparr>ec_in := ec_in c @ b\<rparr>
          in if starts_with ''hello'' (ec_in c) then (c\<lparr>ec_test := 0\<rparr>, q @ ascii ''world'') else (c, q))"

lemma s_on_parse_step:
  assumes "ech_clients (ech w) io = Some c" and "ec_s c \<noteq> NULL" and "ec_test c \<in> {0, 1}"
  shows "s_on_parse io b w =
    (if ec_test c = 1
     then (if starts_with ''hello'' (ec_in c @ b) then 1 else 0, [], NULL, NULL, ech_put io (c\<lparr>ec_in := ec_in c @ b\<rparr>) w)
     else (0, [], NULL, NULL, w))"
  using assms by (auto simp: s_on_parse_def Let_def)

lemma echo_server_piece:
  assumes at: "echo_at (echo_hdl l) world io c q w" and "ec_s c \<noteq> NULL" and "ec_test c \<in> {0, 1}" and "b \<noteq> []" and "0 < fuel"
    and "server_next b (c, q) = (c', q')"
  shows "\<exists>w'. hp_io_t_on_data (echo_cbs z hello world strerr) fuel io b w = (0, [], w') \<and>
    echo_at (echo_hdl l) world io c' q' w' \<and> ech_shut (ech w') = ech_shut (ech w)"
proof -
  let ?cbs = "echo_cbs z hello world strerr"
  obtain x where x: "io_of w io = Some x" "io_hdl x = echo_hdl l" using at by (auto simp: echo_at_def)
  have c: "ech_clients (ech w) io = Some c" using at by (simp add: echo_at_def)
  let ?c = "c\<lparr>ec_in := ec_in c @ b\<rparr>"
  let ?w1 = "if ec_test c = 1 then ech_put io ?c w else w"
  let ?n = "if ec_test c = 1 \<and> starts_with ''hello'' (ec_in c @ b) then 1 else 0 :: int"
  have p: "u_parse ?cbs (h_on_parse (io_hdl x)) io b w = (?n, [], NULL, NULL, ?w1)"
    using s_on_parse_step [OF c assms(2,3)] x(2) by (simp add: echo_cbs_def echo_hdl_def)
  have step: "hp_io_t_on_data ?cbs fuel io b w =
    (if ?n = 0 then (0, [], ?w1) else case s_on_dispatch world io ?w1 of (rc, w2) \<Rightarrow> (rc, [], w2))"
  proof -
    have "h_on_parse (io_hdl x) \<noteq> NULL" "h_on_dispatch (io_hdl x) \<noteq> NULL" "0 \<le> ?n" "io_of ?w1 io = Some x"
      using x by (simp_all add: echo_hdl_def)
    from on_data_step [OF x(1) this(1) assms(4,5) p this(3,4,2)] x(2) show ?thesis
      by (simp only: echo_cbs_def echo_hdl_def io_cbs.simps hp_iohdl.simps simp_thms if_True refl)
  qed
  have at1: "echo_at (echo_hdl l) world io (if ec_test c = 1 then ?c else c) q ?w1" using at echo_at_put [OF at] by simp
  show ?thesis
  proof (cases "ec_test c = 1 \<and> starts_with ''hello'' (ec_in c @ b)")
    case False
    have "(c', q') = (if ec_test c = 1 then ?c else c, q)"
      using False assms(6) by (auto simp: server_next_def Let_def split: if_splits)
    then show ?thesis using step at1 False by (intro exI [of _ ?w1]) auto
  next
    case True
    obtain w2 where w2: "ech_say io world NoFree (ech_put io ?c w) = (0, w2)"
      "echo_at (echo_hdl l) world io ?c (q @ ascii ''world'') w2" "ech w2 = ech (ech_put io ?c w)"
      using ech_say_world [of "echo_hdl l" world io ?c q "ech_put io ?c w"] at1 True by auto
    have "s_on_dispatch world io (ech_put io ?c w) = (0, ech_put io (?c\<lparr>ec_test := 0\<rparr>) w2)"
      using True assms(2) w2(1) by (simp add: s_on_dispatch_def)
    then show ?thesis
      using True step echo_at_put [OF w2(2), of "?c\<lparr>ec_test := 0\<rparr>"] w2(3) assms(6)
      by (intro exI [of _ "ech_put io (?c\<lparr>ec_test := 0\<rparr>) w2"]) (auto simp: server_next_def)
  qed
qed

lemma server_next_keeps:
  "server_next b (c, q) = (c', q') \<Longrightarrow> ec_test c \<in> {0, 1} \<Longrightarrow> ec_test c' \<in> {0, 1} \<and> ec_s c' = ec_s c"
  by (auto simp: server_next_def Let_def split: if_splits)

lemma server_next_stop: "ec_test c = 0 \<Longrightarrow> fold server_next bs (c, q) = (c, q)"
  by (induction bs) (simp_all add: server_next_def)

lemma server_next_fold:
  assumes "ec_test c = 1" and "\<not> starts_with ''hello'' (ec_in c)"
  shows "if starts_with ''hello'' (ec_in c @ concat bs)
    then \<exists>inp. fold server_next bs (c, q) = (c\<lparr>ec_in := inp, ec_test := 0\<rparr>, q @ ascii ''world'')
    else fold server_next bs (c, q) = (c\<lparr>ec_in := ec_in c @ concat bs\<rparr>, q)"
  using assms
proof (induction bs arbitrary: c)
  case Nil
  then show ?case by simp
next
  case (Cons b bs)
  show ?case
  proof (cases "starts_with ''hello'' (ec_in c @ b)")
    case True
    then have "server_next b (c, q) = (c\<lparr>ec_in := ec_in c @ b, ec_test := 0\<rparr>, q @ ascii ''world'')"
      using Cons.prems by (simp add: server_next_def)
    then have "fold server_next (b # bs) (c, q) = (c\<lparr>ec_in := ec_in c @ b, ec_test := 0\<rparr>, q @ ascii ''world'')"
      by (simp add: server_next_stop)
    moreover have "starts_with ''hello'' (ec_in c @ concat (b # bs))"
      using starts_with_append [OF True, of "concat bs"] by simp
    ultimately show ?thesis by auto
  next
    case False
    then have "server_next b (c, q) = (c\<lparr>ec_in := ec_in c @ b\<rparr>, q)"
      using Cons.prems by (simp add: server_next_def)
    then show ?thesis using Cons.IH [of "c\<lparr>ec_in := ec_in c @ b\<rparr>"] Cons.prems(1) False by (simp split: if_split_asm)
  qed
qed

lemma echo_server_feed:
  assumes "echo_at (echo_hdl l) world io c q w" and "ec_s c \<noteq> NULL" and "ec_test c \<in> {0, 1}" and "[] \<notin> set bs" and "0 < fuel"
    and "fold server_next bs (c, q) = (c', q')"
  shows "echo_at (echo_hdl l) world io c' q' (echo_feed (echo_cbs z hello world strerr) fuel io bs w)"
  using assms
proof (induction bs arbitrary: c q w)
  case Nil
  then show ?case by simp
next
  case (Cons b bs)
  obtain d r where n: "server_next b (c, q) = (d, r)" by (cases "server_next b (c, q)") auto
  have "b \<noteq> []" using Cons.prems(4) by auto
  from echo_server_piece [OF Cons.prems(1,2,3) this Cons.prems(5) n, of z hello strerr] obtain w' where
    w': "hp_io_t_on_data (echo_cbs z hello world strerr) fuel io b w = (0, [], w')" "echo_at (echo_hdl l) world io d r w'"
    by auto
  show ?case
    using Cons.IH [OF w'(2)] Cons.prems server_next_keeps [OF n Cons.prems(3)] n w'(1) by simp
qed

text \<open>
  The server's side of the first test: however the bytes of the client are cut, the text \<open>world\<close> is queued once
  when they begin with \<open>hello\<close>, and never otherwise; no assertion fails and no freed memory is used.
\<close>

lemma echo_server_answers_once:
  assumes "echo_at (echo_hdl l) world io c q w" and "ec_s c \<noteq> NULL" and "ec_test c = 1" and "ec_in c = []"
    and "[] \<notin> set bs" and "0 < fuel"
  shows "\<exists>c'. echo_at (echo_hdl l) world io c' (q @ (if starts_with ''hello'' (concat bs) then ascii ''world'' else []))
      (echo_feed (echo_cbs z hello world strerr) fuel io bs w) \<and>
    (ec_test c' = 0 \<longleftrightarrow> starts_with ''hello'' (concat bs))"
proof -
  have n: "\<not> starts_with ''hello'' (ec_in c)" using assms(4) by (simp add: starts_with_def ascii_def)
  note feed = echo_server_feed [OF assms(1,2) _ assms(5,6)]
  show ?thesis
  proof (cases "starts_with ''hello'' (concat bs)")
    case True
    then obtain inp where "fold server_next bs (c, q) = (c\<lparr>ec_in := inp, ec_test := 0\<rparr>, q @ ascii ''world'')"
      using server_next_fold [OF assms(3) n, of bs q] assms(4) by auto
    from feed [OF _ this] True assms(3) show ?thesis by (intro exI [of _ "c\<lparr>ec_in := inp, ec_test := 0\<rparr>"]) simp
  next
    case False
    then have "fold server_next bs (c, q) = (c\<lparr>ec_in := concat bs\<rparr>, q)"
      using server_next_fold [OF assms(3) n, of bs q] assms(4) by simp
    from feed [OF _ this] False assms(3) show ?thesis by (intro exI [of _ "c\<lparr>ec_in := concat bs\<rparr>"]) simp
  qed
qed

text \<open>One piece, on the client's side: when \<open>world\<close> is complete the socket is shut down and reading stops.\<close>

lemma echo_client_done:
  assumes "io_of w io = Some x" and "io_hdl x = echo_hdlc" and "ech_clients (ech w) io = Some c"
    and "ec_s c = NULL" and "ec_test c = 1" and "b \<noteq> []" and "0 < fuel" and "starts_with ''world'' (ec_in c @ b)"
  shows "\<exists>w'. hp_io_t_on_data (echo_cbs z hello world strerr) fuel io b w = (-1, [], w') \<and>
    ech_shut (ech w') = ech_shut (ech w) @ [io_fd x] \<and>
    ech_clients (ech w') io = Some (c\<lparr>ec_in := ec_in c @ b, ec_test := 0\<rparr>)"
proof -
  let ?cbs = "echo_cbs z hello world strerr" and ?c = "c\<lparr>ec_in := ec_in c @ b\<rparr>"
  let ?w1 = "ech_put io ?c w"
  have p: "u_parse ?cbs (h_on_parse (io_hdl x)) io b w = (1, [], NULL, NULL, ?w1)"
    using assms by (simp add: echo_cbs_def echo_hdlc_def c_on_parse_def)
  have d: "u_dispatch ?cbs (h_on_dispatch (io_hdl x)) io NULL NULL ?w1 =
    (-1, ech_shutdown io (ech_put io (?c\<lparr>ec_test := 0\<rparr>) ?w1))"
    using assms by (simp add: echo_cbs_def echo_hdlc_def c_on_dispatch_def)
  have "h_on_parse (io_hdl x) \<noteq> NULL" "h_on_dispatch (io_hdl x) \<noteq> NULL" "(0 :: int) \<le> 1" "io_of ?w1 io = Some x"
    using assms(1,2) by (simp_all add: echo_hdlc_def)
  from on_data_step [OF assms(1) this(1) assms(6,7) p this(3,4,2)] d
  have "hp_io_t_on_data ?cbs fuel io b w = (-1, [], ech_shutdown io (ech_put io (?c\<lparr>ec_test := 0\<rparr>) ?w1))" by simp
  then show ?thesis using assms(1) by (simp add: ech_shutdown_def)
qed

text \<open>\<open>hp_io_t_on_error\<close> has closed the descriptor when it calls \<open>on_delete\<close>: the client closes it again.\<close>

lemma echo_client_closes_twice:
  assumes "ep_inv (fst w)" and "io_of w io = Some x" and "io_hdl x = echo_hdlc" and "ech_clients (ech w) io = Some c" and "ec_s c = NULL"
  shows "ior_closed (snd (hp_io_t_on_error (echo_cbs z hello world strerr) io err errstr w)) =
    ior_closed (snd w) @ [io_fd x, io_fd x]"
proof -
  let ?w = "io_release io x w"
  have "io_of ?w io \<noteq> None" "ior_user (snd ?w) = ior_user (snd w)" "ior_closed (snd ?w) = ior_closed (snd w) @ [io_fd x]"
    "io_fd (the (io_of ?w io)) = io_fd x"
    using epr.rm_inv [OF assms(1)] by (simp_all add: io_release_def Let_def on_ior_def)
  then show ?thesis
    using hp_io_t_on_error_eq [OF assms(2)] assms(3-5)
    by (auto simp: echo_cbs_def echo_hdlc_def c_on_delete_def ech_def on_ior_def)
qed

subsection \<open>Adding and removing connections\<close>

text \<open>
  As in \<open>Hp_Tests_Loop\<close>: the sockets are \<open>fs 0, fs 1, \<dots>\<close>; \<open>p i\<close> is the address of the \<open>i\<close>-th object of the array,
  which may hold anything at first. The kernel forgets a descriptor that is closed.
\<close>

definition io_close_fd :: "sock \<Rightarrow> 'u iow \<Rightarrow> 'u iow" where
  "io_close_fd fd w =
     ((fst w)\<lparr>kint := (kint (fst w))(fd := None)\<rparr>, (snd w)\<lparr>ior_closed := ior_closed (snd w) @ [fd]\<rparr>)"

definition io_set_fd :: "ptr \<Rightarrow> sock \<Rightarrow> 'u iow \<Rightarrow> 'u iow" where
  "io_set_fd io fd w = (case io_of w io of None \<Rightarrow> io_faulty F_freed w | Some x \<Rightarrow> io_put io (x\<lparr>io_fd := fd\<rparr>) w)"

definition io_add_step :: "(nat \<Rightarrow> sock) \<Rightarrow> (nat \<Rightarrow> ptr) \<Rightarrow> nat \<Rightarrow> 'u iow \<Rightarrow> bool \<times> 'u iow" where
  "io_add_step fs p i w =
     (let w = io_set_fd (p i) (fs i) w
      in case hp_io_add (p i) (fs i) echo_hdlc w of (rc, w) \<Rightarrow>
         case hp_io_add (p i) (fs i) (echo_hdl False) w of (rc', w) \<Rightarrow>
           (0 \<le> fs i \<and> rc = 0 \<and> rc' = 0 \<and> hp_io_size w = int i + 1, w))"

definition io_rm_step :: "(nat \<Rightarrow> ptr) \<Rightarrow> nat \<Rightarrow> 'u iow \<Rightarrow> bool \<times> 'u iow" where
  "io_rm_step p i w =
     (case io_of w (p i) of None \<Rightarrow> (False, io_faulty F_freed w)
      | Some x \<Rightarrow> case hp_io_rm (io_id x) (io_close_fd (io_fd x) w) of (rc, w) \<Rightarrow> (rc = 0, w))"

definition io_add_remove_test :: "sock \<Rightarrow> (nat \<Rightarrow> sock) \<Rightarrow> (nat \<Rightarrow> ptr) \<Rightarrow> nat \<Rightarrow> 'u iow \<Rightarrow> bool" where
  "io_add_remove_test epfd fs p n w =
     (case hp_io_init epfd (int n) 200 w of (rc0, w0) \<Rightarrow>
      case run_steps (io_add_step fs p) n w0 of (ok1, w1) \<Rightarrow>
      case hp_io_add (p n) (int n + 1) (echo_hdl False) w1 of (rc, w2) \<Rightarrow>
      case run_steps (io_rm_step p) n w2 of (ok2, w3) \<Rightarrow>
        rc0 = 0 \<and> hp_io_size w0 = 0 \<and> ok1 \<and> rc < 0 \<and> ok2 \<and> hp_io_size w3 = 0)"

lemma hp_epoll_rm_closed:
  assumes "ep_inv s" and "fd \<in> fst ` set (ep_entries s)"
    and s'_def: "s' = snd (hp_epoll_rm fd (s\<lparr>kint := (kint s)(fd := None)\<rparr>))"
  shows "fst (hp_epoll_rm fd (s\<lparr>kint := (kint s)(fd := None)\<rparr>)) = 0 \<and> ep_inv s' \<and>
    ep_capacity s' = ep_capacity s \<and> ep_entries s' = reg_del fd (ep_entries s)"
proof -
  obtain e where e: "epo s = Some e" "ep_wf e s" using assms(1) by (rule ep_invE)
  let ?t = "s\<lparr>kint := (kint s)(fd := None)\<rparr>"
  have "ep_index fd e s \<noteq> None" using assms(2) e by (simp add: ep_index_None_iff ep_entries_def image_image)
  then obtain i where i: "ep_index fd e s = Some i" by auto
  have le: "ev_len e \<le> length (ed e)" and inj: "inject s = []" using e(2) by (simp_all add: ep_wf_def)
  note ix = ep_index_SomeD [OF i le]
  have it: "ep_index fd e ?t = Some i" using i by (simp add: ep_index_def)
  have r: "hp_epoll_rm fd ?t = (0, s\<lparr>ep_errno := ENOENT, kint := (kint s)(ed_fd (ed_of s (ed e ! i)) := None),
      heap := (heap s)(ed e ! i := None), epo := Some (ep_rm_at i e)\<rparr>)"
    using it e(1) inj ix by (simp add: hp_epoll_rm_def epoll_ctl_def ctl_errno_def Let_def)
  have ents: "ep_entries s = map (ep_entry s) (ed_used e)" "ep_capacity s = max_ev_len e"
    using e(1) by (simp_all add: ep_entries_def ep_capacity_def)
  have "reg_del fd (ep_entries s) = del_at i (ep_entries s)"
    using ix e(2) ents le by (intro reg_del_at) (simp_all add: ep_wf_def comp_def)
  then show ?thesis
    using r ep_rm_state_wf [OF e(2) conjunct1 [OF ix] refl, of ENOENT] ents by (simp add: s'_def)
qed

text \<open>The objects of the array, of which the first \<open>i\<close> have their descriptor.\<close>

definition io_array :: "(nat \<Rightarrow> sock) \<Rightarrow> (nat \<Rightarrow> ptr) \<Rightarrow> nat \<Rightarrow> nat \<Rightarrow> 'u iow \<Rightarrow> bool" where
  "io_array fs p n i w \<longleftrightarrow> (\<forall>j \<le> n. io_of w (p j) \<noteq> None) \<and>
     (\<forall>j < i. io_fd (the (io_of w (p j))) = fs j \<and> io_id (the (io_of w (p j))) = fs j)"

definition good_array :: "(nat \<Rightarrow> sock) \<Rightarrow> (nat \<Rightarrow> ptr) \<Rightarrow> nat \<Rightarrow> bool" where
  "good_array fs p n \<longleftrightarrow> inj_on fs {0..<n} \<and> (\<forall>i < n. 0 \<le> fs i) \<and> inj_on p {0..n} \<and> (\<forall>i \<le> n. p i \<noteq> NULL)"

lemma io_of_fst [simp]: "io_of (e, snd w) io = io_of w io"
  by (simp add: io_of_def)

lemma hp_io_add_at:
  assumes "epo (fst w) \<noteq> None" and "io \<noteq> NULL" and "h_on_new h \<noteq> NULL \<or> h_on_parse h \<noteq> NULL"
    and "0 \<le> fd" and "io_of w io \<noteq> None"
  shows "\<exists>y. fst (hp_io_add io fd h w) = fst (ep_add fd (io_interest h io) (fst w)) \<and>
    fst (snd (hp_io_add io fd h w)) = snd (ep_add fd (io_interest h io) (fst w)) \<and>
    (\<forall>q. io_of (snd (hp_io_add io fd h w)) q = (if q = io then Some y else io_of w q)) \<and> io_fd y = fd \<and> io_id y = fd"
proof -
  from assms(5) obtain x where "io_of w io = Some x" by auto
  from hp_io_add_epoll [OF assms(1-4) this] show ?thesis by auto
qed

lemma io_array_add:
  assumes "io_array fs p n i w" and "inj_on p {0..n}" and "i \<le> n"
    and "\<forall>q. io_of w' q = (if q = p i then Some y else io_of w q)" and "io_fd y = fs i" and "io_id y = fs i"
  shows "io_array fs p n (Suc i) w'"
proof -
  have "p j \<noteq> p i" if "j < i" for j using inj_onD [OF assms(2), of j i] assms(3) that by auto
  then show ?thesis using assms by (auto simp: io_array_def less_Suc_eq)
qed

lemma io_array_put:
  assumes "io_array fs p n i w" and "inj_on p {0..n}" and "i \<le> n"
    and "\<forall>q. q \<noteq> p i \<longrightarrow> io_of w' q = io_of w q" and "io_of w' (p i) \<noteq> None"
  shows "io_array fs p n i w'"
  unfolding io_array_def
proof (intro conjI allI impI)
  fix j assume "j \<le> n"
  with assms(1,4,5) show "io_of w' (p j) \<noteq> None" by (cases "p j = p i") (auto simp: io_array_def)
next
  fix j assume j: "j < i"
  then have "p j \<noteq> p i" using inj_onD [OF assms(2), of j i] assms(3) by auto
  with assms(1,4) j show "io_fd (the (io_of w' (p j))) = fs j" "io_id (the (io_of w' (p j))) = fs j"
    by (auto simp: io_array_def)
qed

lemma io_set_fd_frame:
  assumes "io_of w io \<noteq> None"
  shows "fst (io_set_fd io fd w) = fst w \<and> (\<forall>q. q \<noteq> io \<longrightarrow> io_of (io_set_fd io fd w) q = io_of w q) \<and>
    io_of (io_set_fd io fd w) io \<noteq> None"
  using assms by (auto simp: io_set_fd_def)

lemma hp_io_size_filled: "ep_filled fs d c i n (fst w) \<Longrightarrow> hp_io_size w = int (n - i)"
proof -
  assume f: "ep_filled fs d c i n (fst w)"
  then have "epo (fst w) \<noteq> None" by (auto simp: filled_def elim: ep_invE)
  then show ?thesis using ep_filled_size [OF f] by (auto simp: hp_io_size_def split: option.split)
qed

text \<open>The table and the array, after the first \<open>i\<close> additions.\<close>

definition io_filled :: "(nat \<Rightarrow> sock) \<Rightarrow> (nat \<Rightarrow> ptr) \<Rightarrow> nat \<Rightarrow> nat \<Rightarrow> 'u iow \<Rightarrow> bool" where
  "io_filled fs p n i w \<longleftrightarrow>
     ep_filled fs (\<lambda>j. io_interest (echo_hdl False) (p j)) n 0 i (fst w) \<and> io_array fs p n i w"

lemma filled_epo: "ep_filled fs d c i n s \<Longrightarrow> epo s \<noteq> None"
  by (auto simp: filled_def elim: ep_invE)

lemma echo_hdl_simps [simp]: "h_on_new (echo_hdl l) = S_NEW" "h_on_parse echo_hdlc = C_PARSE"
  by (simp_all add: echo_hdl_def echo_hdlc_def)

lemma io_filled_add_twice:
  assumes f: "io_filled fs p n i w" and "i < n" and g: "good_array fs p n"
    and w1: "hp_io_add (p i) (fs i) echo_hdlc w = (rc, w1)" and w2: "hp_io_add (p i) (fs i) (echo_hdl False) w1 = (rc', w2)"
  shows "rc = 0 \<and> rc' = 0 \<and> io_filled fs p n (Suc i) w2"
proof -
  let ?d = "\<lambda>j. io_interest (echo_hdl False) (p j)"
  have ep: "ep_filled fs ?d n 0 i (fst w)" and ar: "io_array fs p n i w" using f by (simp_all add: io_filled_def)
  have inj: "inj_on fs {0..i}" "inj_on p {0..n}" and nn: "p i \<noteq> NULL" "0 \<le> fs i"
    using g assms(2) by (auto simp: good_array_def intro: inj_on_subset)
  have o: "io_of w (p i) \<noteq> None" using ar assms(2) by (simp add: io_array_def)
  obtain y where y: "rc = fst (ep_add (fs i) (io_interest echo_hdlc (p i)) (fst w))"
    "fst w1 = snd (ep_add (fs i) (io_interest echo_hdlc (p i)) (fst w))"
    "\<forall>q. io_of w1 q = (if q = p i then Some y else io_of w q)"
    using hp_io_add_at [OF filled_epo [OF ep] nn(1) _ nn(2) o, of echo_hdlc] w1 by auto
  note twice = epr.filled_add_twice [OF ep assms(2) inj(1) nn(2) y(2)]
  have "epo (fst w1) \<noteq> None"
    using twice y(2) ep epr.add_inv [of "fst w" "fs i" "io_interest echo_hdlc (p i)"] nn(2)
    by (auto simp: filled_def elim: ep_invE)
  from hp_io_add_at [OF this nn(1) _ nn(2), of "echo_hdl False"] y(3) w2 obtain z where
    z: "rc' = fst (ep_add (fs i) (?d i) (fst w1))" "fst w2 = snd (ep_add (fs i) (?d i) (fst w1))"
    "\<forall>q. io_of w2 q = (if q = p i then Some z else io_of w1 q)" "io_fd z = fs i" "io_id z = fs i"
    by auto
  have "\<forall>q. io_of w2 q = (if q = p i then Some z else io_of w q)" using z(3) y(3) by auto
  from io_array_add [OF ar inj(2) _ this z(4,5)] assms(2) have "io_array fs p n (Suc i) w2" by simp
  then show ?thesis using twice y(1) z(1,2) by (simp add: io_filled_def)
qed

lemma io_filled_set_fd:
  assumes "io_filled fs p n i w" and "i < n" and "good_array fs p n"
  shows "io_filled fs p n i (io_set_fd (p i) fd w)"
proof -
  have ar: "io_array fs p n i w" and inj: "inj_on p {0..n}" using assms by (simp_all add: io_filled_def good_array_def)
  have "io_of w (p i) \<noteq> None" using ar assms(2) by (simp add: io_array_def)
  note s = io_set_fd_frame [OF this, of fd]
  have "i \<le> n" using assms(2) by simp
  from io_array_put [OF ar inj this, of "io_set_fd (p i) fd w"] s show ?thesis using assms(1) by (simp add: io_filled_def)
qed

lemma hp_io_init_filled:
  assumes "ep_fresh (fst w)" and "epfd \<noteq> -1" and "0 < n" and "\<forall>j \<le> n. io_of w (p j) \<noteq> None"
    and "hp_io_init epfd (int n) 200 w = (rc, w')"
  shows "rc = 0 \<and> hp_io_size w' = 0 \<and> io_filled fs p n 0 w'"
proof -
  have e: "epo (fst w) \<noteq> None" using assms(1) by (simp add: ep_fresh_def)
  have w': "w' = (snd (hp_epoll_init epfd (int n) 200 0 0 (fst w)), snd w)" "rc = fst (hp_epoll_init epfd (int n) 200 0 0 (fst w))"
    using assms(5) e by (auto simp: hp_io_init_def split: prod.splits)
  have f: "ep_filled fs d n 0 0 (fst w')" for d :: "nat \<Rightarrow> ep_desc"
    using hp_epoll_init_filled [OF assms(1-3)] w'(1) by simp
  then have "hp_io_size w' = 0" using hp_io_size_filled [of fs "\<lambda>_. undefined" n 0 0 w'] by simp
  moreover have "rc = 0" using w'(2) e assms(2) by (auto simp: hp_epoll_init_def Let_def)
  ultimately show ?thesis using f assms(4) w'(1) by (simp add: io_filled_def io_array_def)
qed

lemma io_filled_full:
  assumes f: "io_filled fs p n n w" and g: "good_array fs p n" and "0 \<le> fd" and "fd \<notin> fs ` {0..<n}"
    and "hp_io_add (p n) fd (echo_hdl False) w = (rc, w')"
  shows "rc < 0 \<and> io_filled fs p n n w'"
proof -
  let ?d = "\<lambda>j. io_interest (echo_hdl False) (p j)"
  have ep: "ep_filled fs ?d n 0 n (fst w)" and ar: "io_array fs p n n w" using f by (simp_all add: io_filled_def)
  have nn: "p n \<noteq> NULL" "inj_on p {0..n}" using g by (simp_all add: good_array_def)
  have o: "io_of w (p n) \<noteq> None" using ar by (simp add: io_array_def)
  obtain y where y: "rc = fst (ep_add fd (?d n) (fst w))" "fst w' = snd (ep_add fd (?d n) (fst w))"
    "\<forall>q. io_of w' q = (if q = p n then Some y else io_of w q)"
    using hp_io_add_at [OF filled_epo [OF ep] nn(1) _ assms(3) o, of "echo_hdl False"] assms(5) by auto
  have "io_array fs p n n w'" using io_array_put [OF ar nn(2) order_refl, of w'] y(3) by simp
  then show ?thesis using epr.filled_full [OF ep assms(3,4)] y(1,2) by (simp add: io_filled_def)
qed

text \<open>Removing in the order of the array, every descriptor closed before.\<close>

lemma io_rm_steps:
  assumes f: "io_filled fs p n n w" and g: "good_array fs p n"
  shows "fst (run_steps (io_rm_step p) n w) \<and> hp_io_size (snd (run_steps (io_rm_step p) n w)) = 0"
proof -
  let ?d = "\<lambda>j. io_interest (echo_hdl False) (p j)"
  let ?I = "\<lambda>i w. ep_filled fs ?d n i n (fst w) \<and> io_array fs p n n w"
  have inj: "inj_on fs {0..<n}" using g by (simp add: good_array_def)
  have "fst (run_steps (io_rm_step p) n w) \<and> ?I n (snd (run_steps (io_rm_step p) n w))"
  proof (rule run_steps_inv [where I = ?I])
    show "?I 0 w" using f by (simp add: io_filled_def)
  next
    fix i and w :: "'a iow" assume i: "i < n" and I: "?I i w"
    then have "io_of w (p i) \<noteq> None" by (simp add: io_array_def)
    then obtain x where x: "io_of w (p i) = Some x" by auto
    then have xi: "io_fd x = fs i" "io_id x = fs i" using i I by (auto simp: io_array_def)
    have s: "ep_inv (fst w)" "ep_capacity (fst w) = n" "ep_entries (fst w) = table fs ?d i n"
      using I by (simp_all add: filled_def)
    have "fs i \<in> fst ` set (ep_entries (fst w))" unfolding s(3) table_simps using i by auto
    note rm = hp_epoll_rm_closed [OF s(1) this refl]
    have "fs i \<notin> fs ` {Suc i..<n}" using inj by (rule inj_notin) (use i in auto)
    then have "reg_del (fs i) (table fs ?d i n) = table fs ?d (Suc i) n" using i by (simp add: table_Cons reg_del_head)
    then have r: "io_rm_step p i w = (True, snd (hp_epoll_rm (fs i) ((fst w)\<lparr>kint := (kint (fst w))(fs i := None)\<rparr>)),
        (snd w)\<lparr>ior_closed := ior_closed (snd w) @ [fs i]\<rparr>)" and
      e: "ep_filled fs ?d n (Suc i) n (snd (hp_epoll_rm (fs i) ((fst w)\<lparr>kint := (kint (fst w))(fs i := None)\<rparr>)))"
      using rm x xi s by (simp_all add: io_rm_step_def hp_io_rm_def io_close_fd_def filled_def case_prod_unfold)
    have "io_array fs p n n (snd (io_rm_step p i w))" using I r by (simp add: io_array_def io_of_def)
    then show "fst (io_rm_step p i w) \<and> ?I (Suc i) (snd (io_rm_step p i w))" using r e by simp
  qed
  then have I: "fst (run_steps (io_rm_step p) n w)" "ep_filled fs ?d n n n (fst (snd (run_steps (io_rm_step p) n w)))" by auto
  then show ?thesis using hp_io_size_filled [OF I(2)] by simp
qed

text \<open>
  The test passes for every size, unless one of its sockets has the number that the last addition, which is to
  fail because the table is full, makes up: it would replace that socket's entry.
\<close>

lemma io_add_remove_test_passes:
  assumes "ep_fresh (fst w)" and "epfd \<noteq> -1" and "0 < n" and "good_array fs p n" and "\<forall>j \<le> n. io_of w (p j) \<noteq> None"
    and "int n + 1 \<notin> fs ` {0..<n}"
  shows "io_add_remove_test epfd fs p n w"
proof -
  obtain rc0 w0 where w0: "hp_io_init epfd (int n) 200 w = (rc0, w0)" by (metis prod.collapse)
  note i0 = hp_io_init_filled [OF assms(1-3,5) w0, of fs]
  obtain ok1 w1 where w1: "run_steps (io_add_step fs p) n w0 = (ok1, w1)" by (metis prod.collapse)
  have "fst (run_steps (io_add_step fs p) n w0) \<and> io_filled fs p n n (snd (run_steps (io_add_step fs p) n w0))"
  proof (rule run_steps_inv [where I = "io_filled fs p n"])
    fix i and w :: "'a iow" assume i: "i < n" and f: "io_filled fs p n i w"
    define w1 where "w1 = io_set_fd (p i) (fs i) w"
    obtain rc w2 where w2: "hp_io_add (p i) (fs i) echo_hdlc w1 = (rc, w2)" by (metis prod.collapse)
    obtain rc' w3 where w3: "hp_io_add (p i) (fs i) (echo_hdl False) w2 = (rc', w3)" by (metis prod.collapse)
    have "io_filled fs p n i w1" unfolding w1_def by (rule io_filled_set_fd [OF f i assms(4)])
    from io_filled_add_twice [OF this i assms(4) w2 w3] have r: "rc = 0" "rc' = 0" "io_filled fs p n (Suc i) w3" by auto
    have "hp_io_size w3 = int i + 1" using hp_io_size_filled [of fs "\<lambda>j. io_interest (echo_hdl False) (p j)" n 0 "Suc i" w3] r(3)
      by (simp add: io_filled_def)
    then show "fst (io_add_step fs p i w) \<and> io_filled fs p n (Suc i) (snd (io_add_step fs p i w))"
      using w2 w3 r i assms(4) by (simp add: io_add_step_def good_array_def flip: w1_def)
  qed (use i0 in simp)
  then have f1: "ok1" "io_filled fs p n n w1" using w1 by auto
  obtain rc w2 where w2: "hp_io_add (p n) (int n + 1) (echo_hdl False) w1 = (rc, w2)" by (metis prod.collapse)
  from io_filled_full [OF f1(2) assms(4) _ assms(6) w2] have f2: "rc < 0" "io_filled fs p n n w2" by auto
  show ?thesis using i0 w0 w1 w2 f1 f2 io_rm_steps [OF f2(2) assms(4)] by (simp add: io_add_remove_test_def case_prod_unfold)
qed

subsection \<open>Searching for connections\<close>

text \<open>The key points at a descriptor, whose value is \<open>v\<close>; the comparison reads the descriptor of the object.\<close>

definition io_search_cmp :: "sock \<Rightarrow> 'u iow \<Rightarrow> ptr \<Rightarrow> ptr \<Rightarrow> int" where
  "io_search_cmp v w key io = (if io_fd (the (io_of w io)) = v then 1 else 0)"

definition io_found :: "ptr \<Rightarrow> sock \<Rightarrow> 'u iow \<Rightarrow> bool" where
  "io_found key v w \<longleftrightarrow> hp_io_find key (Some (io_search_cmp v w)) w \<noteq> NULL"

definition io_search_step :: "(nat \<Rightarrow> sock) \<Rightarrow> (nat \<Rightarrow> ptr) \<Rightarrow> nat \<Rightarrow> 'u iow \<Rightarrow> bool \<times> 'u iow" where
  "io_search_step fs p i w =
     (let w0 = io_set_fd (p i) (fs i) w
      in case hp_io_add (p i) (fs i) echo_hdlc w0 of (rc1, w1) \<Rightarrow>
         case hp_io_add (p i) (fs i) (echo_hdl False) w1 of (rc2, w2) \<Rightarrow>
         case hp_io_rm (io_id (the (io_of w2 (p i)))) w2 of (rc3, w3) \<Rightarrow>
         case hp_io_add (p i) (fs i) (echo_hdl False) w3 of (rc4, w4) \<Rightarrow>
           (0 \<le> fs i \<and> \<not> io_found (p i) (fs i) w0 \<and> rc1 = 0 \<and> io_found (p i) (fs i) w1 \<and> rc2 = 0 \<and>
            hp_io_size w2 = int i + 1 \<and> rc3 = 0 \<and> \<not> io_found (p i) (fs i) w3 \<and> rc4 = 0, w4))"

definition io_rm_only_step :: "(nat \<Rightarrow> ptr) \<Rightarrow> nat \<Rightarrow> 'u iow \<Rightarrow> bool \<times> 'u iow" where
  "io_rm_only_step p i w =
     (case io_of w (p i) of None \<Rightarrow> (False, io_faulty F_freed w)
      | Some x \<Rightarrow> case hp_io_rm (io_id x) w of (rc, w) \<Rightarrow> (rc = 0, io_close_fd (io_fd x) w))"

text \<open>\<open>confd\<close> is the last socket, \<open>code\<close> what is stored at the address of the comparison itself.\<close>

definition io_search_test :: "sock \<Rightarrow> (nat \<Rightarrow> sock) \<Rightarrow> (nat \<Rightarrow> ptr) \<Rightarrow> sock \<Rightarrow> ptr \<times> int \<Rightarrow> nat \<Rightarrow> 'u iow \<Rightarrow> bool" where
  "io_search_test epfd fs p confd code n w =
     (case hp_io_init epfd (int n) 200 w of (rc0, w0) \<Rightarrow>
      case run_steps (io_search_step fs p) n w0 of (ok1, w1) \<Rightarrow>
      case hp_io_add (p n) confd (echo_hdl False) w1 of (rc, w2) \<Rightarrow>
      let w3 = io_close_fd confd w2
      in case run_steps (io_rm_only_step p) n w3 of (ok2, w4) \<Rightarrow>
        rc0 = 0 \<and> hp_io_size w0 = 0 \<and> ok1 \<and> 0 \<le> confd \<and> rc < 0 \<and>
        io_found (p 0) (fs 0) w3 \<and> io_found (p (n div 2)) (fs (n div 2)) w3 \<and> io_found (p (n - 1)) (fs (n - 1)) w3 \<and>
        \<not> io_found (fst code) (snd code) w3 \<and> ok2 \<and> hp_io_size w4 = 0)"

lemma io_found_search: "io_found key v w = (ep_search (\<lambda>io. io_fd (the (io_of w io)) = v) (fst w) \<noteq> NULL)"
proof -
  have "ep_do_find h (key, Some (io_search_cmp v w)) =
    ep_do_find h (0, Some (\<lambda>k io. if io_fd (the (io_of w io)) = v then 1 else 0))" for h
    by (rule ext) (simp add: ep_do_find_def io_search_cmp_def Let_def)
  then show ?thesis
    by (simp add: io_found_def hp_io_find_def ep_search_def hp_epoll_find_def hp_lfind_def split: option.splits)
qed

lemma io_found_filled:
  assumes "ep_filled fs d c 0 i (fst w)" and "\<And>j. j < i \<Longrightarrow> ep_argument (d j) = p j"
    and "\<And>j. j < i \<Longrightarrow> p j \<noteq> NULL \<and> io_fd (the (io_of w (p j))) = fs j"
  shows "io_found key v w \<longleftrightarrow> v \<in> fs ` {0..<i}"
proof -
  have "io_found key v w \<longleftrightarrow> (\<exists>j < i. io_fd (the (io_of w (ep_argument (d j)))) = v)"
    unfolding io_found_search using epr.filled_search [OF assms(1)] assms(2,3) by simp
  also have "\<dots> \<longleftrightarrow> v \<in> fs ` {0..<i}" using assms(2,3) by (force simp: image_iff)
  finally show ?thesis .
qed

lemma io_interest_arg [simp]: "ep_argument (io_interest h io) = io"
  by (simp add: io_interest_def ep_argument_def)

lemma io_filled_found:
  assumes "io_filled fs p n i w" and "good_array fs p n" and "i \<le> n"
  shows "io_found key v w \<longleftrightarrow> v \<in> fs ` {0..<i}"
  by (rule io_found_filled [where p = p])
    (use assms in \<open>auto simp: io_filled_def io_array_def good_array_def\<close>)

lemma io_filled_rm_last:
  assumes f: "io_filled fs p n (Suc i) w" and g: "good_array fs p n" and "i < n"
    and "hp_io_rm (io_id (the (io_of w (p i)))) w = (rc, w')"
  shows "rc = 0 \<and> io_filled fs p n i w'"
proof -
  let ?d = "\<lambda>j. io_interest (echo_hdl False) (p j)"
  have ep: "ep_filled fs ?d n 0 (Suc i) (fst w)" and ar: "io_array fs p n (Suc i) w" using f by (simp_all add: io_filled_def)
  have id: "io_id (the (io_of w (p i))) = fs i" using ar by (simp add: io_array_def)
  have inj: "inj_on fs {0..i}" using g assms(3) by (auto simp: good_array_def intro: inj_on_subset)
  have w': "rc = fst (hp_epoll_rm (fs i) (fst w))" "w' = (snd (hp_epoll_rm (fs i) (fst w)), snd w)"
    using assms(4) id by (auto simp: hp_io_rm_def split: prod.splits)
  have "io_array fs p n i w'" using ar w'(2) by (simp add: io_array_def)
  then show ?thesis using epr.filled_rm_last [OF ep inj] w' by (simp add: io_filled_def)
qed

lemma io_filled_add_once:
  assumes f: "io_filled fs p n i w" and "i < n" and g: "good_array fs p n"
    and w': "hp_io_add (p i) (fs i) h w = (rc, w')" and "h_on_new h \<noteq> NULL \<or> h_on_parse h \<noteq> NULL"
  shows "rc = 0 \<and> ep_filled fs ((\<lambda>j. io_interest (echo_hdl False) (p j))(i := io_interest h (p i))) n 0 (Suc i) (fst w') \<and>
    io_array fs p n (Suc i) w'"
proof -
  let ?d = "(\<lambda>j. io_interest (echo_hdl False) (p j))(i := io_interest h (p i))"
  have ar: "io_array fs p n i w" using f by (simp add: io_filled_def)
  have "table fs ?d 0 i = table fs (\<lambda>j. io_interest (echo_hdl False) (p j)) 0 i" by (simp add: table_def)
  then have ep: "ep_filled fs ?d n 0 i (fst w)" using f by (simp add: io_filled_def filled_def)
  have inj: "inj_on fs {0..i}" "inj_on p {0..n}" and nn: "p i \<noteq> NULL" "0 \<le> fs i"
    using g assms(2) by (auto simp: good_array_def intro: inj_on_subset)
  have o: "io_of w (p i) \<noteq> None" using ar assms(2) by (simp add: io_array_def)
  obtain y where y: "rc = fst (ep_add (fs i) (io_interest h (p i)) (fst w))"
    "fst w' = snd (ep_add (fs i) (io_interest h (p i)) (fst w))"
    "\<forall>q. io_of w' q = (if q = p i then Some y else io_of w q)" "io_fd y = fs i" "io_id y = fs i"
    using hp_io_add_at [OF filled_epo [OF ep] nn(1) assms(5) nn(2) o] w' by auto
  have "io_array fs p n (Suc i) w'" using io_array_add [OF ar inj(2) _ y(3-5)] assms(2) by simp
  then show ?thesis using epr.filled_add [OF ep assms(2) inj(1) nn(2)] y(1,2) by simp
qed

lemma io_search_step_passes:
  assumes i: "i < n" and f: "io_filled fs p n i w" and g: "good_array fs p n"
  shows "fst (io_search_step fs p i w) \<and> io_filled fs p n (Suc i) (snd (io_search_step fs p i w))"
proof -
  define w0 where "w0 = io_set_fd (p i) (fs i) w"
  have f0: "io_filled fs p n i w0" unfolding w0_def by (rule io_filled_set_fd [OF f i g])
  obtain rc1 w1 where w1: "hp_io_add (p i) (fs i) echo_hdlc w0 = (rc1, w1)" by (metis prod.collapse)
  obtain rc2 w2 where w2: "hp_io_add (p i) (fs i) (echo_hdl False) w1 = (rc2, w2)" by (metis prod.collapse)
  obtain rc3 w3 where w3: "hp_io_rm (io_id (the (io_of w2 (p i)))) w2 = (rc3, w3)" by (metis prod.collapse)
  obtain rc4 w4 where w4: "hp_io_add (p i) (fs i) (echo_hdl False) w3 = (rc4, w4)" by (metis prod.collapse)
  have "inj_on fs {0..<n}" and nneg: "0 \<le> fs i" using g i by (simp_all add: good_array_def)
  then have nin: "fs i \<notin> fs ` {0..<i}" by (elim inj_notin) (use i in auto)
  have a1: "rc1 = 0" "ep_filled fs ((\<lambda>j. io_interest (echo_hdl False) (p j))(i := io_interest echo_hdlc (p i))) n 0 (Suc i) (fst w1)"
    "io_array fs p n (Suc i) w1"
    using io_filled_add_once [OF f0 i g w1] by auto
  have "io_found (p i) (fs i) w1"
    using io_found_filled [OF a1(2), of p "p i" "fs i"] a1(3) g i by (auto simp: io_array_def good_array_def)
  moreover have a2: "rc2 = 0" "io_filled fs p n (Suc i) w2" using io_filled_add_twice [OF f0 i g w1 w2] by auto
  moreover have "hp_io_size w2 = int i + 1"
    using hp_io_size_filled [of fs "\<lambda>j. io_interest (echo_hdl False) (p j)" n 0 "Suc i" w2] a2(2) by (simp add: io_filled_def)
  moreover have a3: "rc3 = 0" "io_filled fs p n i w3" using io_filled_rm_last [OF a2(2) g i w3] by auto
  moreover have a4: "rc4 = 0" "io_filled fs p n (Suc i) w4"
    using io_filled_add_once [OF a3(2) i g w4] by (simp_all add: io_filled_def fun_upd_idem)
  moreover have "\<not> io_found (p i) (fs i) w0" "\<not> io_found (p i) (fs i) w3"
    using io_filled_found [OF f0 g] io_filled_found [OF a3(2) g] nin i by simp_all
  ultimately show ?thesis
    using w1 w2 w3 w4 a1(1) nneg by (simp add: io_search_step_def flip: w0_def)
qed

text \<open>The sockets of the table are closed after they left it, so the kernel has forgotten them already.\<close>

lemma io_close_fd_ep:
  assumes "ep_inv (fst w)" and "fd \<notin> fst ` set (ep_entries (fst w))"
  shows "fst (io_close_fd fd w) = fst w"
proof -
  obtain e where e: "epo (fst w) = Some e" "ep_wf e (fst w)" using assms(1) by (rule ep_invE)
  then have "kint (fst w) fd = None" using assms(2) by (auto simp: ep_wf_def fds_ep_entries)
  then show ?thesis by (simp add: io_close_fd_def fun_upd_idem)
qed

lemma io_rm_only_steps:
  assumes f: "io_filled fs p n n w" and g: "good_array fs p n"
  shows "fst (run_steps (io_rm_only_step p) n w) \<and> hp_io_size (snd (run_steps (io_rm_only_step p) n w)) = 0"
proof -
  let ?d = "\<lambda>j. io_interest (echo_hdl False) (p j)"
  let ?I = "\<lambda>i w. ep_filled fs ?d n i n (fst w) \<and> io_array fs p n n w"
  have inj: "inj_on fs {0..<n}" using g by (simp add: good_array_def)
  have "fst (run_steps (io_rm_only_step p) n w) \<and> ?I n (snd (run_steps (io_rm_only_step p) n w))"
  proof (rule run_steps_inv [where I = ?I])
    show "?I 0 w" using f by (simp add: io_filled_def)
  next
    fix i and w :: "'a iow" assume i: "i < n" and I: "?I i w"
    then have "io_of w (p i) \<noteq> None" by (simp add: io_array_def)
    then obtain x where x: "io_of w (p i) = Some x" by auto
    then have xi: "io_fd x = fs i" "io_id x = fs i" using i I by (auto simp: io_array_def)
    define w' where "w' = (snd (hp_epoll_rm (fs i) (fst w)), snd w)"
    have r: "fst (hp_epoll_rm (fs i) (fst w)) = 0" "ep_filled fs ?d n (Suc i) n (fst w')"
      using epr.filled_rm [of fs ?d n i n "fst w"] I i inj by (auto simp: w'_def)
    have "fs i \<notin> fs ` {Suc i..<n}" using inj by (rule inj_notin) (use i in auto)
    then have "fs i \<notin> fst ` set (ep_entries (fst w'))" using r(2) by (simp add: filled_def)
    then have c: "fst (io_close_fd (fs i) w') = fst w'" using r(2) by (intro io_close_fd_ep) (simp_all add: filled_def)
    have s: "io_rm_only_step p i w = (True, io_close_fd (fs i) w')"
      using x xi r(1) by (simp add: io_rm_only_step_def hp_io_rm_def w'_def case_prod_unfold)
    have "io_array fs p n n (io_close_fd (fs i) w')" using I by (simp add: io_array_def io_close_fd_def io_of_def w'_def)
    then show "fst (io_rm_only_step p i w) \<and> ?I (Suc i) (snd (io_rm_only_step p i w))" using s c r(2) by simp
  qed
  then have I: "fst (run_steps (io_rm_only_step p) n w)" "ep_filled fs ?d n n n (fst (snd (run_steps (io_rm_only_step p) n w)))" by auto
  then show ?thesis using hp_io_size_filled [OF I(2)] by simp
qed

lemma io_search_test_passes:
  assumes "ep_fresh (fst w)" and "epfd \<noteq> -1" and "0 < n" and g: "good_array fs p n" and "\<forall>j \<le> n. io_of w (p j) \<noteq> None"
    and c: "0 \<le> confd" "confd \<notin> fs ` {0..<n}" and "snd code \<notin> fs ` {0..<n}"
  shows "io_search_test epfd fs p confd code n w"
proof -
  obtain rc0 w0 where w0: "hp_io_init epfd (int n) 200 w = (rc0, w0)" by (metis prod.collapse)
  note i0 = hp_io_init_filled [OF assms(1-3,5) w0, of fs]
  obtain ok1 w1 where w1: "run_steps (io_search_step fs p) n w0 = (ok1, w1)" by (metis prod.collapse)
  have "fst (run_steps (io_search_step fs p) n w0) \<and> io_filled fs p n n (snd (run_steps (io_search_step fs p) n w0))"
    by (rule run_steps_inv [where I = "io_filled fs p n"]) (use i0 io_search_step_passes [OF _ _ g] in auto)
  then have f1: "ok1" "io_filled fs p n n w1" using w1 by auto
  obtain rc w2 where w2: "hp_io_add (p n) confd (echo_hdl False) w1 = (rc, w2)" by (metis prod.collapse)
  from io_filled_full [OF f1(2) g c w2] have f2: "rc < 0" "io_filled fs p n n w2" by auto
  let ?w3 = "io_close_fd confd w2"
  have "fst ?w3 = fst w2" using f2(2) c(2) by (intro io_close_fd_ep) (simp_all add: io_filled_def filled_def)
  then have f3: "io_filled fs p n n ?w3" using f2(2) by (simp add: io_filled_def io_array_def io_close_fd_def io_of_def)
  have "io_found key v ?w3 \<longleftrightarrow> v \<in> fs ` {0..<n}" for key v by (rule io_filled_found [OF f3 g order_refl])
  then show ?thesis
    using i0 w0 w1 w2 f1(1) f2(1) c(1) assms(3,8) io_rm_only_steps [OF f3 g]
    by (simp add: io_search_test_def case_prod_unfold Let_def)
qed

end
