(* ===== verification/Spec2Isabelle.thy ===== *)
theory Spec2Isabelle
  imports Hp_Stdlib Hp_Iostat Hp_Wr Hp_Rd Hp_Epoll Hp_Poll Hp_Iot Hp_Iocp Klist Hp_Pub Hp_Mqtt Hp_Url Hp_Msg Hp_Sig Hp_Str Hp_Opt Hp_Var Hp_Expire Hp_Ini Hp_Cache Hp_Http Hp_Net Hp_Sock Hp_Cjson Hp_Mysql Hp_Inotify Hp_Dl Hp_Err Hp_Z Hp_Fs Hp_Small Hp_Lib Hp_Hdr Hp_Tests Hp_Tests_Io Hp_Tests_Loop Hp_Tests_Svc Hp_Tcpio Hp_Tests_Conn
begin

text \<open>
  A verification development for libhp, a C library of asynchronous I/O and of the helpers
  its servers need. The theories follow the source: each one holds the state of one module
  as a record, its operations as functions named as in C, and the lemmas that make the module
  correct. This root theory imports them all.

  \<^bold>\<open>How the program is put together.\<close>
  An event loop (\<open>src/hp_epoll.c\<close>, or \<open>src/hp_poll.c\<close> where there is no epoll) owns a table of
  descriptors, each with a callback and an argument, and calls the callback of every descriptor
  that is ready. On top of it \<open>src/hp_io_t.cpp\<close> keeps connections: each has a reader (\<open>hp_rd\<close>) that
  reads until the descriptor would block and hands the bytes to a parser, and a writer (\<open>hp_wr\<close>)
  that queues blocks and sends them with gathered writes, both in \<open>src/hp_io.c\<close>. On Windows
  \<open>src/hp_iocp.c\<close> does the same with a user thread, a poll thread and completion threads that meet
  in message queues. The servers and clients are callbacks of these layers: HTTP
  (\<open>src/hp_http.c\<close>), messages with a binary header (\<open>src/hp_msg.c\<close>), Redis publish and subscribe
  (\<open>src/hp_pub.c\<close>), MQTT (\<open>src/hp_mqtt.c\<close>), timers (\<open>src/hp_timerfd.c\<close>), expiring objects
  (\<open>src/hp_expire.c\<close>) and signals (\<open>src/hp_sig.c\<close>). Below them are the socket helpers
  (\<open>src/hp_net.c\<close>), lists (\<open>include/hp/klist.h\<close>) and strings, numbers, searches, configuration
  and files.

  \<^bold>\<open>Which theory models what.\<close>

  \<^item> \<open>Prelude\<close>: C types, arrays as lists (\<open>memmove\<close>, removal of one slot, linear search),
    arithmetic of \<open>size_t\<close> and \<open>int\<close>. \<open>Hp_Registry\<close>: the contract of an event table, as the locales
    \<open>event_registry\<close> and \<open>searchable_registry\<close>, interpreted in \<open>Hp_Epoll\<close> and \<open>Hp_Poll\<close>.
  \<^item> \<open>Hp_Epoll\<close>, \<open>Hp_Poll\<close>: \<open>hp_epoll_add\<close>, \<open>hp_epoll_rm\<close>, \<open>hp_epoll_run\<close> and their twins. Both tables
    refine one association list of descriptors, and one turn of the loop calls exactly the
    callbacks of the ready descriptors.
  \<^item> \<open>Hp_Wr\<close>, \<open>Hp_Rd\<close>: \<open>hp_wr_add\<close>, \<open>hp_wr_write\<close>, \<open>hp_rd_read\<close>. The bytes sent together with the bytes
    still queued are always the bytes added; the bytes handed to the parser are the bytes read.
  \<^item> \<open>Hp_Iot\<close>, \<open>Hp_Http\<close>: \<open>hp_io_add\<close>, \<open>hp_io_write\<close>, the handlers of a connection and its removal; the HTTP
    server as one user of them. \<open>Hp_Iocp\<close>: the threads of the completion-port variant as a step
    relation, with the invariant that the threads agree on which connections exist.
  \<^item> \<open>Klist\<close>: the intrusive lists on a heap of links, an interpretation of \<open>intrusive_list\<close>.
  \<^item> \<open>Hp_Pub\<close>, \<open>Hp_Mqtt\<close>: the clients of hiredis and Paho with their bookkeeping of requests under
    way; \<open>Hp_Pub\<close> is a step relation with an invariant proved by rule induction.
  \<^item> \<open>Hp_Timerfd\<close>, \<open>Hp_Expire\<close>, \<open>Hp_Sig\<close>: timers on the event loop, objects released when unused, the
    printing of numbers that is safe in a signal handler.
  \<^item> \<open>Hp_Msg\<close>, \<open>Hp_Url\<close>, \<open>Hp_Str\<close>, \<open>Hp_Opt\<close>, \<open>Hp_Var\<close>, \<open>Hp_Ini\<close>, \<open>Hp_Cache\<close>, \<open>Hp_Stdlib\<close>, \<open>Hp_Iostat\<close>: framing,
    percent decoding, string helpers, command lines, variables, configuration, the cache of
    files, searches, byte rates.
  \<^item> \<open>Hp_Net\<close>, \<open>Hp_Sock\<close>: connecting, listening, reading and writing whole buffers over partial answers,
    addresses as text (\<open>src/hp_net.c\<close>); a socket is returned only when all the calls that set it
    up succeeded, and no error path but that of the pair leaves one open.
  \<^item> \<open>Hp_Cjson\<close>: reading JSON values by path (\<open>src/hp_cjson.c\<close>); \<open>Hp_Mysql\<close>: statements, transactions and
    the template of statements (\<open>src/hp_mysql.c\<close>), against a server that behaves as MySQL documents, implicit commits,
    deadlocks and connections the library makes again by itself included; \<open>Hp_Inotify\<close>: watched files on the event loop
    (\<open>src/hp_inotify.c\<close>).
  \<^item> \<open>Hp_Dl\<close>: shared objects loaded again when their file changes (\<open>src/hp_dl.c\<close>): the table stays well-formed, every
    handle is kept or given back, and when releasing the object comes to an end.
  \<^item> \<open>Hp_Tcpio\<close>: the older TCP server (\<open>src/hp_tcpio.c\<close>): every descriptor it accepts is watched or closed.
  \<^item> \<open>Hp_Lib\<close>: log lines, counters by name, digests and Berkeley DB (\<open>src/hp_log.c\<close>, \<open>src/hp_dict.cpp\<close>,
    \<open>src/hp_ssl.c\<close>, \<open>src/hp_bdb.c\<close>), thin layers over libraries that are parameters.
  \<^item> \<open>Hp_Err\<close>, \<open>Hp_Z\<close>, \<open>Hp_Fs\<close>: texts of errors, compression into buffers, paths, trees and locks
    (\<open>src/hp_err.c\<close>, \<open>src/hp_z.c\<close>, \<open>src/fsutil.c\<close>).
  \<^item> \<open>Hp_Small\<close>: the clock on Windows, the runner of tests by name, opening Redis (\<open>src/hp_time.c\<close>,
    \<open>src/hp_test.c\<close>, \<open>src/hp_redis.c\<close>).
  \<^item> \<open>Hp_Hdr\<close>: changing an HTTP header in place, printing into a row, time as text (\<open>src/hp_str.c\<close>).
    \<open>Hp_Tests\<close>, \<open>Hp_Tests_Io\<close>, \<open>Hp_Tests_Svc\<close>: the unit tests at the end of the source files as definitions, each
    proved to pass on the model: a check of the model against the expectations of the authors. \<open>Hp_Tests_Loop\<close>: the tests of
    the two event tables, which pass not only for the sizes the program runs but for every size, by the contract
    of \<open>Hp_Registry\<close>. \<open>Hp_Tests_Conn\<close>: the same for the table of connections, and the echo program of the tests as a
    client of \<open>Hp_Iot\<close>: it answers once, however the bytes that come are cut.

  \<^bold>\<open>Conventions.\<close>
  A \<open>struct\<close> is a \<open>record\<close>; a pointer is an \<open>option\<close> or a key of a finite map; a buffer is the list of
  its bytes with its capacity; a write outside a buffer, a use of freed memory or a failed
  assertion sets a flag of the state or is a result of its own, so that its absence is a theorem and its
  presence another. \<open>size_t\<close> and \<open>int\<close> values are words, or numbers with the wrap-around written
  out where it can matter. Assertions are compiled out unless a theory says that they are on.
  The operating system and the libraries outside the repository answer from a script, a list of
  results that is consumed call by call, or are arguments of the definitions; what a theorem
  needs to know of them is a hypothesis, and a witness shows that it can hold.

  \<^bold>\<open>Loops and fuel.\<close>
  Loops that end because a script or a list gets shorter are recursive on it (with a measure
  where the recursion is not structural). Where only the callbacks of the user can end a loop it
  takes fuel, and the theorem gives an amount that is enough (\<open>io_parse_loop\<close>, \<open>poll_loop\<close>, the
  packet loop of \<open>Hp_Msg\<close>); running out of fuel is a result of its own.

  \<^bold>\<open>What the lemmas show.\<close>
  For each component: an invariant of its state and that every operation keeps it, what each
  operation returns on every branch (errors included), and an abstract description that the
  operations implement (\<open>hp_epoll_ops_refine\<close>, \<open>hp_poll_ops_refine\<close>, \<open>klist_ops_refine\<close>,
  \<open>hp_timerfd_lifecycle\<close>). Some theorems state defects of the code exactly (a
  connection used after it was freed, an overflow, an assertion that fails): their
  hypotheses describe when the defect shows.

  \<^bold>\<open>Not modelled.\<close>
  The test functions inside the source files (below \<open>#ifndef NDEBUG\<close>) that need a server or a network; the variants of functions for
  systems other than the one a theory names, unless the theory has both; logging and printing
  to a stream, whose results are not used; the libraries the
  source calls (sds, hiredis, Paho, zlib, OpenSSL, cJSON, Berkeley DB, the HTTP and URI
  parsers, the dictionary of Redis), which are parameters.
  Of whole modules: \<open>hp_libc\<close> (empty) and the test driver. Of the unit tests, those that talk to a
  peer, a broker or a database, or that depend on random numbers or the time of day. Of \<open>hp_ssl\<close>, the text
  printed when debugging.
\<close>

end
